(* ===== verification/Prelude.thy ===== *)
theory Prelude
  imports Main "HOL-Library.Multiset"
begin

text \<open>
  Shared material of the development: the 64-bit arithmetic of the kernel's
  \<open>usize\<close>/\<open>u64\<close> values with the overflow behaviour written out, and the list
  lemmas that the component theories share.
\<close>

named_theorems u64_defs \<open>definitions of the checked 64-bit operations\<close>
named_theorems slice_simps \<open>rewrite rules for copies between slices\<close>

subsection \<open>64-bit unsigned integers\<close>

text \<open>
  The kernel targets 64-bit machines only, so \<open>usize\<close> and \<open>u64\<close> have the same
  range. Values are naturals; an operation that can leave the range writes out
  what the Rust operation does there.
\<close>

abbreviation u64_limit :: nat where
  "u64_limit \<equiv> 2 ^ 64"

definition u64_max :: nat where
  "u64_max = 2 ^ 64 - 1"

text \<open>The page size of both architectures (\<open>PagingArch::PAGE_SIZE_BYTES\<close>).\<close>

abbreviation (input) PAGE_SIZE_BYTES :: nat where
  "PAGE_SIZE_BYTES \<equiv> 4096"

definition checked_add :: "nat \<Rightarrow> nat \<Rightarrow> nat option" where
  "checked_add a b = (if a + b < u64_limit then Some (a + b) else None)"

definition checked_mul :: "nat \<Rightarrow> nat \<Rightarrow> nat option" where
  "checked_mul a b = (if a * b < u64_limit then Some (a * b) else None)"

definition saturating_add :: "nat \<Rightarrow> nat \<Rightarrow> nat" where
  "saturating_add a b = min (a + b) u64_max"

declare checked_add_def [u64_defs] checked_mul_def [u64_defs] saturating_add_def [u64_defs]

text \<open>The smallest power of two that is not below \<open>n\<close> (\<open>1\<close> for \<open>0\<close>), as
  \<open>usize::next_power_of_two\<close> returns it: start at one and double.\<close>

function next_pow2_from :: "nat \<Rightarrow> nat \<Rightarrow> nat" where
  "next_pow2_from p n = (if 0 < p \<and> p < n then next_pow2_from (2 * p) n else p)"
  by pat_completeness auto
termination
  by (relation "measure (\<lambda>(p, n). n - p)") auto

declare next_pow2_from.simps [simp del]

definition checked_next_power_of_two :: "nat \<Rightarrow> nat option" where
  "checked_next_power_of_two n =
     (let p = next_pow2_from 1 n in if p < u64_limit then Some p else None)"

subsection \<open>Powers of two\<close>

lemma next_pow2_from_ge: "0 < p \<Longrightarrow> n \<le> next_pow2_from p n"
proof (induction p n rule: next_pow2_from.induct)
  case (1 p n)
  then show ?case
    by (cases "p < n") (auto simp: next_pow2_from.simps [of p n])
qed

lemma next_pow2_from_power: "\<exists>k. next_pow2_from (2 ^ j) n = 2 ^ k"
proof (induction "2 ^ j :: nat" n arbitrary: j rule: next_pow2_from.induct)
  case (1 n)
  show ?case
  proof (cases "2 ^ j < n")
    case True
    with 1(1) [of "Suc j"] show ?thesis
      by (simp add: next_pow2_from.simps [of "2 ^ j" n])
  next
    case False
    then show ?thesis
      by (auto simp: next_pow2_from.simps [of "2 ^ j" n])
  qed
qed

lemma next_pow2_from_least:
  "\<lbrakk> n \<le> 2 ^ k; j \<le> k \<rbrakk> \<Longrightarrow> next_pow2_from (2 ^ j) n \<le> 2 ^ k"
proof (induction "2 ^ j :: nat" n arbitrary: j rule: next_pow2_from.induct)
  case (1 n)
  show ?case
  proof (cases "2 ^ j < n")
    case True
    with "1.prems" have "(2::nat) ^ j < 2 ^ k" by linarith
    then have "Suc j \<le> k" by (simp add: Suc_le_eq)
    with 1(1) [of "Suc j"] "1.prems" True show ?thesis
      by (simp add: next_pow2_from.simps [of "2 ^ j" n])
  next
    case False
    with "1.prems" show ?thesis
      by (simp add: next_pow2_from.simps [of "2 ^ j" n])
  qed
qed

subsection \<open>Lists and cyclic indices\<close>

lemma mod_add_inj:
  fixes c :: nat
  assumes "(t + i) mod c = (t + j) mod c" "i < c" "j < c"
  shows "i = j"
proof -
  from assms(1) have "(int t + int i) mod int c = (int t + int j) mod int c"
    by (metis of_nat_add of_nat_mod)
  then have "int c dvd (int i - int j)"
    by (simp add: mod_eq_dvd_iff)
  moreover have "\<bar>int i - int j\<bar> < int c"
    using assms(2,3) by linarith
  ultimately show ?thesis
    using dvd_imp_le_int [of "int i - int j" "int c"] by linarith
qed

lemma mod_add_cases:
  fixes c :: nat
  assumes "t < c" "i < c"
  shows "(t + i) mod c = (if t + i < c then t + i else t + i - c)"
  using assms by (simp add: mod_if)

lemma nth_take_drop:
  "i < n \<Longrightarrow> d + n \<le> length xs \<Longrightarrow> take n (drop d xs) ! i = xs ! (d + i)"
  by simp

lemma take_min_length [simp]: "take (min n (length xs)) xs = take n xs"
  by (simp add: min_def)

lemma take_length_min [simp]: "take (min (length xs) n) xs = take n xs"
  by (simp add: min_def)

end
