(* ===== verification/Sys_Error.thy ===== *)
theory Sys_Error
  imports Prelude
begin

text \<open>
  The kernel's error type \<open>SysError\<close> (\<open>syserror.rs\<close>) with all its
  constructors, in the order of the source, its translation to Linux error
  numbers (\<open>as_errno\<close>, one equation per arm in the order of its match, the
  numbers from \<open>anemone-abi/src/errno.rs\<close>), and the faults that asserting and
  unsafe code can run into.
\<close>

subsection \<open>Errors\<close>

datatype restart_syscall = Idempotent

text \<open>The type is a large enumeration, used through its case distinction and its
  distinctness rules only, so most derived material is left out.\<close>

datatype (plugins only: size) sys_error =
    NoSys | NotYetImplemented | NotSupported | InvalidArgument | ListTooLong | BufferTooSmall
  | PermissionDenied | BadAddress | AccessDenied | BadFileDescriptor | UnsupportedIoctl
  | NoMoreFd | OutOfMemory | AlreadyMapped | NotMapped | SharedFrame | ArgumentTooLarge
  | RangeNotMapped | NotAligned | AlreadyExists | NotFound | IdentifierRemoved | NotDir | IsDir
  | NotReg | NotBlockDevice | NotSymlink | Busy | FileTooLarge | Overflow | DirNotEmpty
  | CrossDeviceLink | ReadOnlyFs | NotMounted | IsMountPoint | NoSpace | Again | InProgress
  | AlreadyInProgress | AddressFamilyNotSupported | SocketTypeNotSupported
  | ProtocolNotSupported | ProtocolOptionNotSupported | NotSocket | NotConnected
  | AlreadyConnected | ProtocolTypeMismatch | ConnectionRefused | ConnectionReset
  | ConnectionAborted | AddressInUse | AddressNotAvailable | NoBufferSpace
  | DestinationAddressRequired | MessageTooLong | NetworkUnreachable | HostUnreachable
  | HostDown | NoNetwork | BrokenPipe | IllegalSeek | TooManyLinks | TooManyHardLinks
  | LinkEncountered | InvalidPath | NameTooLong | DriverIncompatible | BusIncompatibleDev
  | BusIncompatibleDrv | ExistingDevice | ExistingDriver | NoSuchDriver | NoSuchDevice
  | NoSuchDeviceOrAddress | ResourceExhausted | MissingFwNode | FwNodeLookupFailed | NoIrqDomain
  | NoInterruptInfo | InvalidInterruptInfo | MissingResource | UnknownInterrupt
  | IrqAlreadyRequested | DevAlreadyRegistered | NoMinorAvailable | ProbeFailed | IO
  | UnexpectedEof | ChildNotFound | BinFmtUnrecognized | Interrupted | OperationCancelled
  | NoSuchProcess | Timeout | UnsupportedFileSystem | RestartSyscall restart_syscall

text \<open>What unsafe or asserting code does when its precondition fails: an index
  out of bounds panics, \<open>assume_init\<close> of an uninitialised cell and a raw copy
  that leaves its buffer are undefined behaviour, an \<open>assert!\<close> or \<open>expect\<close>
  panics, and so does an unchecked addition, subtraction or multiplication that
  leaves its type (in a build with overflow checks). Every such place of a modelled
  function is a branch of the model.\<close>

datatype fault = Index_Panic | Uninit_Read | Copy_Overrun | Assert_Panic | Overflow_Panic

subsection \<open>Error numbers\<close>

abbreviation (input) EPERM :: int where "EPERM \<equiv> 1"
abbreviation (input) ENOENT :: int where "ENOENT \<equiv> 2"
abbreviation (input) ESRCH :: int where "ESRCH \<equiv> 3"
abbreviation (input) EINTR :: int where "EINTR \<equiv> 4"
abbreviation (input) EIO :: int where "EIO \<equiv> 5"
abbreviation (input) ENXIO :: int where "ENXIO \<equiv> 6"
abbreviation (input) E2BIG :: int where "E2BIG \<equiv> 7"
abbreviation (input) ENOEXEC :: int where "ENOEXEC \<equiv> 8"
abbreviation (input) EBADF :: int where "EBADF \<equiv> 9"
abbreviation (input) ECHILD :: int where "ECHILD \<equiv> 10"
abbreviation (input) EAGAIN :: int where "EAGAIN \<equiv> 11"
abbreviation (input) ENOMEM :: int where "ENOMEM \<equiv> 12"
abbreviation (input) EACCES :: int where "EACCES \<equiv> 13"
abbreviation (input) EFAULT :: int where "EFAULT \<equiv> 14"
abbreviation (input) ENOTBLK :: int where "ENOTBLK \<equiv> 15"
abbreviation (input) EBUSY :: int where "EBUSY \<equiv> 16"
abbreviation (input) EEXIST :: int where "EEXIST \<equiv> 17"
abbreviation (input) EXDEV :: int where "EXDEV \<equiv> 18"
abbreviation (input) ENODEV :: int where "ENODEV \<equiv> 19"
abbreviation (input) ENOTDIR :: int where "ENOTDIR \<equiv> 20"
abbreviation (input) EISDIR :: int where "EISDIR \<equiv> 21"
abbreviation (input) EINVAL :: int where "EINVAL \<equiv> 22"
abbreviation (input) EMFILE :: int where "EMFILE \<equiv> 24"
abbreviation (input) ENOTTY :: int where "ENOTTY \<equiv> 25"
abbreviation (input) EFBIG :: int where "EFBIG \<equiv> 27"
abbreviation (input) ENOSPC :: int where "ENOSPC \<equiv> 28"
abbreviation (input) ESPIPE :: int where "ESPIPE \<equiv> 29"
abbreviation (input) EROFS :: int where "EROFS \<equiv> 30"
abbreviation (input) EMLINK :: int where "EMLINK \<equiv> 31"
abbreviation (input) EPIPE :: int where "EPIPE \<equiv> 32"
abbreviation (input) ERANGE :: int where "ERANGE \<equiv> 34"
abbreviation (input) ENAMETOOLONG :: int where "ENAMETOOLONG \<equiv> 36"
abbreviation (input) ENOSYS :: int where "ENOSYS \<equiv> 38"
abbreviation (input) ENOTEMPTY :: int where "ENOTEMPTY \<equiv> 39"
abbreviation (input) ELOOP :: int where "ELOOP \<equiv> 40"
abbreviation (input) EIDRM :: int where "EIDRM \<equiv> 43"
abbreviation (input) ENODATA :: int where "ENODATA \<equiv> 61"
abbreviation (input) ENONET :: int where "ENONET \<equiv> 64"
abbreviation (input) EOVERFLOW :: int where "EOVERFLOW \<equiv> 75"
abbreviation (input) ENOTSOCK :: int where "ENOTSOCK \<equiv> 88"
abbreviation (input) EDESTADDRREQ :: int where "EDESTADDRREQ \<equiv> 89"
abbreviation (input) EMSGSIZE :: int where "EMSGSIZE \<equiv> 90"
abbreviation (input) EPROTOTYPE :: int where "EPROTOTYPE \<equiv> 91"
abbreviation (input) ENOPROTOOPT :: int where "ENOPROTOOPT \<equiv> 92"
abbreviation (input) EPROTONOSUPPORT :: int where "EPROTONOSUPPORT \<equiv> 93"
abbreviation (input) ESOCKTNOSUPPORT :: int where "ESOCKTNOSUPPORT \<equiv> 94"
abbreviation (input) EOPNOTSUPP :: int where "EOPNOTSUPP \<equiv> 95"
abbreviation (input) EAFNOSUPPORT :: int where "EAFNOSUPPORT \<equiv> 97"
abbreviation (input) EADDRINUSE :: int where "EADDRINUSE \<equiv> 98"
abbreviation (input) EADDRNOTAVAIL :: int where "EADDRNOTAVAIL \<equiv> 99"
abbreviation (input) ENETUNREACH :: int where "ENETUNREACH \<equiv> 101"
abbreviation (input) ECONNABORTED :: int where "ECONNABORTED \<equiv> 103"
abbreviation (input) ECONNRESET :: int where "ECONNRESET \<equiv> 104"
abbreviation (input) ENOBUFS :: int where "ENOBUFS \<equiv> 105"
abbreviation (input) EISCONN :: int where "EISCONN \<equiv> 106"
abbreviation (input) ENOTCONN :: int where "ENOTCONN \<equiv> 107"
abbreviation (input) ETIMEDOUT :: int where "ETIMEDOUT \<equiv> 110"
abbreviation (input) ECONNREFUSED :: int where "ECONNREFUSED \<equiv> 111"
abbreviation (input) EHOSTDOWN :: int where "EHOSTDOWN \<equiv> 112"
abbreviation (input) EHOSTUNREACH :: int where "EHOSTUNREACH \<equiv> 113"
abbreviation (input) EALREADY :: int where "EALREADY \<equiv> 114"
abbreviation (input) EINPROGRESS :: int where "EINPROGRESS \<equiv> 115"
abbreviation (input) ECANCELED :: int where "ECANCELED \<equiv> 125"

primrec as_errno :: "sys_error \<Rightarrow> int" where
  "as_errno NoSys = ENOSYS"
| "as_errno NotYetImplemented = ENOSYS"
| "as_errno NotSupported = EOPNOTSUPP"
| "as_errno InvalidArgument = EINVAL"
| "as_errno ListTooLong = EINVAL"
| "as_errno NotReg = EINVAL"
| "as_errno NotSymlink = EINVAL"
| "as_errno NotMounted = EINVAL"
| "as_errno IsMountPoint = EINVAL"
| "as_errno InvalidPath = EINVAL"
| "as_errno InvalidInterruptInfo = EINVAL"
| "as_errno NotAligned = EINVAL"
| "as_errno BufferTooSmall = ERANGE"
| "as_errno PermissionDenied = EPERM"
| "as_errno BadAddress = EFAULT"
| "as_errno AccessDenied = EACCES"
| "as_errno BadFileDescriptor = EBADF"
| "as_errno UnsupportedIoctl = ENOTTY"
| "as_errno NoMoreFd = EMFILE"
| "as_errno OutOfMemory = ENOMEM"
| "as_errno AlreadyMapped = EFAULT"
| "as_errno NotMapped = EFAULT"
| "as_errno SharedFrame = EFAULT"
| "as_errno ArgumentTooLarge = E2BIG"
| "as_errno RangeNotMapped = ENOMEM"
| "as_errno AlreadyExists = EEXIST"
| "as_errno ExistingDevice = EEXIST"
| "as_errno ExistingDriver = EEXIST"
| "as_errno DevAlreadyRegistered = EEXIST"
| "as_errno NotFound = ENOENT"
| "as_errno IdentifierRemoved = EIDRM"
| "as_errno NotDir = ENOTDIR"
| "as_errno IsDir = EISDIR"
| "as_errno NotBlockDevice = ENOTBLK"
| "as_errno Busy = EBUSY"
| "as_errno IrqAlreadyRequested = EBUSY"
| "as_errno FileTooLarge = EFBIG"
| "as_errno Overflow = EOVERFLOW"
| "as_errno DirNotEmpty = ENOTEMPTY"
| "as_errno CrossDeviceLink = EXDEV"
| "as_errno ReadOnlyFs = EROFS"
| "as_errno NoSpace = ENOSPC"
| "as_errno ResourceExhausted = ENOSPC"
| "as_errno NoMinorAvailable = ENOSPC"
| "as_errno Again = EAGAIN"
| "as_errno InProgress = EINPROGRESS"
| "as_errno AlreadyInProgress = EALREADY"
| "as_errno AddressFamilyNotSupported = EAFNOSUPPORT"
| "as_errno SocketTypeNotSupported = ESOCKTNOSUPPORT"
| "as_errno ProtocolNotSupported = EPROTONOSUPPORT"
| "as_errno ProtocolOptionNotSupported = ENOPROTOOPT"
| "as_errno NotSocket = ENOTSOCK"
| "as_errno NotConnected = ENOTCONN"
| "as_errno AlreadyConnected = EISCONN"
| "as_errno ProtocolTypeMismatch = EPROTOTYPE"
| "as_errno ConnectionRefused = ECONNREFUSED"
| "as_errno ConnectionReset = ECONNRESET"
| "as_errno ConnectionAborted = ECONNABORTED"
| "as_errno AddressInUse = EADDRINUSE"
| "as_errno AddressNotAvailable = EADDRNOTAVAIL"
| "as_errno NoBufferSpace = ENOBUFS"
| "as_errno DestinationAddressRequired = EDESTADDRREQ"
| "as_errno MessageTooLong = EMSGSIZE"
| "as_errno NetworkUnreachable = ENETUNREACH"
| "as_errno HostUnreachable = EHOSTUNREACH"
| "as_errno HostDown = EHOSTDOWN"
| "as_errno NoNetwork = ENONET"
| "as_errno BrokenPipe = EPIPE"
| "as_errno IllegalSeek = ESPIPE"
| "as_errno TooManyLinks = ELOOP"
| "as_errno LinkEncountered = ELOOP"
| "as_errno TooManyHardLinks = EMLINK"
| "as_errno NameTooLong = ENAMETOOLONG"
| "as_errno DriverIncompatible = ENODEV"
| "as_errno BusIncompatibleDev = ENODEV"
| "as_errno BusIncompatibleDrv = ENODEV"
| "as_errno NoSuchDriver = ENODEV"
| "as_errno NoSuchDevice = ENODEV"
| "as_errno MissingFwNode = ENODEV"
| "as_errno FwNodeLookupFailed = ENODEV"
| "as_errno NoIrqDomain = ENODEV"
| "as_errno NoInterruptInfo = ENODEV"
| "as_errno MissingResource = ENODEV"
| "as_errno UnknownInterrupt = ENODEV"
| "as_errno ProbeFailed = ENODEV"
| "as_errno UnsupportedFileSystem = ENODEV"
| "as_errno NoSuchDeviceOrAddress = ENXIO"
| "as_errno IO = EIO"
| "as_errno UnexpectedEof = ENODATA"
| "as_errno ChildNotFound = ECHILD"
| "as_errno BinFmtUnrecognized = ENOEXEC"
| "as_errno Interrupted = EINTR"
| "as_errno OperationCancelled = ECANCELED"
| "as_errno NoSuchProcess = ESRCH"
| "as_errno Timeout = ETIMEDOUT"
| "as_errno (RestartSyscall _) = EINTR"

definition is_kernel_internal :: "sys_error \<Rightarrow> bool" where
  "is_kernel_internal e = (case e of RestartSyscall _ \<Rightarrow> True | _ \<Rightarrow> False)"

lemma as_errno_range: "1 \<le> as_errno e \<and> as_errno e \<le> 4095"
  by (cases e) simp_all

end
