(* ===== verification/Ring_Buffer.thy ===== *)
theory Ring_Buffer
  imports Sys_Error
begin

text \<open>
  \<open>src/anemone-kernel/src/utils/ring_buffer.rs\<close>: the heap-backed ring buffer
  \<open>HeapRingBuffer\<close> (names \<open>hrb_*\<close>) and the static one \<open>RingBuffer\<close>
  (names \<open>rb_*\<close>, with the capacity \<open>N\<close> as an argument). A cell is \<open>None\<close> while
  its \<open>MaybeUninit\<close> value is not initialised. Both implementations are shown to
  be bounded FIFO queues (locale \<open>fifo_ring\<close>) that never read an uninitialised
  cell and never copy past their backing array.
\<close>

subsection \<open>State and raw copies\<close>

record 'a ring =
  ring_buf :: "'a option list"
  ring_len :: nat
  ring_head :: nat
  ring_tail :: nat

datatype heap_ring_buffer_error = InvalidCapacity | Allocation

text \<open>\<open>copy_nonoverlapping(src, &mut dst[off], n)\<close>: the destination index is
  bounds checked, the copy itself is not.\<close>

definition copy_in :: "'a option list \<Rightarrow> nat \<Rightarrow> 'a list \<Rightarrow> fault + 'a option list" where
  "copy_in dst off src =
     (if \<not> off < length dst then Inl Index_Panic
      else if length dst < off + length src then Inl Copy_Overrun
      else Inr (take off dst @ map Some src @ drop (off + length src) dst))"

text \<open>\<open>copy_nonoverlapping(&src[off], dst, n)\<close> into memory that is read as
  initialised afterwards.\<close>

definition copy_out :: "'a option list \<Rightarrow> nat \<Rightarrow> nat \<Rightarrow> fault + 'a list" where
  "copy_out src off n =
     (if \<not> off < length src then Inl Index_Panic
      else if length src < off + n then Inl Copy_Overrun
      else if None \<in> set (take n (drop off src)) then Inl Uninit_Read
      else Inr (map the (take n (drop off src))))"

subsection \<open>HeapRingBuffer\<close>

text \<open>\<open>Layout::array::<MaybeUninit<T>>(n)\<close> succeeds iff the array, padded to its
  alignment, is at most \<open>isize::MAX\<close> bytes.\<close>

definition layout_array_ok :: "nat \<Rightarrow> nat \<Rightarrow> nat \<Rightarrow> bool" where
  "layout_array_ok elem_size elem_align n \<longleftrightarrow>
     elem_size = 0 \<or> n \<le> (2 ^ 63 - elem_align) div elem_size"

text \<open>\<open>alloc_ok\<close> is the allocator's answer to \<open>try_new_uninit_slice\<close>.\<close>

definition hrb_try_new :: "nat \<Rightarrow> nat \<Rightarrow> bool \<Rightarrow> nat \<Rightarrow> heap_ring_buffer_error + 'a ring" where
  "hrb_try_new elem_size elem_align alloc_ok capacity =
     (if capacity = 0 \<or> \<not> layout_array_ok elem_size elem_align capacity
      then Inl InvalidCapacity
      else if \<not> alloc_ok then Inl Allocation
      else Inr \<lparr>ring_buf = replicate capacity None, ring_len = 0, ring_head = 0, ring_tail = 0\<rparr>)"

definition hrb_capacity :: "'a ring \<Rightarrow> nat" where
  "hrb_capacity r = length (ring_buf r)"

definition hrb_is_empty :: "'a ring \<Rightarrow> bool" where
  "hrb_is_empty r \<longleftrightarrow> ring_len r = 0"

definition hrb_is_full :: "'a ring \<Rightarrow> bool" where
  "hrb_is_full r \<longleftrightarrow> ring_len r = hrb_capacity r"

definition hrb_available :: "'a ring \<Rightarrow> nat" where
  "hrb_available r = hrb_capacity r - ring_len r"

text \<open>A refused item comes back as \<open>Inl\<close> inside the result; the outer sum
  carries the faults.\<close>

definition hrb_try_push :: "'a ring \<Rightarrow> 'a \<Rightarrow> fault + ('a + unit) \<times> 'a ring" where
  "hrb_try_push r item =
     (if hrb_is_full r then Inr (Inl item, r)
      else if \<not> ring_head r < length (ring_buf r) then Inl Index_Panic
      else Inr (Inr (), r\<lparr>ring_buf := (ring_buf r)[ring_head r := Some item],
                          ring_head := (ring_head r + 1) mod hrb_capacity r,
                          ring_len := ring_len r + 1\<rparr>))"

definition hrb_try_pop :: "'a ring \<Rightarrow> fault + 'a option \<times> 'a ring" where
  "hrb_try_pop r =
     (if hrb_is_empty r then Inr (None, r)
      else if \<not> ring_tail r < length (ring_buf r) then Inl Index_Panic
      else case ring_buf r ! ring_tail r of
             None \<Rightarrow> Inl Uninit_Read
           | Some item \<Rightarrow> Inr (Some item, r\<lparr>ring_tail := (ring_tail r + 1) mod hrb_capacity r,
                                             ring_len := ring_len r - 1\<rparr>))"

definition hrb_try_push_slice :: "'a ring \<Rightarrow> 'a list \<Rightarrow> fault + nat \<times> 'a ring" where
  "hrb_try_push_slice r items =
     (let to_push = min (hrb_available r) (length items)
      in if to_push = 0 then Inr (0, r)
      else
        let first_part = min (hrb_capacity r - ring_head r) to_push;
            second_part = to_push - first_part
        in case copy_in (ring_buf r) (ring_head r) (take first_part items) of
             Inl f \<Rightarrow> Inl f
           | Inr buf1 \<Rightarrow>
               (case (if 0 < second_part
                      then copy_in buf1 0 (take second_part (drop first_part items))
                      else Inr buf1) of
                  Inl f \<Rightarrow> Inl f
                | Inr buf2 \<Rightarrow>
                    Inr (to_push, r\<lparr>ring_buf := buf2,
                                    ring_head := (ring_head r + to_push) mod hrb_capacity r,
                                    ring_len := ring_len r + to_push\<rparr>)))"

text \<open>The caller's output slice is an argument and part of the result: its first
  \<open>to_pop\<close> elements are overwritten.\<close>

definition hrb_try_pop_slice :: "'a ring \<Rightarrow> 'a list \<Rightarrow> fault + nat \<times> 'a list \<times> 'a ring" where
  "hrb_try_pop_slice r output =
     (let to_pop = min (ring_len r) (length output)
      in if to_pop = 0 then Inr (0, output, r)
      else
        let first_part = min (hrb_capacity r - ring_tail r) to_pop;
            second_part = to_pop - first_part
        in case copy_out (ring_buf r) (ring_tail r) first_part of
             Inl f \<Rightarrow> Inl f
           | Inr xs \<Rightarrow>
               (case (if 0 < second_part then copy_out (ring_buf r) 0 second_part else Inr []) of
                  Inl f \<Rightarrow> Inl f
                | Inr ys \<Rightarrow>
                    Inr (to_pop, xs @ ys @ drop to_pop output,
                         r\<lparr>ring_tail := (ring_tail r + to_pop) mod hrb_capacity r,
                           ring_len := ring_len r - to_pop\<rparr>)))"

definition hrb_readable_slices :: "'a ring \<Rightarrow> fault + 'a list \<times> 'a list" where
  "hrb_readable_slices r =
     (let first_len = min (hrb_capacity r - ring_tail r) (ring_len r);
          second_len = ring_len r - first_len
      in case copy_out (ring_buf r) (ring_tail r) first_len of
           Inl f \<Rightarrow> Inl f
         | Inr xs \<Rightarrow> (case copy_out (ring_buf r) 0 second_len of
                        Inl f \<Rightarrow> Inl f
                      | Inr ys \<Rightarrow> Inr (xs, ys)))"

definition hrb_iter :: "'a ring \<Rightarrow> fault + 'a list" where
  "hrb_iter r = (case hrb_readable_slices r of Inl f \<Rightarrow> Inl f | Inr (xs, ys) \<Rightarrow> Inr (xs @ ys))"

definition hrb_clear :: "'a ring \<Rightarrow> 'a ring" where
  "hrb_clear r = r\<lparr>ring_len := 0, ring_head := 0, ring_tail := 0\<rparr>"

subsection \<open>The static RingBuffer\<close>

text \<open>The \<open>const_assert\<close> of the constructor rejects \<open>N = 0\<close> at compile time.\<close>

definition rb_new :: "nat \<Rightarrow> 'a ring" where
  "rb_new N = \<lparr>ring_buf = replicate N None, ring_len = 0, ring_head = 0, ring_tail = 0\<rparr>"

definition rb_is_empty :: "'a ring \<Rightarrow> bool" where
  "rb_is_empty r \<longleftrightarrow> ring_len r = 0"

definition rb_is_full :: "nat \<Rightarrow> 'a ring \<Rightarrow> bool" where
  "rb_is_full N r \<longleftrightarrow> ring_len r = N"

definition rb_available :: "nat \<Rightarrow> 'a ring \<Rightarrow> nat" where
  "rb_available N r = N - ring_len r"

definition rb_try_push :: "nat \<Rightarrow> 'a ring \<Rightarrow> 'a \<Rightarrow> fault + ('a + unit) \<times> 'a ring" where
  "rb_try_push N r item =
     (if rb_is_full N r then Inr (Inl item, r)
      else if \<not> ring_head r < length (ring_buf r) then Inl Index_Panic
      else Inr (Inr (), r\<lparr>ring_buf := (ring_buf r)[ring_head r := Some item],
                          ring_head := (ring_head r + 1) mod N,
                          ring_len := ring_len r + 1\<rparr>))"

definition rb_try_pop :: "nat \<Rightarrow> 'a ring \<Rightarrow> fault + 'a option \<times> 'a ring" where
  "rb_try_pop N r =
     (if rb_is_empty r then Inr (None, r)
      else if \<not> ring_tail r < length (ring_buf r) then Inl Index_Panic
      else case ring_buf r ! ring_tail r of
             None \<Rightarrow> Inl Uninit_Read
           | Some item \<Rightarrow> Inr (Some item, r\<lparr>ring_tail := (ring_tail r + 1) mod N,
                                             ring_len := ring_len r - 1\<rparr>))"

definition rb_try_push_slice :: "nat \<Rightarrow> 'a ring \<Rightarrow> 'a list \<Rightarrow> fault + nat \<times> 'a ring" where
  "rb_try_push_slice N r items =
     (let available = N - ring_len r;
          to_push = min available (length items)
      in if to_push = 0 then Inr (0, r)
      else
        let first_part = min (N - ring_head r) to_push;
            second_part = to_push - first_part
        in case copy_in (ring_buf r) (ring_head r) (take first_part items) of
             Inl f \<Rightarrow> Inl f
           | Inr buf1 \<Rightarrow>
               (case (if 0 < second_part
                      then copy_in buf1 0 (take second_part (drop first_part items))
                      else Inr buf1) of
                  Inl f \<Rightarrow> Inl f
                | Inr buf2 \<Rightarrow>
                    Inr (to_push, r\<lparr>ring_buf := buf2,
                                    ring_head := (ring_head r + to_push) mod N,
                                    ring_len := ring_len r + to_push\<rparr>)))"

definition rb_try_pop_slice :: "nat \<Rightarrow> 'a ring \<Rightarrow> 'a list \<Rightarrow> fault + nat \<times> 'a list \<times> 'a ring" where
  "rb_try_pop_slice N r buf =
     (let to_pop = min (ring_len r) (length buf)
      in if to_pop = 0 then Inr (0, buf, r)
      else
        let first_part = min (N - ring_tail r) to_pop;
            second_part = to_pop - first_part
        in case copy_out (ring_buf r) (ring_tail r) first_part of
             Inl f \<Rightarrow> Inl f
           | Inr xs \<Rightarrow>
               (case (if 0 < second_part then copy_out (ring_buf r) 0 second_part else Inr []) of
                  Inl f \<Rightarrow> Inl f
                | Inr ys \<Rightarrow>
                    Inr (to_pop, xs @ ys @ drop to_pop buf,
                         r\<lparr>ring_tail := (ring_tail r + to_pop) mod N,
                           ring_len := ring_len r - to_pop\<rparr>)))"

definition rb_clear :: "'a ring \<Rightarrow> 'a ring" where
  "rb_clear r = r\<lparr>ring_head := 0, ring_tail := 0, ring_len := 0\<rparr>"

text \<open>\<open>RingBufferIter::next\<close> at position \<open>idx\<close>, and the items a whole iteration
  yields.\<close>

definition rb_iter_next :: "nat \<Rightarrow> 'a ring \<Rightarrow> nat \<Rightarrow> fault + 'a option \<times> nat" where
  "rb_iter_next N r idx =
     (if ring_len r \<le> idx then Inr (None, idx)
      else let pos = (ring_tail r + idx) mod N
           in if \<not> pos < length (ring_buf r) then Inl Index_Panic
              else case ring_buf r ! pos of
                     None \<Rightarrow> Inl Uninit_Read
                   | Some item \<Rightarrow> Inr (Some item, idx + 1))"

function rb_iter_from :: "nat \<Rightarrow> 'a ring \<Rightarrow> nat \<Rightarrow> fault + 'a list" where
  "rb_iter_from N r idx =
     (case rb_iter_next N r idx of
        Inl f \<Rightarrow> Inl f
      | Inr (None, _) \<Rightarrow> Inr []
      | Inr (Some item, idx') \<Rightarrow> map_sum id (Cons item) (rb_iter_from N r idx'))"
  by pat_completeness auto
termination
  by (relation "measure (\<lambda>(N, r, idx). ring_len r - idx)")
    (auto simp: rb_iter_next_def Let_def split: if_splits option.splits)

declare rb_iter_from.simps [simp del]

subsection \<open>Abstraction and invariant\<close>

text \<open>The queue a ring stands for: the cells from \<open>tail\<close> on, cyclically.\<close>

definition ring_pos :: "'a ring \<Rightarrow> nat \<Rightarrow> nat" where
  "ring_pos r i = (ring_tail r + i) mod length (ring_buf r)"

definition ring_list :: "'a ring \<Rightarrow> 'a list" where
  "ring_list r = map (\<lambda>i. the (ring_buf r ! ring_pos r i)) [0..<ring_len r]"

definition ring_inv :: "'a ring \<Rightarrow> bool" where
  "ring_inv r \<longleftrightarrow>
     0 < length (ring_buf r) \<and> ring_len r \<le> length (ring_buf r) \<and>
     ring_tail r < length (ring_buf r) \<and> ring_head r = ring_pos r (ring_len r) \<and>
     (\<forall>i < ring_len r. ring_buf r ! ring_pos r i \<noteq> None)"

text \<open>A client's sequence of slice operations, with the items the ring accepted
  and the items it handed out.\<close>

datatype 'a ring_op = Push_Slice "'a list" | Pop_Slice "'a list"

fun ring_run ::
  "('r \<Rightarrow> 'a list \<Rightarrow> fault + nat \<times> 'r) \<Rightarrow> ('r \<Rightarrow> 'a list \<Rightarrow> fault + nat \<times> 'a list \<times> 'r) \<Rightarrow>
   'a ring_op list \<Rightarrow> 'r \<Rightarrow> fault + 'a list \<times> 'a list \<times> 'r" where
  "ring_run push pop [] r = Inr ([], [], r)"
| "ring_run push pop (Push_Slice xs # ops) r =
     (case push r xs of
        Inl f \<Rightarrow> Inl f
      | Inr (n, r') \<Rightarrow>
          map_sum id (\<lambda>(ins, outs, r''). (take n xs @ ins, outs, r'')) (ring_run push pop ops r'))"
| "ring_run push pop (Pop_Slice buf # ops) r =
     (case pop r buf of
        Inl f \<Rightarrow> Inl f
      | Inr (n, buf', r') \<Rightarrow>
          map_sum id (\<lambda>(ins, outs, r''). (ins, take n buf' @ outs, r'')) (ring_run push pop ops r'))"

subsection \<open>The bounded FIFO contract\<close>

locale fifo_ring =
  fixes push :: "'r \<Rightarrow> 'a \<Rightarrow> fault + ('a + unit) \<times> 'r"
    and pop :: "'r \<Rightarrow> fault + 'a option \<times> 'r"
    and push_slice :: "'r \<Rightarrow> 'a list \<Rightarrow> fault + nat \<times> 'r"
    and pop_slice :: "'r \<Rightarrow> 'a list \<Rightarrow> fault + nat \<times> 'a list \<times> 'r"
    and cap :: "'r \<Rightarrow> nat"
    and abs :: "'r \<Rightarrow> 'a list"
    and inv :: "'r \<Rightarrow> bool"
  assumes abs_le_cap: "inv r \<Longrightarrow> length (abs r) \<le> cap r"
    and push_full: "\<lbrakk> inv r; length (abs r) = cap r \<rbrakk> \<Longrightarrow> push r x = Inr (Inl x, r)"
    and push_ok: "\<lbrakk> inv r; length (abs r) < cap r \<rbrakk> \<Longrightarrow>
      \<exists>r'. push r x = Inr (Inr (), r') \<and> inv r' \<and> abs r' = abs r @ [x] \<and> cap r' = cap r"
    and pop_empty: "\<lbrakk> inv r; abs r = [] \<rbrakk> \<Longrightarrow> pop r = Inr (None, r)"
    and pop_ok: "\<lbrakk> inv r; abs r = x # xs \<rbrakk> \<Longrightarrow>
      \<exists>r'. pop r = Inr (Some x, r') \<and> inv r' \<and> abs r' = xs \<and> cap r' = cap r"
    and push_slice_ok: "inv r \<Longrightarrow>
      \<exists>r'. push_slice r xs = Inr (min (cap r - length (abs r)) (length xs), r') \<and> inv r' \<and>
           abs r' = abs r @ take (cap r - length (abs r)) xs \<and> cap r' = cap r"
    and pop_slice_ok: "inv r \<Longrightarrow>
      \<exists>r'. pop_slice r buf = Inr (min (length (abs r)) (length buf),
              take (length buf) (abs r) @ drop (length (abs r)) buf, r') \<and> inv r' \<and>
           abs r' = drop (length buf) (abs r) \<and> cap r' = cap r"
begin

lemma run_fifo:
  "inv r \<Longrightarrow> \<exists>ins outs r'. ring_run push_slice pop_slice ops r = Inr (ins, outs, r') \<and> inv r' \<and>
     cap r' = cap r \<and> abs r @ ins = outs @ abs r'"
proof (induction ops arbitrary: r)
  case Nil
  then show ?case by simp
next
  case (Cons op ops)
  show ?case
  proof (cases op)
    case (Push_Slice xs)
    obtain r1 where r1: "push_slice r xs = Inr (min (cap r - length (abs r)) (length xs), r1)"
        "inv r1" "abs r1 = abs r @ take (cap r - length (abs r)) xs" "cap r1 = cap r"
      using push_slice_ok [OF Cons.prems, of xs] by blast
    obtain ins outs r2 where r2: "ring_run push_slice pop_slice ops r1 = Inr (ins, outs, r2)"
        "inv r2" "cap r2 = cap r1" "abs r1 @ ins = outs @ abs r2"
      using Cons.IH [OF r1(2)] by blast
    with r1 Push_Slice show ?thesis by simp
  next
    case (Pop_Slice buf)
    obtain r1 where r1: "pop_slice r buf = Inr (min (length (abs r)) (length buf),
          take (length buf) (abs r) @ drop (length (abs r)) buf, r1)"
        "inv r1" "abs r1 = drop (length buf) (abs r)" "cap r1 = cap r"
      using pop_slice_ok [OF Cons.prems, of buf] by blast
    obtain ins outs r2 where r2: "ring_run push_slice pop_slice ops r1 = Inr (ins, outs, r2)"
        "inv r2" "cap r2 = cap r1" "abs r1 @ ins = outs @ abs r2"
      using Cons.IH [OF r1(2)] by blast
    have "abs r @ ins = take (length buf) (abs r) @ abs r1 @ ins"
      using r1(3) by simp
    with r1 r2 Pop_Slice show ?thesis by (simp add: min_def)
  qed
qed

end

subsection \<open>Copies and cyclic positions\<close>

lemma copy_in_ok:
  "\<lbrakk> off < length dst; off + length src \<le> length dst \<rbrakk> \<Longrightarrow>
   copy_in dst off src = Inr (take off dst @ map Some src @ drop (off + length src) dst)"
  by (simp add: copy_in_def)

lemma copied_nth:
  "\<lbrakk> off + length src \<le> length dst; j < length dst \<rbrakk> \<Longrightarrow>
   (take off dst @ map Some src @ drop (off + length src) dst) ! j =
     (if off \<le> j \<and> j < off + length src then Some (src ! (j - off)) else dst ! j)"
  by (auto simp: nth_append)

lemma copy_out_ok:
  assumes "off < length src" "off + n \<le> length src"
    and "\<And>i. i < n \<Longrightarrow> src ! (off + i) \<noteq> None"
  shows "copy_out src off n = Inr (map (\<lambda>i. the (src ! (off + i))) [0..<n])"
proof -
  have take_eq: "take n (drop off src) = map (\<lambda>i. src ! (off + i)) [0..<n]"
    using assms(2) by (intro nth_equalityI) auto
  have "None \<notin> set (take n (drop off src))"
    unfolding take_eq using assms(3) by (force simp: eq_commute [of None])
  with assms(1,2) show ?thesis
    by (simp add: copy_out_def take_eq)
qed

lemma ring_pos_less: "ring_inv r \<Longrightarrow> ring_pos r i < length (ring_buf r)"
  by (simp add: ring_inv_def ring_pos_def)

lemma ring_pos_inj:
  "\<lbrakk> ring_pos r i = ring_pos r j; i < length (ring_buf r); j < length (ring_buf r) \<rbrakk> \<Longrightarrow> i = j"
  unfolding ring_pos_def by (rule mod_add_inj)

lemma length_ring_list [simp]: "length (ring_list r) = ring_len r"
  by (simp add: ring_list_def)

lemma ring_list_nth [simp]: "i < ring_len r \<Longrightarrow> ring_list r ! i = the (ring_buf r ! ring_pos r i)"
  by (simp add: ring_list_def)

lemma ring_len_le: "ring_inv r \<Longrightarrow> ring_len r \<le> hrb_capacity r"
  by (simp add: ring_inv_def hrb_capacity_def)

text \<open>A ring whose tail moved forward by \<open>k\<close> stands for the queue without its
  first \<open>k\<close> elements.\<close>

lemma ring_advance:
  assumes "ring_inv r" "k \<le> ring_len r"
    and "r' = r\<lparr>ring_tail := (ring_tail r + k) mod hrb_capacity r, ring_len := ring_len r - k\<rparr>"
  shows "ring_inv r'" "ring_list r' = drop k (ring_list r)" "hrb_capacity r' = hrb_capacity r"
proof -
  have pos: "ring_pos r' i = ring_pos r (k + i)" for i
    using assms(3) by (simp add: ring_pos_def hrb_capacity_def mod_add_left_eq add.assoc)
  show "ring_inv r'"
    using assms pos by (auto simp: ring_inv_def hrb_capacity_def)
  show "ring_list r' = drop k (ring_list r)"
    using assms(2,3) pos by (intro nth_equalityI) auto
  show "hrb_capacity r' = hrb_capacity r"
    using assms(3) by (simp add: hrb_capacity_def)
qed

text \<open>A ring whose cells after the head were written with \<open>xs\<close> stands for the
  queue followed by \<open>xs\<close>.\<close>

lemma ring_extend:
  assumes inv: "ring_inv r" and fits: "ring_len r + length xs \<le> hrb_capacity r"
    and len: "length buf = hrb_capacity r"
    and new: "\<And>i. i < length xs \<Longrightarrow> buf ! ring_pos r (ring_len r + i) = Some (xs ! i)"
    and old: "\<And>i. i < ring_len r \<Longrightarrow> buf ! ring_pos r i = ring_buf r ! ring_pos r i"
    and r': "r' = r\<lparr>ring_buf := buf, ring_head := (ring_head r + length xs) mod hrb_capacity r,
                    ring_len := ring_len r + length xs\<rparr>"
  shows "ring_inv r'" "ring_list r' = ring_list r @ xs" "hrb_capacity r' = hrb_capacity r"
proof -
  have pos: "ring_pos r' i = ring_pos r i" for i
    using len r' by (simp add: ring_pos_def hrb_capacity_def)
  have cell: "ring_buf r' ! ring_pos r' i =
      (if i < ring_len r then ring_buf r ! ring_pos r i else Some (xs ! (i - ring_len r)))"
    if "i < ring_len r + length xs" for i
    using that new [of "i - ring_len r"] old [of i] r' pos by (cases "i < ring_len r") auto
  have "ring_head r' = ring_pos r' (ring_len r')"
    using inv len r' by (simp add: ring_inv_def ring_pos_def hrb_capacity_def mod_add_left_eq add.assoc)
  moreover have "\<forall>i < ring_len r'. ring_buf r' ! ring_pos r' i \<noteq> None"
    using cell inv r' by (auto simp: ring_inv_def)
  ultimately show "ring_inv r'"
    using inv fits len r' by (simp add: ring_inv_def hrb_capacity_def)
  have len': "ring_len r' = ring_len r + length xs"
    using r' by simp
  then show "ring_list r' = ring_list r @ xs"
    by (intro nth_equalityI) (auto simp: cell nth_append)
  show "hrb_capacity r' = hrb_capacity r"
    using len r' by (simp add: hrb_capacity_def)
qed


text \<open>The two copies of a slice push together write \<open>src\<close> cyclically from
  position \<open>h\<close> on and leave every other cell alone.\<close>

lemma wrapped_copy_in:
  fixes dst :: "'a option list"
  assumes h: "h < length dst" and k: "length src \<le> length dst"
    and f: "f = min (length dst - h) (length src)"
  shows "\<exists>b1 b2. copy_in dst h (take f src) = Inr b1 \<and>
    (if 0 < length src - f then copy_in b1 0 (drop f src) else Inr b1) = Inr b2 \<and>
    length b2 = length dst \<and>
    (\<forall>i < length src. b2 ! ((h + i) mod length dst) = Some (src ! i)) \<and>
    (\<forall>j < length dst. (\<forall>i < length src. (h + i) mod length dst \<noteq> j) \<longrightarrow> b2 ! j = dst ! j)"
proof -
  let ?c = "length dst"
  define b1 where "b1 = take h dst @ map Some (take f src) @ drop (h + f) dst"
  define b2 where "b2 = map Some (drop f src) @ drop (length src - f) b1"
  have fl: "f \<le> length src" "h + f \<le> ?c" using f h by auto
  have c1: "copy_in dst h (take f src) = Inr b1"
    using copy_in_ok [OF h, of "take f src"] fl by (simp add: b1_def)
  have l1: "length b1 = ?c" using fl by (simp add: b1_def)
  have b1_ne: "0 < length b1" using h l1 by linarith
  have c2: "(if 0 < length src - f then copy_in b1 0 (drop f src) else Inr b1) = Inr b2"
    using copy_in_ok [OF b1_ne, of "drop f src"] k l1 fl by (auto simp: b2_def)
  have l2: "length b2 = ?c" using l1 fl k by (simp add: b2_def)
  have n1: "b1 ! j = (if h \<le> j \<and> j < h + f then Some (src ! (j - h)) else dst ! j)" if "j < ?c" for j
    using copied_nth [of h "take f src" dst j] fl that by (auto simp: b1_def)
  have n2: "b2 ! j = (if j < length src - f then Some (src ! (f + j)) else b1 ! j)"
    if "j < ?c" for j
    using that l1 fl by (auto simp: b2_def nth_append)
  have p: "(h + i) mod ?c = (if i < f then h + i else i - f)" if "i < length src" for i
    using that h k f by (auto simp: mod_add_cases min_def split: if_splits)
  have written: "b2 ! ((h + i) mod ?c) = Some (src ! i)" if i: "i < length src" for i
  proof (cases "i < f")
    case True
    have "length src - f \<le> h" using f k by linarith
    with True i fl show ?thesis by (simp add: p n2 n1)
  next
    case False
    then have "(h + i) mod ?c = i - f" "i - f < length src - f" "i - f < ?c"
      using p [OF i] i k by auto
    with False show ?thesis by (simp add: n2)
  qed
  have kept: "b2 ! j = dst ! j"
    if j: "j < ?c" and other: "\<And>i. i < length src \<Longrightarrow> (h + i) mod ?c \<noteq> j" for j
  proof -
    have "\<not> j < length src - f"
      using other [of "j + f"] p [of "j + f"] by (auto simp: less_diff_conv)
    moreover have "j < h \<or> h + f \<le> j"
    proof (rule ccontr)
      assume "\<not> ?thesis"
      then have "j - h < f" "j - h < length src" "h \<le> j" using fl by linarith+
      then show False using other [of "j - h"] p [of "j - h"] by simp
    qed
    ultimately show ?thesis using j by (auto simp: n2 n1)
  qed
  from c1 c2 l2 written kept show ?thesis by blast
qed

lemma hrb_push_slice_core:
  assumes inv: "ring_inv r" and fits: "ring_len r + length src \<le> hrb_capacity r"
    and f: "f = min (hrb_capacity r - ring_head r) (length src)"
  shows "\<exists>b1 b2 r'. copy_in (ring_buf r) (ring_head r) (take f src) = Inr b1 \<and>
    (if 0 < length src - f then copy_in b1 0 (drop f src) else Inr b1) = Inr b2 \<and>
    r' = r\<lparr>ring_buf := b2, ring_head := (ring_head r + length src) mod hrb_capacity r,
            ring_len := ring_len r + length src\<rparr> \<and>
    ring_inv r' \<and> ring_list r' = ring_list r @ src \<and> hrb_capacity r' = hrb_capacity r"
proof -
  let ?c = "length (ring_buf r)"
  have h: "ring_head r < ?c"
    using inv ring_pos_less [OF inv] by (simp add: ring_inv_def)
  have "length src \<le> ?c" using fits by (simp add: hrb_capacity_def)
  then obtain b1 b2 where b: "copy_in (ring_buf r) (ring_head r) (take f src) = Inr b1"
      "(if 0 < length src - f then copy_in b1 0 (drop f src) else Inr b1) = Inr b2"
      "length b2 = ?c"
    and new: "\<forall>i < length src. b2 ! ((ring_head r + i) mod ?c) = Some (src ! i)"
    and old: "\<forall>j < ?c. (\<forall>i < length src. (ring_head r + i) mod ?c \<noteq> j) \<longrightarrow> b2 ! j = ring_buf r ! j"
    using wrapped_copy_in [OF h, of src f] f unfolding hrb_capacity_def by blast
  have hp: "(ring_head r + i) mod ?c = ring_pos r (ring_len r + i)" for i
    using inv by (simp add: ring_inv_def ring_pos_def mod_add_left_eq add.assoc)
  have "b2 ! ring_pos r i = ring_buf r ! ring_pos r i" if i: "i < ring_len r" for i
  proof -
    have "ring_pos r (ring_len r + j) \<noteq> ring_pos r i" if "j < length src" for j
      using ring_pos_inj [of r "ring_len r + j" i] i that fits by (auto simp: hrb_capacity_def)
    then show ?thesis using old ring_pos_less [OF inv] by (simp add: hp)
  qed
  then have "ring_inv r'" "ring_list r' = ring_list r @ src" "hrb_capacity r' = hrb_capacity r"
    if "r' = r\<lparr>ring_buf := b2, ring_head := (ring_head r + length src) mod hrb_capacity r,
               ring_len := ring_len r + length src\<rparr>" for r'
    using ring_extend [OF inv fits, of b2 r'] b(3) new that
    by (simp_all add: hp hrb_capacity_def)
  with b show ?thesis by blast
qed

lemma hrb_push_slice_spec:
  assumes inv: "ring_inv r"
  shows "\<exists>r'. hrb_try_push_slice r xs = Inr (min (hrb_available r) (length xs), r') \<and> ring_inv r' \<and>
    ring_list r' = ring_list r @ take (hrb_available r) xs \<and> hrb_capacity r' = hrb_capacity r"
proof (cases "min (hrb_available r) (length xs) = 0")
  case True
  then have "take (hrb_available r) xs = []" by (auto simp: min_def split: if_splits)
  with True inv show ?thesis by (simp add: hrb_try_push_slice_def)
next
  case False
  define k where "k = min (hrb_available r) (length xs)"
  define src where "src = take k xs"
  define f where "f = min (hrb_capacity r - ring_head r) k"
  have k: "length src = k" "src = take (hrb_available r) xs" by (auto simp: src_def k_def)
  have f: "f \<le> k" "take f xs = take f src" "take (k - f) (drop f xs) = drop f src"
    by (auto simp: f_def src_def drop_take min_def)
  have "ring_len r + length src \<le> hrb_capacity r"
    using ring_len_le [OF inv] by (auto simp: k k_def hrb_available_def)
  from hrb_push_slice_core [OF inv this, of f] obtain b1 b2 r' where
      "copy_in (ring_buf r) (ring_head r) (take f src) = Inr b1"
      "(if 0 < k - f then copy_in b1 0 (drop f src) else Inr b1) = Inr b2"
      "r' = r\<lparr>ring_buf := b2, ring_head := (ring_head r + k) mod hrb_capacity r,
              ring_len := ring_len r + k\<rparr>"
    and r': "ring_inv r'" "ring_list r' = ring_list r @ src" "hrb_capacity r' = hrb_capacity r"
    unfolding k(1) f_def by blast
  then have "hrb_try_push_slice r xs = Inr (k, r')"
    using False unfolding hrb_try_push_slice_def Let_def k_def [symmetric] f_def [symmetric] f
    by simp
  with r' k show ?thesis by (auto simp: k_def)
qed


text \<open>Reading \<open>k\<close> elements cyclically from the tail takes at most two copies.\<close>

lemma wrapped_copy_out:
  assumes inv: "ring_inv r" and k: "k \<le> ring_len r"
    and f: "f = min (hrb_capacity r - ring_tail r) k"
  shows "copy_out (ring_buf r) (ring_tail r) f = Inr (take f (ring_list r))"
    and "copy_out (ring_buf r) 0 (k - f) = Inr (drop f (take k (ring_list r)))"
proof -
  let ?c = "length (ring_buf r)"
  have t: "ring_tail r < ?c" and k_le: "k \<le> ?c"
    using inv k by (auto simp: ring_inv_def)
  have f_le: "f \<le> k" "ring_tail r + f \<le> ?c"
    using f t by (auto simp: hrb_capacity_def)
  have lo: "ring_pos r i = ring_tail r + i" if "i < f" for i
    using that f_le t by (simp add: ring_pos_def)
  have hi: "ring_pos r (f + i) = i" if "i < k - f" for i
    using that f t k_le by (auto simp: ring_pos_def hrb_capacity_def mod_add_cases min_def split: if_splits)
  have cells: "ring_buf r ! ring_pos r i \<noteq> None" if "i < k" for i
    using that inv k by (simp add: ring_inv_def)
  show "copy_out (ring_buf r) (ring_tail r) f = Inr (take f (ring_list r))"
  proof -
    have "map (\<lambda>i. the (ring_buf r ! (ring_tail r + i))) [0..<f] = take f (ring_list r)"
      using f_le k lo by (intro nth_equalityI) (auto simp: min_def)
    then show ?thesis
      using copy_out_ok [OF t, of f] f_le cells lo by (metis order_less_le_trans)
  qed
  show "copy_out (ring_buf r) 0 (k - f) = Inr (drop f (take k (ring_list r)))"
  proof -
    have "map (\<lambda>i. the (ring_buf r ! (0 + i))) [0..<k - f] = drop f (take k (ring_list r))"
      using f_le k hi by (intro nth_equalityI) (auto simp: min_def)
    moreover have "ring_buf r ! (0 + i) \<noteq> None" if "i < k - f" for i
      using cells [of "f + i"] hi [OF that] that by simp
    ultimately show ?thesis
      using copy_out_ok [of 0 "ring_buf r" "k - f"] t k_le by fastforce
  qed
qed

lemma hrb_pop_slice_spec:
  assumes inv: "ring_inv r"
  shows "\<exists>r'. hrb_try_pop_slice r buf = Inr (min (ring_len r) (length buf),
      take (length buf) (ring_list r) @ drop (ring_len r) buf, r') \<and> ring_inv r' \<and>
    ring_list r' = drop (length buf) (ring_list r) \<and> hrb_capacity r' = hrb_capacity r"
proof (cases "min (ring_len r) (length buf) = 0")
  case True
  then have "ring_list r = [] \<or> buf = []" by (auto simp: min_def ring_list_def split: if_splits)
  with True inv show ?thesis
    by (auto simp: hrb_try_pop_slice_def ring_list_def)
next
  case False
  define k where "k = min (ring_len r) (length buf)"
  define f where "f = min (hrb_capacity r - ring_tail r) k"
  define r' where "r' = r\<lparr>ring_tail := (ring_tail r + k) mod hrb_capacity r, ring_len := ring_len r - k\<rparr>"
  have k: "k \<le> ring_len r" "f \<le> k" by (auto simp: k_def f_def)
  have second: "(if 0 < k - f then copy_out (ring_buf r) 0 (k - f) else Inr []) =
      Inr (drop f (take k (ring_list r)))"
    using wrapped_copy_out(2) [OF inv k(1) f_def] k by auto
  have parts: "take f (ring_list r) @ drop f (take k (ring_list r)) = take k (ring_list r)"
    using k by (metis append_take_drop_id min.absorb1 take_take)
  have "hrb_try_pop_slice r buf = Inr (k, take k (ring_list r) @ drop k buf, r')"
    using False second parts
    unfolding hrb_try_pop_slice_def Let_def k_def [symmetric] f_def [symmetric]
      wrapped_copy_out(1) [OF inv k(1) f_def] r'_def
    by (simp flip: append_assoc)
  moreover have "take k (ring_list r) = take (length buf) (ring_list r)"
      "drop k (ring_list r) = drop (length buf) (ring_list r)" "drop k buf = drop (ring_len r) buf"
    by (auto simp: k_def min_def)
  ultimately show ?thesis
    using ring_advance [OF inv k(1) r'_def] by (auto simp: k_def)
qed

lemma hrb_push_spec:
  assumes inv: "ring_inv r" and room: "ring_len r < hrb_capacity r"
  shows "\<exists>r'. hrb_try_push r x = Inr (Inr (), r') \<and> ring_inv r' \<and>
    ring_list r' = ring_list r @ [x] \<and> hrb_capacity r' = hrb_capacity r"
proof -
  let ?b = "(ring_buf r)[ring_head r := Some x]"
  let ?r' = "r\<lparr>ring_buf := ?b, ring_head := (ring_head r + 1) mod hrb_capacity r,
               ring_len := ring_len r + 1\<rparr>"
  have h: "ring_head r = ring_pos r (ring_len r)" "ring_head r < length (ring_buf r)"
    using inv ring_pos_less [OF inv] by (auto simp: ring_inv_def)
  have "ring_pos r (ring_len r) \<noteq> ring_pos r i" if "i < ring_len r" for i
    using ring_pos_inj [of r "ring_len r" i] that room by (auto simp: hrb_capacity_def)
  then have "ring_inv ?r'" "ring_list ?r' = ring_list r @ [x]" "hrb_capacity ?r' = hrb_capacity r"
    using ring_extend [OF inv, of "[x]" ?b ?r'] room h by (simp_all add: hrb_capacity_def)
  moreover have "hrb_try_push r x = Inr (Inr (), ?r')"
    using h room by (simp add: hrb_try_push_def hrb_is_full_def)
  ultimately show ?thesis by blast
qed

lemma hrb_pop_spec:
  assumes inv: "ring_inv r" and "ring_list r = x # xs"
  shows "\<exists>r'. hrb_try_pop r = Inr (Some x, r') \<and> ring_inv r' \<and> ring_list r' = xs \<and>
    hrb_capacity r' = hrb_capacity r"
proof -
  let ?r' = "r\<lparr>ring_tail := (ring_tail r + 1) mod hrb_capacity r, ring_len := ring_len r - 1\<rparr>"
  have len: "1 \<le> ring_len r" using assms(2) by (metis One_nat_def Suc_leI length_greater_0_conv length_ring_list list.distinct(1))
  have pos: "ring_pos r 0 = ring_tail r" using inv by (simp add: ring_pos_def ring_inv_def)
  have "ring_list r ! 0 = x" using assms(2) by simp
  with len inv have "ring_buf r ! ring_tail r = Some x"
    by (auto simp: pos ring_inv_def dest!: spec [of _ 0])
  with inv len have "hrb_try_pop r = Inr (Some x, ?r')"
    by (simp add: hrb_try_pop_def hrb_is_empty_def ring_inv_def)
  with ring_advance [OF inv len, of ?r'] assms(2) show ?thesis by auto
qed

interpretation heap_ring: fifo_ring hrb_try_push hrb_try_pop hrb_try_push_slice hrb_try_pop_slice
  hrb_capacity ring_list ring_inv
proof (unfold_locales, goal_cases)
  case (1 r) then show ?case by (simp add: ring_len_le)
next
  case (2 r x) then show ?case by (simp add: hrb_try_push_def hrb_is_full_def)
next
  case (3 r x) then show ?case by (simp add: hrb_push_spec)
next
  case (4 r) then show ?case by (simp add: hrb_try_pop_def hrb_is_empty_def ring_list_def)
next
  case (5 r x xs) then show ?case by (rule hrb_pop_spec)
next
  case (6 r xs) then show ?case using hrb_push_slice_spec [of r xs] by (simp add: hrb_available_def)
next
  case (7 r buf) then show ?case using hrb_pop_slice_spec [of r buf] by simp
qed


lemma hrb_readable_slices_spec:
  assumes inv: "ring_inv r"
  shows "\<exists>xs ys. hrb_readable_slices r = Inr (xs, ys) \<and> xs @ ys = ring_list r"
proof -
  define f where "f = min (hrb_capacity r - ring_tail r) (ring_len r)"
  have "hrb_readable_slices r = Inr (take f (ring_list r), drop f (ring_list r))"
    using wrapped_copy_out [OF inv order_refl f_def]
    by (simp add: hrb_readable_slices_def Let_def flip: f_def)
  then show ?thesis by auto
qed

lemma hrb_try_new_ok:
  "hrb_try_new sz al ok c = Inr r \<Longrightarrow> ring_inv r \<and> ring_list r = [] \<and> hrb_capacity r = c"
  by (auto simp: hrb_try_new_def ring_inv_def ring_list_def ring_pos_def hrb_capacity_def
      split: if_splits)

subsection \<open>The static ring is the heap ring of the same capacity\<close>

definition static_inv :: "nat \<Rightarrow> 'a ring \<Rightarrow> bool" where
  "static_inv N r \<longleftrightarrow> ring_inv r \<and> length (ring_buf r) = N"

lemma rb_eq_hrb:
  assumes "length (ring_buf r) = N"
  shows "rb_is_full N r = hrb_is_full r" "rb_is_empty r = hrb_is_empty r"
    "rb_available N r = hrb_available r"
    "rb_try_push N r = hrb_try_push r" "rb_try_pop N r = hrb_try_pop r"
    "rb_try_push_slice N r = hrb_try_push_slice r" "rb_try_pop_slice N r = hrb_try_pop_slice r"
    "rb_clear r = hrb_clear r"
  unfolding fun_eq_iff rb_try_push_def hrb_try_push_def rb_try_pop_def hrb_try_pop_def
    rb_try_push_slice_def hrb_try_push_slice_def rb_try_pop_slice_def hrb_try_pop_slice_def
    rb_is_full_def hrb_is_full_def rb_is_empty_def hrb_is_empty_def
    rb_available_def hrb_available_def rb_clear_def hrb_clear_def hrb_capacity_def Let_def assms
  by simp_all

lemma static_cap: "static_inv N r \<Longrightarrow> hrb_capacity r = N \<and> length (ring_buf r) = N"
  by (simp add: static_inv_def hrb_capacity_def)

interpretation static_ring: fifo_ring "rb_try_push N" "rb_try_pop N" "rb_try_push_slice N"
  "rb_try_pop_slice N" "\<lambda>_. N" ring_list "static_inv N" for N
proof (unfold_locales, goal_cases)
  case (1 r) then show ?case
    using heap_ring.abs_le_cap [of r] by (simp add: static_inv_def hrb_capacity_def)
next
  case (2 r x) then show ?case
    using heap_ring.push_full [of r x] by (simp add: static_inv_def hrb_capacity_def rb_eq_hrb)
next
  case (3 r x) then show ?case
    using heap_ring.push_ok [of r x] by (auto simp: static_inv_def hrb_capacity_def rb_eq_hrb)
next
  case (4 r) then show ?case
    using heap_ring.pop_empty [of r] by (simp add: static_inv_def rb_eq_hrb)
next
  case (5 r x xs) then show ?case
    using heap_ring.pop_ok [of r x xs] by (auto simp: static_inv_def hrb_capacity_def rb_eq_hrb)
next
  case (6 r xs) then show ?case
    using heap_ring.push_slice_ok [of r xs] by (auto simp: static_inv_def hrb_capacity_def rb_eq_hrb)
next
  case (7 r buf) then show ?case
    using heap_ring.pop_slice_ok [of r buf] by (auto simp: static_inv_def hrb_capacity_def rb_eq_hrb)
qed

lemma rb_iter_from_spec:
  assumes "static_inv N r"
  shows "rb_iter_from N r idx = Inr (drop idx (ring_list r))"
  using assms
proof (induction N r idx rule: rb_iter_from.induct)
  case (1 N r idx)
  show ?case
  proof (cases "idx < ring_len r")
    case True
    obtain x where x: "ring_buf r ! ring_pos r idx = Some x"
      using "1.prems" True by (auto simp: static_inv_def ring_inv_def)
    have "rb_iter_next N r idx = Inr (Some x, idx + 1)"
      using "1.prems" True x ring_pos_less [of r idx]
      by (simp add: rb_iter_next_def Let_def static_inv_def ring_pos_def)
    moreover have "drop idx (ring_list r) = x # drop (idx + 1) (ring_list r)"
      using True x by (simp add: Cons_nth_drop_Suc [symmetric])
    ultimately show ?thesis
      using 1 by (simp add: rb_iter_from.simps [of N r idx])
  next
    case False
    then show ?thesis by (simp add: rb_iter_from.simps [of N r idx] rb_iter_next_def)
  qed
qed

subsection \<open>Properties\<close>

text \<open>C18: A heap ring buffer is a lossless byte stream. Whatever sequence of
  slice pushes and slice pops a client performs on a well-formed ring, no
  operation faults (no index panic, no copy past the backing array, no read of
  an uninitialised cell), the ring stays well-formed with its capacity, and the
  items handed out followed by the items still stored are exactly the items
  stored at the start followed by the items accepted, in order.\<close>

theorem hrb_stream:
  assumes "ring_inv r"
  shows "\<exists>ins outs r'. ring_run hrb_try_push_slice hrb_try_pop_slice ops r = Inr (ins, outs, r') \<and>
    ring_inv r' \<and> hrb_capacity r' = hrb_capacity r \<and> ring_list r @ ins = outs @ ring_list r'"
  by (rule heap_ring.run_fifo [OF assms])

theorem hrb_stream_witness:
  "\<exists>r ins outs r'. hrb_try_new 1 1 True 3 = Inr r \<and>
     ring_run hrb_try_push_slice hrb_try_pop_slice
       [Push_Slice [1, 2], Pop_Slice [0], Push_Slice [3::nat, 4, 5]] r = Inr (ins, outs, r') \<and>
     ring_list r @ ins = outs @ ring_list r'"
proof -
  obtain r :: "nat ring" where r: "hrb_try_new 1 1 True 3 = Inr r"
    by (simp add: hrb_try_new_def layout_array_ok_def)
  then have "ring_inv r" by (simp add: hrb_try_new_ok)
  from hrb_stream [OF this, of "[Push_Slice [1, 2], Pop_Slice [0], Push_Slice [3, 4, 5]]"] r
  show ?thesis by blast
qed

text \<open>The static ring buffer of capacity \<open>N\<close> gives the same guarantee: no
  operation of any sequence faults, the capacity never changes, and the order
  and content of the stream are kept. Its iterator yields the stored items,
  oldest first.\<close>

theorem rb_stream:
  assumes "static_inv N r"
  shows "\<exists>ins outs r'. ring_run (rb_try_push_slice N) (rb_try_pop_slice N) ops r = Inr (ins, outs, r') \<and>
    static_inv N r' \<and> ring_list r @ ins = outs @ ring_list r' \<and>
    rb_iter_from N r' 0 = Inr (ring_list r')"
  using static_ring.run_fifo [OF assms, of ops] rb_iter_from_spec [of N _ 0] by fastforce

theorem rb_stream_witness:
  "\<exists>ins outs r'. ring_run (rb_try_push_slice 2) (rb_try_pop_slice 2)
     [Push_Slice [7::nat, 8, 9], Pop_Slice [0], Push_Slice [5]] (rb_new 2) = Inr (ins, outs, r') \<and>
   static_inv 2 r' \<and> rb_iter_from 2 r' 0 = Inr (ring_list r')"
proof -
  have "static_inv 2 (rb_new 2 :: nat ring)"
    by (simp add: static_inv_def ring_inv_def rb_new_def ring_pos_def)
  from rb_stream [OF this, of "[Push_Slice [7, 8, 9], Pop_Slice [0], Push_Slice [5]]"]
  show ?thesis by blast
qed

text \<open>\<open>readable_slices\<close> exposes the whole stored queue and nothing else: the
  first slice followed by the second is the queue, which is also what \<open>iter\<close>
  yields, so that copying both slices into another ring loses nothing.\<close>

theorem hrb_readable_complete:
  assumes "ring_inv r"
  shows "\<exists>xs ys. hrb_readable_slices r = Inr (xs, ys) \<and> xs @ ys = ring_list r \<and>
    length xs + length ys = ring_len r \<and> hrb_iter r = Inr (ring_list r)"
proof -
  from hrb_readable_slices_spec [OF assms] obtain xs ys
    where "hrb_readable_slices r = Inr (xs, ys)" "xs @ ys = ring_list r" by blast
  then show ?thesis
    by (auto simp: hrb_iter_def simp flip: length_append)
qed

theorem hrb_readable_complete_witness:
  "\<exists>xs ys. hrb_readable_slices \<lparr>ring_buf = [Some 3, None, Some (2::nat)], ring_len = 2,
      ring_head = 1, ring_tail = 2\<rparr> = Inr (xs, ys) \<and> xs @ ys = [2, 3]"
proof -
  let ?r = "\<lparr>ring_buf = [Some 3, None, Some (2::nat)], ring_len = 2, ring_head = 1, ring_tail = 2\<rparr>"
  have "ring_inv ?r"
    by (simp add: ring_inv_def ring_pos_def less_2_cases_iff all_conj_distrib
        nth_Cons numeral_2_eq_2 less_Suc_eq)
  moreover have "ring_list ?r = [2, 3]"
    by (simp add: ring_list_def ring_pos_def upt_rec numeral_2_eq_2)
  ultimately show ?thesis using hrb_readable_complete [of ?r] by auto
qed

end
