(* ===== verification/Poll.thy ===== *)
theory Poll
  imports Sys_Error
begin

text \<open>
  The part of \<open>src/anemone-kernel/src/fs/iomux/mod.rs\<close> that pollable files
  rely on: the readiness flags, the poll request, and the registered routes
  with their notification rule. A route itself belongs to the waiter and is an
  opaque value here.
\<close>

datatype poll_event = READABLE | WRITABLE | ERROR | HANG_UP | READ_HANG_UP

type_synonym poll_events = "poll_event set"

record 'r poll_request =
  pr_interests :: poll_events
  pr_route :: "'r option"

definition pr_is_register :: "'r poll_request \<Rightarrow> bool" where
  "pr_is_register req \<longleftrightarrow> pr_route req \<noteq> None"

datatype poll_register_result =
    Ready poll_events | Subscribed poll_events | SubscribedRecheck | Unsupported

record 'r poll_route =
  route_of :: 'r
  route_interests :: poll_events

text \<open>Replacing a route registry: dead routes are pruned, the new one is appended.
  \<open>mem_ok\<close> is the allocator's answer for the replacement vector and its \<open>Arc\<close>.
  The result carries the new registry and the number of pruned routes.\<close>

definition prepare_poll_routes ::
  "('r \<Rightarrow> bool) \<Rightarrow> bool \<Rightarrow> 'r poll_route list \<Rightarrow> 'r \<Rightarrow> poll_events \<Rightarrow>
   sys_error + 'r poll_route list \<times> nat" where
  "prepare_poll_routes prunable mem_ok routes route interests =
     (let retained = filter (\<lambda>e. \<not> prunable (route_of e)) routes
      in case checked_add (length retained) 1 of
           None \<Rightarrow> Inl OutOfMemory
         | Some _ \<Rightarrow>
             if \<not> mem_ok then Inl OutOfMemory
             else Inr (retained @ [\<lparr>route_of = route, route_interests = interests\<rparr>],
                       length routes - length retained))"

text \<open>The routes that a notification reaches: no snapshot, no notification; a
  change set restricts it to the routes interested in it.\<close>

definition notified_routes ::
  "'r poll_route list option \<Rightarrow> poll_events option \<Rightarrow> 'r list" where
  "notified_routes routes changed =
     (case routes of
        None \<Rightarrow> []
      | Some rs \<Rightarrow>
          map route_of
            (filter (\<lambda>e. case changed of None \<Rightarrow> True | Some c \<Rightarrow> route_interests e \<inter> c \<noteq> {}) rs))"

lemma notified_routes_None [simp]: "notified_routes None changed = []"
  by (simp add: notified_routes_def)

end
