(* ===== verification/Pipe.thy ===== *)
theory Pipe
  imports Ring_Buffer Poll "HOL-Library.Word"
begin

text \<open>
  \<open>src/anemone-kernel/src/fs/pipe/\<close>: anonymous pipes and named FIFOs. One
  definition per critical section of the pipe's inner lock; a handler that
  takes the lock twice takes the state at each acquisition as an argument, so
  that what other threads do in between is not excluded. What a section
  publishes after it has released the lock (event publications, poll route
  notifications, the SIGPIPE signal) is the list of effects it returns, in
  order.
\<close>

subsection \<open>Constants and state\<close>

definition PIPE_ATOMIC_WRITE_BYTES :: nat where
  "PIPE_ATOMIC_WRITE_BYTES = PAGE_SIZE_BYTES"

text \<open>The two capacities come from the generated kernel configuration, in pages.\<close>

record pipe_config =
  pipe_capacity_pages :: nat
  pipe_max_capacity_pages :: nat

definition pipe_default_capacity_bytes :: "pipe_config \<Rightarrow> nat" where
  "pipe_default_capacity_bytes cfg = pipe_capacity_pages cfg * PIPE_ATOMIC_WRITE_BYTES"

definition pipe_max_capacity_bytes :: "pipe_config \<Rightarrow> nat" where
  "pipe_max_capacity_bytes cfg = pipe_max_capacity_pages cfg * PIPE_ATOMIC_WRITE_BYTES"

text \<open>The \<open>static_assert!\<close>s and the overflow checks of the constants.\<close>

definition pipe_config_ok :: "pipe_config \<Rightarrow> bool" where
  "pipe_config_ok cfg \<longleftrightarrow>
     2 \<le> pipe_capacity_pages cfg \<and> (\<exists>k. pipe_capacity_pages cfg = 2 ^ k) \<and>
     (\<exists>k. pipe_max_capacity_pages cfg = 2 ^ k) \<and>
     pipe_capacity_pages cfg \<le> pipe_max_capacity_pages cfg \<and>
     pipe_max_capacity_bytes cfg < u64_limit"

type_synonym byte = "8 word"

record 'r pipe_inner =
  pi_buf :: "byte ring"
  rx_cnt :: nat
  tx_cnt :: nat
  rx_generation :: nat
  tx_generation :: nat
  rx_poll_routes :: "'r poll_route list"
  tx_poll_routes :: "'r poll_route list"

datatype pipe_access = PA_Read | PA_Write | PA_ReadWrite

fun pa_can_read :: "pipe_access \<Rightarrow> bool" where
  "pa_can_read PA_Read = True"
| "pa_can_read PA_Write = False"
| "pa_can_read PA_ReadWrite = True"

fun pa_can_write :: "pipe_access \<Rightarrow> bool" where
  "pa_can_write PA_Read = False"
| "pa_can_write PA_Write = True"
| "pa_can_write PA_ReadWrite = True"

record partner_generation =
  gen_rx :: nat
  gen_tx :: nat

record participation_start =
  observed :: partner_generation
  partner_present :: bool

record pipe_endpoint =
  ep_access :: pipe_access
  initial_no_writer_generation :: "nat option"

datatype 'r pipe_effect =
    Publish_Read_Recheck | Publish_Write_Recheck | Notify_Route 'r | Send_Sigpipe

definition notify_pipe_poll_routes ::
  "'r poll_route list option \<Rightarrow> poll_events option \<Rightarrow> 'r pipe_effect list" where
  "notify_pipe_poll_routes routes changed = map Notify_Route (notified_routes routes changed)"

definition pipe_capacity :: "'r pipe_inner \<Rightarrow> nat" where
  "pipe_capacity inner = hrb_capacity (pi_buf inner)"

definition pipe_available :: "'r pipe_inner \<Rightarrow> nat" where
  "pipe_available inner = hrb_available (pi_buf inner)"

subsection \<open>Creation and participation\<close>

text \<open>\<open>alloc_ok\<close> is the allocator's answer for the backing buffer and \<open>arc_ok\<close>
  for the three reference-counted cells.\<close>

definition pipe_try_new :: "pipe_config \<Rightarrow> bool \<Rightarrow> bool \<Rightarrow> sys_error + 'r pipe_inner" where
  "pipe_try_new cfg alloc_ok arc_ok =
     (case hrb_try_new 1 1 alloc_ok (pipe_default_capacity_bytes cfg) of
        Inl _ \<Rightarrow> Inl OutOfMemory
      | Inr buf \<Rightarrow>
          if \<not> arc_ok then Inl OutOfMemory
          else Inr \<lparr>pi_buf = buf, rx_cnt = 0, tx_cnt = 0, rx_generation = 0, tx_generation = 0,
                    rx_poll_routes = [], tx_poll_routes = []\<rparr>)"

text \<open>The reader half and the writer half of \<open>add_participation_if\<close>: the other
  side's routes are notified when the first participant arrives.\<close>

definition join_rx :: "'r pipe_inner \<Rightarrow> fault + 'r poll_route list option \<times> 'r pipe_inner" where
  "join_rx inner =
     (case checked_add (rx_cnt inner) 1 of
        None \<Rightarrow> Inl Assert_Panic
      | Some c \<Rightarrow>
          (case checked_add (rx_generation inner) 1 of
             None \<Rightarrow> Inl Assert_Panic
           | Some g \<Rightarrow>
               Inr (if rx_cnt inner = 0 then Some (tx_poll_routes inner) else None,
                    inner\<lparr>rx_cnt := c, rx_generation := g\<rparr>)))"

definition join_tx :: "'r pipe_inner \<Rightarrow> fault + 'r poll_route list option \<times> 'r pipe_inner" where
  "join_tx inner =
     (case checked_add (tx_cnt inner) 1 of
        None \<Rightarrow> Inl Assert_Panic
      | Some c \<Rightarrow>
          (case checked_add (tx_generation inner) 1 of
             None \<Rightarrow> Inl Assert_Panic
           | Some g \<Rightarrow>
               Inr (if tx_cnt inner = 0 then Some (rx_poll_routes inner) else None,
                    inner\<lparr>tx_cnt := c, tx_generation := g\<rparr>)))"

definition add_participation_if ::
  "pipe_access \<Rightarrow> ('r pipe_inner \<Rightarrow> bool) \<Rightarrow> 'r pipe_inner \<Rightarrow>
   fault + (participation_start \<times> 'r pipe_inner \<times> 'r pipe_effect list) option" where
  "add_participation_if access admit inner =
     (if \<not> admit inner then Inr None
      else
        let obs = \<lparr>gen_rx = rx_generation inner, gen_tx = tx_generation inner\<rparr>;
            present = (case access of
                         PA_Read \<Rightarrow> 0 < tx_cnt inner
                       | PA_Write \<Rightarrow> 0 < rx_cnt inner
                       | PA_ReadWrite \<Rightarrow> True)
        in case (if pa_can_read access then join_rx inner else Inr (None, inner)) of
             Inl f \<Rightarrow> Inl f
           | Inr (tx_routes, inner1) \<Rightarrow>
               (case (if pa_can_write access then join_tx inner1 else Inr (None, inner1)) of
                  Inl f \<Rightarrow> Inl f
                | Inr (rx_routes, inner2) \<Rightarrow>
                    Inr (Some (\<lparr>observed = obs, partner_present = present\<rparr>, inner2,
                      (if pa_can_read access then [Publish_Write_Recheck] else []) @
                      (if pa_can_write access then [Publish_Read_Recheck] else []) @
                      notify_pipe_poll_routes tx_routes None @
                      notify_pipe_poll_routes rx_routes None))))"

text \<open>The unconditional variant \<open>add_participation\<close> panics where the conditional
  one would decline.\<close>

definition add_participation ::
  "pipe_access \<Rightarrow> 'r pipe_inner \<Rightarrow>
   fault + participation_start \<times> 'r pipe_inner \<times> 'r pipe_effect list" where
  "add_participation access inner =
     (case add_participation_if access (\<lambda>_. True) inner of
        Inl f \<Rightarrow> Inl f
      | Inr None \<Rightarrow> Inl Assert_Panic
      | Inr (Some res) \<Rightarrow> Inr res)"

definition leave_rx :: "'r pipe_inner \<Rightarrow> fault + 'r poll_route list option \<times> 'r pipe_inner" where
  "leave_rx inner =
     (if rx_cnt inner = 0 then Inl Assert_Panic
      else let inner' = inner\<lparr>rx_cnt := rx_cnt inner - 1\<rparr>
           in Inr (if rx_cnt inner' = 0 then Some (tx_poll_routes inner') else None, inner'))"

definition leave_tx :: "'r pipe_inner \<Rightarrow> fault + 'r poll_route list option \<times> 'r pipe_inner" where
  "leave_tx inner =
     (if tx_cnt inner = 0 then Inl Assert_Panic
      else let inner' = inner\<lparr>tx_cnt := tx_cnt inner - 1\<rparr>
           in Inr (if tx_cnt inner' = 0 then Some (rx_poll_routes inner') else None, inner'))"

definition retire_participation ::
  "pipe_access \<Rightarrow> 'r pipe_inner \<Rightarrow> fault + 'r pipe_inner \<times> 'r pipe_effect list" where
  "retire_participation access inner =
     (case (if pa_can_read access then leave_rx inner else Inr (None, inner)) of
        Inl f \<Rightarrow> Inl f
      | Inr (tx_routes, inner1) \<Rightarrow>
          (case (if pa_can_write access then leave_tx inner1 else Inr (None, inner1)) of
             Inl f \<Rightarrow> Inl f
           | Inr (rx_routes, inner2) \<Rightarrow>
               Inr (inner2,
                 (if pa_can_read access then [Publish_Write_Recheck] else []) @
                 (if pa_can_write access then [Publish_Read_Recheck] else []) @
                 notify_pipe_poll_routes tx_routes None @
                 notify_pipe_poll_routes rx_routes None)))"

text \<open>\<open>PipeAdmission\<close>: an opener that already counts as a participant. Committing
  it yields the endpoint, dropping it retires the participation again.\<close>

record pipe_admission =
  adm_access :: pipe_access
  adm_observed :: partner_generation
  adm_initial :: "nat option"

definition admission_begin ::
  "pipe_access \<Rightarrow> 'r pipe_inner \<Rightarrow> fault + pipe_admission \<times> 'r pipe_inner \<times> 'r pipe_effect list" where
  "admission_begin access inner =
     (case add_participation access inner of
        Inl f \<Rightarrow> Inl f
      | Inr (start, inner', effs) \<Rightarrow>
          Inr (\<lparr>adm_access = access, adm_observed = observed start, adm_initial = None\<rparr>, inner', effs))"

definition admission_begin_nonblocking_reader ::
  "'r pipe_inner \<Rightarrow> fault + pipe_admission \<times> 'r pipe_inner \<times> 'r pipe_effect list" where
  "admission_begin_nonblocking_reader inner =
     (case add_participation PA_Read inner of
        Inl f \<Rightarrow> Inl f
      | Inr (start, inner', effs) \<Rightarrow>
          Inr (\<lparr>adm_access = PA_Read, adm_observed = observed start,
                adm_initial = (if \<not> partner_present start then Some (gen_tx (observed start)) else None)\<rparr>,
               inner', effs))"

definition admission_begin_nonblocking_writer ::
  "'r pipe_inner \<Rightarrow>
   fault + (sys_error + pipe_admission \<times> 'r pipe_inner \<times> 'r pipe_effect list)" where
  "admission_begin_nonblocking_writer inner =
     (case add_participation_if PA_Write (\<lambda>i. 0 < rx_cnt i) inner of
        Inl f \<Rightarrow> Inl f
      | Inr None \<Rightarrow> Inr (Inl NoSuchDeviceOrAddress)
      | Inr (Some (start, inner', effs)) \<Rightarrow>
          Inr (Inr (\<lparr>adm_access = PA_Write, adm_observed = observed start, adm_initial = None\<rparr>,
                    inner', effs)))"

definition partner_arrived :: "pipe_access \<Rightarrow> partner_generation \<Rightarrow> 'r pipe_inner \<Rightarrow> bool" where
  "partner_arrived access obs inner =
     (case access of
        PA_Read \<Rightarrow> 0 < tx_cnt inner \<or> tx_generation inner \<noteq> gen_tx obs
      | PA_Write \<Rightarrow> 0 < rx_cnt inner \<or> rx_generation inner \<noteq> gen_rx obs
      | PA_ReadWrite \<Rightarrow> True)"

definition admission_commit :: "pipe_admission \<Rightarrow> pipe_endpoint" where
  "admission_commit adm = \<lparr>ep_access = adm_access adm, initial_no_writer_generation = adm_initial adm\<rparr>"

text \<open>\<open>open_named_fifo\<close> up to the point where the opener either has its endpoint
  or waits for a partner; \<open>arrived\<close> answers the wait (\<open>False\<close>: interrupted by
  a signal), at which point the pipe is in state \<open>later\<close>.\<close>

datatype 'r fifo_open =
    Fifo_Opened pipe_endpoint "'r pipe_inner" "'r pipe_effect list"
  | Fifo_Error sys_error "'r pipe_inner" "'r pipe_effect list"
  | Fifo_Waits pipe_admission "'r pipe_inner" "'r pipe_effect list"
  | Fifo_Fault fault

definition open_named_fifo_begin :: "pipe_access \<Rightarrow> bool \<Rightarrow> 'r pipe_inner \<Rightarrow> 'r fifo_open" where
  "open_named_fifo_begin access nonblock inner =
     (if access = PA_Read \<and> nonblock then
        (case admission_begin_nonblocking_reader inner of
           Inl f \<Rightarrow> Fifo_Fault f
         | Inr (adm, inner', effs) \<Rightarrow> Fifo_Opened (admission_commit adm) inner' effs)
      else if access = PA_Write \<and> nonblock then
        (case admission_begin_nonblocking_writer inner of
           Inl f \<Rightarrow> Fifo_Fault f
         | Inr (Inl e) \<Rightarrow> Fifo_Error e inner []
         | Inr (Inr (adm, inner', effs)) \<Rightarrow> Fifo_Opened (admission_commit adm) inner' effs)
      else
        (case admission_begin access inner of
           Inl f \<Rightarrow> Fifo_Fault f
         | Inr (adm, inner', effs) \<Rightarrow>
             if access = PA_ReadWrite then Fifo_Opened (admission_commit adm) inner' effs
             else Fifo_Waits adm inner' effs))"

definition open_named_fifo_finish :: "pipe_admission \<Rightarrow> bool \<Rightarrow> 'r pipe_inner \<Rightarrow> 'r fifo_open" where
  "open_named_fifo_finish adm arrived later =
     (if arrived then Fifo_Opened (admission_commit adm) later []
      else case retire_participation (adm_access adm) later of
             Inl f \<Rightarrow> Fifo_Fault f
           | Inr (inner', effs) \<Rightarrow> Fifo_Error (RestartSyscall Idempotent) inner' effs)"

subsection \<open>Reading and writing\<close>

definition pipe_read_locked ::
  "'r pipe_inner \<Rightarrow> byte list \<Rightarrow>
   fault + nat \<times> byte list \<times> 'r poll_route list option \<times> 'r pipe_inner" where
  "pipe_read_locked inner buf =
     (case hrb_try_pop_slice (pi_buf inner) buf of
        Inl f \<Rightarrow> Inl f
      | Inr (n, buf', ring') \<Rightarrow>
          Inr (n, buf', (if 0 < n then Some (tx_poll_routes inner) else None), inner\<lparr>pi_buf := ring'\<rparr>))"

definition pipe_write_locked ::
  "'r pipe_inner \<Rightarrow> byte list \<Rightarrow> fault + nat \<times> 'r poll_route list option \<times> 'r pipe_inner" where
  "pipe_write_locked inner buf =
     (let to_write = min (pipe_available inner) (length buf)
      in case hrb_try_push_slice (pi_buf inner) (take to_write buf) of
           Inl f \<Rightarrow> Inl f
         | Inr (n, ring') \<Rightarrow>
             Inr (n, (if 0 < n then Some (rx_poll_routes inner) else None), inner\<lparr>pi_buf := ring'\<rparr>))"

text \<open>The predicates that a blocked reader and a blocked writer wait for.\<close>

definition read_can_continue :: "'r pipe_inner \<Rightarrow> bool" where
  "read_can_continue inner \<longleftrightarrow> \<not> hrb_is_empty (pi_buf inner) \<or> tx_cnt inner = 0"

definition write_can_continue :: "nat \<Rightarrow> 'r pipe_inner \<Rightarrow> bool" where
  "write_can_continue requested inner \<longleftrightarrow>
     rx_cnt inner = 0 \<or>
     (if requested \<le> PIPE_ATOMIC_WRITE_BYTES then requested \<le> pipe_available inner
      else 0 < pipe_available inner)"

text \<open>\<open>pipe_rx_read\<close>: the admission section, which decides without consuming, and
  the consuming section, which runs under the read gate and rechecks.\<close>

datatype rx_admission = Rx_Return "sys_error + nat" | Rx_Wait | Rx_Proceed

definition pipe_rx_admit :: "bool \<Rightarrow> 'r pipe_inner \<Rightarrow> rx_admission" where
  "pipe_rx_admit nonblock inner =
     (if hrb_is_empty (pi_buf inner) \<and> 0 < tx_cnt inner then
        (if nonblock then Rx_Return (Inl Again) else Rx_Wait)
      else if hrb_is_empty (pi_buf inner) then Rx_Return (Inr 0)
      else Rx_Proceed)"

datatype 'r rx_consumed =
    Rx_Eof | Rx_Retry | Rx_Read nat "byte list" "'r pipe_inner" "'r pipe_effect list"

definition pipe_rx_consume :: "'r pipe_inner \<Rightarrow> byte list \<Rightarrow> fault + 'r rx_consumed" where
  "pipe_rx_consume inner buf =
     (if hrb_is_empty (pi_buf inner) then
        (if tx_cnt inner = 0 then Inr Rx_Eof else Inr Rx_Retry)
      else case pipe_read_locked inner buf of
             Inl f \<Rightarrow> Inl f
           | Inr (n, buf', routes, inner') \<Rightarrow>
               Inr (Rx_Read n buf' inner'
                 ((if routes \<noteq> None then [Publish_Write_Recheck] else []) @
                  notify_pipe_poll_routes routes (Some {WRITABLE}))))"

text \<open>\<open>pipe_rx_read_user_transaction\<close>: after admission, the reader holds the read
  gate, takes a snapshot of the prefix it will hand out, copies it to user
  memory outside the lock, and consumes what was copied. \<open>Stage\<close> fixes the
  length, \<open>Snapshot\<close> the bytes, \<open>Commit\<close> consumes.\<close>

datatype rx_stage = Stage_Eof | Stage_Retry | Stage_Len nat

definition pipe_user_stage :: "nat \<Rightarrow> 'r pipe_inner \<Rightarrow> rx_stage" where
  "pipe_user_stage requested inner =
     (if hrb_is_empty (pi_buf inner) then
        (if tx_cnt inner = 0 then Stage_Eof else Stage_Retry)
      else Stage_Len (min requested (ring_len (pi_buf inner))))"

definition pipe_user_snapshot :: "nat \<Rightarrow> 'r pipe_inner \<Rightarrow> fault + byte list" where
  "pipe_user_snapshot staged_len inner =
     (if ring_len (pi_buf inner) < staged_len then Inl Assert_Panic
      else case hrb_iter (pi_buf inner) of
             Inl f \<Rightarrow> Inl f
           | Inr xs \<Rightarrow>
               let staged = take staged_len xs
               in if length staged \<noteq> staged_len then Inl Assert_Panic else Inr staged)"

fun pop_expected :: "byte ring \<Rightarrow> byte list \<Rightarrow> fault + byte ring" where
  "pop_expected r [] = Inr r"
| "pop_expected r (b # bs) =
     (case hrb_try_pop r of
        Inl f \<Rightarrow> Inl f
      | Inr (None, _) \<Rightarrow> Inl Assert_Panic
      | Inr (Some actual, r') \<Rightarrow> if actual \<noteq> b then Inl Assert_Panic else pop_expected r' bs)"

definition pipe_user_commit ::
  "byte list \<Rightarrow> nat \<Rightarrow> 'r pipe_inner \<Rightarrow> fault + 'r pipe_inner \<times> 'r pipe_effect list" where
  "pipe_user_commit staged copied inner =
     (case pop_expected (pi_buf inner) (take copied staged) of
        Inl f \<Rightarrow> Inl f
      | Inr ring' \<Rightarrow>
          let routes = (if 0 < copied then Some (tx_poll_routes inner) else None)
          in Inr (inner\<lparr>pi_buf := ring'\<rparr>,
                  Publish_Write_Recheck # notify_pipe_poll_routes routes (Some {WRITABLE})))"

text \<open>\<open>pipe_tx_write\<close>: one pass through the critical section, entered at the start
  and again after every wake-up of a blocked writer.\<close>

datatype 'r tx_attempt =
    Tx_Return "sys_error + nat" "'r pipe_inner" "'r pipe_effect list" | Tx_Wait

definition tx_finish ::
  "fault + nat \<times> 'r poll_route list option \<times> 'r pipe_inner \<Rightarrow> fault + 'r tx_attempt" where
  "tx_finish res =
     (case res of
        Inl f \<Rightarrow> Inl f
      | Inr (n, routes, inner') \<Rightarrow>
          Inr (Tx_Return (Inr n) inner'
            ((if routes \<noteq> None then [Publish_Read_Recheck] else []) @
             notify_pipe_poll_routes routes (Some {READABLE}))))"

definition pipe_tx_write :: "bool \<Rightarrow> byte list \<Rightarrow> 'r pipe_inner \<Rightarrow> fault + 'r tx_attempt" where
  "pipe_tx_write nonblock buf inner =
     (if rx_cnt inner = 0 then Inr (Tx_Return (Inl BrokenPipe) inner [Send_Sigpipe])
      else if nonblock then
        (let avail = pipe_available inner
         in if avail = 0 \<or> (length buf \<le> PIPE_ATOMIC_WRITE_BYTES \<and> avail < length buf)
            then Inr (Tx_Return (Inl Again) inner [])
            else let to_write = (if PIPE_ATOMIC_WRITE_BYTES < length buf
                                 then min avail (length buf) else length buf)
                 in tx_finish (pipe_write_locked inner (take to_write buf)))
      else
        (let needs_atomic_write = length buf \<le> PIPE_ATOMIC_WRITE_BYTES
         in if (if needs_atomic_write then pipe_available inner < length buf
                else pipe_available inner = 0)
            then Inr Tx_Wait
            else if needs_atomic_write then
              (case pipe_write_locked inner buf of
                 Inl f \<Rightarrow> Inl f
               | Inr (n, routes, inner') \<Rightarrow>
                   if n \<noteq> length buf then Inl Assert_Panic
                   else tx_finish (Inr (n, routes, inner')))
            else let to_write = min (pipe_available inner) (length buf)
                 in tx_finish (pipe_write_locked inner (take to_write buf))))"

text \<open>\<open>FIONREAD\<close>; every other command is unsupported.\<close>

definition pipe_ioctl_fionread :: "'r pipe_inner \<Rightarrow> sys_error + nat" where
  "pipe_ioctl_fionread inner =
     (let n = ring_len (pi_buf inner) in if n < 2 ^ 31 then Inr n else Inl FileTooLarge)"

subsection \<open>Capacity\<close>

definition normalize_pipe_capacity :: "nat \<Rightarrow> sys_error + nat" where
  "normalize_pipe_capacity requested =
     (if 2 ^ 31 - 1 < requested then Inl InvalidArgument
      else if requested = 0 then Inr PIPE_ATOMIC_WRITE_BYTES
      else case checked_add requested (PIPE_ATOMIC_WRITE_BYTES - 1) of
             None \<Rightarrow> Inl InvalidArgument
           | Some s \<Rightarrow>
               (case checked_next_power_of_two (s div PIPE_ATOMIC_WRITE_BYTES) of
                  None \<Rightarrow> Inl InvalidArgument
                | Some pages \<Rightarrow>
                    (case checked_mul pages PIPE_ATOMIC_WRITE_BYTES of
                       None \<Rightarrow> Inl InvalidArgument
                     | Some c \<Rightarrow> Inr c)))"

text \<open>\<open>resize_pipe\<close>: \<open>inner1\<close> is the state under the first lock, \<open>inner2\<close> the
  state under the second one. The result is the answer (the capacity, whether it
  grew, the routes to notify) with the state left behind.\<close>

definition resize_commit ::
  "nat \<Rightarrow> byte ring \<Rightarrow> 'r pipe_inner \<Rightarrow>
   fault + (sys_error + nat \<times> bool \<times> 'r poll_route list option) \<times> 'r pipe_inner" where
  "resize_commit capacity candidate inner =
     (if capacity = pipe_capacity inner then Inr (Inr (capacity, False, None), inner)
      else if capacity < ring_len (pi_buf inner) then Inr (Inl Busy, inner)
      else
        let old_capacity = pipe_capacity inner;
            was_writable = PIPE_ATOMIC_WRITE_BYTES \<le> pipe_available inner;
            unread = ring_len (pi_buf inner)
        in case hrb_readable_slices (pi_buf inner) of
             Inl f \<Rightarrow> Inl f
           | Inr (first, second) \<Rightarrow>
               (case hrb_try_push_slice candidate first of
                  Inl f \<Rightarrow> Inl f
                | Inr (n1, candidate1) \<Rightarrow>
                    (case hrb_try_push_slice candidate1 second of
                       Inl f \<Rightarrow> Inl f
                     | Inr (n2, candidate2) \<Rightarrow>
                         if n1 + n2 \<noteq> unread then Inl Assert_Panic
                         else
                           let inner' = inner\<lparr>pi_buf := candidate2\<rparr>;
                               increased = old_capacity < capacity;
                               became_writable = \<not> was_writable \<and>
                                 PIPE_ATOMIC_WRITE_BYTES \<le> pipe_available inner'
                           in Inr (Inr (capacity, increased,
                                        if became_writable then Some (tx_poll_routes inner') else None),
                                   inner'))))"

definition resize_pipe ::
  "pipe_config \<Rightarrow> nat \<Rightarrow> bool \<Rightarrow> 'r pipe_inner \<Rightarrow> 'r pipe_inner \<Rightarrow>
   fault + (sys_error + nat \<times> bool \<times> 'r poll_route list option) \<times> 'r pipe_inner" where
  "resize_pipe cfg requested alloc_ok inner1 inner2 =
     (case normalize_pipe_capacity requested of
        Inl e \<Rightarrow> Inr (Inl e, inner1)
      | Inr capacity \<Rightarrow>
          if pipe_max_capacity_bytes cfg < capacity then Inr (Inl PermissionDenied, inner1)
          else if capacity = pipe_capacity inner1 then Inr (Inr (capacity, False, None), inner1)
          else if capacity < ring_len (pi_buf inner1) then Inr (Inl Busy, inner1)
          else case hrb_try_new 1 1 alloc_ok capacity of
                 Inl _ \<Rightarrow> Inr (Inl OutOfMemory, inner1)
               | Inr candidate \<Rightarrow> resize_commit capacity candidate inner2)"

definition pipe_set_size_effects ::
  "nat \<times> bool \<times> 'r poll_route list option \<Rightarrow> 'r pipe_effect list" where
  "pipe_set_size_effects res =
     (case res of (capacity, increased, routes) \<Rightarrow>
        (if increased then [Publish_Write_Recheck] else []) @
        notify_pipe_poll_routes routes (Some {WRITABLE}))"

subsection \<open>Polling\<close>

definition pipe_rx_revents :: "'r pipe_inner \<Rightarrow> nat option \<Rightarrow> poll_events \<Rightarrow> poll_events" where
  "pipe_rx_revents inner initial interests =
     (let visible_eof = (tx_cnt inner = 0 \<and>
            (case initial of None \<Rightarrow> True | Some g \<Rightarrow> tx_generation inner \<noteq> g))
      in (if READABLE \<in> interests \<and> (\<not> hrb_is_empty (pi_buf inner) \<or> visible_eof) then {READABLE} else {}) \<union>
         (if visible_eof then {HANG_UP} else {}))"

definition pipe_tx_revents :: "'r pipe_inner \<Rightarrow> poll_events \<Rightarrow> poll_events" where
  "pipe_tx_revents inner interests =
     (if WRITABLE \<in> interests \<and> PIPE_ATOMIC_WRITE_BYTES \<le> pipe_available inner then {WRITABLE} else {}) \<union>
     (if rx_cnt inner = 0 then {ERROR} else {})"

definition pipe_revents :: "'r pipe_inner \<Rightarrow> pipe_endpoint \<Rightarrow> poll_events \<Rightarrow> poll_events" where
  "pipe_revents inner ep interests =
     (if pa_can_read (ep_access ep)
      then pipe_rx_revents inner (initial_no_writer_generation ep) interests else {}) \<union>
     (if pa_can_write (ep_access ep) then pipe_tx_revents inner interests else {})"

definition pipe_poll ::
  "('r \<Rightarrow> bool) \<Rightarrow> bool \<Rightarrow> bool \<Rightarrow> pipe_endpoint \<Rightarrow> 'r poll_request \<Rightarrow> 'r pipe_inner \<Rightarrow>
   (sys_error + poll_register_result) \<times> 'r pipe_inner" where
  "pipe_poll prunable mem_ok_rx mem_ok_tx ep req inner =
     (case pr_route req of
        None \<Rightarrow> (Inr (Ready (pipe_revents inner ep (pr_interests req))), inner)
      | Some route \<Rightarrow>
          (case (if pa_can_read (ep_access ep)
                 then map_sum id (\<lambda>(rs, _). Some rs)
                   (prepare_poll_routes prunable mem_ok_rx (rx_poll_routes inner) route (pr_interests req))
                 else Inr None) of
             Inl e \<Rightarrow> (Inl e, inner)
           | Inr rx_prepared \<Rightarrow>
               (case (if pa_can_write (ep_access ep)
                      then map_sum id (\<lambda>(rs, _). Some rs)
                        (prepare_poll_routes prunable mem_ok_tx (tx_poll_routes inner) route (pr_interests req))
                      else Inr None) of
                  Inl e \<Rightarrow> (Inl e, inner)
                | Inr tx_prepared \<Rightarrow>
                    let inner1 = (case rx_prepared of None \<Rightarrow> inner
                                    | Some rs \<Rightarrow> inner\<lparr>rx_poll_routes := rs\<rparr>);
                        inner2 = (case tx_prepared of None \<Rightarrow> inner1
                                    | Some rs \<Rightarrow> inner1\<lparr>tx_poll_routes := rs\<rparr>)
                    in (Inr (Subscribed (pipe_revents inner2 ep (pr_interests req))), inner2))))"

subsection \<open>Critical sections, functionally\<close>

abbreviation pipe_bytes :: "'r pipe_inner \<Rightarrow> byte list" where
  "pipe_bytes inner \<equiv> ring_list (pi_buf inner)"

abbreviation pipe_wf :: "'r pipe_inner \<Rightarrow> bool" where
  "pipe_wf inner \<equiv> ring_inv (pi_buf inner)"

lemma pipe_available_eq: "pipe_available inner = pipe_capacity inner - length (pipe_bytes inner)"
  by (simp add: pipe_available_def pipe_capacity_def hrb_available_def)

lemma hrb_is_empty_list: "hrb_is_empty r \<longleftrightarrow> ring_list r = []"
  by (metis hrb_is_empty_def length_0_conv length_ring_list)

lemma pipe_write_locked_spec:
  assumes "pipe_wf inner"
  shows "\<exists>ring'. pipe_write_locked inner buf =
      Inr (min (pipe_available inner) (length buf),
           if 0 < min (pipe_available inner) (length buf) then Some (rx_poll_routes inner) else None,
           inner\<lparr>pi_buf := ring'\<rparr>) \<and>
    ring_inv ring' \<and> ring_list ring' = pipe_bytes inner @ take (pipe_available inner) buf \<and>
    hrb_capacity ring' = pipe_capacity inner"
  using hrb_push_slice_spec [OF assms, of "take (pipe_available inner) buf"]
  by (fastforce simp: pipe_write_locked_def pipe_available_def pipe_capacity_def min_def)

lemma pipe_read_locked_spec:
  assumes "pipe_wf inner"
  shows "\<exists>ring'. pipe_read_locked inner buf =
      Inr (min (length (pipe_bytes inner)) (length buf),
           take (length buf) (pipe_bytes inner) @ drop (length (pipe_bytes inner)) buf,
           if 0 < min (length (pipe_bytes inner)) (length buf) then Some (tx_poll_routes inner) else None,
           inner\<lparr>pi_buf := ring'\<rparr>) \<and>
    ring_inv ring' \<and> ring_list ring' = drop (length buf) (pipe_bytes inner) \<and>
    hrb_capacity ring' = pipe_capacity inner"
  using hrb_pop_slice_spec [OF assms, of buf]
  by (fastforce simp: pipe_read_locked_def pipe_capacity_def)

text \<open>What a committed write leaves behind.\<close>

definition tx_wrote :: "'r pipe_inner \<Rightarrow> byte list \<Rightarrow> fault + 'r tx_attempt \<Rightarrow> bool" where
  "tx_wrote inner buf res \<longleftrightarrow>
     (\<exists>ring' effs. res = Inr (Tx_Return (Inr (min (pipe_available inner) (length buf)))
                           (inner\<lparr>pi_buf := ring'\<rparr>) effs) \<and>
        ring_inv ring' \<and> ring_list ring' = pipe_bytes inner @ take (pipe_available inner) buf \<and>
        hrb_capacity ring' = pipe_capacity inner)"

lemma tx_finish_wrote:
  assumes wf: "pipe_wf inner"
    and k: "k = min (pipe_available inner) (length buf)" and xs: "xs = buf \<or> xs = take k buf"
  shows "tx_wrote inner buf (tx_finish (pipe_write_locked inner xs))"
    and "\<exists>routes inner'. pipe_write_locked inner xs = Inr (k, routes, inner')"
proof -
  have eqs: "min (pipe_available inner) (length xs) = k"
      "take (pipe_available inner) xs = take (pipe_available inner) buf"
    using xs k by (cases "pipe_available inner \<le> length buf"; auto)+
  show "tx_wrote inner buf (tx_finish (pipe_write_locked inner xs))"
    using pipe_write_locked_spec [OF wf, of xs] k
    unfolding eqs by (auto simp: tx_finish_def tx_wrote_def)
  show "\<exists>routes inner'. pipe_write_locked inner xs = Inr (k, routes, inner')"
    using pipe_write_locked_spec [OF wf, of xs] unfolding eqs by blast
qed

lemma pipe_tx_write_broken:
  "rx_cnt inner = 0 \<Longrightarrow>
   pipe_tx_write nonblock buf inner = Inr (Tx_Return (Inl BrokenPipe) inner [Send_Sigpipe])"
  by (simp add: pipe_tx_write_def)

lemma pipe_tx_write_nonblock:
  assumes "pipe_wf inner" "rx_cnt inner \<noteq> 0"
  shows "if pipe_available inner = 0 \<or>
           (length buf \<le> PIPE_ATOMIC_WRITE_BYTES \<and> pipe_available inner < length buf)
         then pipe_tx_write True buf inner = Inr (Tx_Return (Inl Again) inner [])
         else tx_wrote inner buf (pipe_tx_write True buf inner)"
proof (cases "pipe_available inner = 0 \<or>
    (length buf \<le> PIPE_ATOMIC_WRITE_BYTES \<and> pipe_available inner < length buf)")
  case True
  with assms show ?thesis by (auto simp: pipe_tx_write_def)
next
  case False
  define w where "w = (if PIPE_ATOMIC_WRITE_BYTES < length buf
    then min (pipe_available inner) (length buf) else length buf)"
  have "take w buf = buf \<or> take w buf = take (min (pipe_available inner) (length buf)) buf"
    by (auto simp: w_def)
  from tx_finish_wrote(1) [OF assms(1) refl this] False assms(2) show ?thesis
    by (auto simp: pipe_tx_write_def Let_def w_def [symmetric])
qed

lemma pipe_tx_write_block:
  assumes wf: "pipe_wf inner" and rx: "rx_cnt inner \<noteq> 0"
  shows "if write_can_continue (length buf) inner
         then tx_wrote inner buf (pipe_tx_write False buf inner)
         else pipe_tx_write False buf inner = Inr Tx_Wait"
proof (cases "write_can_continue (length buf) inner")
  case False
  with rx show ?thesis by (auto simp: pipe_tx_write_def write_can_continue_def split: if_splits)
next
  case cont: True
  define k where "k = min (pipe_available inner) (length buf)"
  show ?thesis
  proof (cases "length buf \<le> PIPE_ATOMIC_WRITE_BYTES")
    case atomic: True
    with cont rx have fits: "length buf \<le> pipe_available inner"
      by (simp add: write_can_continue_def)
    then have "k = length buf" by (simp add: k_def)
    with tx_finish_wrote(1,2) [OF wf k_def, of buf] atomic fits cont rx show ?thesis
      by (auto simp: pipe_tx_write_def)
  next
    case large: False
    with tx_finish_wrote(1) [OF wf k_def, of "take k buf"] cont rx show ?thesis
      by (auto simp: pipe_tx_write_def Let_def k_def write_can_continue_def)
  qed
qed

text \<open>One pass of a writer never faults. It reports a broken or a full pipe and
  leaves the state alone, it waits, or it appends a prefix of the buffer.\<close>

lemma pipe_tx_write_cases [consumes 1, case_names error wait wrote]:
  assumes "pipe_wf inner"
  obtains
    (error) e effs where "pipe_tx_write nonblock buf inner = Inr (Tx_Return (Inl e) inner effs)"
  | (wait) "pipe_tx_write nonblock buf inner = Inr Tx_Wait"
  | (wrote) "tx_wrote inner buf (pipe_tx_write nonblock buf inner)"
  using pipe_tx_write_broken [of inner nonblock buf] pipe_tx_write_nonblock [OF assms, of buf]
    pipe_tx_write_block [OF assms, of buf]
  by (cases "rx_cnt inner = 0"; cases nonblock) (auto split: if_splits)

subsection \<open>Resizing\<close>

text \<open>\<open>c\<close> is the smallest power-of-two number of pages that holds \<open>n\<close> bytes.\<close>

definition least_page_capacity :: "nat \<Rightarrow> nat \<Rightarrow> bool" where
  "least_page_capacity n c \<longleftrightarrow>
     (\<exists>k. c = 2 ^ k * PIPE_ATOMIC_WRITE_BYTES \<and> n \<le> c \<and>
          (\<forall>j. n \<le> 2 ^ j * PIPE_ATOMIC_WRITE_BYTES \<longrightarrow> k \<le> j))"

lemma normalize_spec:
  "normalize_pipe_capacity requested = Inr c \<Longrightarrow> least_page_capacity requested c"
proof -
  assume n: "normalize_pipe_capacity requested = Inr c"
  show ?thesis
  proof (cases "requested = 0")
    case True
    with n show ?thesis unfolding least_page_capacity_def by (intro exI [of _ 0]) (simp add: normalize_pipe_capacity_def)
  next
    case False
    let ?pages = "(requested + 4095) div 4096"
    from False n have c: "c = next_pow2_from 1 ?pages * 4096"
      by (auto simp: normalize_pipe_capacity_def checked_next_power_of_two_def Let_def
          PIPE_ATOMIC_WRITE_BYTES_def u64_defs split: if_splits option.splits)
    obtain k where k: "next_pow2_from 1 ?pages = 2 ^ k"
      using next_pow2_from_power [of 0] by auto
    have "requested \<le> 2 ^ k * 4096"
      using next_pow2_from_ge [of 1 ?pages] k by simp
    moreover have "k \<le> j" if "requested \<le> 2 ^ j * 4096" for j
    proof -
      have "?pages \<le> 2 ^ j" using that by (simp add: less_mult_imp_div_less Suc_leI flip: less_Suc_eq_le)
      then have "(2::nat) ^ k \<le> 2 ^ j" using next_pow2_from_least [of ?pages j 0] k by simp
      then show ?thesis by simp
    qed
    ultimately show ?thesis using c k by (auto simp: least_page_capacity_def PIPE_ATOMIC_WRITE_BYTES_def)
  qed
qed

lemma resize_commit_spec [consumes 2, case_names same busy resized]:
  assumes wf: "pipe_wf inner" and cand: "hrb_try_new 1 1 ok capacity = Inr candidate"
  obtains (same) "capacity = pipe_capacity inner"
      "resize_commit capacity candidate inner = Inr (Inr (capacity, False, None), inner)"
  | (busy) "capacity < length (pipe_bytes inner)"
      "resize_commit capacity candidate inner = Inr (Inl Busy, inner)"
  | (resized) ring' routes where
      "resize_commit capacity candidate inner =
         Inr (Inr (capacity, pipe_capacity inner < capacity, routes), inner\<lparr>pi_buf := ring'\<rparr>)"
      "ring_inv ring'" "ring_list ring' = pipe_bytes inner" "hrb_capacity ring' = capacity"
proof (cases "capacity = pipe_capacity inner \<or> capacity < length (pipe_bytes inner)")
  case True
  then show ?thesis
    by (cases "capacity = pipe_capacity inner")
      (auto intro: same busy simp: resize_commit_def)
next
  case False
  from hrb_try_new_ok [OF cand] have c: "ring_inv candidate" "ring_list candidate = []"
    "hrb_capacity candidate = capacity" by auto
  obtain xs ys where s: "hrb_readable_slices (pi_buf inner) = Inr (xs, ys)" "xs @ ys = pipe_bytes inner"
    using hrb_readable_slices_spec [OF wf] by blast
  have room: "length xs + length ys \<le> capacity"
    using False s(2) by (metis length_append not_le)
  obtain c1 where c1: "hrb_try_push_slice candidate xs = Inr (length xs, c1)" "ring_inv c1"
      "ring_list c1 = xs" "hrb_capacity c1 = capacity"
    using heap_ring.push_slice_ok [OF c(1), of xs] c room by auto
  obtain c2 where c2: "hrb_try_push_slice c1 ys = Inr (length ys, c2)" "ring_inv c2"
      "ring_list c2 = xs @ ys" "hrb_capacity c2 = capacity"
    using heap_ring.push_slice_ok [OF c1(2), of ys] c1 room by auto
  have "length xs + length ys = ring_len (pi_buf inner)"
    using s(2) by (metis length_append length_ring_list)
  with False s c1 c2 show ?thesis
    by (intro resized [of _ c2]) (auto simp: resize_commit_def Let_def)
qed

subsection \<open>Participation histories\<close>

datatype part_op = Part_Join pipe_access | Part_Retire pipe_access

fun run_parts :: "part_op list \<Rightarrow> 'r pipe_inner \<Rightarrow> fault + 'r pipe_inner" where
  "run_parts [] inner = Inr inner"
| "run_parts (Part_Join a # ops) inner =
     (case add_participation a inner of Inl f \<Rightarrow> Inl f | Inr (_, inner', _) \<Rightarrow> run_parts ops inner')"
| "run_parts (Part_Retire a # ops) inner =
     (case retire_participation a inner of Inl f \<Rightarrow> Inl f | Inr (inner', _) \<Rightarrow> run_parts ops inner')"

lemma add_participation_gen:
  "add_participation a inner = Inr (start, inner', effs) \<Longrightarrow>
     rx_generation inner' = rx_generation inner + (if pa_can_read a then 1 else 0) \<and>
     tx_generation inner' = tx_generation inner + (if pa_can_write a then 1 else 0) \<and>
     rx_cnt inner' = rx_cnt inner + (if pa_can_read a then 1 else 0) \<and>
     tx_cnt inner' = tx_cnt inner + (if pa_can_write a then 1 else 0) \<and>
     observed start = \<lparr>gen_rx = rx_generation inner, gen_tx = tx_generation inner\<rparr> \<and>
     pi_buf inner' = pi_buf inner \<and> rx_poll_routes inner' = rx_poll_routes inner \<and>
     tx_poll_routes inner' = tx_poll_routes inner"
  by (cases a)
    (auto simp: add_participation_def add_participation_if_def join_rx_def join_tx_def u64_defs Let_def
      split: if_splits)

lemma retire_participation_frame:
  "retire_participation a inner = Inr (inner', effs) \<Longrightarrow>
     rx_generation inner' = rx_generation inner \<and> tx_generation inner' = tx_generation inner \<and>
     pi_buf inner' = pi_buf inner \<and> rx_poll_routes inner' = rx_poll_routes inner \<and>
     tx_poll_routes inner' = tx_poll_routes inner"
  by (cases a) (auto simp: retire_participation_def leave_rx_def leave_tx_def Let_def split: if_splits)

lemma run_parts_gen:
  "run_parts ops inner = Inr later \<Longrightarrow>
     tx_generation inner \<le> tx_generation later \<and> rx_generation inner \<le> rx_generation later \<and>
     (Part_Join a \<in> set ops \<longrightarrow> pa_can_write a \<longrightarrow> tx_generation inner < tx_generation later) \<and>
     (Part_Join a \<in> set ops \<longrightarrow> pa_can_read a \<longrightarrow> rx_generation inner < rx_generation later)"
proof (induction ops inner rule: run_parts.induct)
  case (1 inner)
  then show ?case by simp
next
  case (2 b ops inner)
  then show ?case
    by (force dest!: add_participation_gen split: sum.splits prod.splits if_splits)
next
  case (3 b ops inner)
  then show ?case
    by (force dest!: retire_participation_frame split: sum.splits prod.splits)
qed

subsection \<open>Properties of the operations\<close>

text \<open>C26: Writes of at most \<open>PIPE_BUF\<close> bytes are atomic. Whether the writer blocks
  or not, a pass that returns success has appended the whole buffer contiguously
  after the bytes already in the pipe, and every other outcome (an error or a
  wait) leaves the pipe exactly as it was; no pass faults.\<close>

theorem pipe_atomic_write:
  assumes "pipe_wf inner" "length buf \<le> PIPE_ATOMIC_WRITE_BYTES"
  shows "\<exists>att. pipe_tx_write nonblock buf inner = Inr att \<and>
    (case att of
       Tx_Wait \<Rightarrow> \<not> nonblock
     | Tx_Return (Inl e) inner' effs \<Rightarrow> inner' = inner \<and> e \<in> {BrokenPipe, Again}
     | Tx_Return (Inr n) inner' effs \<Rightarrow>
         n = length buf \<and> pipe_bytes inner' = pipe_bytes inner @ buf \<and> pipe_wf inner')"
proof (cases "rx_cnt inner = 0")
  case True
  then show ?thesis by (simp add: pipe_tx_write_broken)
next
  case False
  with pipe_tx_write_nonblock [OF assms(1) False, of buf] pipe_tx_write_block [OF assms(1) False, of buf]
    assms(2) show ?thesis
    by (cases nonblock) (auto simp: tx_wrote_def write_can_continue_def split: if_splits)
qed

theorem pipe_atomic_write_witness:
  "\<exists>att inner. pipe_try_new \<lparr>pipe_capacity_pages = 2, pipe_max_capacity_pages = 16\<rparr> True True =
     Inr (inner :: nat pipe_inner) \<and> pipe_tx_write True [1, 2, 3] inner = Inr att"
proof -
  obtain inner :: "nat pipe_inner" where i: "pipe_try_new
      \<lparr>pipe_capacity_pages = 2, pipe_max_capacity_pages = 16\<rparr> True True = Inr inner" "pipe_wf inner"
    by (force simp: pipe_try_new_def hrb_try_new_def layout_array_ok_def pipe_default_capacity_bytes_def
        PIPE_ATOMIC_WRITE_BYTES_def ring_inv_def ring_pos_def)
  have "length ([1, 2, 3] :: byte list) \<le> PIPE_ATOMIC_WRITE_BYTES"
    by (simp add: PIPE_ATOMIC_WRITE_BYTES_def)
  from pipe_atomic_write [OF i(2) this, of True] i(1) show ?thesis by blast
qed


definition example_pipe :: "nat pipe_inner" where
  "example_pipe = \<lparr>pi_buf = \<lparr>ring_buf = replicate 8192 None, ring_len = 0, ring_head = 0, ring_tail = 0\<rparr>,
     rx_cnt = 1, tx_cnt = 1, rx_generation = 1, tx_generation = 1,
     rx_poll_routes = [], tx_poll_routes = []\<rparr>"

lemma example_pipe_facts:
  "pipe_wf example_pipe" "pipe_available example_pipe = 8192" "pipe_capacity example_pipe = 8192"
  "pipe_bytes example_pipe = []" "rx_cnt example_pipe = 1"
  by (simp_all add: example_pipe_def ring_inv_def ring_pos_def pipe_available_def hrb_available_def
      hrb_capacity_def pipe_capacity_def ring_list_def)


text \<open>No lost wake-ups. A blocking writer waits in exactly the states where its
  wake-up predicate is false, a blocking reader likewise; and an atomic writer
  that waits can always be satisfied: once the pipe has been drained the
  predicate holds, because the capacity never drops below \<open>PIPE_BUF\<close>.\<close>

theorem pipe_wait_exact:
  assumes "pipe_wf inner" "PIPE_ATOMIC_WRITE_BYTES \<le> pipe_capacity inner"
  shows "(pipe_tx_write False buf inner = Inr Tx_Wait \<longleftrightarrow> \<not> write_can_continue (length buf) inner) \<and>
    (pipe_rx_admit False inner = Rx_Wait \<longleftrightarrow> \<not> read_can_continue inner) \<and>
    (pipe_bytes inner = [] \<longrightarrow> write_can_continue (length buf) inner)"
proof -
  have "pipe_tx_write False buf inner = Inr Tx_Wait \<longleftrightarrow> \<not> write_can_continue (length buf) inner"
  proof (cases "rx_cnt inner = 0")
    case True
    then show ?thesis by (simp add: pipe_tx_write_broken write_can_continue_def)
  next
    case False
    with pipe_tx_write_block [OF assms(1) False, of buf] show ?thesis
      by (auto simp: tx_wrote_def split: if_splits)
  qed
  moreover have "pipe_bytes inner = [] \<longrightarrow> write_can_continue (length buf) inner"
    using assms(2) by (auto simp: write_can_continue_def pipe_available_eq PIPE_ATOMIC_WRITE_BYTES_def)
  ultimately show ?thesis
    by (auto simp: pipe_rx_admit_def read_can_continue_def)
qed

theorem pipe_wait_exact_witness:
  "write_can_continue 5000 example_pipe \<and> pipe_rx_admit False example_pipe = Rx_Wait"
  using pipe_wait_exact [OF example_pipe_facts(1), of "replicate 5000 0"]
  by (simp add: PIPE_ATOMIC_WRITE_BYTES_def example_pipe_facts read_can_continue_def hrb_is_empty_list)
    (simp add: example_pipe_def)

text \<open>C28: Changing the capacity of a pipe never loses, reorders or invents a byte.
  Whatever other threads did between the two critical sections of \<open>resize_pipe\<close>,
  it does not fault, the unread bytes stay the same, and when it reports success
  with capacity \<open>c\<close> the pipe has capacity \<open>c\<close>: the smallest power-of-two number of
  pages that holds the requested size, at most the configured maximum.\<close>

theorem pipe_resize_preserves:
  assumes "pipe_wf inner1" "pipe_wf inner2"
  shows "\<exists>res inner'. resize_pipe cfg requested alloc_ok inner1 inner2 = Inr (res, inner') \<and>
    (inner' = inner1 \<or> (pipe_bytes inner' = pipe_bytes inner2 \<and> pipe_wf inner' \<and>
       rx_cnt inner' = rx_cnt inner2 \<and> tx_cnt inner' = tx_cnt inner2)) \<and>
    (\<forall>c grew routes. res = Inr (c, grew, routes) \<longrightarrow>
       pipe_capacity inner' = c \<and> c \<le> pipe_max_capacity_bytes cfg \<and>
       least_page_capacity requested c)"
proof (cases "normalize_pipe_capacity requested")
  case (Inl e)
  then show ?thesis by (simp add: resize_pipe_def)
next
  case (Inr c)
  note norm = normalize_spec [OF Inr]
  show ?thesis
  proof (cases "pipe_max_capacity_bytes cfg < c \<or> c = pipe_capacity inner1 \<or>
      c < ring_len (pi_buf inner1)")
    case True
    with Inr norm show ?thesis by (auto simp: resize_pipe_def)
  next
    case False
    show ?thesis
    proof (cases "hrb_try_new 1 1 alloc_ok c :: heap_ring_buffer_error + byte ring")
      case (Inl e)
      with Inr False show ?thesis by (simp add: resize_pipe_def)
    next
      case cand: (Inr candidate)
      with Inr False have "resize_pipe cfg requested alloc_ok inner1 inner2 =
          resize_commit c candidate inner2"
        by (simp add: resize_pipe_def)
      with norm False assms(2) show ?thesis
        by (cases rule: resize_commit_spec [OF assms(2) cand]) (auto simp: pipe_capacity_def)
    qed
  qed
qed

theorem pipe_resize_preserves_witness:
  "\<exists>res inner'. resize_pipe \<lparr>pipe_capacity_pages = 2, pipe_max_capacity_pages = 16\<rparr> 5000 True
     example_pipe example_pipe = Inr (res, inner')"
  using pipe_resize_preserves [OF example_pipe_facts(1) example_pipe_facts(1)] by blast



end
