(* ===== verification/User_Copy.thy ===== *)
theory User_Copy
  imports Sys_Error "HOL-Library.Word"
begin

text \<open>
  Copying kernel bytes to user memory: the architecture's store loop and its
  page-wise driver with one retry after a resolved page fault
  (\<open>arch/riscv64/exception/trap/user_ptr.rs\<close>), the checked user slices on uspace_top of
  it (\<open>syscall/user_access.rs\<close>), and the sink over the segments of a vectored
  read (\<open>fs/uio.rs\<close>). The user address space is a store of bytes with the
  fault, if any, that a store to an address raises. Resolving a page fault is
  the memory manager's business: it is a function \<open>resolve\<close> from the fault
  address and the address space to a success flag and a new address space.
\<close>

subsection \<open>The user address space\<close>

type_synonym ubyte = "8 word"

datatype fault_class = Page_Class | Access_Class

record user_space =
  us_mem :: "nat \<Rightarrow> ubyte"
  us_write :: "nat \<Rightarrow> fault_class option"

type_synonym resolver = "nat \<Rightarrow> user_space \<Rightarrow> bool \<times> user_space"

text \<open>The byte loop in assembly: the first store that traps leaves through the fixup
  with the number of bytes stored so far.\<close>

fun write_user_once :: "user_space \<Rightarrow> nat \<Rightarrow> ubyte list \<Rightarrow> fault_class option \<times> nat \<times> user_space" where
  "write_user_once us dst [] = (None, 0, us)"
| "write_user_once us dst (b # src) =
     (case us_write us dst of
        Some c \<Rightarrow> (Some c, 0, us)
      | None \<Rightarrow>
          (case write_user_once (us\<lparr>us_mem := (us_mem us)(dst := b)\<rparr>) (dst + 1) src of
             (c, n, us') \<Rightarrow> (c, Suc n, us')))"

definition write_once ::
  "user_space \<Rightarrow> nat \<Rightarrow> ubyte list \<Rightarrow> fault + ((fault_class \<times> nat) + nat) \<times> user_space" where
  "write_once us dst src =
     (if src = [] then Inr (Inr 0, us)
      else case write_user_once us dst src of
          (Some c, copied, us') \<Rightarrow> Inr (Inl (c, copied), us')
        | (None, copied, us') \<Rightarrow> if copied \<noteq> length src then Inl Assert_Panic else Inr (Inr copied, us'))"

text \<open>\<open>addr & (PAGE_SIZE_BYTES - 1)\<close> is the remainder.\<close>

definition bytes_until_page_end :: "nat \<Rightarrow> nat" where
  "bytes_until_page_end addr = PAGE_SIZE_BYTES - addr mod PAGE_SIZE_BYTES"

lemma bytes_until_page_end_pos [simp]: "0 < bytes_until_page_end addr"
  by (simp add: bytes_until_page_end_def)

text \<open>\<open>uspace_top\<close> is the end of the user half of the address space (\<open>USPACE_TOP_ADDR\<close>). The
  check keeps the address arithmetic of the copy inside 64 bits.\<close>

definition arch_validate_user_range :: "nat \<Rightarrow> nat \<Rightarrow> nat \<Rightarrow> (sys_error \<times> nat) + unit" where
  "arch_validate_user_range uspace_top start len =
     (case checked_add start len of
        None \<Rightarrow> Inl (BadAddress, 0)
      | Some e \<Rightarrow> if uspace_top \<le> start \<or> uspace_top < e then Inl (BadAddress, 0) else Inr ())"

text \<open>One iteration of the driver: a page-bounded chunk, and after a page fault that
  could be resolved the rest of the chunk once more.\<close>

datatype arch_step = Arch_Return "(sys_error \<times> nat) + nat" user_space | Arch_Continue nat user_space

definition arch_write_retry ::
  "nat \<Rightarrow> ubyte list \<Rightarrow> nat \<Rightarrow> nat \<Rightarrow> user_space \<Rightarrow> fault + arch_step" where
  "arch_write_retry dst src copied chunk_end us =
     (let retry_len = chunk_end - copied in
      case write_once us (dst + copied) (take retry_len (drop copied src)) of
        Inl f \<Rightarrow> Inl f
      | Inr (Inr done, us') \<Rightarrow>
          if done \<noteq> retry_len then Inl Assert_Panic else Inr (Arch_Continue (copied + done) us')
      | Inr (Inl (_, retry_copied), us') \<Rightarrow>
          if \<not> retry_copied < retry_len then Inl Assert_Panic
          else Inr (Arch_Return (Inl (BadAddress, copied + retry_copied)) us'))"

definition arch_write_chunk ::
  "resolver \<Rightarrow> nat \<Rightarrow> ubyte list \<Rightarrow> nat \<Rightarrow> user_space \<Rightarrow> fault + arch_step" where
  "arch_write_chunk resolve dst src copied us =
     (let addr = dst + copied;
          chunk_len = min (length src - copied) (bytes_until_page_end addr);
          chunk_end = copied + chunk_len
      in case write_once us addr (take chunk_len (drop copied src)) of
           Inl f \<Rightarrow> Inl f
         | Inr (Inr done, us1) \<Rightarrow>
             if done \<noteq> chunk_len then Inl Assert_Panic else Inr (Arch_Continue (copied + done) us1)
         | Inr (Inl (cls, fault_copied), us1) \<Rightarrow>
             if \<not> fault_copied < chunk_len then Inl Assert_Panic
             else
               (let copied1 = copied + fault_copied in
                if cls = Access_Class then Inr (Arch_Return (Inl (BadAddress, copied1)) us1)
                else case resolve (dst + copied1) us1 of
                    (False, us2) \<Rightarrow> Inr (Arch_Return (Inl (BadAddress, copied1)) us2)
                  | (True, us2) \<Rightarrow> arch_write_retry dst src copied1 chunk_end us2))"

lemma write_once_ok: "write_once us dst src = Inr (Inr n, us') \<Longrightarrow> n = length src"
  by (auto simp: write_once_def split: if_splits prod.splits option.splits)

lemma arch_write_chunk_progress:
  assumes "arch_write_chunk resolve dst src copied us = Inr (Arch_Continue n us')" "copied < length src"
  shows "copied < n"
  using assms
  by (auto simp: arch_write_chunk_def arch_write_retry_def Let_def min_def
      split: sum.splits prod.splits if_splits bool.splits)

function arch_write_loop ::
  "resolver \<Rightarrow> nat \<Rightarrow> ubyte list \<Rightarrow> nat \<Rightarrow> user_space \<Rightarrow> fault + ((sys_error \<times> nat) + nat) \<times> user_space" where
  "arch_write_loop resolve dst src copied us =
     (if \<not> copied < length src then Inr (Inr copied, us)
      else case arch_write_chunk resolve dst src copied us of
          Inl f \<Rightarrow> Inl f
        | Inr (Arch_Return res us') \<Rightarrow> Inr (res, us')
        | Inr (Arch_Continue n us') \<Rightarrow> arch_write_loop resolve dst src n us')"
  by pat_completeness auto
termination
  by (relation "measure (\<lambda>(resolve, dst, src, copied, us). length src - copied)")
    (auto dest: arch_write_chunk_progress)

declare arch_write_loop.simps [simp del]

definition arch_write ::
  "nat \<Rightarrow> resolver \<Rightarrow> nat \<Rightarrow> ubyte list \<Rightarrow> user_space \<Rightarrow> fault + ((sys_error \<times> nat) + nat) \<times> user_space" where
  "arch_write uspace_top resolve dst src us =
     (case arch_validate_user_range uspace_top dst (length src) of
        Inl e \<Rightarrow> Inr (Inl e, us)
      | Inr _ \<Rightarrow> if src = [] then Inr (Inr 0, us) else arch_write_loop resolve dst src 0 us)"

subsection \<open>User slices\<close>

definition user_pointer_addr :: "nat \<Rightarrow> nat \<Rightarrow> sys_error + nat" where
  "user_pointer_addr uspace_top arg = (if arg < uspace_top then Inr arg else Inl BadAddress)"

definition user_memory_error :: "sys_error \<Rightarrow> sys_error" where
  "user_memory_error err =
     (if err \<in> {InvalidArgument, PermissionDenied, NotMapped, RangeNotMapped} then BadAddress else err)"

definition validate_user_range :: "nat \<Rightarrow> nat \<Rightarrow> nat \<Rightarrow> sys_error + unit" where
  "validate_user_range uspace_top start len =
     (if uspace_top \<le> start then Inl BadAddress
      else case checked_add start len of
          None \<Rightarrow> Inl BadAddress
        | Some e \<Rightarrow> if uspace_top < e then Inl BadAddress else Inr ())"

text \<open>A byte slice in user memory: \<open>UserWriteSlice::try_new\<close> for bytes, and what
  \<open>write_user_bytes\<close> and \<open>copy_from_slice_partial\<close> do with it.\<close>

definition user_write_slice :: "nat \<Rightarrow> nat \<Rightarrow> nat \<Rightarrow> sys_error + nat" where
  "user_write_slice uspace_top addr len =
     (case user_pointer_addr uspace_top addr of
        Inl e \<Rightarrow> Inl e
      | Inr a \<Rightarrow>
          (case checked_mul len 1 of
             None \<Rightarrow> Inl InvalidArgument
           | Some byte_len \<Rightarrow>
               (case validate_user_range uspace_top a byte_len of Inl e \<Rightarrow> Inl e | Inr _ \<Rightarrow> Inr a)))"

definition write_user_bytes ::
  "nat \<Rightarrow> resolver \<Rightarrow> nat \<Rightarrow> ubyte list \<Rightarrow> user_space \<Rightarrow> fault + ((sys_error \<times> nat) + nat) \<times> user_space" where
  "write_user_bytes uspace_top resolve dst src us =
     (case arch_write uspace_top resolve dst src us of
        Inl f \<Rightarrow> Inl f
      | Inr (Inl (e, copied), us') \<Rightarrow> Inr (Inl (user_memory_error e, copied), us')
      | Inr (Inr copied, us') \<Rightarrow>
          if copied \<noteq> length src then Inl Assert_Panic else Inr (Inr copied, us'))"

definition copy_from_slice_partial ::
  "nat \<Rightarrow> resolver \<Rightarrow> nat \<Rightarrow> nat \<Rightarrow> ubyte list \<Rightarrow> user_space \<Rightarrow>
   fault + ((sys_error \<times> nat) + nat) \<times> user_space" where
  "copy_from_slice_partial uspace_top resolve ptr ptr_len src us =
     (if ptr_len < length src then Inl Assert_Panic else write_user_bytes uspace_top resolve ptr src us)"

subsection \<open>Cursors over the segments of a request\<close>

record user_buffer_segment =
  ub_base :: nat
  ub_len :: nat

record user_buffer_cursor =
  cur_segment :: nat
  cur_offset :: nat

function normalize_cursor :: "user_buffer_segment list \<Rightarrow> user_buffer_cursor \<Rightarrow> user_buffer_cursor" where
  "normalize_cursor segments cursor =
     (if cur_segment cursor < length segments \<and> ub_len (segments ! cur_segment cursor) \<le> cur_offset cursor
      then normalize_cursor segments \<lparr>cur_segment = cur_segment cursor + 1, cur_offset = 0\<rparr>
      else cursor)"
  by pat_completeness auto
termination
  by (relation "measure (\<lambda>(segments, cursor). length segments - cur_segment cursor)") auto

declare normalize_cursor.simps [simp del]

fun add_segment_lens :: "nat \<Rightarrow> user_buffer_segment list \<Rightarrow> fault + nat" where
  "add_segment_lens remaining [] = Inr remaining"
| "add_segment_lens remaining (s # segments) =
     (case checked_add remaining (ub_len s) of
        None \<Rightarrow> Inl Assert_Panic
      | Some r \<Rightarrow> add_segment_lens r segments)"

definition remaining_from :: "user_buffer_segment list \<Rightarrow> user_buffer_cursor \<Rightarrow> fault + nat" where
  "remaining_from segments cursor0 =
     (let cursor = normalize_cursor segments cursor0 in
      if length segments \<le> cur_segment cursor then Inr 0
      else add_segment_lens (ub_len (segments ! cur_segment cursor) - cur_offset cursor)
             (drop (cur_segment cursor + 1) segments))"

definition current_range ::
  "user_buffer_segment list \<Rightarrow> user_buffer_cursor \<Rightarrow> sys_error + (user_buffer_cursor \<times> nat \<times> nat) option" where
  "current_range segments cursor0 =
     (let cursor = normalize_cursor segments cursor0 in
      if length segments \<le> cur_segment cursor then Inr None
      else
        let segment = segments ! cur_segment cursor in
        case checked_add (ub_base segment) (cur_offset cursor) of
          None \<Rightarrow> Inl BadAddress
        | Some base \<Rightarrow> Inr (Some (cursor, base, ub_len segment - cur_offset cursor)))"

function advance_loop ::
  "user_buffer_segment list \<Rightarrow> user_buffer_cursor \<Rightarrow> nat \<Rightarrow> fault + user_buffer_cursor" where
  "advance_loop segments cursor delta =
     (if delta = 0 then Inr cursor
      else if length segments \<le> cur_segment cursor then Inl Index_Panic
      else
        let len = ub_len (segments ! cur_segment cursor) in
        if len < cur_offset cursor then Inl Overflow_Panic
        else
          let step = min delta (len - cur_offset cursor);
              offset = cur_offset cursor + step;
              cursor' = (if offset = len then \<lparr>cur_segment = cur_segment cursor + 1, cur_offset = 0\<rparr>
                         else cursor\<lparr>cur_offset := offset\<rparr>)
          in advance_loop segments cursor' (delta - step))"
  by pat_completeness auto
termination
  by (relation "measures [\<lambda>(segments, cursor, delta). delta,
      \<lambda>(segments, cursor, delta). length segments - cur_segment cursor]") auto

declare advance_loop.simps [simp del]

definition advance_cursor ::
  "user_buffer_segment list \<Rightarrow> user_buffer_cursor \<Rightarrow> nat \<Rightarrow> fault + user_buffer_cursor" where
  "advance_cursor segments cursor delta =
     (case remaining_from segments cursor of
        Inl f \<Rightarrow> Inl f
      | Inr remaining \<Rightarrow>
          if \<not> delta \<le> remaining then Inl Assert_Panic
          else map_sum id (normalize_cursor segments)
                 (advance_loop segments (normalize_cursor segments cursor) delta))"

subsection \<open>The sink\<close>

record user_buffer_sink =
  sink_segments :: "user_buffer_segment list"
  sink_cursor :: user_buffer_cursor
  sink_written :: nat

definition sink_new :: "user_buffer_segment list \<Rightarrow> user_buffer_sink" where
  "sink_new segments =
     \<lparr>sink_segments = segments, sink_cursor = \<lparr>cur_segment = 0, cur_offset = 0\<rparr>, sink_written = 0\<rparr>"

definition sink_remaining :: "user_buffer_sink \<Rightarrow> fault + nat" where
  "sink_remaining sink = remaining_from (sink_segments sink) (sink_cursor sink)"

text \<open>One iteration of the loop of \<open>write_from_slice\<close>: the chunk, the two assertions
  on what the copy reported, the cursor, and the decision to go on.\<close>

datatype sink_step = Sink_Return "sys_error + nat" user_buffer_sink user_space
  | Sink_Continue nat user_buffer_sink user_space

definition chunk_progress :: "nat \<Rightarrow> (sys_error \<times> nat) + nat \<Rightarrow> fault + nat" where
  "chunk_progress copy_len result =
     (case result of
        Inr chunk_copied \<Rightarrow> if chunk_copied \<noteq> copy_len then Inl Assert_Panic else Inr chunk_copied
      | Inl (_, chunk_copied) \<Rightarrow> if chunk_copied < copy_len then Inr chunk_copied else Inl Assert_Panic)"

definition sink_advance ::
  "user_buffer_sink \<Rightarrow> user_buffer_cursor \<Rightarrow> nat \<Rightarrow> fault + user_buffer_sink" where
  "sink_advance sink cursor chunk_copied =
     (case advance_cursor (sink_segments sink) cursor chunk_copied of
        Inl f \<Rightarrow> Inl f
      | Inr cursor' \<Rightarrow>
          (case checked_add (sink_written sink) chunk_copied of
             None \<Rightarrow> Inl Assert_Panic
           | Some written \<Rightarrow> Inr (sink\<lparr>sink_cursor := cursor', sink_written := written\<rparr>)))"

definition short_copy :: "nat \<Rightarrow> sys_error \<Rightarrow> sys_error + nat" where
  "short_copy copied err = (if 0 < copied then Inr copied else Inl err)"

definition sink_chunk ::
  "nat \<Rightarrow> resolver \<Rightarrow> ubyte list \<Rightarrow> nat \<Rightarrow> user_buffer_sink \<Rightarrow> user_space \<Rightarrow> fault + sink_step" where
  "sink_chunk uspace_top resolve src copied sink us =
     (case current_range (sink_segments sink) (sink_cursor sink) of
        Inl err \<Rightarrow> Inr (Sink_Return (short_copy copied err) sink us)
      | Inr None \<Rightarrow> Inr (Sink_Return (Inr copied) sink us)
      | Inr (Some (cursor, addr, available)) \<Rightarrow>
          (let copy_len = min (min (length src - copied) available) (bytes_until_page_end addr) in
           case user_write_slice uspace_top addr copy_len of
             Inl err \<Rightarrow> Inr (Sink_Return (short_copy copied err) sink us)
           | Inr dst \<Rightarrow>
               (case copy_from_slice_partial uspace_top resolve dst copy_len
                       (take copy_len (drop copied src)) us of
                  Inl f \<Rightarrow> Inl f
                | Inr (result, us') \<Rightarrow>
                    (case chunk_progress copy_len result of
                       Inl f \<Rightarrow> Inl f
                     | Inr chunk_copied \<Rightarrow>
                         (case sink_advance sink cursor chunk_copied of
                            Inl f \<Rightarrow> Inl f
                          | Inr sink' \<Rightarrow>
                              (case result of
                                 Inl (err, _) \<Rightarrow>
                                   Inr (Sink_Return (short_copy (copied + chunk_copied) err) sink' us')
                               | Inr _ \<Rightarrow> Inr (Sink_Continue (copied + chunk_copied) sink' us')))))))"

lemma normalized_offset:
  "cur_segment (normalize_cursor segs c) < length segs \<Longrightarrow>
     cur_offset (normalize_cursor segs c) < ub_len (segs ! cur_segment (normalize_cursor segs c))"
proof (induction segs c rule: normalize_cursor.induct)
  case (1 segs c)
  then show ?case by (subst (asm) (3) normalize_cursor.simps, subst (1 2) normalize_cursor.simps) (auto split: if_splits)
qed

lemma current_range_pos: "current_range segs c = Inr (Some (c', addr, available)) \<Longrightarrow> 0 < available"
  using normalized_offset [of segs c]
  by (auto simp: current_range_def Let_def split: if_splits option.splits)

lemma sink_chunk_progress:
  assumes "sink_chunk uspace_top resolve src copied sink us = Inr (Sink_Continue n sink' us')" "copied < length src"
  shows "copied < n"
  using assms
  by (auto simp: sink_chunk_def chunk_progress_def Let_def dest!: current_range_pos
      split: sum.splits option.splits prod.splits if_splits)

function sink_loop ::
  "nat \<Rightarrow> resolver \<Rightarrow> ubyte list \<Rightarrow> nat \<Rightarrow> user_buffer_sink \<Rightarrow> user_space \<Rightarrow>
   fault + (sys_error + nat) \<times> user_buffer_sink \<times> user_space" where
  "sink_loop uspace_top resolve src copied sink us =
     (if \<not> copied < length src then Inr (Inr copied, sink, us)
      else case sink_chunk uspace_top resolve src copied sink us of
          Inl f \<Rightarrow> Inl f
        | Inr (Sink_Return res sink' us') \<Rightarrow> Inr (res, sink', us')
        | Inr (Sink_Continue n sink' us') \<Rightarrow> sink_loop uspace_top resolve src n sink' us')"
  by pat_completeness auto
termination
  by (relation "measure (\<lambda>(uspace_top, resolve, src, copied, sink, us). length src - copied)")
    (auto dest: sink_chunk_progress)

declare sink_loop.simps [simp del]

definition write_from_slice ::
  "nat \<Rightarrow> resolver \<Rightarrow> user_buffer_sink \<Rightarrow> ubyte list \<Rightarrow> user_space \<Rightarrow>
   fault + (sys_error + nat) \<times> user_buffer_sink \<times> user_space" where
  "write_from_slice uspace_top resolve sink src us =
     (if src = [] then Inr (Inr 0, sink, us) else sink_loop uspace_top resolve src 0 sink us)"

text \<open>Marks: the progress of the sink since an earlier position.\<close>

definition sink_mark :: "user_buffer_sink \<Rightarrow> user_buffer_cursor \<times> nat" where
  "sink_mark sink = (sink_cursor sink, sink_written sink)"

definition sink_bytes_since :: "user_buffer_sink \<Rightarrow> user_buffer_cursor \<times> nat \<Rightarrow> fault + nat" where
  "sink_bytes_since sink mark =
     (if snd mark \<le> sink_written sink then Inr (sink_written sink - snd mark) else Inl Assert_Panic)"

subsection \<open>Bytes stored by the architecture\<close>

text \<open>A sequence of stores, in order.\<close>

definition put :: "(nat \<times> ubyte) list \<Rightarrow> (nat \<Rightarrow> ubyte) \<Rightarrow> nat \<Rightarrow> ubyte" where
  "put ws m = fold (\<lambda>(a, b) m. m(a := b)) ws m"

lemma put_simps [simp]: "put [] m = m" "put ((a, b) # ws) m = put ws (m(a := b))" "put (xs @ ys) m = put ys (put xs m)"
  by (simp_all add: put_def)

text \<open>The stores of a list \<open>ws\<close> from position \<open>i\<close> up to position \<open>n\<close> have been made.
  Resolving a page fault changes no byte.\<close>

definition moved :: "(nat \<times> ubyte) list \<Rightarrow> nat \<Rightarrow> nat \<Rightarrow> user_space \<Rightarrow> user_space \<Rightarrow> bool" where
  "moved ws i n us us' \<longleftrightarrow> us_mem us' = put (take (n - i) (drop i ws)) (us_mem us)"

lemma moved_refl [simp]: "moved ws i i us us"
  by (simp add: moved_def)

lemma moved_trans:
  assumes "moved ws i n us us'" "moved ws n m us' us''" "i \<le> n" "n \<le> m"
  shows "moved ws i m us us''"
proof -
  have "take (m - i) (drop i ws) = take (n - i) (drop i ws) @ take (m - n) (drop n ws)"
    using assms(3,4) take_add [of "n - i" "m - n" "drop i ws"] by (simp add: drop_drop)
  with assms(1,2) show ?thesis by (simp add: moved_def)
qed

definition keeps_bytes :: "resolver \<Rightarrow> bool" where
  "keeps_bytes resolve \<longleftrightarrow> (\<forall>a us. us_mem (snd (resolve a us)) = us_mem us)"

text \<open>No store to the \<open>n\<close> bytes from \<open>dst\<close> on traps.\<close>

definition storable :: "user_space \<Rightarrow> nat \<Rightarrow> nat \<Rightarrow> bool" where
  "storable us dst n \<longleftrightarrow> (\<forall>i < n. us_write us (dst + i) = None)"

lemma write_user_once_spec:
  "\<exists>c n us'. write_user_once us dst src = (c, n, us') \<and> n \<le> length src \<and>
     (c = None \<longleftrightarrow> n = length src) \<and> (\<forall>i < n. us_write us (dst + i) = None) \<and>
     (c \<noteq> None \<longrightarrow> us_write us (dst + n) = c) \<and> us_write us' = us_write us \<and>
     us_mem us' = put (zip [dst ..< dst + n] (take n src)) (us_mem us)"
proof (induction src arbitrary: us dst)
  case Nil
  then show ?case by simp
next
  case (Cons b src)
  show ?case
  proof (cases "us_write us dst")
    case None
    let ?u = "us\<lparr>us_mem := (us_mem us)(dst := b)\<rparr>"
    have u: "us_write ?u = us_write us" "us_mem ?u = (us_mem us)(dst := b)" by simp_all
    obtain c n us' where IH0: "write_user_once ?u (dst + 1) src = (c, n, us')"
      "n \<le> length src" "c = None \<longleftrightarrow> n = length src" "\<forall>i < n. us_write ?u (dst + 1 + i) = None"
      "c \<noteq> None \<longrightarrow> us_write ?u (dst + 1 + n) = c" "us_write us' = us_write ?u"
      "us_mem us' = put (zip [dst + 1 ..< dst + 1 + n] (take n src)) (us_mem ?u)"
      using Cons.IH [of ?u "dst + 1"] by blast
    note IH = IH0 [unfolded u]
    have "[dst ..< dst + Suc n] = dst # [dst + 1 ..< dst + 1 + n]" by (simp add: upt_rec [of dst])
    moreover have "us_write us (dst + i) = None" if "i < Suc n" for i
      using that None IH(4) by (cases i) auto
    ultimately show ?thesis using None IH 
      by (intro exI [of _ c] exI [of _ "Suc n"] exI [of _ us']) simp
  qed auto
qed

text \<open>What one call of the driver's two building blocks does.\<close>

lemma write_once_spec:
  obtains (full) us' where "write_once us dst src = Inr (Inr (length src), us')" "us_write us' = us_write us"
      "us_mem us' = put (zip [dst ..< dst + length src] src) (us_mem us)"
  | (fault) c n us' where "write_once us dst src = Inr (Inl (c, n), us')" "n < length src"
      "us_write us (dst + n) = Some c"
      "us_mem us' = put (zip [dst ..< dst + n] (take n src)) (us_mem us)"
proof (cases "src = []")
  case True
  then show thesis using full [of us] by (simp add: write_once_def)
next
  case False
  obtain c n us' where w: "write_user_once us dst src = (c, n, us')" "n \<le> length src" "c = None \<longleftrightarrow> n = length src"
    "c \<noteq> None \<longrightarrow> us_write us (dst + n) = c" "us_write us' = us_write us"
    "us_mem us' = put (zip [dst ..< dst + n] (take n src)) (us_mem us)"
    using write_user_once_spec [of us dst src] by blast
  show thesis
  proof (cases c)
    case None
    with w False show thesis using full [of us'] by (simp add: write_once_def)
  next
    case (Some cls)
    with w False show thesis using fault [of cls n us'] by (simp add: write_once_def)
  qed
qed

text \<open>The stores of a copy of \<open>src\<close> to \<open>dst\<close>.\<close>

abbreviation copy_to :: "nat \<Rightarrow> ubyte list \<Rightarrow> (nat \<times> ubyte) list" where
  "copy_to dst src \<equiv> zip [dst ..< dst + length src] src"

lemma copy_to_part:
  assumes "i + n \<le> length src"
  shows "take n (drop i (copy_to dst src)) = zip [dst + i ..< dst + i + n] (take n (drop i src))"
proof -
  have "take n (drop i [dst ..< dst + length src]) = [dst + i ..< dst + i + n]"
    using assms by (simp add: drop_upt take_upt)
  then show ?thesis by (simp add: drop_zip take_zip)
qed

lemma write_once_chunk [consumes 1, case_names full fault]:
  assumes "copied + k \<le> length src"
  obtains (full) us' where "write_once us (dst + copied) (take k (drop copied src)) = Inr (Inr k, us')"
      "us_write us' = us_write us" "moved (copy_to dst src) copied (copied + k) us us'"
  | (fault) c n us' where "write_once us (dst + copied) (take k (drop copied src)) = Inr (Inl (c, n), us')"
      "n < k" "us_write us (dst + (copied + n)) \<noteq> None" "moved (copy_to dst src) copied (copied + n) us us'"
proof -
  have len: "length (take k (drop copied src)) = k" using assms by simp
  have part: "take n (drop copied (copy_to dst src)) =
      zip [dst + copied ..< dst + copied + n] (take n (take k (drop copied src)))" if "n \<le> k" for n
    using copy_to_part [of copied n src dst] assms that by (simp add: min_def)
  show thesis
  proof (cases rule: write_once_spec [of us "dst + copied" "take k (drop copied src)"])
    case (full us')
    then show thesis using that(1) [of us'] part [of k] len by (simp add: moved_def)
  next
    case (fault c n us')
    then show thesis using that(2) [of c n us'] part [of n] len by (simp add: moved_def ac_simps)
  qed
qed

lemma arch_write_retry_cases [consumes 2, case_names go stop]:
  assumes "copied < chunk_end" "chunk_end \<le> length src"
  obtains (go) us' where "arch_write_retry dst src copied chunk_end us = Inr (Arch_Continue chunk_end us')"
      "moved (copy_to dst src) copied chunk_end us us'"
  | (stop) n us' where "arch_write_retry dst src copied chunk_end us = Inr (Arch_Return (Inl (BadAddress, n)) us')"
      "copied \<le> n" "n < chunk_end" "moved (copy_to dst src) copied n us us'"
proof -
  have le: "copied + (chunk_end - copied) \<le> length src" using assms by simp
  then show thesis
  proof (cases rule: write_once_chunk [where us = us and dst = dst])
    case (full us')
    then show thesis using that(1) [of us'] assms by (simp add: arch_write_retry_def Let_def)
  next
    case (fault c n us')
    then show thesis using that(2) [of "copied + n" us'] assms by (simp add: arch_write_retry_def Let_def)
  qed
qed

lemma arch_write_chunk_cases [consumes 1, case_names go stop]:
  assumes "copied < length src"
  obtains (go) n us' where "arch_write_chunk resolve dst src copied us = Inr (Arch_Continue n us')"
      "copied < n" "n \<le> length src" "keeps_bytes resolve \<longrightarrow> moved (copy_to dst src) copied n us us'"
      "storable us dst (length src) \<longrightarrow> us_write us' = us_write us"
  | (stop) n us' where "arch_write_chunk resolve dst src copied us = Inr (Arch_Return (Inl (BadAddress, n)) us')"
      "copied \<le> n" "n < length src" "keeps_bytes resolve \<longrightarrow> moved (copy_to dst src) copied n us us'"
      "\<not> storable us dst (length src)"
proof -
  define k where "k = min (length src - copied) (bytes_until_page_end (dst + copied))"
  have k: "0 < k" "copied + k \<le> length src" using assms by (simp_all add: k_def)
  from k(2) show thesis
  proof (cases rule: write_once_chunk [where us = us and dst = dst])
    case (full us')
    then show thesis using go [of "copied + k" us'] k
      by (simp add: arch_write_chunk_def Let_def flip: k_def)
  next
    case (fault c n us1)
    note n = fault(2) k
    have bad: "\<not> storable us dst (length src)"
      using fault(2,3) k unfolding storable_def by (metis add_less_cancel_left order_less_le_trans)
    obtain ok us2 where r: "resolve (dst + (copied + n)) us1 = (ok, us2)" by fastforce
    have kept: "keeps_bytes resolve \<Longrightarrow> moved (copy_to dst src) copied (copied + n) us us2"
      using fault(4) r unfolding keeps_bytes_def moved_def by (metis snd_conv)
    have chunk: "arch_write_chunk resolve dst src copied us =
        (if c = Access_Class then Inr (Arch_Return (Inl (BadAddress, copied + n)) us1)
         else if \<not> ok then Inr (Arch_Return (Inl (BadAddress, copied + n)) us2)
         else arch_write_retry dst src (copied + n) (copied + k) us2)"
      using fault(1,2) r by (simp add: arch_write_chunk_def Let_def split: bool.split flip: k_def)
    consider "c = Access_Class" | "c \<noteq> Access_Class" "\<not> ok" | "c \<noteq> Access_Class" ok by blast
    then show thesis
    proof cases
      case 1
      then show thesis using stop [of "copied + n" us1] chunk fault(4) n bad by simp
    next
      case 2
      then show thesis using stop [of "copied + n" us2] chunk kept n bad by simp
    next
      case 3
      have lt: "copied + n < copied + k" "copied + k \<le> length src" using n by simp_all
      then show thesis
      proof (cases rule: arch_write_retry_cases [where dst = dst and us = us2])
        case retry: (go us')
        then show thesis using go [of "copied + k" us'] 3 chunk k bad moved_trans [OF kept retry(2)] n
          by simp
      next
        case retry: (stop m us')
        then show thesis using stop [of m us'] 3 chunk k bad moved_trans [OF kept retry(4)] n
          by auto
      qed
    qed
  qed
qed

text \<open>The whole copy: it stores a prefix, in order, all of it unless a store fails.\<close>

definition partial_ok ::
  "resolver \<Rightarrow> nat \<Rightarrow> ubyte list \<Rightarrow> nat \<Rightarrow> user_space \<Rightarrow> (sys_error \<times> nat) + nat \<Rightarrow> user_space \<Rightarrow> bool" where
  "partial_ok resolve dst src i us res us' \<longleftrightarrow>
     (case res of
        Inr n \<Rightarrow> n = length src \<and> (keeps_bytes resolve \<longrightarrow> moved (copy_to dst src) i n us us') \<and>
          (storable us dst (length src) \<longrightarrow> us_write us' = us_write us)
      | Inl (e, n) \<Rightarrow> e = BadAddress \<and> i \<le> n \<and> n < length src \<and>
          (keeps_bytes resolve \<longrightarrow> moved (copy_to dst src) i n us us') \<and> \<not> storable us dst (length src))"

lemma partial_ok_step:
  assumes "partial_ok resolve dst src n us1 res us'" "i < n" "n \<le> length src"
    "keeps_bytes resolve \<longrightarrow> moved (copy_to dst src) i n us us1"
    "storable us dst (length src) \<longrightarrow> us_write us1 = us_write us"
  shows "partial_ok resolve dst src i us res us'"
proof -
  have "storable us1 dst (length src) \<and> us_write us1 = us_write us" if "storable us dst (length src)"
    using that assms(5) by (simp add: storable_def)
  with assms show ?thesis
    by (auto simp: partial_ok_def split: sum.splits intro: moved_trans)
qed

lemma arch_write_loop_spec:
  assumes "copied \<le> length src"
  shows "\<exists>res us'. arch_write_loop resolve dst src copied us = Inr (res, us') \<and>
    partial_ok resolve dst src copied us res us'"
  using assms
proof (induction resolve dst src copied us rule: arch_write_loop.induct)
  case (1 resolve dst src copied us)
  show ?case
  proof (cases "copied < length src")
    case False
    with "1.prems" have "copied = length src" by simp
    then show ?thesis by (simp add: arch_write_loop.simps [of resolve dst src "length src"] partial_ok_def)
  next
    case True
    then show ?thesis
    proof (cases rule: arch_write_chunk_cases [where resolve = resolve and dst = dst and us = us])
      case (go n us1)
      have loop: "arch_write_loop resolve dst src copied us = arch_write_loop resolve dst src n us1"
        using True go(1) by (simp add: arch_write_loop.simps [of resolve dst src copied])
      have "\<not> \<not> copied < length src" using True by simp
      from "1.IH" [OF this go(1) refl go(3)] partial_ok_step [OF _ go(2-5)] show ?thesis
        unfolding loop by blast
    next
      case (stop n us1)
      with True show ?thesis by (simp add: arch_write_loop.simps [of resolve dst src copied] partial_ok_def)
    qed
  qed
qed

text \<open>A checked copy to a slice below the top of the user address space.\<close>

lemma user_write_slice_ok:
  "user_write_slice uspace_top addr len = Inr dst \<Longrightarrow>
     dst = addr \<and> arch_validate_user_range uspace_top addr len = Inr ()"
  by (auto simp: user_write_slice_def user_pointer_addr_def validate_user_range_def u64_defs
      arch_validate_user_range_def split: if_splits sum.splits)

lemma copy_partial_spec:
  assumes "user_write_slice uspace_top addr (length src) = Inr dst"
  shows "dst = addr \<and> (\<exists>res us'. copy_from_slice_partial uspace_top resolve dst (length src) src us = Inr (res, us') \<and>
    partial_ok resolve addr src 0 us res us')"
proof -
  note ok = user_write_slice_ok [OF assms]
  have "\<exists>res us'. arch_write uspace_top resolve addr src us = Inr (res, us') \<and> partial_ok resolve addr src 0 us res us'"
    using ok arch_write_loop_spec [of 0 src resolve addr us]
    by (cases "src = []") (simp_all add: arch_write_def partial_ok_def [of _ _ "[]"])
  then obtain res us' where w: "arch_write uspace_top resolve addr src us = Inr (res, us')"
      "partial_ok resolve addr src 0 us res us'" by blast
  have "copy_from_slice_partial uspace_top resolve addr (length src) src us = Inr (res, us')"
    using w by (cases res)
      (auto simp: copy_from_slice_partial_def write_user_bytes_def user_memory_error_def partial_ok_def)
  with w(2) ok show ?thesis by blast
qed

subsection \<open>Positions in a vectored buffer\<close>

text \<open>A cursor stands for a position in the concatenation of the segments.\<close>

abbreviation segments_len :: "user_buffer_segment list \<Rightarrow> nat" where
  "segments_len segs \<equiv> sum_list (map ub_len segs)"

definition segment_addrs :: "user_buffer_segment \<Rightarrow> nat list" where
  "segment_addrs s = [ub_base s ..< ub_base s + ub_len s]"

definition buffer_addrs :: "user_buffer_segment list \<Rightarrow> nat list" where
  "buffer_addrs segs = concat (map segment_addrs segs)"

definition cursor_pos :: "user_buffer_segment list \<Rightarrow> user_buffer_cursor \<Rightarrow> nat" where
  "cursor_pos segs c = segments_len (take (cur_segment c) segs) + cur_offset c"

definition cursor_ok :: "user_buffer_segment list \<Rightarrow> user_buffer_cursor \<Rightarrow> bool" where
  "cursor_ok segs c \<longleftrightarrow> cur_segment c \<le> length segs \<and>
     (if cur_segment c < length segs then cur_offset c \<le> ub_len (segs ! cur_segment c) else cur_offset c = 0)"

lemma length_buffer_addrs [simp]: "length (buffer_addrs segs) = segments_len segs"
  by (induction segs) (simp_all add: buffer_addrs_def segment_addrs_def)

lemma segments_len_split:
  "i < length segs \<Longrightarrow>
     segments_len segs = segments_len (take i segs) + ub_len (segs ! i) + segments_len (drop (Suc i) segs)"
  by (subst id_take_nth_drop [of i segs]) simp_all

lemma segments_len_take_Suc:
  "i < length segs \<Longrightarrow> segments_len (take (Suc i) segs) = segments_len (take i segs) + ub_len (segs ! i)"
  by (simp add: take_Suc_conv_app_nth)

lemma cursor_pos_le: "cursor_ok segs c \<Longrightarrow> cursor_pos segs c \<le> segments_len segs"
  using segments_len_split [of "cur_segment c" segs]
  by (auto simp: cursor_ok_def cursor_pos_def split: if_splits)

lemma normalize_spec_cursor:
  assumes "cursor_ok segs c"
  shows "cursor_ok segs (normalize_cursor segs c) \<and> cursor_pos segs (normalize_cursor segs c) = cursor_pos segs c"
  using assms
proof (induction segs c rule: normalize_cursor.induct)
  case (1 segs c)
  show ?case
  proof (cases "cur_segment c < length segs \<and> ub_len (segs ! cur_segment c) \<le> cur_offset c")
    case True
    with "1.IH" "1.prems" show ?thesis
      by (auto simp: normalize_cursor.simps [of segs c] cursor_ok_def cursor_pos_def segments_len_take_Suc)
  next
    case False
    with "1.prems" show ?thesis by (subst (1 2) normalize_cursor.simps) auto
  qed
qed

lemma add_segment_lens_spec:
  "r + segments_len segs < u64_limit \<Longrightarrow> add_segment_lens r segs = Inr (r + segments_len segs)"
  by (induction segs arbitrary: r) (simp_all add: u64_defs)

lemma remaining_from_spec:
  assumes "cursor_ok segs c" "segments_len segs < u64_limit"
  shows "remaining_from segs c = Inr (segments_len segs - cursor_pos segs c)"
proof -
  let ?c = "normalize_cursor segs c"
  have c: "cursor_ok segs ?c" "cursor_pos segs ?c = cursor_pos segs c"
    using normalize_spec_cursor [OF assms(1)] by auto
  show ?thesis
  proof (cases "cur_segment ?c < length segs")
    case True
    have pos: "cursor_pos segs c = segments_len (take (cur_segment ?c) segs) + cur_offset ?c"
      using c(2) by (simp add: cursor_pos_def [of segs ?c])
    with True segments_len_split [OF True] normalized_offset [OF True] assms(2) show ?thesis
      using add_segment_lens_spec [of "ub_len (segs ! cur_segment ?c) - cur_offset ?c" "drop (Suc (cur_segment ?c)) segs"]
      by (simp add: remaining_from_def Let_def)
  next
    case False
    then have "cursor_pos segs ?c = segments_len segs" using c(1) by (simp add: cursor_ok_def cursor_pos_def)
    with False c(2) show ?thesis by (simp add: remaining_from_def Let_def)
  qed
qed

lemma drop_buffer_addrs:
  assumes "cur_segment c < length segs" "cur_offset c \<le> ub_len (segs ! cur_segment c)"
  shows "drop (cursor_pos segs c) (buffer_addrs segs) =
    [ub_base (segs ! cur_segment c) + cur_offset c ..< ub_base (segs ! cur_segment c) + ub_len (segs ! cur_segment c)] @
    buffer_addrs (drop (Suc (cur_segment c)) segs)"
proof -
  let ?i = "cur_segment c"
  have "buffer_addrs segs = buffer_addrs (take ?i segs) @ segment_addrs (segs ! ?i) @ buffer_addrs (drop (Suc ?i) segs)"
    unfolding buffer_addrs_def by (subst id_take_nth_drop [OF assms(1)]) simp
  then show ?thesis
    using assms(2) by (simp add: cursor_pos_def segment_addrs_def drop_upt)
qed

text \<open>The range that a cursor points at: it is the next part of the buffer.\<close>

lemma current_range_cases [consumes 1, case_names overflow finished range]:
  assumes "cursor_ok segs c"
  obtains (overflow) "current_range segs c = Inl BadAddress" "cursor_pos segs c < segments_len segs"
      "u64_limit \<le> buffer_addrs segs ! cursor_pos segs c"
  | (finished) "current_range segs c = Inr None" "cursor_pos segs c = segments_len segs"
  | (range) c' addr n where "current_range segs c = Inr (Some (c', addr, n))" "0 < n"
      "cursor_ok segs c'" "cursor_pos segs c' = cursor_pos segs c" "cursor_pos segs c + n \<le> segments_len segs"
      "take n (drop (cursor_pos segs c) (buffer_addrs segs)) = [addr ..< addr + n]"
proof -
  let ?c = "normalize_cursor segs c"
  have c: "cursor_ok segs ?c" "cursor_pos segs ?c = cursor_pos segs c"
    using normalize_spec_cursor [OF assms(1)] by auto
  show thesis
  proof (cases "cur_segment ?c < length segs")
    case True
    let ?s = "segs ! cur_segment ?c"
    note off = normalized_offset [OF True]
    have pos: "cursor_pos segs c + (ub_len ?s - cur_offset ?c) \<le> segments_len segs"
      using segments_len_split [OF True] off c(2) by (simp add: cursor_pos_def [of segs ?c])
    have addrs: "drop (cursor_pos segs c) (buffer_addrs segs) =
        [ub_base ?s + cur_offset ?c ..< ub_base ?s + ub_len ?s] @ buffer_addrs (drop (Suc (cur_segment ?c)) segs)"
      using drop_buffer_addrs [of ?c segs] True off c(2) by simp
    show thesis
    proof (cases "ub_base ?s + cur_offset ?c < u64_limit")
      case fits: True
      then have "current_range segs c =
          Inr (Some (?c, ub_base ?s + cur_offset ?c, ub_len ?s - cur_offset ?c))"
        using True by (simp add: current_range_def Let_def u64_defs)
      then show thesis using range [of ?c] off c pos unfolding addrs by simp
    next
      case False
      then have "current_range segs c = Inl BadAddress"
        using True by (simp add: current_range_def Let_def u64_defs)
      moreover have "drop (cursor_pos segs c) (buffer_addrs segs) ! 0 = ub_base ?s + cur_offset ?c"
        unfolding addrs using off by (simp add: nth_append)
      then have "buffer_addrs segs ! cursor_pos segs c = ub_base ?s + cur_offset ?c"
        using pos off by (simp add: nth_drop)
      ultimately show thesis using overflow pos off False by simp
    qed
  next
    case False
    then have "cursor_pos segs ?c = segments_len segs" using c(1) by (simp add: cursor_ok_def cursor_pos_def)
    with False c(2) show thesis using finished by (simp add: current_range_def Let_def)
  qed
qed

lemma advance_loop_spec:
  assumes "cursor_ok segs c" "cursor_pos segs c + delta \<le> segments_len segs"
  shows "\<exists>c'. advance_loop segs c delta = Inr c' \<and> cursor_ok segs c' \<and> cursor_pos segs c' = cursor_pos segs c + delta"
  using assms
proof (induction segs c delta rule: advance_loop.induct)
  case (1 segs c delta)
  show ?case
  proof (cases "delta = 0")
    case True
    with "1.prems" show ?thesis by (simp add: advance_loop.simps [of segs c])
  next
    case False
    let ?len = "ub_len (segs ! cur_segment c)"
    have seg: "cur_segment c < length segs"
      using False "1.prems" by (auto simp: cursor_ok_def cursor_pos_def split: if_splits)
    then have off: "cur_offset c \<le> ?len" using "1.prems"(1) by (simp add: cursor_ok_def)
    define step where "step = min delta (?len - cur_offset c)"
    define c' where "c' = (if cur_offset c + step = ?len then \<lparr>cur_segment = cur_segment c + 1, cur_offset = 0\<rparr>
      else c\<lparr>cur_offset := cur_offset c + step\<rparr>)"
    have loop: "advance_loop segs c delta = advance_loop segs c' (delta - step)"
      using False seg off by (simp add: advance_loop.simps [of segs c] Let_def c'_def step_def)
    have c': "cursor_ok segs c'" "cursor_pos segs c' = cursor_pos segs c + step"
      using seg off by (auto simp: c'_def step_def cursor_ok_def cursor_pos_def segments_len_take_Suc)
    have "step \<le> delta" by (simp add: step_def)
    moreover have "\<not> length segs \<le> cur_segment c" "\<not> ?len < cur_offset c" using seg off by simp_all
    note "1.IH" [OF False this(1) refl this(2) refl refl refl, folded step_def, folded c'_def]
    ultimately show ?thesis using c' "1.prems"(2) unfolding loop by simp
  qed
qed

lemma advance_cursor_spec:
  assumes "cursor_ok segs c" "segments_len segs < u64_limit" "cursor_pos segs c + delta \<le> segments_len segs"
  shows "\<exists>c'. advance_cursor segs c delta = Inr c' \<and> cursor_ok segs c' \<and> cursor_pos segs c' = cursor_pos segs c + delta"
proof -
  have "cursor_ok segs (normalize_cursor segs c)" "cursor_pos segs (normalize_cursor segs c) = cursor_pos segs c"
    using normalize_spec_cursor [OF assms(1)] by auto
  with advance_loop_spec [of segs "normalize_cursor segs c" delta] assms obtain c1 where
    "advance_loop segs (normalize_cursor segs c) delta = Inr c1" "cursor_ok segs c1"
    "cursor_pos segs c1 = cursor_pos segs c + delta" by auto
  with normalize_spec_cursor [of segs c1] remaining_from_spec [OF assms(1,2)] assms(3) show ?thesis
    by (simp add: advance_cursor_def)
qed

subsection \<open>The sink delivers a prefix\<close>

abbreviation sink_addrs :: "user_buffer_sink \<Rightarrow> nat list" where
  "sink_addrs sink \<equiv> buffer_addrs (sink_segments sink)"

abbreviation sink_pos :: "user_buffer_sink \<Rightarrow> nat" where
  "sink_pos sink \<equiv> cursor_pos (sink_segments sink) (sink_cursor sink)"

definition sink_left :: "user_buffer_sink \<Rightarrow> nat" where
  "sink_left sink = segments_len (sink_segments sink) - sink_pos sink"

definition sink_ok :: "user_buffer_sink \<Rightarrow> bool" where
  "sink_ok sink \<longleftrightarrow> cursor_ok (sink_segments sink) (sink_cursor sink) \<and>
     segments_len (sink_segments sink) < u64_limit \<and> sink_written sink + sink_left sink < u64_limit"

text \<open>The addresses lie in the user half and no store to them traps.\<close>

definition addrs_clear :: "nat \<Rightarrow> user_space \<Rightarrow> nat list \<Rightarrow> bool" where
  "addrs_clear uspace_top us as \<longleftrightarrow> (\<forall>a \<in> set as. a < uspace_top \<and> us_write us a = None)"

text \<open>The sink has moved from byte \<open>i\<close> of \<open>src\<close> to byte \<open>n\<close>; byte \<open>0\<close> was at position \<open>p\<close>.\<close>

definition sink_moved ::
  "resolver \<Rightarrow> ubyte list \<Rightarrow> nat \<Rightarrow> nat \<Rightarrow> nat \<Rightarrow> user_buffer_sink \<Rightarrow> user_space \<Rightarrow>
   user_buffer_sink \<Rightarrow> user_space \<Rightarrow> bool" where
  "sink_moved resolve src p i n sink us sink' us' \<longleftrightarrow>
     i \<le> n \<and> n \<le> length src \<and> n \<le> i + sink_left sink \<and> sink_ok sink' \<and> sink_segments sink' = sink_segments sink \<and>
     sink_pos sink' = p + n \<and> sink_written sink' = sink_written sink + (n - i) \<and>
     (keeps_bytes resolve \<longrightarrow> moved (zip (drop p (sink_addrs sink)) src) i n us us')"

lemma sink_moved_refl:
  "sink_ok sink \<Longrightarrow> sink_pos sink = p + i \<Longrightarrow> i \<le> length src \<Longrightarrow> sink_moved resolve src p i i sink us sink us"
  by (simp add: sink_moved_def)

lemma sink_moved_trans:
  assumes "sink_moved resolve src p i n sink us sink1 us1" "sink_moved resolve src p n m sink1 us1 sink2 us2"
    "sink_pos sink = p + i"
  shows "sink_moved resolve src p i m sink us sink2 us2"
proof -
  note a = assms(1) [unfolded sink_moved_def] and b = assms(2) [unfolded sink_moved_def]
  have segs: "sink_segments sink1 = sink_segments sink" and pos: "sink_pos sink1 = p + n" using a by blast+
  have "sink_left sink1 = segments_len (sink_segments sink) - (p + n)" using pos segs by (simp add: sink_left_def)
  moreover have "sink_left sink = segments_len (sink_segments sink) - (p + i)" unfolding sink_left_def assms(3) ..
  moreover have "keeps_bytes resolve \<longrightarrow> moved (zip (drop p (sink_addrs sink)) src) i m us us2"
    using a b moved_trans unfolding segs by blast
  ultimately show ?thesis using a b unfolding sink_moved_def segs by auto
qed

lemma sink_advance_spec:
  assumes ok: "sink_ok sink" and c: "cursor_ok (sink_segments sink) c" "cursor_pos (sink_segments sink) c = sink_pos sink"
    and k: "k \<le> sink_left sink"
  shows "\<exists>sink'. sink_advance sink c k = Inr sink' \<and> sink_ok sink' \<and> sink_segments sink' = sink_segments sink \<and>
    sink_pos sink' = sink_pos sink + k \<and> sink_written sink' = sink_written sink + k"
proof -
  have le: "sink_pos sink \<le> segments_len (sink_segments sink)" using ok cursor_pos_le by (simp add: sink_ok_def)
  have "cursor_pos (sink_segments sink) c + k \<le> segments_len (sink_segments sink)"
    using k c(2) le by (simp add: sink_left_def)
  from advance_cursor_spec [OF c(1) _ this] ok obtain c' where
    "advance_cursor (sink_segments sink) c k = Inr c'" "cursor_ok (sink_segments sink) c'"
    "cursor_pos (sink_segments sink) c' = sink_pos sink + k" using c(2) by (auto simp: sink_ok_def)
  moreover have "sink_written sink + k < u64_limit" using ok k by (simp add: sink_ok_def)
  ultimately show ?thesis
    using ok k by (auto simp: sink_advance_def u64_defs sink_ok_def sink_left_def)
qed

lemma slice_clear:
  assumes "\<forall>i < k. addr + i < uspace_top" "0 < k" "uspace_top < u64_limit"
  shows "user_write_slice uspace_top addr k = Inr addr"
proof -
  have "addr + (k - 1) < uspace_top" "addr + 0 < uspace_top" using assms(1,2) by (metis diff_less less_one)+
  with assms(2,3) show ?thesis
    by (simp add: user_write_slice_def user_pointer_addr_def validate_user_range_def u64_defs)
qed

text \<open>One chunk: it ends the copy (cleanly only at the end of the buffer) or goes on.\<close>

lemma sink_chunk_cases [consumes 3, case_names stop go]:
  assumes ok: "sink_ok sink" and pos: "sink_pos sink = p + i" and i: "i < length src"
  obtains (stop) res n sink' us' where
      "sink_chunk uspace_top resolve src i sink us = Inr (Sink_Return res sink' us')"
      "sink_moved resolve src p i n sink us sink' us'" "res = short_copy n BadAddress \<or> res = Inr i \<and> n = i \<and> sink_left sink = 0"
      "uspace_top < u64_limit \<and> addrs_clear uspace_top us (take (length src - i) (drop (p + i) (sink_addrs sink))) \<longrightarrow>
         sink_left sink = 0 \<and> res = Inr i"
  | (go) n sink' us' where
      "sink_chunk uspace_top resolve src i sink us = Inr (Sink_Continue n sink' us')" "i < n"
      "sink_moved resolve src p i n sink us sink' us'"
      "addrs_clear uspace_top us (take (length src - i) (drop (p + i) (sink_addrs sink))) \<longrightarrow> us_write us' = us_write us"
proof -
  let ?segs = "sink_segments sink"
  let ?clear = "uspace_top < u64_limit \<and> addrs_clear uspace_top us (take (length src - i) (drop (p + i) (sink_addrs sink)))"
  have cok: "cursor_ok ?segs (sink_cursor sink)" using ok by (simp add: sink_ok_def)
  note refl = sink_moved_refl [OF ok pos less_imp_le [OF i], of resolve us]
  from cok show thesis
  proof (cases rule: current_range_cases)
    case overflow
    have "buffer_addrs ?segs ! (p + i) \<in> set (take (length src - i) (drop (p + i) (buffer_addrs ?segs)))"
    proof -
      have "0 < length (take (length src - i) (drop (p + i) (buffer_addrs ?segs)))"
        using overflow(2) pos i by simp
      then have "take (length src - i) (drop (p + i) (buffer_addrs ?segs)) ! 0 \<in>
          set (take (length src - i) (drop (p + i) (buffer_addrs ?segs)))" by (rule nth_mem)
      then show ?thesis using overflow(2) pos i by simp
    qed
    moreover have "\<not> buffer_addrs ?segs ! (p + i) < uspace_top" if "uspace_top < u64_limit"
      using that overflow(3) pos by simp
    ultimately have "\<not> ?clear" unfolding addrs_clear_def by blast
    with overflow(1) refl show thesis
      using stop [of "short_copy i BadAddress" sink us i] by (auto simp: sink_chunk_def)
  next
    case finished
    then show thesis using stop [of "Inr i" sink us i] refl by (simp add: sink_chunk_def sink_left_def)
  next
    case (range c addr n)
    define k where "k = min (min (length src - i) n) (bytes_until_page_end addr)"
    define part where "part = take k (drop i src)"
    have k: "0 < k" "k \<le> n" "k \<le> length src - i" "k \<le> PAGE_SIZE_BYTES"
      using i range(2) by (simp_all add: k_def bytes_until_page_end_def)
    have part: "length part = k" using k(3) by (simp add: part_def)
    have left: "n \<le> sink_left sink" using range(5) by (simp add: sink_left_def)
    have addrs: "take m (drop (p + i) (sink_addrs sink)) = [addr ..< addr + m]" if "m \<le> k" for m
    proof -
      have "take m (take n (drop (p + i) (sink_addrs sink))) = [addr ..< addr + m]"
        using range(6) that k(2) pos by (simp add: take_upt)
      then show ?thesis using that k(2) by (simp add: min_def)
    qed
    have sub: "addr + j \<in> set (take (length src - i) (drop (p + i) (sink_addrs sink)))" if "j < k" for j
    proof -
      have "addr + j \<in> set [addr ..< addr + k]" using that by simp
      then show ?thesis
        using set_take_subset_set_take [OF k(3), of "drop (p + i) (sink_addrs sink)"] unfolding addrs [OF order_refl]
        by (rule rev_subsetD)
    qed
    then have clear: "\<forall>j < k. addr + j < uspace_top \<and> us_write us (addr + j) = None" if "?clear"
      using that unfolding addrs_clear_def by blast
    have mv: "moved (zip (drop p (sink_addrs sink)) src) i (i + m) us us'" if "moved (copy_to addr part) 0 m us us'" "m \<le> k" for m us'
    proof -
      have "take m (drop i (zip (drop p (sink_addrs sink)) src)) = zip [addr ..< addr + m] (take m part)"
        using addrs [OF that(2)] that(2) k by (simp add: drop_zip take_zip part_def min_def add.commute)
      moreover have "take m (copy_to addr part) = zip [addr ..< addr + m] (take m part)"
        using that(2) part by (simp add: take_zip take_upt)
      ultimately show ?thesis using that(1) by (simp add: moved_def)
    qed
    have adv: "\<exists>sink'. sink_advance sink c m = Inr sink' \<and> (\<forall>us'. (keeps_bytes resolve \<longrightarrow> moved (copy_to addr part) 0 m us us') \<longrightarrow>
        sink_moved resolve src p i (i + m) sink us sink' us')" if "m \<le> k" for m
      using sink_advance_spec [OF ok range(3,4), of m] that k left pos mv [OF _ that]
      by (auto simp: sink_moved_def)
    show thesis
    proof (cases "user_write_slice uspace_top addr k")
      case (Inl e)
      have "e = BadAddress" using Inl k(4)
        by (auto simp: user_write_slice_def user_pointer_addr_def validate_user_range_def u64_defs split: if_splits)
      moreover have "\<not> ?clear" using Inl clear slice_clear [of k addr uspace_top] k(1) by auto
      ultimately show thesis
        using stop [of "short_copy i BadAddress" sink us i] range(1) Inl refl
        by (auto simp: sink_chunk_def Let_def simp flip: k_def)
    next
      case (Inr dst)
      obtain res us' where copy: "dst = addr" "copy_from_slice_partial uspace_top resolve addr k part us = Inr (res, us')"
        "partial_ok resolve addr part 0 us res us'"
        using copy_partial_spec [of uspace_top addr part dst resolve us] Inr part by auto
      show thesis
      proof (cases res)
        case full: (Inr m)
        with copy(3) part have m: "m = k" "keeps_bytes resolve \<longrightarrow> moved (copy_to addr part) 0 k us us'"
          "storable us addr k \<longrightarrow> us_write us' = us_write us" by (auto simp: partial_ok_def)
        obtain sink' where a: "sink_advance sink c k = Inr sink'" "sink_moved resolve src p i (i + k) sink us sink' us'"
          using adv [of k] m(2) by blast
        have "sink_chunk uspace_top resolve src i sink us = Inr (Sink_Continue (i + k) sink' us')"
          using range(1) Inr copy(1,2) a(1) full m(1)
          by (simp add: sink_chunk_def Let_def chunk_progress_def flip: k_def part_def)
        moreover have "us_write us' = us_write us" if "addrs_clear uspace_top us (take (length src - i) (drop (p + i) (sink_addrs sink)))"
          using that sub m(3) unfolding addrs_clear_def storable_def by blast
        ultimately show thesis using go [of "i + k" sink' us'] a(2) k(1) by simp
      next
        case (Inl x)
        with copy(3) part obtain m where m: "x = (BadAddress, m)" "m < k"
          "keeps_bytes resolve \<longrightarrow> moved (copy_to addr part) 0 m us us'" "\<not> storable us addr k"
          by (cases x) (auto simp: partial_ok_def)
        obtain sink' where a: "sink_advance sink c m = Inr sink'" "sink_moved resolve src p i (i + m) sink us sink' us'"
          using adv [of m] m(2,3) by auto
        have "sink_chunk uspace_top resolve src i sink us = Inr (Sink_Return (short_copy (i + m) BadAddress) sink' us')"
          using range(1) Inr copy(1,2) a(1) Inl m(1,2)
          by (simp add: sink_chunk_def Let_def chunk_progress_def flip: k_def part_def)
        moreover have "\<not> ?clear" using clear m(4) by (auto simp: storable_def)
        ultimately show thesis using stop [of "short_copy (i + m) BadAddress" sink' us' "i + m"] a(2) by auto
      qed
    qed
  qed
qed

lemma min_eq_0 [simp]: "min a b = 0 \<longleftrightarrow> a = 0 \<or> b = (0 :: nat)"
  by (auto simp: min_def)

text \<open>The result of a copy from byte \<open>i\<close> on, of which \<open>n\<close> bytes arrive.\<close>

definition sink_result :: "nat \<Rightarrow> user_space \<Rightarrow> ubyte list \<Rightarrow> nat \<Rightarrow> nat \<Rightarrow> user_buffer_sink \<Rightarrow> nat \<Rightarrow> sys_error + nat \<Rightarrow> bool" where
  "sink_result uspace_top us src p i sink n res \<longleftrightarrow>
     (res = short_copy n BadAddress \<or> res = Inr n \<and> n = min (length src) (i + sink_left sink)) \<and>
     (uspace_top < u64_limit \<and> addrs_clear uspace_top us (take (length src - i) (drop (p + i) (sink_addrs sink))) \<longrightarrow>
        n = min (length src) (i + sink_left sink) \<and> res = Inr n)"

lemma sink_loop_spec:
  assumes "sink_ok sink" "sink_pos sink = p + i" "i \<le> length src"
  shows "\<exists>n res sink' us'. sink_loop uspace_top resolve src i sink us = Inr (res, sink', us') \<and>
    sink_moved resolve src p i n sink us sink' us' \<and> sink_result uspace_top us src p i sink n res"
  using assms
proof (induction uspace_top resolve src i sink us rule: sink_loop.induct)
  case (1 uspace_top resolve src i sink us)
  show ?case
  proof (cases "i < length src")
    case False
    with "1.prems" have "i = length src" by simp
    with "1.prems" sink_moved_refl [of sink p i src resolve us] show ?thesis
      by (intro exI [of _ i]) (simp add: sink_loop.simps [of uspace_top resolve src "length src"] sink_result_def)
  next
    case True
    with "1.prems"(1,2) show ?thesis
    proof (cases rule: sink_chunk_cases [where uspace_top = uspace_top and resolve = resolve and us = us])
      case (stop res n sink' us')
      then have "sink_result uspace_top us src p i sink n res"
        using True unfolding sink_result_def by (auto simp: sink_moved_def)
      with True stop(1,2) show ?thesis by (simp add: sink_loop.simps [of uspace_top resolve src i]) blast
    next
      case (go n sink1 us1)
      have loop: "sink_loop uspace_top resolve src i sink us = sink_loop uspace_top resolve src n sink1 us1"
        using True go(1) by (simp add: sink_loop.simps [of uspace_top resolve src i])
      have mv: "sink_ok sink1" "sink_pos sink1 = p + n" "n \<le> length src" "sink_segments sink1 = sink_segments sink"
          "n \<le> i + sink_left sink"
        using go(3) unfolding sink_moved_def by blast+
      have left: "n + sink_left sink1 = i + sink_left sink"
      proof -
        have "p + i \<le> segments_len (sink_segments sink)"
          using "1.prems"(1,2) cursor_pos_le [of "sink_segments sink" "sink_cursor sink"] by (simp add: sink_ok_def)
        then show ?thesis using mv(2,4,5) "1.prems"(2) by (simp add: sink_left_def)
      qed
      have "\<not> \<not> i < length src" using True by simp
      from "1.IH" [OF this go(1) refl mv(1-3)] obtain m res sink' us' where IH:
        "sink_loop uspace_top resolve src n sink1 us1 = Inr (res, sink', us')"
        "sink_moved resolve src p n m sink1 us1 sink' us'" "sink_result uspace_top us1 src p n sink1 m res" by blast
      have "addrs_clear uspace_top us1 (take (length src - n) (drop (p + n) (sink_addrs sink1)))"
        if "addrs_clear uspace_top us (take (length src - i) (drop (p + i) (sink_addrs sink)))"
      proof -
        have "take (length src - n) (drop (p + n) (sink_addrs sink)) =
            drop (n - i) (take (length src - i) (drop (p + i) (sink_addrs sink)))"
          using go(2) by (simp add: drop_take add.commute)
        then have "set (take (length src - n) (drop (p + n) (sink_addrs sink))) \<subseteq>
            set (take (length src - i) (drop (p + i) (sink_addrs sink)))" by (metis set_drop_subset)
        then show ?thesis using that go(4) mv(4) unfolding addrs_clear_def by auto
      qed
      with IH(3) left have "sink_result uspace_top us src p i sink m res" by (auto simp: sink_result_def)
      with IH sink_moved_trans [OF go(3) IH(2) "1.prems"(2)] show ?thesis unfolding loop by blast
    qed
  qed
qed

lemma write_from_slice_spec:
  assumes "sink_ok sink"
  obtains n res sink' us' where "write_from_slice uspace_top resolve sink src us = Inr (res, sink', us')"
    "sink_moved resolve src (sink_pos sink) 0 n sink us sink' us'"
    "sink_result uspace_top us src (sink_pos sink) 0 sink n res"
proof (cases "src = []")
  case True
  then show thesis
    using that [of "Inr 0" sink us 0] sink_moved_refl [OF assms, of "sink_pos sink" 0 src resolve us]
    by (simp add: write_from_slice_def sink_result_def)
next
  case False
  with sink_loop_spec [OF assms, of "sink_pos sink" 0 src uspace_top resolve us] that show thesis
    by (auto simp: write_from_slice_def)
qed

text \<open>What a reader relies on: a nonempty copy to a sink that has room makes progress,
  or fails without having moved.\<close>

lemma write_from_slice_progress:
  assumes "sink_ok sink" "src \<noteq> []" "0 < sink_left sink"
  shows "\<exists>res sink' us'. write_from_slice uspace_top resolve sink src us = Inr (res, sink', us') \<and>
    (case res of Inl e \<Rightarrow> e = BadAddress | Inr n \<Rightarrow> 0 < n \<and> n \<le> length src)"
  using assms(2,3)
  by (rule_tac write_from_slice_spec [OF assms(1), of uspace_top resolve src us])
    (auto simp: sink_moved_def sink_result_def short_copy_def split: if_splits)

subsection \<open>Properties\<close>

text \<open>C0: Copying to user memory is exact. Whatever segments the caller passed (empty and
  overlapping ones included), wherever stores trap and however the page faults are
  resolved, the copy never panics; it stores a prefix of the source, byte by byte at the
  next addresses of the segments in order, and the cursor and the count of the sink move
  by exactly that many bytes. It reports that number, or an error if it is zero although
  there was something to copy and room for it; and if the addresses lie in the user half
  and no store to them traps, the prefix is everything that fits. Resolving a page fault
  is assumed to change no user byte.\<close>

theorem sink_write_exact:
  assumes "sink_ok sink" "keeps_bytes resolve"
  shows "\<exists>n res sink' us'. write_from_slice uspace_top resolve sink src us = Inr (res, sink', us') \<and>
    n \<le> min (length src) (sink_left sink) \<and>
    us_mem us' = put (take n (zip (drop (sink_pos sink) (sink_addrs sink)) src)) (us_mem us) \<and>
    sink_ok sink' \<and> sink_segments sink' = sink_segments sink \<and> sink_pos sink' = sink_pos sink + n \<and>
    sink_written sink' = sink_written sink + n \<and>
    (res = Inr n \<and> (n = 0 \<longrightarrow> src = [] \<or> sink_left sink = 0) \<or> res = Inl BadAddress \<and> n = 0) \<and>
    (uspace_top < u64_limit \<and> addrs_clear uspace_top us (take (length src) (drop (sink_pos sink) (sink_addrs sink))) \<longrightarrow>
       n = min (length src) (sink_left sink) \<and> res = Inr n)"
proof -
  obtain n res sink' us' where w: "write_from_slice uspace_top resolve sink src us = Inr (res, sink', us')"
    "sink_moved resolve src (sink_pos sink) 0 n sink us sink' us'"
    "sink_result uspace_top us src (sink_pos sink) 0 sink n res"
    by (rule write_from_slice_spec [OF assms(1)])
  have "res = Inr n \<and> (n = 0 \<longrightarrow> src = [] \<or> sink_left sink = 0) \<or> res = Inl BadAddress \<and> n = 0"
    using w(3) by (auto simp: sink_result_def short_copy_def split: if_splits)
  with w assms(2) show ?thesis
    by (intro exI [of _ n] exI [of _ res] exI [of _ sink'] exI [of _ us'])
      (auto simp: sink_moved_def sink_result_def moved_def)
qed

definition example_sink :: user_buffer_sink where
  "example_sink = sink_new [\<lparr>ub_base = 100, ub_len = 2\<rparr>, \<lparr>ub_base = 200, ub_len = 0\<rparr>, \<lparr>ub_base = 300, ub_len = 3\<rparr>]"

definition example_space :: user_space where
  "example_space = \<lparr>us_mem = (\<lambda>_. 0), us_write = (\<lambda>_. None)\<rparr>"

theorem sink_write_exact_witness:
  "\<exists>sink' us'. write_from_slice 1000 (\<lambda>_ us. (False, us)) example_sink [1, 2, 3, 4] example_space = Inr (Inr 4, sink', us') \<and>
     us_mem us' 101 = 2 \<and> us_mem us' 300 = 3 \<and> us_mem us' 301 = 4 \<and> us_mem us' 302 = 0 \<and> sink_pos sink' = 4"
proof -
  have ok: "sink_ok example_sink" "keeps_bytes (\<lambda>_ us. (False, us))"
    by (simp_all add: sink_ok_def sink_left_def example_sink_def sink_new_def cursor_ok_def cursor_pos_def keeps_bytes_def)
  have pos: "sink_pos example_sink = 0" "sink_left example_sink = 5" "sink_addrs example_sink = [100, 101, 300, 301, 302]"
    by (simp_all add: sink_left_def example_sink_def sink_new_def cursor_pos_def buffer_addrs_def segment_addrs_def upt_rec)
  show ?thesis
    using sink_write_exact [OF ok, of 1000 "[1, 2, 3, 4]" example_space] pos
    by (auto simp: addrs_clear_def example_space_def)
qed

end
