(* ===== verification/Pipe_System.thy ===== *)
theory Pipe_System
  imports Pipe User_Copy
begin

text \<open>
  Many readers and writers on one pipe. A step is one critical section of the
  inner lock, in any interleaving: writes, reads into a kernel buffer, the
  sections of a read that copies straight to user memory (with the copy itself
  as a step outside the lock), capacity changes, poll registrations, and
  participants that join and leave. The system carries two ghost streams (the
  bytes accepted, the bytes handed out), the participations that are still
  outstanding and the number of admissions so far. A step that panics or has
  undefined behaviour ends in \<open>Inl\<close>; no rule requires that its section succeeds.
\<close>

subsection \<open>The system\<close>

text \<open>The read gate \<open>read_operation\<close>, with what its holder has fixed so far: the length
  of the prefix, then its bytes, then how many of them have reached user memory.\<close>

datatype read_gate =
    Gate_Free
  | Gate_Staged nat user_buffer_sink
  | Gate_Snapshot "byte list" user_buffer_sink
  | Gate_Copied "byte list" nat

record 'r pipe_sys =
  sys_inner :: "'r pipe_inner"
  sys_gate :: read_gate
  sys_accepted :: "byte list"
  sys_handed_out :: "byte list"
  sys_participants :: "pipe_access multiset"
  sys_joins :: nat

text \<open>The result of a critical section, lifted to the system.\<close>

definition lift_step ::
  "'r pipe_sys \<Rightarrow> (fault + 'a) \<Rightarrow> ('a \<Rightarrow> 'r pipe_sys) \<Rightarrow> fault + 'r pipe_sys" where
  "lift_step s res f = (case res of Inl e \<Rightarrow> Inl e | Inr x \<Rightarrow> Inr (f x))"

fun after_write :: "'r pipe_sys \<Rightarrow> byte list \<Rightarrow> 'r tx_attempt \<Rightarrow> 'r pipe_sys" where
  "after_write s buf Tx_Wait = s"
| "after_write s buf (Tx_Return (Inl e) inner' effs) = s\<lparr>sys_inner := inner'\<rparr>"
| "after_write s buf (Tx_Return (Inr n) inner' effs) =
     s\<lparr>sys_inner := inner', sys_accepted := sys_accepted s @ take n buf\<rparr>"

fun after_read :: "'r pipe_sys \<Rightarrow> 'r rx_consumed \<Rightarrow> 'r pipe_sys" where
  "after_read s Rx_Eof = s"
| "after_read s Rx_Retry = s"
| "after_read s (Rx_Read n buf' inner' effs) =
     s\<lparr>sys_inner := inner', sys_handed_out := sys_handed_out s @ take n buf'\<rparr>"

text \<open>The sections of \<open>pipe_rx_read_user_transaction\<close>: the request is what the sink of
  the caller still takes; an empty request returns at once.\<close>

definition user_stage_section :: "user_buffer_sink \<Rightarrow> 'r pipe_sys \<Rightarrow> fault + 'r pipe_sys" where
  "user_stage_section dst s =
     (case sink_remaining dst of
        Inl f \<Rightarrow> Inl f
      | Inr requested \<Rightarrow>
          if requested = 0 then Inr s
          else (case pipe_user_stage requested (sys_inner s) of
                  Stage_Len k \<Rightarrow> Inr (s\<lparr>sys_gate := Gate_Staged k dst\<rparr>)
                | _ \<Rightarrow> Inr s))"

text \<open>The copy to user memory and the assertion on its result.\<close>

definition user_copy_section ::
  "nat \<Rightarrow> resolver \<Rightarrow> user_space \<Rightarrow> byte list \<Rightarrow> user_buffer_sink \<Rightarrow> 'r pipe_sys \<Rightarrow> fault + 'r pipe_sys" where
  "user_copy_section uspace_top resolve us staged dst s =
     (case write_from_slice uspace_top resolve dst staged us of
        Inl f \<Rightarrow> Inl f
      | Inr (Inl e, _) \<Rightarrow> Inr (s\<lparr>sys_gate := Gate_Free\<rparr>)
      | Inr (Inr copied, _) \<Rightarrow>
          if 0 < copied \<and> copied \<le> length staged then Inr (s\<lparr>sys_gate := Gate_Copied staged copied\<rparr>)
          else Inl Assert_Panic)"

fun after_join :: "'r pipe_sys \<Rightarrow> pipe_access \<Rightarrow> (participation_start \<times> 'r pipe_inner \<times> 'r pipe_effect list) option \<Rightarrow> 'r pipe_sys" where
  "after_join s access None = s"
| "after_join s access (Some (start, inner', effs)) =
     s\<lparr>sys_inner := inner', sys_participants := add_mset access (sys_participants s), sys_joins := sys_joins s + 1\<rparr>"

inductive pipe_step :: "pipe_config \<Rightarrow> 'r pipe_sys \<Rightarrow> fault + 'r pipe_sys \<Rightarrow> bool"
  for cfg :: pipe_config where
  tx_write: "pipe_step cfg s (lift_step s (pipe_tx_write nonblock buf (sys_inner s)) (after_write s buf))"
| rx_read: "sys_gate s = Gate_Free \<Longrightarrow>
     pipe_step cfg s (lift_step s (pipe_rx_consume (sys_inner s) buf) (after_read s))"
| user_stage: "\<lbrakk> sys_gate s = Gate_Free; sink_ok dst \<rbrakk> \<Longrightarrow> pipe_step cfg s (user_stage_section dst s)"
| user_snapshot: "sys_gate s = Gate_Staged k dst \<Longrightarrow>
     pipe_step cfg s (lift_step s (pipe_user_snapshot k (sys_inner s))
       (\<lambda>staged. s\<lparr>sys_gate := Gate_Snapshot staged dst\<rparr>))"
| user_no_memory: "sys_gate s = Gate_Staged k dst \<Longrightarrow> pipe_step cfg s (Inr (s\<lparr>sys_gate := Gate_Free\<rparr>))"
| user_copy: "sys_gate s = Gate_Snapshot staged dst \<Longrightarrow>
     pipe_step cfg s (user_copy_section uspace_top resolve us staged dst s)"
| user_commit: "sys_gate s = Gate_Copied staged copied \<Longrightarrow>
     pipe_step cfg s (lift_step s (pipe_user_commit staged copied (sys_inner s))
       (\<lambda>(inner', effs). s\<lparr>sys_inner := inner', sys_gate := Gate_Free,
          sys_handed_out := sys_handed_out s @ take copied staged\<rparr>))"
| resize: "\<lbrakk> normalize_pipe_capacity requested = Inr capacity; capacity \<le> pipe_max_capacity_bytes cfg;
     hrb_try_new 1 1 alloc_ok capacity = Inr candidate \<rbrakk> \<Longrightarrow>
     pipe_step cfg s (lift_step s (resize_commit capacity candidate (sys_inner s))
       (\<lambda>(res, inner'). s\<lparr>sys_inner := inner'\<rparr>))"
| subscribe: "pipe_step cfg s (Inr (s\<lparr>sys_inner :=
     snd (pipe_poll prunable mem_rx mem_tx ep req (sys_inner s))\<rparr>))"
| join: "pipe_step cfg s (lift_step s (add_participation_if access admit (sys_inner s)) (after_join s access))"
| leave: "access \<in># sys_participants s \<Longrightarrow>
     pipe_step cfg s (lift_step s (retire_participation access (sys_inner s))
       (\<lambda>(inner', effs). s\<lparr>sys_inner := inner',
          sys_participants := sys_participants s - {#access#}\<rparr>))"

inductive pipe_reachable :: "pipe_config \<Rightarrow> 'r pipe_sys \<Rightarrow> bool"
  for cfg :: pipe_config where
  created: "pipe_try_new cfg alloc_ok arc_ok = Inr inner \<Longrightarrow>
     pipe_reachable cfg \<lparr>sys_inner = inner, sys_gate = Gate_Free, sys_accepted = [],
       sys_handed_out = [], sys_participants = {#}, sys_joins = 0\<rparr>"
| stepped: "\<lbrakk> pipe_reachable cfg s; pipe_step cfg s (Inr t) \<rbrakk> \<Longrightarrow> pipe_reachable cfg t"

subsection \<open>The invariant\<close>

definition gate_ok :: "read_gate \<Rightarrow> byte list \<Rightarrow> bool" where
  "gate_ok g bytes =
     (case g of
        Gate_Free \<Rightarrow> True
      | Gate_Staged k dst \<Rightarrow> 0 < k \<and> k \<le> length bytes \<and> sink_ok dst \<and> 0 < sink_left dst
      | Gate_Snapshot staged dst \<Rightarrow>
          staged \<noteq> [] \<and> take (length staged) bytes = staged \<and> sink_ok dst \<and> 0 < sink_left dst
      | Gate_Copied staged copied \<Rightarrow>
          0 < copied \<and> copied \<le> length staged \<and> take (length staged) bytes = staged)"

definition sys_inv :: "pipe_config \<Rightarrow> 'r pipe_sys \<Rightarrow> bool" where
  "sys_inv cfg s \<longleftrightarrow>
     pipe_wf (sys_inner s) \<and>
     sys_accepted s = sys_handed_out s @ pipe_bytes (sys_inner s) \<and>
     gate_ok (sys_gate s) (pipe_bytes (sys_inner s)) \<and>
     PIPE_ATOMIC_WRITE_BYTES \<le> pipe_capacity (sys_inner s) \<and>
     pipe_capacity (sys_inner s) \<le> pipe_max_capacity_bytes cfg \<and>
     rx_cnt (sys_inner s) = size (filter_mset pa_can_read (sys_participants s)) \<and>
     tx_cnt (sys_inner s) = size (filter_mset pa_can_write (sys_participants s)) \<and>
     size (sys_participants s) \<le> sys_joins s \<and>
     rx_generation (sys_inner s) \<le> sys_joins s \<and> tx_generation (sys_inner s) \<le> sys_joins s"

text \<open>A step keeps the invariant: it ends in no fault, and in a good state. The one
  exception is an admission that overflows a 64-bit counter.\<close>

definition step_ok :: "pipe_config \<Rightarrow> 'r pipe_sys \<Rightarrow> fault + 'r pipe_sys \<Rightarrow> bool" where
  "step_ok cfg s res \<longleftrightarrow> (\<exists>t. res = Inr t \<and> sys_inv cfg t) \<or> res = Inl Assert_Panic \<and> u64_max \<le> sys_joins s"

lemma step_ok_Inr [simp]: "step_ok cfg s (Inr t) \<longleftrightarrow> sys_inv cfg t"
  by (simp add: step_ok_def)

lemma step_ok_lift:
  "res = Inr x \<Longrightarrow> sys_inv cfg (f x) \<Longrightarrow> step_ok cfg s (lift_step s res f)"
  by (simp add: lift_step_def)

lemma gate_ok_append: "gate_ok g bytes \<Longrightarrow> gate_ok g (bytes @ ys)"
  by (auto simp: gate_ok_def split: read_gate.splits dest!: arg_cong [of _ _ length] simp: min_def
      split: if_splits)

lemma inner_upd [simp]:
  "pipe_capacity (inner\<lparr>pi_buf := r\<rparr>) = hrb_capacity r"
  by (simp add: pipe_capacity_def)

lemma write_step:
  assumes "sys_inv cfg s"
  shows "step_ok cfg s (lift_step s (pipe_tx_write nonblock buf (sys_inner s)) (after_write s buf))"
proof -
  have wf: "pipe_wf (sys_inner s)" using assms by (simp add: sys_inv_def)
  then show ?thesis
  proof (cases rule: pipe_tx_write_cases [where nonblock = nonblock and buf = buf])
    case (error e effs)
    with assms show ?thesis by (simp add: step_ok_lift)
  next
    case wait
    with assms show ?thesis by (simp add: step_ok_lift)
  next
    case wrote
    then obtain ring' effs where "pipe_tx_write nonblock buf (sys_inner s) =
        Inr (Tx_Return (Inr (min (pipe_available (sys_inner s)) (length buf)))
          ((sys_inner s)\<lparr>pi_buf := ring'\<rparr>) effs)"
      "ring_inv ring'" "ring_list ring' = pipe_bytes (sys_inner s) @ take (pipe_available (sys_inner s)) buf"
      "hrb_capacity ring' = pipe_capacity (sys_inner s)"
      unfolding tx_wrote_def by blast
    with assms show ?thesis
      by (auto intro!: step_ok_lift simp: sys_inv_def gate_ok_append)
  qed
qed

lemma read_step:
  assumes "sys_inv cfg s" "sys_gate s = Gate_Free"
  shows "step_ok cfg s (lift_step s (pipe_rx_consume (sys_inner s) buf) (after_read s))"
proof (cases "hrb_is_empty (pi_buf (sys_inner s))")
  case True
  with assms show ?thesis
    by (cases "tx_cnt (sys_inner s) = 0") (auto intro!: step_ok_lift simp: pipe_rx_consume_def)
next
  case False
  have wf: "pipe_wf (sys_inner s)" using assms by (simp add: sys_inv_def)
  have "pipe_bytes (sys_inner s) = take (length buf) (pipe_bytes (sys_inner s)) @
      drop (length buf) (pipe_bytes (sys_inner s))" by simp
  with pipe_read_locked_spec [OF wf, of buf] False assms show ?thesis
    by (auto intro!: step_ok_lift simp: pipe_rx_consume_def sys_inv_def gate_ok_def min_def)
qed

lemma snapshot_step:
  assumes "sys_inv cfg s" "sys_gate s = Gate_Staged k dst"
  shows "step_ok cfg s (lift_step s (pipe_user_snapshot k (sys_inner s))
     (\<lambda>staged. s\<lparr>sys_gate := Gate_Snapshot staged dst\<rparr>))"
proof -
  from assms have wf: "pipe_wf (sys_inner s)" and k: "0 < k" "k \<le> length (pipe_bytes (sys_inner s))"
    by (auto simp: sys_inv_def gate_ok_def)
  obtain xs ys where "hrb_readable_slices (pi_buf (sys_inner s)) = Inr (xs, ys)"
      "xs @ ys = pipe_bytes (sys_inner s)"
    using hrb_readable_slices_spec [OF wf] by blast
  with k have "pipe_user_snapshot k (sys_inner s) = Inr (take k (pipe_bytes (sys_inner s)))"
    by (auto simp: pipe_user_snapshot_def hrb_iter_def Let_def)
  moreover have "pipe_bytes (sys_inner s) \<noteq> []" using k by (metis length_0_conv less_le_trans less_numeral_extra(3))
  ultimately show ?thesis
    using assms k by (intro step_ok_lift) (auto simp: sys_inv_def gate_ok_def min_def)
qed

lemma pop_expected_spec:
  assumes "ring_inv r" "take (length bs) (ring_list r) = bs"
  shows "\<exists>r'. pop_expected r bs = Inr r' \<and> ring_inv r' \<and>
     ring_list r' = drop (length bs) (ring_list r) \<and> hrb_capacity r' = hrb_capacity r"
  using assms
proof (induction bs arbitrary: r)
  case Nil
  then show ?case by simp
next
  case (Cons b bs)
  from Cons.prems(2) obtain xs where xs: "ring_list r = b # xs" "take (length bs) xs = bs"
    by (cases "ring_list r") auto
  obtain r1 where r1: "hrb_try_pop r = Inr (Some b, r1)" "ring_inv r1" "ring_list r1 = xs"
      "hrb_capacity r1 = hrb_capacity r"
    using hrb_pop_spec [OF Cons.prems(1) xs(1)] by blast
  with Cons.IH [of r1] xs show ?case by auto
qed

lemma commit_step:
  assumes inv: "sys_inv cfg s" and gate: "sys_gate s = Gate_Copied staged copied"
  shows "step_ok cfg s (lift_step s (pipe_user_commit staged copied (sys_inner s))
     (\<lambda>(inner', effs). s\<lparr>sys_inner := inner', sys_gate := Gate_Free,
        sys_handed_out := sys_handed_out s @ take copied staged\<rparr>))"
proof -
  let ?bytes = "pipe_bytes (sys_inner s)"
  from inv gate have wf: "pipe_wf (sys_inner s)" and st: "take (length staged) ?bytes = staged"
      and copied: "0 < copied" "copied \<le> length staged"
    by (auto simp: sys_inv_def gate_ok_def)
  have pre: "take copied ?bytes = take copied staged"
    using st copied by (metis min.absorb1 take_take)
  have len: "length (take copied staged) = copied" using copied by simp
  obtain ring' where r: "pop_expected (pi_buf (sys_inner s)) (take copied staged) = Inr ring'"
      "ring_inv ring'" "ring_list ring' = drop copied ?bytes"
      "hrb_capacity ring' = pipe_capacity (sys_inner s)"
    using pop_expected_spec [OF wf, of "take copied staged"] pre
    unfolding len pipe_capacity_def by auto
  have "?bytes = take copied staged @ drop copied ?bytes"
    using pre by (metis append_take_drop_id)
  with inv copied r show ?thesis
    by (intro step_ok_lift) (auto simp: pipe_user_commit_def sys_inv_def gate_ok_def)
qed

lemma resize_step:
  assumes inv: "sys_inv cfg s" and norm: "normalize_pipe_capacity requested = Inr capacity"
    and max: "capacity \<le> pipe_max_capacity_bytes cfg"
    and cand: "hrb_try_new 1 1 alloc_ok capacity = Inr candidate"
  shows "step_ok cfg s (lift_step s (resize_commit capacity candidate (sys_inner s))
     (\<lambda>(res, inner'). s\<lparr>sys_inner := inner'\<rparr>))"
proof -
  from inv have wf: "pipe_wf (sys_inner s)" by (simp add: sys_inv_def)
  from normalize_spec [OF norm] have cap: "PIPE_ATOMIC_WRITE_BYTES \<le> capacity"
    by (auto simp: least_page_capacity_def)
  show ?thesis
    by (cases rule: resize_commit_spec [OF wf cand])
      (use inv max cap in \<open>auto intro!: step_ok_lift simp: sys_inv_def\<close>)
qed

lemma size_filter_le: "size (filter_mset P M) \<le> size M"
  by (simp add: size_mset_mono)

lemma join_step:
  assumes inv: "sys_inv cfg s"
  shows "step_ok cfg s (lift_step s (add_participation_if access admit (sys_inner s)) (after_join s access))"
proof (cases "u64_max \<le> sys_joins s")
  case True
  have "add_participation_if access admit (sys_inner s) \<in> range Inr \<union> {Inl Assert_Panic}"
    by (cases access)
      (auto simp: add_participation_if_def join_rx_def join_tx_def Let_def split: option.splits)
  moreover have "sys_inv cfg (after_join s access x)" if "add_participation_if access admit (sys_inner s) = Inr x" for x
    using inv that
    by (cases access)
      (auto simp: sys_inv_def add_participation_if_def join_rx_def join_tx_def pipe_capacity_def u64_defs
        split: if_splits)
  ultimately show ?thesis using True by (auto simp: step_ok_def lift_step_def split: sum.split)
next
  case False
  have "rx_cnt (sys_inner s) \<le> sys_joins s" "tx_cnt (sys_inner s) \<le> sys_joins s"
    using inv size_filter_le [of _ "sys_participants s"] unfolding sys_inv_def by (metis order_trans)+
  with False inv have room: "rx_cnt (sys_inner s) + 1 < u64_limit" "tx_cnt (sys_inner s) + 1 < u64_limit"
      "rx_generation (sys_inner s) + 1 < u64_limit" "tx_generation (sys_inner s) + 1 < u64_limit"
    by (simp_all add: u64_max_def sys_inv_def)
  show ?thesis
  proof (cases "admit (sys_inner s)")
    case True
    with room inv show ?thesis
      by (cases access)
        (auto intro!: step_ok_lift simp: sys_inv_def add_participation_if_def join_rx_def join_tx_def
          pipe_capacity_def u64_defs)
  next
    case False
    with inv show ?thesis by (auto intro!: step_ok_lift simp: add_participation_if_def)
  qed
qed

lemma leave_step:
  assumes inv: "sys_inv cfg s" and mem: "access \<in># sys_participants s"
  shows "step_ok cfg s (lift_step s (retire_participation access (sys_inner s))
     (\<lambda>(inner', effs). s\<lparr>sys_inner := inner',
        sys_participants := sys_participants s - {#access#}\<rparr>))"
proof -
  obtain M where M: "sys_participants s = add_mset access M"
    using mem by (metis insert_DiffM)
  show ?thesis
    using inv unfolding M
    by (cases access)
      (auto simp: step_ok_def lift_step_def sys_inv_def M retire_participation_def leave_rx_def
        leave_tx_def pipe_capacity_def Let_def)
qed

lemma subscribe_step:
  assumes "sys_inv cfg s"
  shows "sys_inv cfg (s\<lparr>sys_inner := snd (pipe_poll prunable mem_rx mem_tx ep req (sys_inner s))\<rparr>)"
  using assms
  by (auto simp: sys_inv_def pipe_poll_def pipe_capacity_def Let_def split: option.splits sum.splits)

lemma stage_step:
  assumes inv: "sys_inv cfg s" and dst: "sink_ok dst"
  shows "step_ok cfg s (user_stage_section dst s)"
proof -
  have "sink_remaining dst = Inr (sink_left dst)"
    using dst remaining_from_spec by (simp add: sink_remaining_def sink_ok_def sink_left_def)
  with inv dst show ?thesis
    by (cases "ring_len (pi_buf (sys_inner s)) = 0")
      (auto simp: user_stage_section_def pipe_user_stage_def sys_inv_def gate_ok_def hrb_is_empty_def)
qed

lemma copy_step:
  assumes inv: "sys_inv cfg s" and gate: "sys_gate s = Gate_Snapshot staged dst"
  shows "step_ok cfg s (user_copy_section uspace_top resolve us staged dst s)"
proof -
  from inv gate have "sink_ok dst" "staged \<noteq> []" "0 < sink_left dst" by (auto simp: sys_inv_def gate_ok_def)
  from write_from_slice_progress [OF this, of uspace_top resolve us] obtain res dst' us' where
    w: "write_from_slice uspace_top resolve dst staged us = Inr (res, dst', us')"
    "case res of Inl e \<Rightarrow> e = BadAddress | Inr n \<Rightarrow> 0 < n \<and> n \<le> length staged" by blast
  with inv gate show ?thesis
    by (cases res) (simp_all add: user_copy_section_def sys_inv_def gate_ok_def)
qed

lemma release_step: "sys_inv cfg s \<Longrightarrow> sys_inv cfg (s\<lparr>sys_gate := Gate_Free\<rparr>)"
  by (simp add: sys_inv_def gate_ok_def)

lemma pipe_step_ok: "pipe_step cfg s res \<Longrightarrow> sys_inv cfg s \<Longrightarrow> step_ok cfg s res"
  by (induction rule: pipe_step.induct)
    (simp_all add: write_step read_step snapshot_step copy_step commit_step resize_step join_step leave_step
      subscribe_step stage_step release_step)

lemma created_inv:
  assumes "pipe_config_ok cfg" "pipe_try_new cfg alloc_ok arc_ok = Inr inner"
  shows "sys_inv cfg \<lparr>sys_inner = inner, sys_gate = Gate_Free, sys_accepted = [],
    sys_handed_out = [], sys_participants = {#}, sys_joins = 0\<rparr>"
  using assms
  by (auto simp: pipe_try_new_def sys_inv_def gate_ok_def pipe_capacity_def pipe_config_ok_def
      pipe_default_capacity_bytes_def pipe_max_capacity_bytes_def
      split: sum.splits if_splits dest!: hrb_try_new_ok)

lemma pipe_reachable_inv: "pipe_reachable cfg s \<Longrightarrow> pipe_config_ok cfg \<Longrightarrow> sys_inv cfg s"
  by (induction rule: pipe_reachable.induct)
    (auto simp: created_inv dest: pipe_step_ok)

subsection \<open>Properties of the system\<close>

text \<open>C1: A pipe with any number of concurrent readers, writers, pollers and
  resizers is a FIFO byte stream, and its assertions about the shared state
  cannot fire. From a new pipe on, every step (in any interleaving of critical
  sections, including reads that copy to user memory without holding the lock)
  ends without a panic or undefined behaviour, and afterwards the bytes handed
  out followed by the bytes in the pipe are exactly the bytes accepted, in
  order. The one panic left is the overflow of an admission counter, which takes
  \<open>2 ^ 64 - 1\<close> admissions to the same pipe.\<close>

theorem pipe_concurrent_stream:
  assumes "pipe_config_ok cfg" "pipe_reachable cfg s" "pipe_step cfg s res"
  shows "(\<exists>t. res = Inr t \<and> sys_accepted t = sys_handed_out t @ pipe_bytes (sys_inner t) \<and>
      length (pipe_bytes (sys_inner t)) \<le> pipe_capacity (sys_inner t) \<and>
      pipe_capacity (sys_inner t) \<le> pipe_max_capacity_bytes cfg) \<or>
    res = Inl Assert_Panic \<and> 2 ^ 64 - 1 \<le> sys_joins s"
proof -
  have "length (pipe_bytes (sys_inner t)) \<le> pipe_capacity (sys_inner t)" if "sys_inv cfg t" for t
    using that ring_len_le by (auto simp: pipe_capacity_def sys_inv_def)
  with assms pipe_reachable_inv pipe_step_ok show ?thesis
    unfolding step_ok_def u64_max_def by (metis sys_inv_def)
qed

text \<open>A writer puts a byte into a new pipe with one reader.\<close>

theorem pipe_concurrent_stream_witness:
  "\<exists>cfg (s :: nat pipe_sys) t. pipe_config_ok cfg \<and> pipe_reachable cfg s \<and> rx_cnt (sys_inner s) = 1 \<and>
     pipe_step cfg s (Inr t) \<and> sys_accepted t = sys_handed_out t @ pipe_bytes (sys_inner t)"
proof -
  let ?cfg = "\<lparr>pipe_capacity_pages = 2, pipe_max_capacity_pages = 16\<rparr>"
  have cfg: "pipe_config_ok ?cfg"
    by (auto simp: pipe_config_ok_def pipe_max_capacity_bytes_def PIPE_ATOMIC_WRITE_BYTES_def
        intro: exI [of _ 1] exI [of _ 4])
  obtain inner :: "nat pipe_inner" where new: "pipe_try_new ?cfg True True = Inr inner"
      and cnt: "rx_cnt inner = 0" "rx_generation inner = 0"
    by (simp add: pipe_try_new_def hrb_try_new_def layout_array_ok_def pipe_default_capacity_bytes_def
        PIPE_ATOMIC_WRITE_BYTES_def)
  define s where "s = \<lparr>sys_inner = inner, sys_gate = Gate_Free, sys_accepted = [],
       sys_handed_out = [], sys_participants = {#}, sys_joins = 0\<rparr>"
  have s: "pipe_reachable ?cfg s" unfolding s_def by (rule pipe_reachable.created [OF new])
  obtain t where t: "pipe_step ?cfg s (Inr t)" "rx_cnt (sys_inner t) = 1" "sys_joins t = 1"
    using pipe_step.join [of ?cfg s PA_Read "\<lambda>_. True"] cnt
    by (auto simp: s_def lift_step_def add_participation_if_def join_rx_def u64_defs)
  have reach: "pipe_reachable ?cfg t" by (rule pipe_reachable.stepped [OF s t(1)])
  have step: "pipe_step ?cfg t (lift_step t (pipe_tx_write True [7] (sys_inner t)) (after_write t [7]))"
    by (rule pipe_step.tx_write)
  from pipe_concurrent_stream [OF cfg reach step] t(2,3) cfg reach step show ?thesis by (auto, metis)
qed

end
