(* ===== verification/Syscall.thy ===== *)
theory Syscall
  imports Sys_Error "HOL-Library.Word"
begin

text \<open>
  The system call entry: the RISC-V trap frame with the accessors that a system
  call uses (\<open>arch/riscv64/exception/trap/mod.rs\<close>), the handler table and its
  registration at boot, the dispatcher \<open>handle_syscall\<close> (\<open>syscall/mod.rs\<close>), the
  snapshot that lets an interrupted call be restarted, and the canonical 32-bit
  flag arguments (\<open>syscall/handler.rs\<close>). A handler is a function on the argument
  registers and the trap frame: it may rewrite the whole frame.
\<close>

type_synonym u64 = "64 word"
type_synonym u32 = "32 word"

subsection \<open>The trap frame\<close>

record 'fpu trap_frame =
  gpr_x :: "u64 list"
  sstatus :: u64
  sepc :: u64
  stval :: u64
  scause :: u64
  sscratch :: u64
  ktp :: u64
  fpu_regs :: 'fpu

record syscall_ctx =
  ctx_sysno :: nat
  ctx_a :: "u64 list"
  ctx_sepc :: u64

definition syscall_no :: "'fpu trap_frame \<Rightarrow> nat" where
  "syscall_no tf = unat (gpr_x tf ! 17)"

definition syscall_arg :: "nat \<Rightarrow> 'fpu trap_frame \<Rightarrow> u64" where
  "syscall_arg i tf = gpr_x tf ! (10 + i)"

definition set_syscall_no :: "nat \<Rightarrow> 'fpu trap_frame \<Rightarrow> 'fpu trap_frame" where
  "set_syscall_no n tf = tf\<lparr>gpr_x := (gpr_x tf)[17 := of_nat n]\<rparr>"

text \<open>The program counter is advanced with a checked addition.\<close>

definition advance_syscall_pc :: "'fpu trap_frame \<Rightarrow> fault + 'fpu trap_frame" where
  "advance_syscall_pc tf =
     (if uint (sepc tf) + 4 < 2 ^ 64 then Inr (tf\<lparr>sepc := sepc tf + 4\<rparr>) else Inl Overflow_Panic)"

definition set_syscall_retval :: "u64 \<Rightarrow> 'fpu trap_frame \<Rightarrow> 'fpu trap_frame" where
  "set_syscall_retval v tf = tf\<lparr>gpr_x := (gpr_x tf)[10 := v]\<rparr>"

definition syscall_retval :: "'fpu trap_frame \<Rightarrow> u64" where
  "syscall_retval tf = gpr_x tf ! 10"

definition syscall_ctx_snapshot :: "'fpu trap_frame \<Rightarrow> syscall_ctx" where
  "syscall_ctx_snapshot tf =
     \<lparr>ctx_sysno = syscall_no tf, ctx_a = take 7 (drop 10 (gpr_x tf)), ctx_sepc = sepc tf\<rparr>"

definition restore_syscall_ctx :: "'fpu trap_frame \<Rightarrow> syscall_ctx \<Rightarrow> 'fpu trap_frame" where
  "restore_syscall_ctx tf ctx =
     (let tf1 = set_syscall_no (ctx_sysno ctx) tf;
          x = fold (\<lambda>i x. x[10 + i := ctx_a ctx ! i]) [0..<7] (gpr_x tf1)
      in tf1\<lparr>gpr_x := x, sepc := ctx_sepc ctx\<rparr>)"

subsection \<open>The handler table\<close>

definition ANEMONE_SYSNO_MAX :: nat where
  "ANEMONE_SYSNO_MAX = 1024"

record syscall_regs =
  regs_sysno :: nat
  regs_args :: "u64 list"

record 'fpu syscall_handler =
  h_sysno :: nat
  h_nargs :: nat
  h_name :: string
  h_handler :: "syscall_regs \<Rightarrow> 'fpu trap_frame \<Rightarrow> (sys_error + u64) \<times> 'fpu trap_frame"

definition INVALID_SYSCALL :: "'fpu syscall_handler" where
  "INVALID_SYSCALL = \<lparr>h_sysno = 0, h_nargs = 0, h_name = ''invalid'',
     h_handler = (\<lambda>_ tf. (Inl NoSys, tf))\<rparr>"

definition empty_table :: "'fpu syscall_handler list" where
  "empty_table = replicate ANEMONE_SYSNO_MAX INVALID_SYSCALL"

text \<open>The registration loop over the handlers that the linker collected; a number
  out of range and a duplicate number panic.\<close>

fun register_from ::
  "'fpu syscall_handler list \<Rightarrow> 'fpu syscall_handler list \<Rightarrow> fault + 'fpu syscall_handler list" where
  "register_from table [] = Inr table"
| "register_from table (h # hs) =
     (if \<not> h_sysno h < ANEMONE_SYSNO_MAX then Inl Assert_Panic
      else if h_sysno (table ! h_sysno h) \<noteq> 0 then Inl Assert_Panic
      else register_from (table[h_sysno h := h]) hs)"

definition register_syscall_handlers ::
  "'fpu syscall_handler list \<Rightarrow> fault + 'fpu syscall_handler list" where
  "register_syscall_handlers hs = register_from empty_table hs"

subsection \<open>Dispatch\<close>

definition lookup_handler :: "'fpu syscall_handler list \<Rightarrow> nat \<Rightarrow> 'fpu syscall_handler" where
  "lookup_handler table sysno = (if sysno < length table then table ! sysno else INVALID_SYSCALL)"

definition restart_request :: "sys_error \<Rightarrow> restart_syscall option" where
  "restart_request err = (case err of RestartSyscall restart \<Rightarrow> Some restart | _ \<Rightarrow> None)"

definition handle_syscall ::
  "'fpu syscall_handler list \<Rightarrow> 'fpu trap_frame \<Rightarrow>
   fault + restart_syscall option \<times> 'fpu trap_frame" where
  "handle_syscall table tf =
     (let sysno = syscall_no tf;
          handler = lookup_handler table sysno;
          regs = \<lparr>regs_sysno = sysno, regs_args = map (\<lambda>i. syscall_arg i tf) [0..<6]\<rparr>
      in case advance_syscall_pc tf of
           Inl f \<Rightarrow> Inl f
         | Inr tf1 \<Rightarrow>
             (let (res, tf2) = h_handler handler regs tf1;
                  (retval, restart) =
                    (case res of
                       Inr retval \<Rightarrow> (retval, None)
                     | Inl err \<Rightarrow> (word_of_int (- as_errno err), restart_request err))
              in Inr (restart, set_syscall_retval retval tf2)))"

definition syscall_arg_flag32 :: "u64 \<Rightarrow> sys_error + u32" where
  "syscall_arg_flag32 raw =
     (let bits = ucast raw :: u32;
          zero_extended = ucast bits :: u64;
          sign_extended = scast bits :: u64
      in if raw = zero_extended \<or> raw = sign_extended then Inr bits else Inl InvalidArgument)"

subsection \<open>Registration\<close>

lemma register_from_spec:
  assumes "register_from table hs = Inr table'" "length table = ANEMONE_SYSNO_MAX"
  shows "length table' = ANEMONE_SYSNO_MAX \<and>
    (\<forall>n. n \<notin> h_sysno ` set hs \<longrightarrow> table' ! n = table ! n) \<and>
    (\<forall>h \<in> set hs. h_sysno h < ANEMONE_SYSNO_MAX) \<and>
    (\<forall>n. h_sysno (table ! n) \<noteq> 0 \<longrightarrow> n < ANEMONE_SYSNO_MAX \<longrightarrow> table' ! n = table ! n) \<and>
    (\<forall>h \<in> set hs. h_sysno h \<noteq> 0 \<longrightarrow> table' ! h_sysno h = h)"
  using assms
proof (induction hs arbitrary: table)
  case (Cons h hs)
  then have step: "register_from (table[h_sysno h := h]) hs = Inr table'"
    and h: "h_sysno h < ANEMONE_SYSNO_MAX" "h_sysno (table ! h_sysno h) = 0"
    by (auto split: if_splits)
  from Cons.IH [OF step] Cons.prems(2) h show ?case
    by (auto simp: nth_list_update split: if_splits)
qed simp

subsection \<open>Trap frames\<close>

lemma fold_update:
  "length xs = m \<Longrightarrow> k + n \<le> length x \<Longrightarrow> n \<le> m \<Longrightarrow>
     fold (\<lambda>i x. x[k + i := xs ! i]) [0..<n] x = take k x @ take n xs @ drop (k + n) x"
proof (induction n)
  case (Suc n)
  then show ?case
    by (simp add: list_update_append upd_conv_take_nth_drop take_Suc_conv_app_nth min_def)
qed simp

lemma restore_reads:
  assumes "length (gpr_x tf) = 32" "length (ctx_a ctx) = 7" "ctx_sysno ctx < 2 ^ 64"
  shows "syscall_no (restore_syscall_ctx tf ctx) = ctx_sysno ctx"
    "i < 7 \<Longrightarrow> syscall_arg i (restore_syscall_ctx tf ctx) = ctx_a ctx ! i"
    "sepc (restore_syscall_ctx tf ctx) = ctx_sepc ctx"
  using assms
  by (simp_all add: restore_syscall_ctx_def Let_def fold_update syscall_no_def syscall_arg_def
      set_syscall_no_def nth_append unat_of_nat min_def take_bit_nat_eq_self)

lemma syscall_no_less: "syscall_no tf < 2 ^ 64"
  using unsigned_less [of "gpr_x tf ! 17"] by (simp add: syscall_no_def)

lemma restart_request_internal: "restart_request e \<noteq> None \<longleftrightarrow> is_kernel_internal e"
  by (cases e) (simp_all add: restart_request_def is_kernel_internal_def)

lemma errno_word: "sint (word_of_int (- as_errno e) :: u64) = - as_errno e"
  using as_errno_range [of e]
  by (simp add: signed_of_int signed_take_bit_int_eq_self del: of_int_minus)

subsection \<open>Extensions of 32-bit values\<close>

lemma zero_extended: "(raw :: u64) = ucast (ucast raw :: u32) \<longleftrightarrow> uint raw < 2 ^ 32"
proof -
  have "raw = ucast (ucast raw :: u32) \<longleftrightarrow> uint raw = uint (ucast (ucast raw :: u32) :: u64)"
    by (metis unsigned_word_eqI)
  also have "uint (ucast (ucast raw :: u32) :: u64) = take_bit 32 (uint raw)"
    by (simp add: unsigned_ucast_eq unsigned_take_bit_eq)
  finally show ?thesis using take_bit_int_eq_self_iff [of 32 "uint raw"] by (simp add: eq_commute)
qed

lemma sint_scast_u32: "sint (scast (w :: u32) :: u64) = sint w"
proof -
  have "sint (word_of_int (sint w) :: u64) = signed_take_bit 63 (sint w)"
    by (subst signed_of_int) simp
  also have "\<dots> = sint w"
    using sint_ge [of w] sint_lt [of w] by (intro signed_take_bit_int_eq_self) simp_all
  finally show ?thesis by (simp only: scast_eq)
qed

lemma sign_extended:
  "(raw :: u64) = scast (ucast raw :: u32) \<longleftrightarrow> - (2 ^ 31) \<le> sint raw \<and> sint raw < 2 ^ 31"
proof -
  have "raw = scast (ucast raw :: u32) \<longleftrightarrow> sint raw = sint (ucast raw :: u32)"
    by (metis signed_word_eqI sint_scast_u32)
  also have "sint (ucast raw :: u32) = signed_take_bit 31 (sint raw)"
    by (simp add: sint_uint signed_take_bit_signed_take_bit min_def unsigned_ucast_eq signed_take_bit_take_bit)
  finally show ?thesis using signed_take_bit_int_eq_self_iff [of 31 "sint raw"] by (simp add: eq_commute)
qed

lemma uint_eq_sint: "0 \<le> sint (raw :: u64) \<Longrightarrow> uint raw = sint raw"
  using sint_lt [of raw] by (simp add: uint_sint take_bit_int_eq_self_iff)
subsection \<open>Properties\<close>

text \<open>C24: Dispatch is exact. Once registration has succeeded, a call whose number
  belongs to a registered handler runs that handler, on the argument registers
  of the frame and with the program counter already advanced; a success is
  returned as is, every error of the kernel's error type as its negated error
  number, a value between \<open>-4095\<close> and \<open>-1\<close>, and only the restart errors ask for
  a restart. A number that nobody registered returns \<open>-ENOSYS\<close> and changes
  nothing else but the program counter. Nothing panics as long as the program
  counter can be advanced. (The number \<open>0\<close> marks a free slot of the table, so it
  is left out.)\<close>

theorem syscall_dispatch_exact:
  assumes "register_syscall_handlers hs = Inr table" "length (gpr_x tf) = 32" "uint (sepc tf) < 2 ^ 64 - 4"
  shows "(\<forall>h res tf'. h \<in> set hs \<and> h_sysno h \<noteq> 0 \<and> syscall_no tf = h_sysno h \<and>
      h_handler h \<lparr>regs_sysno = h_sysno h, regs_args = take 6 (drop 10 (gpr_x tf))\<rparr>
        (tf\<lparr>sepc := sepc tf + 4\<rparr>) = (res, tf') \<longrightarrow>
      (\<exists>restart v. handle_syscall table tf = Inr (restart, set_syscall_retval v tf') \<and>
        (case res of
           Inr x \<Rightarrow> restart = None \<and> v = x
         | Inl e \<Rightarrow> (restart \<noteq> None \<longleftrightarrow> is_kernel_internal e) \<and> sint v = - as_errno e \<and>
             -4095 \<le> sint v \<and> sint v \<le> -1))) \<and>
    (syscall_no tf \<notin> h_sysno ` set hs \<longrightarrow>
      handle_syscall table tf =
        Inr (None, set_syscall_retval (word_of_int (- ENOSYS)) (tf\<lparr>sepc := sepc tf + 4\<rparr>)))"
proof -
  note reg = register_from_spec [OF assms(1) [unfolded register_syscall_handlers_def]]
  have len: "length table = ANEMONE_SYSNO_MAX" using reg by (simp add: empty_table_def)
  have args: "map (\<lambda>i. syscall_arg i tf) [0..<6] = take 6 (drop 10 (gpr_x tf))"
    using assms(2) by (intro nth_equalityI) (auto simp: syscall_arg_def)
  have pc: "advance_syscall_pc tf = Inr (tf\<lparr>sepc := sepc tf + 4\<rparr>)"
    using assms(3) by (simp add: advance_syscall_pc_def)
  have found: "lookup_handler table (h_sysno h) = h" if "h \<in> set hs" "h_sysno h \<noteq> 0" for h
    using reg that len by (simp add: lookup_handler_def empty_table_def)
  have unknown: "lookup_handler table (syscall_no tf) = INVALID_SYSCALL"
    if "syscall_no tf \<notin> h_sysno ` set hs"
    using reg that len by (simp add: lookup_handler_def empty_table_def)
  have "\<exists>restart v. handle_syscall table tf = Inr (restart, set_syscall_retval v tf') \<and>
      (case res of Inr x \<Rightarrow> restart = None \<and> v = x
       | Inl e \<Rightarrow> (restart \<noteq> None \<longleftrightarrow> is_kernel_internal e) \<and> sint v = - as_errno e \<and>
           -4095 \<le> sint v \<and> sint v \<le> -1)"
    if h: "h \<in> set hs" "h_sysno h \<noteq> 0" "syscall_no tf = h_sysno h"
      "h_handler h \<lparr>regs_sysno = h_sysno h, regs_args = take 6 (drop 10 (gpr_x tf))\<rparr>
        (tf\<lparr>sepc := sepc tf + 4\<rparr>) = (res, tf')" for h res tf'
  proof (cases res)
    case (Inl e)
    with h found [OF h(1,2)] have
      "handle_syscall table tf = Inr (restart_request e, set_syscall_retval (word_of_int (- as_errno e)) tf')"
      by (simp add: handle_syscall_def args pc del: of_int_minus)
    with Inl as_errno_range [of e] restart_request_internal [of e] errno_word [of e] show ?thesis
      by (intro exI [of _ "restart_request e"] exI [of _ "word_of_int (- as_errno e)"])
        (simp del: of_int_minus)
  next
    case (Inr x)
    with h found [OF h(1,2)] show ?thesis by (simp add: handle_syscall_def args pc)
  qed
  then show ?thesis
    using unknown by (auto simp: handle_syscall_def INVALID_SYSCALL_def restart_request_def pc)
qed

definition getpid_handler :: "nat syscall_handler" where
  "getpid_handler = \<lparr>h_sysno = 172, h_nargs = 0, h_name = ''getpid'', h_handler = (\<lambda>_ tf. (Inr 1, tf))\<rparr>"

definition example_frame :: "nat trap_frame" where
  "example_frame = \<lparr>gpr_x = (replicate 32 0)[17 := 172], sstatus = 0, sepc = 4096, stval = 0,
     scause = 8, sscratch = 0, ktp = 0, fpu_regs = 0\<rparr>"

theorem syscall_dispatch_exact_witness:
  "\<exists>table. register_syscall_handlers [getpid_handler] = Inr table \<and>
     handle_syscall table example_frame = Inr (None, set_syscall_retval 1 (example_frame\<lparr>sepc := 4100\<rparr>))"
proof -
  have reg: "register_syscall_handlers [getpid_handler] = Inr (empty_table[172 := getpid_handler])"
    by (simp add: register_syscall_handlers_def getpid_handler_def ANEMONE_SYSNO_MAX_def empty_table_def
        INVALID_SYSCALL_def)
  have frame: "length (gpr_x example_frame) = 32" "uint (sepc example_frame) < 2 ^ 64 - 4"
      "syscall_no example_frame = 172" "sepc example_frame + 4 = 4100"
    by (simp_all add: example_frame_def syscall_no_def)
  show ?thesis
    using syscall_dispatch_exact [OF reg frame(1,2), THEN conjunct1, rule_format,
        of getpid_handler "Inr 1" "example_frame\<lparr>sepc := 4100\<rparr>"] reg frame(3,4)
    by (auto simp: getpid_handler_def)
qed

text \<open>C25: Restarting a call repeats it exactly. Whatever the handler did to the
  frame, putting the snapshot back (the snapshot is taken before the dispatch)
  makes the frame issue the same call again: same number, same program counter,
  same seven argument registers, although the return value had been written
  over the first argument.\<close>

theorem syscall_restart_exact:
  assumes "length (gpr_x tf) = 32" "handle_syscall table tf = Inr (restart, tf')" "length (gpr_x tf') = 32"
  shows "let again = restore_syscall_ctx tf' (syscall_ctx_snapshot tf) in
    syscall_no again = syscall_no tf \<and> sepc again = sepc tf \<and>
    (\<forall>i < 7. syscall_arg i again = syscall_arg i tf)"
  using assms syscall_no_less [of tf]
  by (simp add: restore_reads syscall_ctx_snapshot_def Let_def syscall_arg_def [of _ tf])

theorem syscall_restart_exact_witness:
  "\<exists>tf'. handle_syscall empty_table example_frame = Inr (None, tf') \<and> syscall_retval tf' = word_of_int (- ENOSYS) \<and>
     syscall_arg 0 (restore_syscall_ctx tf' (syscall_ctx_snapshot example_frame)) = 0"
proof -
  let ?tf = "set_syscall_retval (word_of_int (- ENOSYS)) (example_frame\<lparr>sepc := 4100\<rparr>)"
  have "syscall_no example_frame = 172" "advance_syscall_pc example_frame = Inr (example_frame\<lparr>sepc := 4100\<rparr>)"
    by (simp_all add: example_frame_def syscall_no_def advance_syscall_pc_def)
  moreover have "lookup_handler empty_table 172 = (INVALID_SYSCALL :: nat syscall_handler)"
    by (simp add: lookup_handler_def empty_table_def ANEMONE_SYSNO_MAX_def)
  ultimately have h: "handle_syscall empty_table example_frame = Inr (None, ?tf)"
    by (simp add: handle_syscall_def INVALID_SYSCALL_def restart_request_def)
  have len: "length (gpr_x example_frame) = 32" "length (gpr_x ?tf) = 32" "syscall_arg 0 example_frame = 0"
      "syscall_retval ?tf = word_of_int (- ENOSYS)"
    by (simp_all add: example_frame_def syscall_arg_def syscall_retval_def set_syscall_retval_def)
  with syscall_restart_exact [OF len(1) h len(2)] h show ?thesis
    by (auto simp: Let_def)
qed

text \<open>C38: A flag argument is accepted exactly when the register holds a 32-bit
  value in one of its two canonical extensions, that is an unsigned value below
  \<open>2 ^ 32\<close> or a signed one from \<open>- 2 ^ 31\<close> to \<open>-1\<close>; the flag is its low half.\<close>

theorem syscall_flag32_canonical:
  "syscall_arg_flag32 raw =
     (if uint raw < 2 ^ 32 \<or> (- (2 ^ 31) \<le> sint raw \<and> sint raw < 0)
      then Inr (ucast raw) else Inl InvalidArgument)"
proof -
  have "uint raw < 2 ^ 32 \<or> (- (2 ^ 31) \<le> sint raw \<and> sint raw < 2 ^ 31) \<longleftrightarrow>
      uint raw < 2 ^ 32 \<or> (- (2 ^ 31) \<le> sint raw \<and> sint raw < 0)"
    using uint_eq_sint [of raw] by (cases "sint raw < 0") auto
  then show ?thesis
    unfolding syscall_arg_flag32_def Let_def by (simp only: zero_extended sign_extended)
qed

end
