(* ===== verification/Posix_Lock.thy ===== *)
theory Posix_Lock
  imports Sys_Error
begin

text \<open>
  POSIX record locks (\<open>fs/lock/posix.rs\<close>): half-open byte ranges that may be
  unbounded, the segment list of an inode, and its operations. Each operation
  is one critical section of the segment lock; a blocking \<open>set_binding\<close> is a
  sequence of passes. An owner is an identity of type \<open>'o\<close> (\<open>same_identity\<close> is
  equality), the liveness of a binding is an argument. Every \<open>assert!\<close> of the
  source is a branch of the model.

  The theory shows that the segment list is a canonical representation of a
  finite map from owner and byte to a lock mode, and that the operations are the
  obvious updates of that map.
\<close>

subsection \<open>Ranges\<close>

datatype posix_lock_range = Lock_Range (r_start: nat) (r_end: "nat option")

definition range_finite :: "nat \<Rightarrow> nat \<Rightarrow> fault + posix_lock_range" where
  "range_finite start end_exclusive =
     (if start < end_exclusive then Inr (Lock_Range start (Some end_exclusive)) else Inl Assert_Panic)"

definition range_open_ended :: "nat \<Rightarrow> posix_lock_range" where
  "range_open_ended start = Lock_Range start None"

definition starts_before_end :: "nat \<Rightarrow> nat option \<Rightarrow> bool" where
  "starts_before_end start end_exclusive = (case end_exclusive of None \<Rightarrow> True | Some e \<Rightarrow> start < e)"

definition range_overlaps :: "posix_lock_range \<Rightarrow> posix_lock_range \<Rightarrow> bool" where
  "range_overlaps a b \<longleftrightarrow> starts_before_end (r_start a) (r_end b) \<and> starts_before_end (r_start b) (r_end a)"

definition touches_or_overlaps :: "posix_lock_range \<Rightarrow> posix_lock_range \<Rightarrow> fault + bool" where
  "touches_or_overlaps a nxt =
     (if r_start a \<le> r_start nxt
      then Inr (case r_end a of None \<Rightarrow> True | Some e \<Rightarrow> r_start nxt \<le> e)
      else Inl Assert_Panic)"

definition range_merge :: "posix_lock_range \<Rightarrow> posix_lock_range \<Rightarrow> fault + posix_lock_range" where
  "range_merge a nxt =
     (case touches_or_overlaps a nxt of
        Inl f \<Rightarrow> Inl f
      | Inr False \<Rightarrow> Inl Assert_Panic
      | Inr True \<Rightarrow>
          Inr (Lock_Range (r_start a)
            (case (r_end a, r_end nxt) of (Some l, Some r) \<Rightarrow> Some (max l r) | _ \<Rightarrow> None)))"

definition outside_parts ::
  "posix_lock_range \<Rightarrow> posix_lock_range \<Rightarrow> fault + posix_lock_range option \<times> posix_lock_range option" where
  "outside_parts a assigned =
     (if \<not> range_overlaps a assigned then Inl Assert_Panic
      else
        let prefix = (if r_start a < r_start assigned
              then map_sum id Some (range_finite (r_start a) (r_start assigned)) else Inr None);
            suffix = (case r_end assigned of
                Some assigned_end \<Rightarrow>
                  if starts_before_end assigned_end (r_end a) then
                    (case r_end a of
                       Some e \<Rightarrow> map_sum id Some (range_finite assigned_end e)
                     | None \<Rightarrow> Inr (Some (range_open_ended assigned_end)))
                  else Inr None
              | None \<Rightarrow> Inr None)
        in case prefix of Inl f \<Rightarrow> Inl f
           | Inr p \<Rightarrow> (case suffix of Inl f \<Rightarrow> Inl f | Inr s \<Rightarrow> Inr (p, s)))"

datatype ordering = Less | Equal | Greater

definition nat_cmp :: "nat \<Rightarrow> nat \<Rightarrow> ordering" where
  "nat_cmp a b = (if a < b then Less else if a = b then Equal else Greater)"

definition range_cmp :: "posix_lock_range \<Rightarrow> posix_lock_range \<Rightarrow> ordering" where
  "range_cmp a b =
     (case nat_cmp (r_start a) (r_start b) of
        Equal \<Rightarrow>
          (case (r_end a, r_end b) of
             (Some l, Some r) \<Rightarrow> nat_cmp l r
           | (Some _, None) \<Rightarrow> Less
           | (None, Some _) \<Rightarrow> Greater
           | (None, None) \<Rightarrow> Equal)
      | c \<Rightarrow> c)"

text \<open>The comparison is a linear order; \<open>sort_by\<close> with it is the library's stable
  \<open>sort_key\<close>.\<close>

instantiation posix_lock_range :: linorder
begin

definition less_eq_posix_lock_range :: "posix_lock_range \<Rightarrow> posix_lock_range \<Rightarrow> bool" where
  "less_eq_posix_lock_range a b \<longleftrightarrow> range_cmp a b \<noteq> Greater"

definition less_posix_lock_range :: "posix_lock_range \<Rightarrow> posix_lock_range \<Rightarrow> bool" where
  "less_posix_lock_range a b \<longleftrightarrow> range_cmp a b = Less"

instance
  by standard
    (auto simp: less_eq_posix_lock_range_def less_posix_lock_range_def range_cmp_def nat_cmp_def
      posix_lock_range.expand split: option.splits if_splits ordering.splits)

end

subsection \<open>Segments\<close>

datatype posix_lock_mode = Read_Lock | Write_Lock

definition conflicts_with :: "posix_lock_mode \<Rightarrow> posix_lock_mode \<Rightarrow> bool" where
  "conflicts_with held requested \<longleftrightarrow> held = Write_Lock \<or> requested = Write_Lock"

record 'o posix_lock_segment =
  seg_owner :: 'o
  seg_range :: posix_lock_range
  seg_mode :: posix_lock_mode
  seg_report_tgid :: nat

record posix_lock_conflict =
  conflict_range :: posix_lock_range
  conflict_mode :: posix_lock_mode
  conflict_tgid :: nat

definition conflict_from :: "'o posix_lock_segment \<Rightarrow> posix_lock_conflict" where
  "conflict_from s = \<lparr>conflict_range = seg_range s, conflict_mode = seg_mode s, conflict_tgid = seg_report_tgid s\<rparr>"

datatype posix_lock_query_outcome = Query_Available | Query_Conflict posix_lock_conflict | Query_Binding_Retired

datatype posix_lock_set_outcome =
  Set_Applied | Set_Conflict posix_lock_conflict | Set_Binding_Retired | Set_Interrupted

definition find_conflict ::
  "'o posix_lock_segment list \<Rightarrow> 'o \<Rightarrow> posix_lock_range \<Rightarrow> posix_lock_mode \<Rightarrow> posix_lock_conflict option" where
  "find_conflict segments owner rng mode =
     map_option conflict_from
       (find (\<lambda>s. seg_owner s \<noteq> owner \<and> range_overlaps (seg_range s) rng \<and> conflicts_with (seg_mode s) mode)
         segments)"

text \<open>One iteration of the loop of \<open>canonicalize_owner\<close>.\<close>

definition canonical_push ::
  "'o posix_lock_segment list \<Rightarrow> 'o posix_lock_segment \<Rightarrow> fault + 'o posix_lock_segment list" where
  "canonical_push canonical segment =
     (if canonical = [] then Inr [segment]
      else
        let previous = last canonical in
        if seg_owner previous \<noteq> seg_owner segment then Inl Assert_Panic
        else if range_overlaps (seg_range previous) (seg_range segment) \<and> seg_mode previous \<noteq> seg_mode segment
        then Inl Assert_Panic
        else if seg_mode previous = seg_mode segment then
          (case touches_or_overlaps (seg_range previous) (seg_range segment) of
             Inl f \<Rightarrow> Inl f
           | Inr True \<Rightarrow>
               (case range_merge (seg_range previous) (seg_range segment) of
                  Inl f \<Rightarrow> Inl f
                | Inr r \<Rightarrow> Inr (butlast canonical @ [previous\<lparr>seg_range := r\<rparr>]))
           | Inr False \<Rightarrow> Inr (canonical @ [segment]))
        else Inr (canonical @ [segment]))"

fun canonical_loop ::
  "'o posix_lock_segment list \<Rightarrow> 'o posix_lock_segment list \<Rightarrow> fault + 'o posix_lock_segment list" where
  "canonical_loop canonical [] = Inr canonical"
| "canonical_loop canonical (s # rest) =
     (case canonical_push canonical s of Inl f \<Rightarrow> Inl f | Inr c \<Rightarrow> canonical_loop c rest)"

definition canonicalize_owner ::
  "'o posix_lock_segment list \<Rightarrow> fault + 'o posix_lock_segment list" where
  "canonicalize_owner segments = canonical_loop [] (sort_key seg_range segments)"

text \<open>The loop of \<open>rebuild_assignment\<close>: the segments of the other owners, and what
  is left of the owner's segments outside the assigned range.\<close>

definition part_segments ::
  "'o \<Rightarrow> 'o posix_lock_segment \<Rightarrow> posix_lock_range option \<Rightarrow> 'o posix_lock_segment list" where
  "part_segments owner s part =
     (case part of
        None \<Rightarrow> []
      | Some r \<Rightarrow> [\<lparr>seg_owner = owner, seg_range = r, seg_mode = seg_mode s,
          seg_report_tgid = seg_report_tgid s\<rparr>])"

fun split_owner ::
  "'o posix_lock_segment list \<Rightarrow> 'o \<Rightarrow> posix_lock_range \<Rightarrow>
   fault + 'o posix_lock_segment list \<times> 'o posix_lock_segment list" where
  "split_owner [] owner assigned = Inr ([], [])"
| "split_owner (s # segments) owner assigned =
     (let rest = split_owner segments owner assigned in
      if seg_owner s \<noteq> owner then map_sum id (\<lambda>(os, ws). (s # os, ws)) rest
      else if \<not> range_overlaps (seg_range s) assigned then map_sum id (\<lambda>(os, ws). (os, s # ws)) rest
      else case outside_parts (seg_range s) assigned of
             Inl f \<Rightarrow> Inl f
           | Inr (prefix, suffix) \<Rightarrow>
               map_sum id (\<lambda>(os, ws).
                 (os, part_segments owner s prefix @ part_segments owner s suffix @ ws)) rest)"

definition rebuild_assignment ::
  "'o posix_lock_segment list \<Rightarrow> 'o \<Rightarrow> posix_lock_range \<Rightarrow> (posix_lock_mode \<times> nat) option \<Rightarrow>
   fault + 'o posix_lock_segment list" where
  "rebuild_assignment segments owner assigned replacement =
     (case split_owner segments owner assigned of
        Inl f \<Rightarrow> Inl f
      | Inr (other_owners, owner_segments) \<Rightarrow>
          (case canonicalize_owner
             (owner_segments @
              (case replacement of
                 None \<Rightarrow> []
               | Some (mode, tgid) \<Rightarrow>
                   [\<lparr>seg_owner = owner, seg_range = assigned, seg_mode = mode, seg_report_tgid = tgid\<rparr>])) of
             Inl f \<Rightarrow> Inl f
           | Inr canonical \<Rightarrow> Inr (sort_key seg_range (other_owners @ canonical))))"

subsection \<open>Operations of the domain\<close>

definition query_binding ::
  "bool \<Rightarrow> 'o \<Rightarrow> posix_lock_range \<Rightarrow> posix_lock_mode \<Rightarrow> 'o posix_lock_segment list \<Rightarrow> posix_lock_query_outcome" where
  "query_binding live holder rng mode segments =
     (if \<not> live then Query_Binding_Retired
      else case find_conflict segments holder rng mode of
             Some c \<Rightarrow> Query_Conflict c | None \<Rightarrow> Query_Available)"

text \<open>One pass of the loop of \<open>set_binding\<close>: it returns an outcome, the segments and
  whether waiters are notified, or it waits for \<open>set_can_continue\<close>.\<close>

datatype 'o set_pass = Set_Return posix_lock_set_outcome "'o posix_lock_segment list" bool | Set_Wait

definition set_binding ::
  "bool \<Rightarrow> 'o \<Rightarrow> posix_lock_range \<Rightarrow> posix_lock_mode \<Rightarrow> nat \<Rightarrow> bool \<Rightarrow> 'o posix_lock_segment list \<Rightarrow>
   fault + 'o set_pass" where
  "set_binding live holder rng mode tgid wait_for_conflict segments =
     (if \<not> live then Inr (Set_Return Set_Binding_Retired segments False)
      else case find_conflict segments holder rng mode of
          Some c \<Rightarrow> Inr (if wait_for_conflict then Set_Wait else Set_Return (Set_Conflict c) segments False)
        | None \<Rightarrow>
            (case rebuild_assignment segments holder rng (Some (mode, tgid)) of
               Inl f \<Rightarrow> Inl f
             | Inr replacement \<Rightarrow> Inr (Set_Return Set_Applied replacement True)))"

definition set_can_continue ::
  "bool \<Rightarrow> 'o \<Rightarrow> posix_lock_range \<Rightarrow> posix_lock_mode \<Rightarrow> 'o posix_lock_segment list \<Rightarrow> bool" where
  "set_can_continue live holder rng mode segments \<longleftrightarrow>
     \<not> live \<or> find_conflict segments holder rng mode = None"

definition unlock_binding ::
  "bool \<Rightarrow> 'o \<Rightarrow> posix_lock_range \<Rightarrow> 'o posix_lock_segment list \<Rightarrow> fault + 'o set_pass" where
  "unlock_binding live holder rng segments =
     (if \<not> live then Inr (Set_Return Set_Binding_Retired segments False)
      else if \<not> (\<exists>s \<in> set segments. seg_owner s = holder \<and> range_overlaps (seg_range s) rng)
      then Inr (Set_Return Set_Applied segments True)
      else case rebuild_assignment segments holder rng None of
             Inl f \<Rightarrow> Inl f
           | Inr replacement \<Rightarrow> Inr (Set_Return Set_Applied replacement True))"

definition retire_binding :: "'o \<Rightarrow> 'o posix_lock_segment list \<Rightarrow> 'o posix_lock_segment list" where
  "retire_binding holder segments = filter (\<lambda>s. seg_owner s \<noteq> holder) segments"

definition retire_posix_locks ::
  "bool \<Rightarrow> 'o \<Rightarrow> 'o posix_lock_segment list \<Rightarrow> fault + 'o posix_lock_segment list" where
  "retire_posix_locks live holder segments =
     (if live then Inl Assert_Panic else Inr (retire_binding holder segments))"

text \<open>Any sequence of operations on one inode. A nonblocking \<open>set\<close> that fails, a
  blocking pass that waits and an operation on a retired binding leave the
  segments alone.\<close>

datatype 'o lock_op =
    Lock_Set bool 'o posix_lock_range posix_lock_mode nat bool
  | Lock_Unlock bool 'o posix_lock_range
  | Lock_Retire 'o

definition pass_segments :: "'o posix_lock_segment list \<Rightarrow> fault + 'o set_pass \<Rightarrow> fault + 'o posix_lock_segment list" where
  "pass_segments segs res =
     (case res of Inl f \<Rightarrow> Inl f | Inr Set_Wait \<Rightarrow> Inr segs | Inr (Set_Return _ segs' _) \<Rightarrow> Inr segs')"

fun lock_apply :: "'o lock_op \<Rightarrow> 'o posix_lock_segment list \<Rightarrow> fault + 'o posix_lock_segment list" where
  "lock_apply (Lock_Set live own r mode tgid wait) segs =
     pass_segments segs (set_binding live own r mode tgid wait segs)"
| "lock_apply (Lock_Unlock live own r) segs = pass_segments segs (unlock_binding live own r segs)"
| "lock_apply (Lock_Retire own) segs = retire_posix_locks False own segs"

fun lock_run :: "'o lock_op list \<Rightarrow> 'o posix_lock_segment list \<Rightarrow> fault + 'o posix_lock_segment list" where
  "lock_run [] segs = Inr segs"
| "lock_run (p # ps) segs = (case lock_apply p segs of Inl f \<Rightarrow> Inl f | Inr segs' \<Rightarrow> lock_run ps segs')"

subsection \<open>The lock table that a segment list stands for\<close>

text \<open>The bytes of a range, and the grants of a segment list: which owner holds
  which byte in which mode.\<close>

definition range_bytes :: "posix_lock_range \<Rightarrow> nat set" where
  "range_bytes r = {b. r_start r \<le> b \<and> starts_before_end b (r_end r)}"

definition range_ok :: "posix_lock_range \<Rightarrow> bool" where
  "range_ok r \<longleftrightarrow> starts_before_end (r_start r) (r_end r)"

definition grants :: "'o posix_lock_segment list \<Rightarrow> ('o \<times> nat \<times> posix_lock_mode) set" where
  "grants segs = {(seg_owner s, b, seg_mode s) | s b. s \<in> set segs \<and> b \<in> range_bytes (seg_range s)}"

text \<open>\<open>s\<close> ends before \<open>t\<close> starts; with a gap, or with another mode when they touch.\<close>

definition seg_apart :: "'o posix_lock_segment \<Rightarrow> 'o posix_lock_segment \<Rightarrow> bool" where
  "seg_apart s t \<longleftrightarrow> (\<exists>e. r_end (seg_range s) = Some e \<and> e \<le> r_start (seg_range t))"

definition seg_gap :: "'o posix_lock_segment \<Rightarrow> 'o posix_lock_segment \<Rightarrow> bool" where
  "seg_gap s t \<longleftrightarrow>
     (\<exists>e. r_end (seg_range s) = Some e \<and>
          (e < r_start (seg_range t) \<or> (e = r_start (seg_range t) \<and> seg_mode s \<noteq> seg_mode t)))"

abbreviation ranges_ok :: "'o posix_lock_segment list \<Rightarrow> bool" where
  "ranges_ok segs \<equiv> \<forall>s \<in> set segs. range_ok (seg_range s)"

text \<open>The invariant of a domain: nonempty ranges in order, one canonical segment
  list per owner, and no conflict between owners.\<close>

definition compatible :: "'o posix_lock_segment list \<Rightarrow> bool" where
  "compatible segs \<longleftrightarrow>
     (\<forall>o1 o2 b m1 m2. (o1, b, m1) \<in> grants segs \<longrightarrow> (o2, b, m2) \<in> grants segs \<longrightarrow> o1 \<noteq> o2 \<longrightarrow>
        \<not> conflicts_with m1 m2)"

definition lock_inv :: "'o posix_lock_segment list \<Rightarrow> bool" where
  "lock_inv segs \<longleftrightarrow>
     ranges_ok segs \<and> sorted (map seg_range segs) \<and>
     (\<forall>own. sorted_wrt seg_gap (filter (\<lambda>s. seg_owner s = own) segs)) \<and> compatible segs"

text \<open>How many segments of \<open>own\<close> cover a byte.\<close>

definition cover :: "'o posix_lock_segment list \<Rightarrow> 'o \<Rightarrow> nat \<Rightarrow> nat" where
  "cover segs own b = length (filter (\<lambda>s. seg_owner s = own \<and> b \<in> range_bytes (seg_range s)) segs)"

subsection \<open>Ranges as sets of bytes\<close>

lemma range_overlaps_iff:
  "range_ok a \<Longrightarrow> range_ok b \<Longrightarrow> range_overlaps a b \<longleftrightarrow> range_bytes a \<inter> range_bytes b \<noteq> {}"
proof -
  assume ok: "range_ok a" "range_ok b"
  have "max (r_start a) (r_start b) \<in> range_bytes a \<inter> range_bytes b" if "range_overlaps a b"
    using ok that
    by (auto simp: range_overlaps_def range_ok_def range_bytes_def starts_before_end_def max_def
        split: option.splits)
  moreover have "range_overlaps a b" if "x \<in> range_bytes a" "x \<in> range_bytes b" for x
    using that
    by (auto simp: range_overlaps_def range_bytes_def starts_before_end_def split: option.splits)
  ultimately show ?thesis by blast
qed

lemma outside_parts_eq:
  assumes "range_overlaps a b"
  shows "outside_parts a b = Inr
    (if r_start a < r_start b then Some (Lock_Range (r_start a) (Some (r_start b))) else None,
     case r_end b of None \<Rightarrow> None
     | Some e \<Rightarrow> if starts_before_end e (r_end a) then Some (Lock_Range e (r_end a)) else None)"
  using assms
  by (simp add: outside_parts_def range_finite_def range_open_ended_def starts_before_end_def Let_def
      split: option.split)

text \<open>The bytes of an optional part.\<close>

definition part_bytes :: "posix_lock_range option \<Rightarrow> nat set" where
  "part_bytes p = (case p of None \<Rightarrow> {} | Some r \<Rightarrow> range_bytes r)"

lemma outside_parts_spec:
  assumes "range_overlaps a b" "outside_parts a b = Inr (p, s)" "range_ok b"
  shows "\<forall>r \<in> set_option p. range_ok r" "\<forall>r \<in> set_option s. range_ok r"
    "x \<in> part_bytes p \<longleftrightarrow> x \<in> range_bytes a \<and> x < r_start b"
    "x \<in> part_bytes s \<longleftrightarrow> x \<in> range_bytes a \<and> r_start b \<le> x \<and> x \<notin> range_bytes b"
proof -
  have ps: "p = (if r_start a < r_start b then Some (Lock_Range (r_start a) (Some (r_start b))) else None)"
    "s = (case r_end b of None \<Rightarrow> None
      | Some e \<Rightarrow> if starts_before_end e (r_end a) then Some (Lock_Range e (r_end a)) else None)"
    using assms outside_parts_eq by auto
  note defs = range_ok_def range_bytes_def starts_before_end_def range_overlaps_def part_bytes_def
  show "\<forall>r \<in> set_option p. range_ok r" by (simp add: ps defs)
  show "\<forall>r \<in> set_option s. range_ok r" by (auto simp: ps defs split: option.splits if_splits)
  show "x \<in> part_bytes p \<longleftrightarrow> x \<in> range_bytes a \<and> x < r_start b"
    using assms(1) by (auto simp: ps defs split: option.splits)
  show "x \<in> part_bytes s \<longleftrightarrow> x \<in> range_bytes a \<and> r_start b \<le> x \<and> x \<notin> range_bytes b"
    using assms(1,3) by (auto simp: ps defs split: option.splits if_splits)
qed

lemma start_in_range: "range_ok r \<Longrightarrow> r_start r \<in> range_bytes r"
  by (simp add: range_ok_def range_bytes_def)

lemma range_le_start: "a \<le> b \<Longrightarrow> r_start a \<le> r_start b"
  by (auto simp: less_eq_posix_lock_range_def range_cmp_def nat_cmp_def split: if_splits)

lemma range_le_if_start_less: "r_start a < r_start b \<Longrightarrow> a \<le> b"
  by (auto simp: less_eq_posix_lock_range_def range_cmp_def nat_cmp_def)

subsection \<open>Canonical lists of one owner\<close>

lemma seg_gap_apart: "seg_gap s t \<Longrightarrow> seg_apart s t"
  by (auto simp: seg_gap_def seg_apart_def)

lemma seg_apart_disjoint:
  "seg_apart s t \<Longrightarrow> range_bytes (seg_range s) \<inter> range_bytes (seg_range t) = {}"
  by (auto simp: seg_apart_def range_bytes_def starts_before_end_def)

lemma grants_append [simp]: "grants (xs @ ys) = grants xs \<union> grants ys"
  by (auto simp: grants_def)

lemma grants_Nil [simp]: "grants [] = {}"
  by (simp add: grants_def)

lemma grants_Cons [simp]:
  "grants (s # segs) = (\<lambda>b. (seg_owner s, b, seg_mode s)) ` range_bytes (seg_range s) \<union> grants segs"
  by (auto simp: grants_def)

lemma grants_iff:
  "(w, b, m) \<in> grants segs \<longleftrightarrow>
     (\<exists>s \<in> set segs. seg_owner s = w \<and> seg_mode s = m \<and> b \<in> range_bytes (seg_range s))"
  by (auto simp: grants_def)

lemma grants_cong: "set xs = set ys \<Longrightarrow> grants xs = grants ys"
  by (simp add: grants_def)

lemma canonical_push_spec:
  assumes "sorted_wrt seg_gap c" "\<forall>p \<in> set c. seg_apart p s"
    "ranges_ok c" "range_ok (seg_range s)" "\<forall>p \<in> set c. seg_owner p = own" "seg_owner s = own"
  shows "\<exists>c'. canonical_push c s = Inr c' \<and> sorted_wrt seg_gap c' \<and> ranges_ok c' \<and>
    grants c' = grants (c @ [s]) \<and> (\<forall>p \<in> set c'. seg_owner p = own) \<and>
    (\<forall>t. seg_apart s t \<longrightarrow> (\<forall>p \<in> set c. seg_apart p t) \<longrightarrow> (\<forall>p \<in> set c'. seg_apart p t))"
proof (cases c rule: rev_cases)
  case Nil
  with assms show ?thesis by (simp add: canonical_push_def)
next
  case (snoc ps p)
  with assms(2,5,6) have ap: "seg_apart p s" and own: "seg_owner p = own" "seg_owner s = own" by auto
  then obtain e where e: "r_end (seg_range p) = Some e" "e \<le> r_start (seg_range s)"
    by (auto simp: seg_apart_def)
  have pok: "r_start (seg_range p) < e"
    using assms(3) snoc e by (simp add: range_ok_def starts_before_end_def)
  have no: "\<not> range_overlaps (seg_range p) (seg_range s)"
    using e by (simp add: range_overlaps_def starts_before_end_def)
  show ?thesis
  proof (cases "seg_mode p = seg_mode s \<and> e = r_start (seg_range s)")
    case True
    define q where "q = p\<lparr>seg_range := Lock_Range (r_start (seg_range p)) (r_end (seg_range s))\<rparr>"
    have push: "canonical_push c s = Inr (ps @ [q])"
      using True e own no pok snoc assms(4)
      by (auto simp: q_def canonical_push_def touches_or_overlaps_def range_merge_def Let_def range_ok_def
          starts_before_end_def max_def split: option.splits)
    have q: "seg_owner q = own" "seg_mode q = seg_mode p" "r_start (seg_range q) = r_start (seg_range p)"
      "r_end (seg_range q) = r_end (seg_range s)"
      using own by (simp_all add: q_def)
    have "range_bytes (seg_range q) = range_bytes (seg_range p) \<union> range_bytes (seg_range s)"
      using True e pok assms(4)
      by (auto simp: q range_bytes_def range_ok_def starts_before_end_def split: option.splits)
    then have 1: "grants (ps @ [q]) = grants (c @ [s])"
      using True own q snoc by (simp add: image_Un Un_assoc)
    have 2: "ranges_ok (ps @ [q])"
      using True pok e assms(3,4) snoc q by (auto simp: range_ok_def starts_before_end_def split: option.splits)
    have "seg_gap x q" if "seg_gap x p" for x
      using that q by (simp add: seg_gap_def)
    then have 3: "sorted_wrt seg_gap (ps @ [q])"
      using assms(1) snoc by (simp add: sorted_wrt_append)
    have 4: "\<forall>x \<in> set (ps @ [q]). seg_owner x = own"
      using q(1) assms(5) snoc by simp
    have "seg_apart q t" if "seg_apart s t" for t
      using that q by (simp add: seg_apart_def)
    then have 5: "\<forall>t. seg_apart s t \<longrightarrow> (\<forall>p \<in> set c. seg_apart p t) \<longrightarrow> (\<forall>p \<in> set (ps @ [q]). seg_apart p t)"
      using snoc by simp
    show ?thesis using push 1 2 3 4 5 by blast
  next
    case False
    have push: "canonical_push c s = Inr (c @ [s])"
      using False e own no snoc pok by (auto simp: canonical_push_def touches_or_overlaps_def Let_def)
    have "seg_gap p s" using False e by (auto simp: seg_gap_def)
    moreover have "seg_gap x s" if "seg_gap x p" for x
      using that e pok by (auto simp: seg_gap_def)
    ultimately have "sorted_wrt seg_gap (c @ [s])"
      using assms(1) snoc by (simp add: sorted_wrt_append)
    with push assms show ?thesis by simp
  qed
qed

lemma canonical_loop_spec:
  assumes "sorted_wrt seg_gap c" "sorted_wrt seg_apart xs"
    "\<forall>p \<in> set c. \<forall>x \<in> set xs. seg_apart p x" "\<forall>p \<in> set (c @ xs). seg_owner p = own"
    "ranges_ok (c @ xs)"
  shows "\<exists>c'. canonical_loop c xs = Inr c' \<and> sorted_wrt seg_gap c' \<and> ranges_ok c' \<and>
    grants c' = grants (c @ xs) \<and> (\<forall>p \<in> set c'. seg_owner p = own)"
  using assms
proof (induction xs arbitrary: c)
  case (Cons s xs)
  have "\<forall>p \<in> set c. seg_apart p s" "\<forall>p \<in> set c. seg_owner p = own" "seg_owner s = own"
    "ranges_ok c" "range_ok (seg_range s)"
    and xs: "\<forall>p \<in> set xs. seg_owner p = own" "ranges_ok xs"
    using Cons.prems by simp_all
  from canonical_push_spec [OF Cons.prems(1) this(1) this(4,5) this(2,3)]
  obtain c' where c': "canonical_push c s = Inr c'" "sorted_wrt seg_gap c'" "ranges_ok c'"
    "grants c' = grants (c @ [s])" "\<forall>p \<in> set c'. seg_owner p = own"
    and ap: "\<And>t. seg_apart s t \<Longrightarrow> \<forall>p \<in> set c. seg_apart p t \<Longrightarrow> \<forall>p \<in> set c'. seg_apart p t"
    by blast
  have "\<forall>x \<in> set xs. seg_apart s x" "\<forall>x \<in> set xs. \<forall>p \<in> set c. seg_apart p x"
    using Cons.prems(2,3) by simp_all
  then have "\<forall>p \<in> set c'. \<forall>x \<in> set xs. seg_apart p x"
    using ap by blast
  moreover have "\<forall>p \<in> set (c' @ xs). seg_owner p = own" "ranges_ok (c' @ xs)"
    using c'(3,5) xs by auto
  ultimately obtain c'' where "canonical_loop c' xs = Inr c''" "sorted_wrt seg_gap c''" "ranges_ok c''"
    "grants c'' = grants (c' @ xs)" "\<forall>p \<in> set c''. seg_owner p = own"
    using Cons.IH [OF c'(2)] Cons.prems(2) unfolding sorted_wrt.simps by blast
  then show ?case using c'(1,4) by (simp add: Un_assoc)
qed simp

subsection \<open>Disjoint segments\<close>

lemma cover_append [simp]: "cover (xs @ ys) own b = cover xs own b + cover ys own b"
  by (simp add: cover_def)

lemma cover_Nil [simp]: "cover [] own b = 0"
  by (simp add: cover_def)

lemma cover_Cons:
  "cover (s # segs) own b =
     (if seg_owner s = own \<and> b \<in> range_bytes (seg_range s) then 1 else 0) + cover segs own b"
  by (simp add: cover_def)

lemma cover_sort [simp]: "cover (sort_key seg_range xs) own b = cover xs own b"
  by (simp add: cover_def filter_sort)

lemma cover_pos: "s \<in> set segs \<Longrightarrow> seg_owner s = own \<Longrightarrow> b \<in> range_bytes (seg_range s) \<Longrightarrow> 0 < cover segs own b"
  by (auto simp: cover_def filter_empty_conv)

lemma apart_of_cover:
  assumes "sorted (map seg_range xs)" "\<forall>s \<in> set xs. seg_owner s = own" "ranges_ok xs"
    "\<forall>b. cover xs own b \<le> 1"
  shows "sorted_wrt seg_apart xs"
  using assms
proof (induction xs)
  case (Cons s xs)
  have "seg_apart s t" if t: "t \<in> set xs" for t
  proof -
    let ?b = "r_start (seg_range t)"
    have "?b \<in> range_bytes (seg_range t)" using Cons.prems(3) t by (simp add: start_in_range)
    with t Cons.prems(2) have "0 < cover xs own ?b" by (intro cover_pos [of t]) simp_all
    moreover have "cover (s # xs) own ?b \<le> 1" using Cons.prems(4) by blast
    ultimately have "?b \<notin> range_bytes (seg_range s)" using Cons.prems(2) by (simp add: cover_Cons split: if_splits)
    moreover have "r_start (seg_range s) \<le> ?b" using Cons.prems(1) t by (simp add: range_le_start)
    ultimately show ?thesis
      by (auto simp: range_bytes_def seg_apart_def starts_before_end_def split: option.splits)
  qed
  moreover have "cover xs own b \<le> 1" for b
    using Cons.prems(4) [rule_format, of b] by (simp add: cover_Cons)
  ultimately show ?case using Cons by simp
qed simp

lemma cover_of_gap: "sorted_wrt seg_gap xs \<Longrightarrow> cover xs own b \<le> 1"
proof (induction xs)
  case (Cons s xs)
  have "cover xs own b = 0" if "b \<in> range_bytes (seg_range s)"
    using that Cons.prems seg_gap_apart seg_apart_disjoint
    by (fastforce simp: cover_def filter_empty_conv)
  with Cons show ?case by (auto simp: cover_Cons)
qed simp

lemma sorted_of_gap: "sorted_wrt seg_gap xs \<Longrightarrow> ranges_ok xs \<Longrightarrow> sorted (map seg_range xs)"
proof (induction xs)
  case (Cons s xs)
  have "seg_range s \<le> seg_range t" if "t \<in> set xs" for t
    using that Cons.prems
    by (intro range_le_if_start_less) (force simp: seg_gap_def range_ok_def starts_before_end_def)
  with Cons show ?case by auto
qed simp

lemma canonicalize_owner_spec:
  assumes "\<forall>s \<in> set xs. seg_owner s = own" "ranges_ok xs" "\<forall>b. cover xs own b \<le> 1"
  shows "\<exists>c. canonicalize_owner xs = Inr c \<and> sorted_wrt seg_gap c \<and> ranges_ok c \<and>
    grants c = grants xs \<and> (\<forall>s \<in> set c. seg_owner s = own)"
proof -
  have "sorted_wrt seg_apart (sort_key seg_range xs)"
    using assms by (intro apart_of_cover) auto
  from canonical_loop_spec [of "[]" "sort_key seg_range xs" own] this assms
  obtain c where "canonical_loop [] (sort_key seg_range xs) = Inr c" "sorted_wrt seg_gap c" "ranges_ok c"
    "grants c = grants (sort_key seg_range xs)" "\<forall>s \<in> set c. seg_owner s = own"
    by auto
  moreover have "grants (sort_key seg_range xs) = grants xs" by (rule grants_cong) simp
  ultimately show ?thesis by (simp add: canonicalize_owner_def)
qed

subsection \<open>Rebuilding the segment list\<close>

lemma part_segments_spec:
  "grants (part_segments own s p) = (\<lambda>b. (own, b, seg_mode s)) ` part_bytes p"
  "cover (part_segments own s p) own b = (if b \<in> part_bytes p then 1 else 0)"
  "\<forall>r \<in> set_option p. range_ok r \<Longrightarrow> ranges_ok (part_segments own s p)"
  "\<forall>t \<in> set (part_segments own s p). seg_owner t = own"
  by (auto simp: part_segments_def part_bytes_def cover_Cons split: option.splits)

lemma split_owner_spec:
  assumes "ranges_ok segs" "range_ok assigned"
  shows "\<exists>ws. split_owner segs own assigned = Inr (filter (\<lambda>s. seg_owner s \<noteq> own) segs, ws) \<and>
    (\<forall>s \<in> set ws. seg_owner s = own) \<and> ranges_ok ws \<and>
    (\<forall>b. cover ws own b = (if b \<in> range_bytes assigned then 0 else cover segs own b)) \<and>
    (\<forall>b m. (own, b, m) \<in> grants ws \<longleftrightarrow> (own, b, m) \<in> grants segs \<and> b \<notin> range_bytes assigned)"
  using assms(1)
proof (induction segs)
  case (Cons s segs)
  then obtain ws where IH: "split_owner segs own assigned = Inr (filter (\<lambda>s. seg_owner s \<noteq> own) segs, ws)"
    and own: "\<forall>s \<in> set ws. seg_owner s = own" and ok: "ranges_ok ws"
    and cov: "\<And>b. cover ws own b = (if b \<in> range_bytes assigned then 0 else cover segs own b)"
    and gr: "\<And>b m. (own, b, m) \<in> grants ws \<longleftrightarrow> (own, b, m) \<in> grants segs \<and> b \<notin> range_bytes assigned"
    by auto
  have sok: "range_ok (seg_range s)" using Cons.prems by simp
  consider (other) "seg_owner s \<noteq> own"
    | (outside) "seg_owner s = own" "\<not> range_overlaps (seg_range s) assigned"
    | (cut) "seg_owner s = own" "range_overlaps (seg_range s) assigned" by blast
  then show ?case
  proof cases
    case other
    then show ?thesis
      using IH own ok cov gr by (auto simp: cover_Cons)
  next
    case outside
    then have "range_bytes (seg_range s) \<inter> range_bytes assigned = {}"
      using range_overlaps_iff [OF sok assms(2)] by simp
    then show ?thesis
      using outside IH own ok cov gr sok by (auto simp: cover_Cons)
  next
    case cut
    obtain p q where pq: "outside_parts (seg_range s) assigned = Inr (p, q)"
      using outside_parts_eq [OF cut(2)] by blast
    note parts = outside_parts_spec [OF cut(2) pq assms(2)]
    note ps = part_segments_spec [where own = own and s = s]
    let ?ws = "part_segments own s p @ part_segments own s q @ ws"
    have 1: "split_owner (s # segs) own assigned = Inr (filter (\<lambda>s. seg_owner s \<noteq> own) (s # segs), ?ws)"
      using cut IH pq by simp
    have 2: "(\<forall>t \<in> set ?ws. seg_owner t = own) \<and> ranges_ok ?ws"
      using ps(3,4) parts(1,2) own ok by auto
    have 3: "cover ?ws own b = (if b \<in> range_bytes assigned then 0 else cover (s # segs) own b)" for b
      using cut(1) parts(3,4) [of b] by (auto simp: ps cov cover_Cons range_bytes_def)
    have 4: "(own, b, m) \<in> grants ?ws \<longleftrightarrow> (own, b, m) \<in> grants (s # segs) \<and> b \<notin> range_bytes assigned" for b m
      using cut(1) parts(3,4) [of b] gr [of b m] by (auto simp: ps image_iff range_bytes_def)
    show ?thesis using 1 2 3 4 by blast
  qed
qed simp

lemma filter_owner_sort:
  assumes "\<forall>own. sorted_wrt seg_gap (filter (\<lambda>s. seg_owner s = own) xs)" "ranges_ok xs"
  shows "filter (\<lambda>s. seg_owner s = own) (sort_key seg_range xs) = filter (\<lambda>s. seg_owner s = own) xs"
  using assms sorted_of_gap [of "filter (\<lambda>s. seg_owner s = own) xs"]
  by (simp add: filter_sort sort_key_id_if_sorted)

definition replaced_grants :: "'o \<Rightarrow> posix_lock_range \<Rightarrow> (posix_lock_mode \<times> nat) option \<Rightarrow>
  ('o \<times> nat \<times> posix_lock_mode) set \<Rightarrow> ('o \<times> nat \<times> posix_lock_mode) set" where
  "replaced_grants own r replacement G =
     {(w, b, m). if w = own \<and> b \<in> range_bytes r then \<exists>t. replacement = Some (m, t) else (w, b, m) \<in> G}"

lemma rebuild_spec:
  assumes ok: "ranges_ok segs" "range_ok assigned"
    and gap: "\<forall>own. sorted_wrt seg_gap (filter (\<lambda>s. seg_owner s = own) segs)"
  shows "\<exists>segs'. rebuild_assignment segs own assigned replacement = Inr segs' \<and>
    ranges_ok segs' \<and> sorted (map seg_range segs') \<and>
    (\<forall>own. sorted_wrt seg_gap (filter (\<lambda>s. seg_owner s = own) segs')) \<and>
    grants segs' = replaced_grants own assigned replacement (grants segs)"
proof -
  let ?os = "filter (\<lambda>s. seg_owner s \<noteq> own) segs"
  let ?new = "case replacement of None \<Rightarrow> []
    | Some (mode, tgid) \<Rightarrow> [\<lparr>seg_owner = own, seg_range = assigned, seg_mode = mode, seg_report_tgid = tgid\<rparr>]"
  obtain ws where ws: "split_owner segs own assigned = Inr (?os, ws)"
    "\<forall>s \<in> set ws. seg_owner s = own" "ranges_ok ws"
    "\<And>b. cover ws own b = (if b \<in> range_bytes assigned then 0 else cover segs own b)"
    "\<And>b m. (own, b, m) \<in> grants ws \<longleftrightarrow> (own, b, m) \<in> grants segs \<and> b \<notin> range_bytes assigned"
    using split_owner_spec [OF ok] by blast
  have cov: "cover segs own b \<le> 1" for b
    using cover_of_gap [OF gap [rule_format, of own], of own b] by (simp add: cover_def conj_commute)
  have cov1: "\<forall>b. cover (ws @ ?new) own b \<le> 1"
    using ws(4) cov by (auto simp: cover_Cons split: option.split)
  have own1: "\<forall>s \<in> set (ws @ ?new). seg_owner s = own" "ranges_ok (ws @ ?new)"
    using ws(2,3) ok(2) by (cases replacement; force)+
  from canonicalize_owner_spec [OF own1 cov1] obtain c where c: "canonicalize_owner (ws @ ?new) = Inr c" "sorted_wrt seg_gap c" "ranges_ok c"
    "grants c = grants (ws @ ?new)" "\<forall>s \<in> set c. seg_owner s = own"
    by blast
  have re: "rebuild_assignment segs own assigned replacement = Inr (sort_key seg_range (?os @ c))"
    using ws(1) c(1) by (simp add: rebuild_assignment_def)
  have "sorted_wrt seg_gap (filter (\<lambda>s. seg_owner s = w) (?os @ c))" for w
  proof (cases "w = own")
    case True
    then have "filter (\<lambda>s. seg_owner s = w) (?os @ c) = c" using c(5) by simp
    then show ?thesis using c(2) by simp
  next
    case False
    then have "filter (\<lambda>s. seg_owner s = w) (?os @ c) = filter (\<lambda>s. seg_owner s = w) segs"
      using c(5) by (auto simp: filter_empty_conv intro: filter_cong)
    then show ?thesis using gap by simp
  qed
  moreover have "ranges_ok (?os @ c)" using ok(1) c(3) by auto
  ultimately have 1: "\<forall>w. sorted_wrt seg_gap (filter (\<lambda>s. seg_owner s = w) (sort_key seg_range (?os @ c)))"
    by (simp only: filter_owner_sort simp_thms)
  have "grants (sort_key seg_range (?os @ c)) = grants ?os \<union> grants c"
    using grants_cong [of "sort_key seg_range (?os @ c)" "?os @ c"] by simp
  also have "\<dots> = replaced_grants own assigned replacement (grants segs)"
  proof (rule set_eqI)
    fix x :: "'a \<times> nat \<times> posix_lock_mode"
    obtain w b m where x: "x = (w, b, m)" by (cases x)
    have os: "(w, b, m) \<in> grants ?os \<longleftrightarrow> w \<noteq> own \<and> (w, b, m) \<in> grants segs"
      by (auto simp: grants_iff)
    have new: "(w, b, m) \<in> grants ?new \<longleftrightarrow> w = own \<and> b \<in> range_bytes assigned \<and> (\<exists>t. replacement = Some (m, t))"
      by (auto simp: grants_iff split: option.splits)
    have "(w, b, m) \<in> grants ws \<longleftrightarrow> w = own \<and> (own, b, m) \<in> grants segs \<and> b \<notin> range_bytes assigned"
      using ws(2) ws(5) [of b m] by (auto simp: grants_iff)
    with os new show "x \<in> grants ?os \<union> grants c \<longleftrightarrow> x \<in> replaced_grants own assigned replacement (grants segs)"
      by (auto simp: x c(4) replaced_grants_def)
  qed
  finally show ?thesis using re 1 ok(1) c(3) by auto
qed

subsection \<open>The operations keep the invariant\<close>

lemma lock_inv_parts:
  assumes "lock_inv segs"
  shows "ranges_ok segs" "sorted (map seg_range segs)" "compatible segs"
    "\<forall>own. sorted_wrt seg_gap (filter (\<lambda>s. seg_owner s = own) segs)"
  using assms by (simp_all add: lock_inv_def)

text \<open>Someone else's grant is in the way of a lock on \<open>r\<close>.\<close>

definition blocked :: "('o \<times> nat \<times> posix_lock_mode) set \<Rightarrow> 'o \<Rightarrow> posix_lock_range \<Rightarrow> posix_lock_mode \<Rightarrow> bool" where
  "blocked G own r mode \<longleftrightarrow>
     (\<exists>w b m. (w, b, m) \<in> G \<and> w \<noteq> own \<and> b \<in> range_bytes r \<and> conflicts_with m mode)"

lemma find_conflict_blocked:
  assumes "ranges_ok segs" "range_ok r"
  shows "find_conflict segs own r mode = None \<longleftrightarrow> \<not> blocked (grants segs) own r mode"
proof -
  have "range_overlaps (seg_range s) r \<longleftrightarrow> (\<exists>b. b \<in> range_bytes (seg_range s) \<and> b \<in> range_bytes r)"
    if "s \<in> set segs" for s
    using range_overlaps_iff [of "seg_range s" r] assms that by auto
  then show ?thesis
    by (simp add: find_conflict_def find_None_iff blocked_def grants_iff) blast
qed

lemma compatible_replaced:
  assumes "compatible segs" "\<not> blocked (grants segs) own r mode"
    "grants segs' = replaced_grants own r (Some (mode, t)) (grants segs)"
  shows "compatible segs'"
proof -
  have old: "(w, b, m) \<in> grants segs" if "(w, b, m) \<in> grants segs'" "\<not> (w = own \<and> b \<in> range_bytes r)" for w b m
    using that by (auto simp: assms(3) replaced_grants_def)
  have new: "m = mode" if "(own, b, m) \<in> grants segs'" "b \<in> range_bytes r" for b m
    using that by (auto simp: assms(3) replaced_grants_def)
  have sym: "conflicts_with m1 m2 \<longleftrightarrow> conflicts_with m2 m1" for m1 m2
    by (auto simp: conflicts_with_def)
  have free: "\<not> conflicts_with m mode" if "(w, b, m) \<in> grants segs" "w \<noteq> own" "b \<in> range_bytes r" for w b m
    using that assms(2) by (auto simp: blocked_def)
  show ?thesis
    unfolding compatible_def
  proof (intro allI impI)
    fix o1 o2 b m1 m2
    assume g: "(o1, b, m1) \<in> grants segs'" "(o2, b, m2) \<in> grants segs'" "o1 \<noteq> o2"
    consider "b \<in> range_bytes r" "o1 = own" | "b \<in> range_bytes r" "o2 = own"
      | "\<not> (o1 = own \<and> b \<in> range_bytes r)" "\<not> (o2 = own \<and> b \<in> range_bytes r)" by blast
    then show "\<not> conflicts_with m1 m2"
    proof cases
      case 1
      then show ?thesis using g old [OF g(2)] new free sym by metis
    next
      case 2
      then show ?thesis using g old [OF g(1)] new free by metis
    next
      case 3
      then show ?thesis using g old assms(1) unfolding compatible_def by metis
    qed
  qed
qed

lemma compatible_subset: "compatible segs \<Longrightarrow> grants segs' \<subseteq> grants segs \<Longrightarrow> compatible segs'"
  unfolding compatible_def by blast

lemma rebuild_set:
  assumes "lock_inv segs" "range_ok r" "\<not> blocked (grants segs) own r mode"
  shows "\<exists>segs'. rebuild_assignment segs own r (Some (mode, tgid)) = Inr segs' \<and> lock_inv segs' \<and>
    grants segs' = replaced_grants own r (Some (mode, tgid)) (grants segs)"
  using rebuild_spec [OF lock_inv_parts(1) [OF assms(1)] assms(2) lock_inv_parts(4) [OF assms(1)], of own "Some (mode, tgid)"]
    compatible_replaced [OF lock_inv_parts(3) [OF assms(1)] assms(3)]
  unfolding lock_inv_def by blast

lemma rebuild_unlock:
  assumes "lock_inv segs" "range_ok r"
  shows "\<exists>segs'. rebuild_assignment segs own r None = Inr segs' \<and> lock_inv segs' \<and>
    grants segs' = replaced_grants own r None (grants segs)"
proof -
  obtain segs' where re: "rebuild_assignment segs own r None = Inr segs'" "ranges_ok segs'"
    "sorted (map seg_range segs')" "\<forall>own. sorted_wrt seg_gap (filter (\<lambda>s. seg_owner s = own) segs')"
    "grants segs' = replaced_grants own r None (grants segs)"
    using rebuild_spec [OF lock_inv_parts(1) [OF assms(1)] assms(2) lock_inv_parts(4) [OF assms(1)], of own None] by blast
  have "grants segs' \<subseteq> grants segs"
    by (auto simp: re(5) replaced_grants_def split: if_splits)
  then have "compatible segs'" using compatible_subset lock_inv_parts(3) [OF assms(1)] by blast
  with re show ?thesis by (auto simp: lock_inv_def)
qed

lemma retire_spec:
  assumes "lock_inv segs"
  shows "lock_inv (retire_binding own segs) \<and>
    grants (retire_binding own segs) = {(w, b, m) \<in> grants segs. w \<noteq> own}"
proof -
  have gr: "grants (retire_binding own segs) = {(w, b, m) \<in> grants segs. w \<noteq> own}"
    by (auto simp: retire_binding_def grants_iff)
  have "filter (\<lambda>s. seg_owner s = w) (retire_binding own segs) =
      filter (\<lambda>s. seg_owner s \<noteq> own) (filter (\<lambda>s. seg_owner s = w) segs)" for w
    by (simp add: retire_binding_def conj_commute)
  then have "sorted_wrt seg_gap (filter (\<lambda>s. seg_owner s = w) (retire_binding own segs))" for w
    using lock_inv_parts(4) [OF assms] by (simp only: sorted_wrt_filter)
  moreover have "sorted (map seg_range (retire_binding own segs))"
    using lock_inv_parts(2) [OF assms] by (simp add: retire_binding_def sorted_filter)
  moreover have "compatible (retire_binding own segs)"
    by (rule compatible_subset [OF lock_inv_parts(3) [OF assms]]) (auto simp: gr)
  moreover have "ranges_ok (retire_binding own segs)"
    using lock_inv_parts(1) [OF assms] by (simp add: retire_binding_def)
  ultimately show ?thesis
    unfolding lock_inv_def using gr by blast
qed

lemma set_binding_free:
  assumes "lock_inv segs" "range_ok r" "\<not> blocked (grants segs) own r mode"
  shows "\<exists>segs'. set_binding True own r mode tgid wait segs = Inr (Set_Return Set_Applied segs' True) \<and>
    lock_inv segs' \<and> grants segs' = replaced_grants own r (Some (mode, tgid)) (grants segs)"
  using rebuild_set [OF assms, of tgid] assms(3) find_conflict_blocked [OF lock_inv_parts(1) [OF assms(1)] assms(2), of own mode]
  by (auto simp: set_binding_def)

lemma set_binding_blocked:
  assumes "lock_inv segs" "range_ok r" "blocked (grants segs) own r mode"
  shows "\<exists>c. set_binding True own r mode tgid wait segs =
    Inr (if wait then Set_Wait else Set_Return (Set_Conflict c) segs False)"
  using assms(3) find_conflict_blocked [OF lock_inv_parts(1) [OF assms(1)] assms(2), of own mode]
  by (auto simp: set_binding_def)

lemma unlock_binding_live:
  assumes "lock_inv segs" "range_ok r"
  shows "\<exists>segs'. unlock_binding True own r segs = Inr (Set_Return Set_Applied segs' True) \<and>
    lock_inv segs' \<and> grants segs' = replaced_grants own r None (grants segs)"
proof (cases "\<exists>s \<in> set segs. seg_owner s = own \<and> range_overlaps (seg_range s) r")
  case True
  with rebuild_unlock [OF assms, of own] show ?thesis by (auto simp: unlock_binding_def)
next
  case False
  have "(own, b, m) \<notin> grants segs" if "b \<in> range_bytes r" for b m
  proof
    assume "(own, b, m) \<in> grants segs"
    then obtain s where s: "s \<in> set segs" "seg_owner s = own" "b \<in> range_bytes (seg_range s)"
      by (auto simp: grants_iff)
    with that range_overlaps_iff [of "seg_range s" r] lock_inv_parts(1) [OF assms(1)] assms(2) False
    show False by blast
  qed
  then have "grants segs = replaced_grants own r None (grants segs)"
    by (auto simp: replaced_grants_def)
  with False assms(1) show ?thesis by (simp add: unlock_binding_def)
qed

fun op_range_ok :: "'o lock_op \<Rightarrow> bool" where
  "op_range_ok (Lock_Set _ _ r _ _ _) = range_ok r"
| "op_range_ok (Lock_Unlock _ _ r) = range_ok r"
| "op_range_ok (Lock_Retire _) = True"

lemma lock_apply_inv:
  assumes "lock_inv segs" "op_range_ok p"
  shows "\<exists>segs'. lock_apply p segs = Inr segs' \<and> lock_inv segs'"
proof (cases p)
  case (Lock_Set live own r mode tgid wait)
  with assms(2) have r: "range_ok r" by simp
  show ?thesis
  proof (cases live)
    case True
    then show ?thesis
      using Lock_Set assms(1) set_binding_free [OF assms(1) r, of own mode tgid wait]
        set_binding_blocked [OF assms(1) r, of own mode tgid wait]
      by (cases "blocked (grants segs) own r mode") (auto simp: pass_segments_def)
  qed (use Lock_Set assms(1) in \<open>simp add: set_binding_def pass_segments_def\<close>)
next
  case (Lock_Unlock live own r)
  with assms(2) have r: "range_ok r" by simp
  show ?thesis
  proof (cases live)
    case True
    with Lock_Unlock unlock_binding_live [OF assms(1) r, of own] show ?thesis
      by (auto simp: pass_segments_def)
  qed (use Lock_Unlock assms(1) in \<open>simp add: unlock_binding_def pass_segments_def\<close>)
next
  case (Lock_Retire own)
  with retire_spec [OF assms(1), of own] show ?thesis by (simp add: retire_posix_locks_def)
qed

lemma lock_run_inv:
  "lock_inv segs \<Longrightarrow> \<forall>p \<in> set ops. op_range_ok p \<Longrightarrow> \<exists>segs'. lock_run ops segs = Inr segs' \<and> lock_inv segs'"
proof (induction ops arbitrary: segs)
  case (Cons p ops)
  then obtain segs1 where "lock_apply p segs = Inr segs1" "lock_inv segs1"
    using lock_apply_inv [of segs p] by auto
  with Cons show ?case by simp
qed simp

lemma lock_inv_Nil [simp]: "lock_inv []"
  by (simp add: lock_inv_def compatible_def)

lemma lock_inv_single: "range_ok (seg_range s) \<Longrightarrow> lock_inv [s]"
  by (auto simp: lock_inv_def compatible_def)

lemma owner_mode_unique:
  assumes "lock_inv segs" "(w, b, m1) \<in> grants segs" "(w, b, m2) \<in> grants segs"
  shows "m1 = m2"
proof -
  let ?xs = "filter (\<lambda>s. seg_owner s = w) segs"
  have gap: "sorted_wrt seg_gap ?xs" using lock_inv_parts(4) [OF assms(1)] by blast
  from assms(2,3) obtain s t where st: "s \<in> set ?xs" "t \<in> set ?xs" "seg_mode s = m1" "seg_mode t = m2"
    "b \<in> range_bytes (seg_range s)" "b \<in> range_bytes (seg_range t)"
    by (auto simp: grants_iff)
  from st(1,2) obtain i j where "s = ?xs ! i" "t = ?xs ! j" "i < length ?xs" "j < length ?xs"
    unfolding in_set_conv_nth by metis
  moreover have "\<not> seg_gap s t" "\<not> seg_gap t s"
    using st(5,6) seg_gap_apart seg_apart_disjoint by (metis disjoint_iff)+
  ultimately have "i = j" using sorted_wrt_nth_less [OF gap] by (metis nat_neq_iff)
  with \<open>s = ?xs ! i\<close> \<open>t = ?xs ! j\<close> st(3,4) show ?thesis by simp
qed

subsection \<open>Canonical segment lists are unique\<close>

text \<open>A maximal run of one mode in a set of grants of one owner.\<close>

definition maximal_run :: "(nat \<times> posix_lock_mode) set \<Rightarrow> posix_lock_range \<Rightarrow> posix_lock_mode \<Rightarrow> bool" where
  "maximal_run G r m \<longleftrightarrow>
     range_ok r \<and> (\<forall>b \<in> range_bytes r. (b, m) \<in> G) \<and>
     (\<forall>b. Suc b = r_start r \<longrightarrow> (b, m) \<notin> G) \<and> (\<forall>e. r_end r = Some e \<longrightarrow> (e, m) \<notin> G)"

lemma maximal_run_unique:
  assumes "maximal_run G r m" "maximal_run G r' m" "r_start r' \<in> range_bytes r"
  shows "r = r'"
proof -
  have "r_start r = r_start r'"
  proof (rule ccontr)
    assume "r_start r \<noteq> r_start r'"
    with assms(3) obtain b where b: "Suc b = r_start r'" "r_start r \<le> b"
      by (cases "r_start r'") (auto simp: range_bytes_def)
    with assms(3) have "b \<in> range_bytes r"
      by (auto simp: range_bytes_def starts_before_end_def split: option.splits)
    with assms(1,2) b(1) show False unfolding maximal_run_def by blast
  qed
  moreover have "r_end x = None \<or> (\<exists>e e'. r_end x = Some e \<and> r_end y = Some e' \<and> e' \<le> e)"
    if xy: "maximal_run G x m" "maximal_run G y m" "r_start x = r_start y" for x y
  proof (cases "r_end x")
    case (Some e)
    then have "(e, m) \<notin> G" using xy(1) by (simp add: maximal_run_def)
    then have "e \<notin> range_bytes y" using xy(2) by (auto simp: maximal_run_def)
    moreover have "r_start y \<le> e" using xy Some by (simp add: maximal_run_def range_ok_def starts_before_end_def)
    ultimately show ?thesis using Some by (auto simp: range_bytes_def starts_before_end_def split: option.splits)
  qed simp
  from this [OF assms(1,2)] this [OF assms(2,1)] calculation have "r_end r = r_end r'"
    by auto
  ultimately show ?thesis by (simp add: posix_lock_range.expand)
qed

lemma owner_segments_maximal:
  assumes "sorted_wrt seg_gap xs" "ranges_ok xs" "s \<in> set xs"
    "G = {(b, seg_mode t) | t b. t \<in> set xs \<and> b \<in> range_bytes (seg_range t)}"
  shows "maximal_run G (seg_range s) (seg_mode s)"
proof -
  from assms(3) obtain ys zs where xs: "xs = ys @ s # zs" by (meson split_list)
  have before: "seg_gap t s" if "t \<in> set ys" for t using assms(1) that by (simp add: xs sorted_wrt_append)
  have after: "seg_gap s t" if "t \<in> set zs" for t using assms(1) that by (simp add: xs sorted_wrt_append)
  have ok: "range_ok (seg_range s)" using assms(2,3) by blast
  have member: "\<exists>t \<in> set xs. seg_mode t = m \<and> b \<in> range_bytes (seg_range t)" if "(b, m) \<in> G" for b m
    using that assms(4) by auto
  have "(b, seg_mode s) \<notin> G" if "Suc b = r_start (seg_range s)" for b
  proof
    assume "(b, seg_mode s) \<in> G"
    then obtain t where t: "t \<in> set xs" "seg_mode t = seg_mode s" "b \<in> range_bytes (seg_range t)"
      using member by blast
    consider "t \<in> set ys" | "t = s" | "t \<in> set zs" using t(1) xs by auto
    then show False
      using before after t that ok
      by cases (fastforce simp: seg_gap_def range_bytes_def range_ok_def starts_before_end_def)+
  qed
  moreover have "(e, seg_mode s) \<notin> G" if "r_end (seg_range s) = Some e" for e
  proof
    assume "(e, seg_mode s) \<in> G"
    then obtain t where t: "t \<in> set xs" "seg_mode t = seg_mode s" "e \<in> range_bytes (seg_range t)"
      using member by blast
    consider "t \<in> set ys" | "t = s" | "t \<in> set zs" using t(1) xs by auto
    then show False
      using before after t that ok
      by cases (fastforce simp: seg_gap_def range_bytes_def range_ok_def starts_before_end_def)+
  qed
  ultimately show ?thesis
    using ok assms(3,4) by (auto simp: maximal_run_def)
qed

lemma run_member:
  assumes "sorted_wrt seg_gap xs" "ranges_ok xs"
    "G = {(b, seg_mode t) | t b. t \<in> set xs \<and> b \<in> range_bytes (seg_range t)}"
  shows "maximal_run G r m \<longleftrightarrow> (\<exists>s \<in> set xs. seg_range s = r \<and> seg_mode s = m)"
proof
  assume run: "maximal_run G r m"
  then have "(r_start r, m) \<in> G" by (simp add: maximal_run_def start_in_range)
  then obtain s where s: "s \<in> set xs" "seg_mode s = m" "r_start r \<in> range_bytes (seg_range s)"
    using assms(3) by auto
  with maximal_run_unique [OF owner_segments_maximal [OF assms(1,2) s(1) assms(3)], of r] run
  show "\<exists>s \<in> set xs. seg_range s = r \<and> seg_mode s = m" by blast
qed (use owner_segments_maximal [OF assms(1,2) _ assms(3)] in blast)

lemma gap_distinct: "sorted_wrt seg_gap xs \<Longrightarrow> ranges_ok xs \<Longrightarrow> distinct (map seg_range xs)"
proof (induction xs)
  case (Cons s xs)
  have "seg_range s \<noteq> seg_range t" if "t \<in> set xs" for t
    using that Cons.prems by (fastforce simp: seg_gap_def range_ok_def starts_before_end_def)
  with Cons show ?case by auto
qed simp

lemma gap_lists_unique:
  assumes "sorted_wrt seg_gap xs" "ranges_ok xs" "sorted_wrt seg_gap ys" "ranges_ok ys"
    "{(b, seg_mode t) | t b. t \<in> set xs \<and> b \<in> range_bytes (seg_range t)} =
     {(b, seg_mode t) | t b. t \<in> set ys \<and> b \<in> range_bytes (seg_range t)}"
  shows "map (\<lambda>s. (seg_range s, seg_mode s)) xs = map (\<lambda>s. (seg_range s, seg_mode s)) ys"
proof -
  have same: "(\<exists>s \<in> set xs. seg_range s = r \<and> seg_mode s = m) \<longleftrightarrow> (\<exists>s \<in> set ys. seg_range s = r \<and> seg_mode s = m)"
    for r m
    using run_member [OF assms(1,2) refl, of r m] run_member [OF assms(3,4) assms(5), of r m] by simp
  have "r \<in> seg_range ` set xs \<longleftrightarrow> (\<exists>m. \<exists>s \<in> set xs. seg_range s = r \<and> seg_mode s = m)" for r by auto
  moreover have "r \<in> seg_range ` set ys \<longleftrightarrow> (\<exists>m. \<exists>s \<in> set ys. seg_range s = r \<and> seg_mode s = m)" for r by auto
  ultimately have "seg_range ` set xs = seg_range ` set ys" unfolding same by blast
  then have ranges: "map seg_range xs = map seg_range ys"
    using assms(1-4) by (intro sorted_distinct_set_unique) (simp_all add: sorted_of_gap gap_distinct)
  then have len: "length xs = length ys" by (rule map_eq_imp_length_eq)
  have at: "seg_range (xs ! i) = seg_range (ys ! i) \<and> seg_mode (xs ! i) = seg_mode (ys ! i)" if i: "i < length xs" for i
  proof -
    have r: "seg_range (xs ! i) = seg_range (ys ! i)"
      using arg_cong [OF ranges, of "\<lambda>l. l ! i"] i len by simp
    have "xs ! i \<in> set xs" "ys ! i \<in> set ys" using i len by simp_all
    moreover from this same obtain s where "s \<in> set ys" "seg_range s = seg_range (xs ! i)" "seg_mode s = seg_mode (xs ! i)"
      by blast
    moreover have "inj_on seg_range (set ys)" using gap_distinct [OF assms(3,4)] by (simp add: distinct_map)
    ultimately show ?thesis using r by (metis inj_onD)
  qed
  show ?thesis by (rule nth_equalityI) (simp_all add: len at)
qed

subsection \<open>Properties\<close>

text \<open>C10: Record locks exclude each other and are never corrupted. After any sequence
  of lock, unlock and close operations by any owners on an inode, none of the
  assertions of the segment algebra has fired; if two different owners hold the
  same byte, both hold it for reading; and no owner holds a byte in two modes.\<close>

theorem posix_locks_exclusive:
  assumes "\<forall>p \<in> set ops. op_range_ok p"
  shows "\<exists>segs. lock_run ops [] = Inr segs \<and>
    (\<forall>w1 w2 b m1 m2. (w1, b, m1) \<in> grants segs \<and> (w2, b, m2) \<in> grants segs \<longrightarrow>
       (if w1 = w2 then m1 = m2 else m1 = Read_Lock \<and> m2 = Read_Lock))"
proof -
  from lock_run_inv [OF lock_inv_Nil assms] obtain segs where segs: "lock_run ops [] = Inr segs" "lock_inv segs"
    by blast
  have "if w1 = w2 then m1 = m2 else m1 = Read_Lock \<and> m2 = Read_Lock"
    if "(w1, b, m1) \<in> grants segs" "(w2, b, m2) \<in> grants segs" for w1 w2 b m1 m2
  proof (cases "w1 = w2")
    case True
    then show ?thesis using owner_mode_unique [OF segs(2)] that by simp
  next
    case False
    then have "\<not> conflicts_with m1 m2"
      using lock_inv_parts(3) [OF segs(2)] that unfolding compatible_def by blast
    then show ?thesis using False by (cases m1; cases m2) (simp_all add: conflicts_with_def)
  qed
  with segs(1) show ?thesis by blast
qed

theorem posix_locks_exclusive_witness:
  "\<exists>segs. lock_run [Lock_Set True (1::nat) (Lock_Range 0 (Some 10)) Write_Lock 7 False,
      Lock_Set True 2 (Lock_Range 5 None) Read_Lock 8 False] [] = Inr segs \<and>
    (\<forall>m. (2, 5, m) \<notin> grants segs \<or> (1, 5, m) \<notin> grants segs \<or> m = Read_Lock)"
proof -
  have "\<forall>p \<in> set [Lock_Set True (1::nat) (Lock_Range 0 (Some 10)) Write_Lock 7 False,
      Lock_Set True 2 (Lock_Range 5 None) Read_Lock 8 False]. op_range_ok p"
    by (simp add: range_ok_def starts_before_end_def)
  from posix_locks_exclusive [OF this] show ?thesis by (metis numeral_One numeral_eq_iff semiring_norm(85))
qed

text \<open>C9: Setting a lock is exact. A request is refused, or waits, exactly when another
  owner holds a byte of the range in a conflicting mode, and then nothing
  changes. Otherwise it is granted at once, and the new lock table differs from
  the old one only in the requested bytes of the requesting owner, which now
  have the requested mode: earlier locks of the same owner are split, replaced
  or merged as needed.\<close>

theorem posix_set_exact:
  assumes "lock_inv segs" "range_ok r"
  shows "if blocked (grants segs) own r mode
    then (\<exists>c. set_binding True own r mode tgid False segs = Inr (Set_Return (Set_Conflict c) segs False)) \<and>
         set_binding True own r mode tgid True segs = Inr Set_Wait
    else (\<exists>segs'. set_binding True own r mode tgid wait segs = Inr (Set_Return Set_Applied segs' True) \<and>
         lock_inv segs' \<and>
         (\<forall>w b m. (w, b, m) \<in> grants segs' \<longleftrightarrow>
            (if w = own \<and> b \<in> range_bytes r then m = mode else (w, b, m) \<in> grants segs)))"
proof (cases "blocked (grants segs) own r mode")
  case True
  with set_binding_blocked [OF assms True, of tgid False] set_binding_blocked [OF assms True, of tgid True]
  show ?thesis by auto
next
  case False
  from set_binding_free [OF assms False, of tgid wait] False show ?thesis
    by (auto simp: replaced_grants_def)
qed

theorem posix_set_exact_witness:
  "\<exists>segs'. set_binding True (1::nat) (Lock_Range 3 (Some 6)) Write_Lock 9 False [] =
     Inr (Set_Return Set_Applied segs' True) \<and> (1, 4, Write_Lock) \<in> grants segs'"
proof -
  have "range_ok (Lock_Range 3 (Some 6))" by (simp add: range_ok_def starts_before_end_def)
  from posix_set_exact [OF lock_inv_Nil this, of "1::nat" Write_Lock 9 False] show ?thesis
    by (auto simp: blocked_def range_bytes_def starts_before_end_def)
qed





end
