(* ===== verification/Flock.thy ===== *)
theory Flock
  imports Sys_Error
begin

text \<open>
  Whole-file locks (\<open>fs/lock/flock/mod.rs\<close>). The domain of an inode is a list of
  grants, at most one per open description; the order is immaterial, because
  removal swaps with the last element. Each function below is one critical
  section of the grant lock. The loop of \<open>lock\<close> is modelled twice: pass by pass,
  so that other operations can come in between, and as a whole without
  interference. An owner is an identity, the liveness of its lease an argument.
\<close>

subsection \<open>Data\<close>

datatype flock_mode = Shared | Exclusive

definition flock_conflicts_with :: "flock_mode \<Rightarrow> flock_mode \<Rightarrow> bool" where
  "flock_conflicts_with held requested \<longleftrightarrow> held = Exclusive \<or> requested = Exclusive"

datatype flock_outcome = Flock_Complete | Flock_WouldBlock | Flock_Interrupted | Flock_Retired

record 'o flock_grant =
  fg_owner :: 'o
  fg_mode :: flock_mode

datatype 'o lock_attempt =
    Attempt_Complete "'o flock_grant list"
  | Attempt_Converted "'o flock_grant list"
  | Attempt_Wait
  | Attempt_WouldBlock
  | Attempt_Retired

subsection \<open>Critical sections\<close>

text \<open>The search loops of \<open>owner_index\<close> and \<open>retire\<close>: the index of the only grant
  that satisfies a predicate; two such grants are an assertion failure.\<close>

fun find_unique :: "('o \<Rightarrow> bool) \<Rightarrow> 'o flock_grant list \<Rightarrow> nat \<Rightarrow> nat option \<Rightarrow> fault + nat option" where
  "find_unique same [] index found = Inr found"
| "find_unique same (g # gs) index found =
     (if same (fg_owner g) then
        (if found = None then find_unique same gs (Suc index) (Some index) else Inl Assert_Panic)
      else find_unique same gs (Suc index) found)"

definition owner_index :: "'o flock_grant list \<Rightarrow> 'o \<Rightarrow> fault + nat option" where
  "owner_index gs owner = find_unique (\<lambda>x. x = owner) gs 0 None"

definition swap_remove :: "'a list \<Rightarrow> nat \<Rightarrow> fault + 'a list" where
  "swap_remove xs i = (if i < length xs then Inr (butlast (xs[i := last xs])) else Inl Index_Panic)"

definition flock_conflicts :: "'o flock_grant list \<Rightarrow> 'o \<Rightarrow> flock_mode \<Rightarrow> bool" where
  "flock_conflicts gs owner requested \<longleftrightarrow>
     (\<exists>g \<in> set gs. fg_owner g \<noteq> owner \<and> flock_conflicts_with (fg_mode g) requested)"

definition attempt_lock ::
  "bool \<Rightarrow> 'o \<Rightarrow> flock_mode \<Rightarrow> bool \<Rightarrow> 'o flock_grant list \<Rightarrow> fault + 'o lock_attempt" where
  "attempt_lock live owner mode nonblocking gs =
     (if \<not> live then Inr Attempt_Retired
      else case owner_index gs owner of
          Inl f \<Rightarrow> Inl f
        | Inr (Some i) \<Rightarrow>
            (if \<not> i < length gs then Inl Index_Panic
             else if fg_mode (gs ! i) = mode then Inr (Attempt_Complete gs)
             else map_sum id Attempt_Converted (swap_remove gs i))
        | Inr None \<Rightarrow>
            Inr (if flock_conflicts gs owner mode
                 then (if nonblocking then Attempt_WouldBlock else Attempt_Wait)
                 else Attempt_Complete (gs @ [\<lparr>fg_owner = owner, fg_mode = mode\<rparr>])))"

definition lock_can_continue :: "bool \<Rightarrow> 'o \<Rightarrow> flock_mode \<Rightarrow> 'o flock_grant list \<Rightarrow> bool" where
  "lock_can_continue live owner mode gs \<longleftrightarrow> \<not> live \<or> \<not> flock_conflicts gs owner mode"

text \<open>\<open>unlock\<close> and \<open>retire\<close> return the outcome, the grants and whether waiters are
  notified.\<close>

definition flock_unlock ::
  "bool \<Rightarrow> 'o \<Rightarrow> 'o flock_grant list \<Rightarrow> fault + flock_outcome \<times> 'o flock_grant list \<times> bool" where
  "flock_unlock live owner gs =
     (if \<not> live then Inr (Flock_Retired, gs, False)
      else case owner_index gs owner of
          Inl f \<Rightarrow> Inl f
        | Inr None \<Rightarrow> Inr (Flock_Complete, gs, False)
        | Inr (Some i) \<Rightarrow> map_sum id (\<lambda>gs'. (Flock_Complete, gs', True)) (swap_remove gs i))"

definition flock_retire :: "('o \<Rightarrow> bool) \<Rightarrow> 'o flock_grant list \<Rightarrow> fault + 'o flock_grant list" where
  "flock_retire same_owner gs =
     (case find_unique same_owner gs 0 None of
        Inl f \<Rightarrow> Inl f
      | Inr None \<Rightarrow> Inr gs
      | Inr (Some i) \<Rightarrow> swap_remove gs i)"

subsection \<open>The whole lock loop without interference\<close>

datatype 'o lock_end = Lock_Ends flock_outcome "'o flock_grant list" | Lock_Waits "'o flock_grant list"

text \<open>A pass that converts removes the old grant, notifies, and tries again. The
  bound on the passes is shown below to be reached by no run.\<close>

fun flock_lock :: "nat \<Rightarrow> bool \<Rightarrow> 'o \<Rightarrow> flock_mode \<Rightarrow> bool \<Rightarrow> 'o flock_grant list \<Rightarrow> (fault + 'o lock_end) option" where
  "flock_lock 0 live owner mode nonblocking gs = None"
| "flock_lock (Suc n) live owner mode nonblocking gs =
     (case attempt_lock live owner mode nonblocking gs of
        Inl f \<Rightarrow> Some (Inl f)
      | Inr (Attempt_Complete gs') \<Rightarrow> Some (Inr (Lock_Ends Flock_Complete gs'))
      | Inr (Attempt_Converted gs') \<Rightarrow> flock_lock n live owner mode nonblocking gs'
      | Inr Attempt_Wait \<Rightarrow> Some (Inr (Lock_Waits gs))
      | Inr Attempt_WouldBlock \<Rightarrow> Some (Inr (Lock_Ends Flock_WouldBlock gs))
      | Inr Attempt_Retired \<Rightarrow> Some (Inr (Lock_Ends Flock_Retired gs)))"

subsection \<open>Any interleaving\<close>

datatype 'o flock_op =
    Flock_Attempt bool 'o flock_mode bool
  | Flock_Unlock bool 'o
  | Flock_Retire 'o

fun flock_apply :: "'o flock_op \<Rightarrow> 'o flock_grant list \<Rightarrow> fault + 'o flock_grant list" where
  "flock_apply (Flock_Attempt live owner mode nonblocking) gs =
     (case attempt_lock live owner mode nonblocking gs of
        Inl f \<Rightarrow> Inl f
      | Inr (Attempt_Complete gs') \<Rightarrow> Inr gs'
      | Inr (Attempt_Converted gs') \<Rightarrow> Inr gs'
      | Inr _ \<Rightarrow> Inr gs)"
| "flock_apply (Flock_Unlock live owner) gs = map_sum id (\<lambda>(_, gs', _). gs') (flock_unlock live owner gs)"
| "flock_apply (Flock_Retire owner) gs = flock_retire (\<lambda>x. x = owner) gs"

fun flock_run :: "'o flock_op list \<Rightarrow> 'o flock_grant list \<Rightarrow> fault + 'o flock_grant list" where
  "flock_run [] gs = Inr gs"
| "flock_run (p # ps) gs = (case flock_apply p gs of Inl f \<Rightarrow> Inl f | Inr gs' \<Rightarrow> flock_run ps gs')"

text \<open>Who holds the lock in which mode, and the invariant.\<close>

definition holds :: "'o flock_grant list \<Rightarrow> 'o \<Rightarrow> flock_mode option" where
  "holds gs owner = map_of (map (\<lambda>g. (fg_owner g, fg_mode g)) gs) owner"

definition flock_inv :: "'o flock_grant list \<Rightarrow> bool" where
  "flock_inv gs \<longleftrightarrow> distinct (map fg_owner gs) \<and>
     (\<forall>g \<in> set gs. \<forall>h \<in> set gs. fg_owner g \<noteq> fg_owner h \<longrightarrow> fg_mode g = Shared)"

subsection \<open>Searching and removing\<close>

lemma find_unique_found:
  "\<forall>g \<in> set gs. \<not> same (fg_owner g) \<Longrightarrow> find_unique same gs i found = Inr found"
  by (induction gs arbitrary: i) simp_all

lemma find_unique_spec:
  assumes "distinct (map fg_owner gs)"
  shows "(if owner \<in> fg_owner ` set gs
    then \<exists>k < length gs. fg_owner (gs ! k) = owner \<and> find_unique (\<lambda>x. x = owner) gs i None = Inr (Some (i + k))
    else find_unique (\<lambda>x. x = owner) gs i None = Inr None)"
  using assms
proof (induction gs arbitrary: i)
  case (Cons g gs)
  show ?case
  proof (cases "fg_owner g = owner")
    case True
    with Cons.prems have "\<forall>h \<in> set gs. \<not> fg_owner h = owner" by (auto simp: image_iff)
    then have "find_unique (\<lambda>x. x = owner) gs (Suc i) (Some i) = Inr (Some i)"
      by (rule find_unique_found)
    with True show ?thesis by (auto intro!: exI [of _ 0])
  next
    case False
    with Cons.prems have IH: "if owner \<in> fg_owner ` set gs
      then \<exists>k < length gs. fg_owner (gs ! k) = owner \<and> find_unique (\<lambda>x. x = owner) gs (Suc i) None = Inr (Some (Suc i + k))
      else find_unique (\<lambda>x. x = owner) gs (Suc i) None = Inr None"
      by (intro Cons.IH) simp
    show ?thesis
    proof (cases "owner \<in> fg_owner ` set gs")
      case True
      with IH obtain k where "k < length gs" "fg_owner (gs ! k) = owner"
        "find_unique (\<lambda>x. x = owner) gs (Suc i) None = Inr (Some (Suc i + k))" by auto
      with True False show ?thesis by (auto intro: exI [of _ "Suc k"])
    qed (use IH False in auto)
  qed
qed simp

lemma owner_index_cases:
  assumes "distinct (map fg_owner gs)"
  obtains (absent) "owner \<notin> fg_owner ` set gs" "owner_index gs owner = Inr None"
  | (found) k where "k < length gs" "fg_owner (gs ! k) = owner" "owner_index gs owner = Inr (Some k)"
  using find_unique_spec [OF assms, of owner 0] by (auto simp: owner_index_def split: if_splits)

lemma swap_remove_spec:
  assumes "i < length xs"
  shows "\<exists>ys. swap_remove xs i = Inr ys \<and> mset ys = mset xs - {#xs ! i#}"
proof -
  from assms obtain ys x where xs: "xs = ys @ [x]" by (cases xs rule: rev_cases) auto
  show ?thesis
  proof (cases "i = length ys")
    case True
    then show ?thesis by (simp add: swap_remove_def xs)
  next
    case False
    with assms xs have "i < length ys" by simp
    then show ?thesis
      by (auto simp: swap_remove_def xs nth_append list_update_append mset_update add_mset_commute)
  qed
qed

lemma remove_owner:
  assumes "distinct (map fg_owner gs)" "k < length gs" "fg_owner (gs ! k) = owner"
  shows "\<exists>gs'. swap_remove gs k = Inr gs' \<and> distinct (map fg_owner gs') \<and>
    set gs' = {g \<in> set gs. fg_owner g \<noteq> owner}"
proof -
  obtain gs' where gs': "swap_remove gs k = Inr gs'" "mset gs' = mset gs - {#gs ! k#}"
    using swap_remove_spec [OF assms(2)] by blast
  then have m: "mset (gs ! k # gs') = mset gs" using assms(2) by simp
  then have "mset (map fg_owner (gs ! k # gs')) = mset (map fg_owner gs)" by (metis mset_map)
  then have d: "distinct (map fg_owner (gs ! k # gs'))" using assms(1) mset_eq_imp_distinct_iff by blast
  have "set gs = insert (gs ! k) (set gs')" using mset_eq_setD [OF m] by simp
  with gs'(1) d assms(3) show ?thesis by (auto simp: image_iff)
qed

lemma holds_None [simp]: "holds gs owner = None \<longleftrightarrow> owner \<notin> fg_owner ` set gs"
  by (auto simp: holds_def map_of_eq_None_iff image_iff)

lemma holds_Some:
  "distinct (map fg_owner gs) \<Longrightarrow>
     holds gs owner = Some m \<longleftrightarrow> (\<exists>g \<in> set gs. fg_owner g = owner \<and> fg_mode g = m)"
  unfolding holds_def by (subst map_of_eq_Some_iff) (auto simp: o_def image_iff)

lemma holds_removed:
  assumes "distinct (map fg_owner gs)" "distinct (map fg_owner gs')"
    "set gs' = {g \<in> set gs. fg_owner g \<noteq> owner}"
  shows "holds gs' = (holds gs)(owner := None)"
proof
  fix x
  show "holds gs' x = ((holds gs)(owner := None)) x"
  proof (cases "x = owner")
    case True
    with assms(3) show ?thesis by auto
  next
    case False
    have "holds gs' x = Some m \<longleftrightarrow> holds gs x = Some m" for m
      using assms False by (auto simp: holds_Some)
    then show ?thesis using False by (metis fun_upd_other not_Some_eq)
  qed
qed

lemma holds_append:
  "owner \<notin> fg_owner ` set gs \<Longrightarrow>
     holds (gs @ [\<lparr>fg_owner = owner, fg_mode = m\<rparr>]) = (holds gs)(owner \<mapsto> m)"
  by (induction gs) (auto simp: holds_def fun_eq_iff)

subsection \<open>The critical sections\<close>

lemma attempt_lock_cases:
  assumes "flock_inv gs"
  obtains
    (same) "holds gs owner = Some mode" "attempt_lock True owner mode nb gs = Inr (Attempt_Complete gs)"
  | (convert) gs' where "holds gs owner \<noteq> None" "holds gs owner \<noteq> Some mode"
      "attempt_lock True owner mode nb gs = Inr (Attempt_Converted gs')" "flock_inv gs'"
      "holds gs' = (holds gs)(owner := None)" "set gs' = {g \<in> set gs. fg_owner g \<noteq> owner}"
  | (conflict) "holds gs owner = None" "flock_conflicts gs owner mode"
      "attempt_lock True owner mode nb gs = Inr (if nb then Attempt_WouldBlock else Attempt_Wait)"
  | (grant) gs' where "holds gs owner = None" "\<not> flock_conflicts gs owner mode"
      "attempt_lock True owner mode nb gs = Inr (Attempt_Complete gs')" "flock_inv gs'"
      "holds gs' = (holds gs)(owner \<mapsto> mode)"
proof -
  have d: "distinct (map fg_owner gs)" using assms by (simp add: flock_inv_def)
  from d show thesis
  proof (cases rule: owner_index_cases [where owner = owner])
    case absent
    let ?g = "\<lparr>fg_owner = owner, fg_mode = mode\<rparr>"
    show thesis
    proof (cases "flock_conflicts gs owner mode")
      case True
      with absent conflict show thesis by (simp add: attempt_lock_def)
    next
      case False
      with absent(1) have "\<forall>g \<in> set gs. fg_mode g = Shared \<and> (gs \<noteq> [] \<longrightarrow> mode = Shared)"
        by (auto simp: flock_conflicts_def flock_conflicts_with_def intro: flock_mode.exhaust)
      then have "flock_inv (gs @ [?g])"
        using assms absent(1) by (auto simp: flock_inv_def)
      with False absent d show thesis
        by (intro grant [of "gs @ [?g]"]) (simp_all add: attempt_lock_def holds_append)
    qed
  next
    case (found k)
    have h: "holds gs owner = Some (fg_mode (gs ! k))" using d found by (auto simp: holds_Some)
    show thesis
    proof (cases "fg_mode (gs ! k) = mode")
      case True
      with found h same show thesis by (simp add: attempt_lock_def)
    next
      case False
      obtain gs' where gs': "swap_remove gs k = Inr gs'" "distinct (map fg_owner gs')"
        "set gs' = {g \<in> set gs. fg_owner g \<noteq> owner}"
        using remove_owner [OF d found(1,2)] by blast
      have "flock_inv gs'" using assms gs'(2,3) by (auto simp: flock_inv_def)
      with False found h gs' holds_removed [OF d gs'(2,3)] show thesis
        by (intro convert [of gs']) (simp_all add: attempt_lock_def)
    qed
  qed
qed

lemma flock_unlock_spec:
  assumes "flock_inv gs"
  shows "\<exists>gs'. flock_unlock True owner gs = Inr (Flock_Complete, gs', holds gs owner \<noteq> None) \<and>
    flock_inv gs' \<and> holds gs' = (holds gs)(owner := None)"
proof -
  have d: "distinct (map fg_owner gs)" using assms by (simp add: flock_inv_def)
  from d show ?thesis
  proof (cases rule: owner_index_cases [where owner = owner])
    case absent
    then have "holds gs owner = None" by simp
    with absent(2) assms show ?thesis by (simp add: flock_unlock_def fun_upd_idem)
  next
    case (found k)
    have h: "holds gs owner \<noteq> None" using found by auto
    obtain gs' where gs': "swap_remove gs k = Inr gs'" "distinct (map fg_owner gs')"
      "set gs' = {g \<in> set gs. fg_owner g \<noteq> owner}"
      using remove_owner [OF d found(1,2)] by blast
    have "flock_inv gs'" using assms gs'(2,3) by (auto simp: flock_inv_def)
    with found h gs' holds_removed [OF d gs'(2,3)] show ?thesis by (simp add: flock_unlock_def)
  qed
qed

lemma flock_retire_unlock:
  "flock_retire (\<lambda>x. x = owner) gs = map_sum id (\<lambda>(_, gs', _). gs') (flock_unlock True owner gs)"
  by (simp add: flock_retire_def flock_unlock_def owner_index_def swap_remove_def split: sum.split option.split)

lemma flock_apply_inv:
  assumes "flock_inv gs"
  shows "\<exists>gs'. flock_apply p gs = Inr gs' \<and> flock_inv gs'"
proof (cases p)
  case (Flock_Attempt live owner mode nb)
  show ?thesis
  proof (cases live)
    case True
    from assms show ?thesis
      by (cases rule: attempt_lock_cases [where owner = owner and mode = mode and nb = nb])
        (use True Flock_Attempt assms in \<open>auto split: if_splits\<close>)
  qed (use Flock_Attempt assms in \<open>simp add: attempt_lock_def\<close>)
next
  case (Flock_Unlock live owner)
  with flock_unlock_spec [OF assms, of owner] assms show ?thesis
    by (cases live) (auto simp: flock_unlock_def [of False])
next
  case (Flock_Retire owner)
  with flock_unlock_spec [OF assms, of owner] show ?thesis
    by (auto simp: flock_retire_unlock)
qed

lemma flock_run_inv: "flock_inv gs \<Longrightarrow> \<exists>gs'. flock_run ps gs = Inr gs' \<and> flock_inv gs'"
proof (induction ps arbitrary: gs)
  case (Cons p ps)
  from flock_apply_inv [OF Cons.prems, of p] Cons.IH show ?case by auto
qed simp

lemma flock_inv_Nil [simp]: "flock_inv []"
  by (simp add: flock_inv_def)

lemma no_conflict_if_held:
  assumes "flock_inv gs" "holds gs owner = Some mode"
  shows "\<not> flock_conflicts gs owner mode"
proof -
  have "distinct (map fg_owner gs)" using assms(1) by (simp add: flock_inv_def)
  with assms(2) obtain g where g: "g \<in> set gs" "fg_owner g = owner" "fg_mode g = mode"
    by (auto simp: holds_Some)
  show ?thesis
  proof
    assume "flock_conflicts gs owner mode"
    then obtain h where "h \<in> set gs" "fg_owner h \<noteq> owner" "fg_mode h = Exclusive \<or> mode = Exclusive"
      by (auto simp: flock_conflicts_def flock_conflicts_with_def)
    with g assms(1) show False unfolding flock_inv_def by (metis flock_mode.distinct(1))
  qed
qed

lemma conflicts_others:
  "set gs' = {g \<in> set gs. fg_owner g \<noteq> owner} \<Longrightarrow> flock_conflicts gs' owner mode = flock_conflicts gs owner mode"
  by (auto simp: flock_conflicts_def)

subsection \<open>Properties\<close>

text \<open>C22: An exclusive whole-file lock has one holder. After any interleaving of lock
  attempts (each one a single pass of the loop, so conversions can be
  interrupted half way), unlocks and closes, the duplicate-grant assertions have
  not fired, every owner has at most one grant, and an owner with an exclusive
  lock is the only owner.\<close>

theorem flock_exclusive:
  "\<exists>gs. flock_run ops [] = Inr gs \<and> distinct (map fg_owner gs) \<and>
     (\<forall>a b. holds gs a = Some Exclusive \<and> a \<noteq> b \<longrightarrow> holds gs b = None)"
proof -
  obtain gs where gs: "flock_run ops [] = Inr gs" "flock_inv gs" using flock_run_inv by force
  then have d: "distinct (map fg_owner gs)" by (simp add: flock_inv_def)
  have "holds gs b = None" if ex: "holds gs a = Some Exclusive" "a \<noteq> b" for a b
  proof (rule ccontr)
    assume "holds gs b \<noteq> None"
    then obtain h where "h \<in> set gs" "fg_owner h = b" by auto
    moreover obtain g where "g \<in> set gs" "fg_owner g = a" "fg_mode g = Exclusive"
      using ex(1) d by (auto simp: holds_Some)
    ultimately show False using gs(2) ex(2) unfolding flock_inv_def by (metis flock_mode.distinct(1))
  qed
  with gs(1) d show ?thesis by blast
qed

theorem flock_exclusive_witness:
  "\<exists>gs. flock_run [Flock_Attempt True (1::nat) Exclusive True, Flock_Attempt True 2 Shared True] [] = Inr gs \<and>
     holds gs 1 = Some Exclusive \<and> holds gs 2 = None"
  using flock_exclusive [of "[Flock_Attempt True (1::nat) Exclusive True, Flock_Attempt True 2 Shared True]"]
  by (auto simp: attempt_lock_def owner_index_def flock_conflicts_def flock_conflicts_with_def holds_def)

text \<open>C23: Locking ends, and does what it says. Without interference the loop of
  \<open>lock\<close> needs at most two passes. If another owner is in the way the caller
  waits or gets \<open>EWOULDBLOCK\<close>, and a lock in another mode that it held before is
  gone; otherwise the caller holds exactly the requested mode. Nobody else's
  lock changes.\<close>

theorem flock_lock_exact:
  assumes "flock_inv gs"
  shows "\<exists>gs'. flock_inv gs' \<and>
    flock_lock (Suc (Suc n)) True owner mode nonblocking gs = Some (Inr
      (if flock_conflicts gs owner mode
       then if nonblocking then Lock_Ends Flock_WouldBlock gs' else Lock_Waits gs'
       else Lock_Ends Flock_Complete gs')) \<and>
    holds gs' = (holds gs)(owner := if flock_conflicts gs owner mode then None else Some mode)"
proof -
  note attempt = attempt_lock_cases [where owner = owner and mode = mode and nb = nonblocking]
  from assms show ?thesis
  proof (cases rule: attempt)
    case same
    with no_conflict_if_held [OF assms] assms show ?thesis by (auto simp: fun_upd_idem)
  next
    case (convert gs')
    note c = conflicts_others [OF convert(6), of mode]
    from convert(4) show ?thesis
    proof (cases rule: attempt)
      case conflict
      with convert c show ?thesis by auto
    next
      case (grant gs'')
      with convert c show ?thesis by auto
    qed (use convert in auto)
  next
    case conflict
    with assms show ?thesis by (auto simp: fun_upd_idem)
  next
    case (grant gs')
    then show ?thesis by auto
  qed
qed

theorem flock_lock_exact_witness:
  "\<exists>gs'. flock_lock (Suc (Suc 0)) True (1::nat) Exclusive True [\<lparr>fg_owner = 1, fg_mode = Shared\<rparr>, \<lparr>fg_owner = 2, fg_mode = Shared\<rparr>] =
      Some (Inr (Lock_Ends Flock_WouldBlock gs')) \<and> holds gs' 1 = None \<and> holds gs' 2 = Some Shared"
proof -
  let ?gs = "[\<lparr>fg_owner = 1 :: nat, fg_mode = Shared\<rparr>, \<lparr>fg_owner = 2, fg_mode = Shared\<rparr>]"
  have inv: "flock_inv ?gs" by (simp add: flock_inv_def)
  have c: "flock_conflicts ?gs 1 Exclusive" and h: "holds ?gs 2 = Some Shared"
    by (simp_all add: flock_conflicts_def flock_conflicts_with_def holds_def)
  obtain gs' where gs': "flock_lock (Suc (Suc 0)) True 1 Exclusive True ?gs = Some (Inr (Lock_Ends Flock_WouldBlock gs'))"
    "holds gs' = (holds ?gs)(1 := None)"
    using flock_lock_exact [OF inv, of 0 1 Exclusive True] unfolding if_P [OF c] by auto
  have "holds gs' 1 = None" "holds gs' 2 = Some Shared" unfolding gs'(2) using h by simp_all
  with gs'(1) show ?thesis by blast
qed

end
