(* ===== verification/Wait_Core.thy ===== *)
theory Wait_Core
  imports Sys_Error
begin

text \<open>
  The wait core of the scheduler (\<open>sched/wait.rs\<close>) and the scheduling decision of
  the current task (\<open>schedule_inner\<close> in \<open>sched/mod.rs\<close>, \<open>local_wake_enqueue\<close> in
  \<open>sched/processor.rs\<close>). A wait round is an address in a store of statuses
  (\<open>Arc::ptr_eq\<close> is equality of addresses); a task has a scheduling state that is
  changed in one transaction at a time. The diagnostic origin of a round is left
  out: it never influences a decision.
\<close>

subsection \<open>Data\<close>

datatype park_state = PrePark | Parked

datatype wait_reason =
  Event_Reason | Latch_Reason | Timeout_Reason | Signal_Reason | Force_Reason | PredicateReady | Cancelled_Reason

datatype wake_mode = InterruptibleOnly | AnyWait | Force_Wake

fun mode_allows :: "wake_mode \<Rightarrow> bool \<Rightarrow> bool" where
  "mode_allows InterruptibleOnly interruptible = interruptible"
| "mode_allows AnyWait interruptible = True"
| "mode_allows Force_Wake interruptible = True"

datatype wait_status = Armed | Completed wait_reason | Cancelled wait_reason | Retired

datatype task_sched_state = Runnable | Waiting nat bool park_state | Zombie

datatype wait_transition =
  Trans_Completed | Trans_AlreadyCompleted wait_reason | Trans_AlreadyCancelled wait_reason | Trans_Retired

datatype wait_result = Res_Cancelled wait_reason | Res_Completed wait_reason | Res_Retired | Res_Stale

datatype wait_outcome = Out_Armed | Out_Completed wait_reason | Out_Cancelled wait_reason | Out_Retired

datatype wake_commit =
    Commit_Woke park_state | Commit_ModeBlocked | Commit_Stale
  | Commit_AlreadyCompleted wait_reason | Commit_AlreadyCancelled wait_reason | Commit_Retired

datatype wake_result =
    Woke | ModeBlocked | Stale | AlreadyCompleted wait_reason | AlreadyCancelled wait_reason | Wake_Retired

text \<open>The store of wait rounds, the next fresh address, and the scheduling state of
  every task.\<close>

record wait_core =
  wc_status :: "nat \<Rightarrow> wait_status"
  wc_next :: nat
  wc_task :: "nat \<Rightarrow> task_sched_state"

subsection \<open>One wait round\<close>

fun cancel_if_armed :: "wait_reason \<Rightarrow> wait_status \<Rightarrow> wait_result \<times> wait_status" where
  "cancel_if_armed reason Armed = (Res_Cancelled reason, Cancelled reason)"
| "cancel_if_armed reason (Completed r) = (Res_Completed r, Completed r)"
| "cancel_if_armed reason (Cancelled r) = (Res_Cancelled r, Cancelled r)"
| "cancel_if_armed reason Retired = (Res_Retired, Retired)"

fun complete_if_armed :: "wait_reason \<Rightarrow> wait_status \<Rightarrow> wait_transition \<times> wait_status" where
  "complete_if_armed reason Armed = (Trans_Completed, Completed reason)"
| "complete_if_armed reason (Completed r) = (Trans_AlreadyCompleted r, Completed r)"
| "complete_if_armed reason (Cancelled r) = (Trans_AlreadyCancelled r, Cancelled r)"
| "complete_if_armed reason Retired = (Trans_Retired, Retired)"

fun outcome_from_status :: "wait_status \<Rightarrow> wait_outcome" where
  "outcome_from_status Armed = Out_Armed"
| "outcome_from_status (Completed r) = Out_Completed r"
| "outcome_from_status (Cancelled r) = Out_Cancelled r"
| "outcome_from_status Retired = Out_Retired"

fun result_from_status :: "wait_status \<Rightarrow> wait_result" where
  "result_from_status Armed = Res_Stale"
| "result_from_status (Completed r) = Res_Completed r"
| "result_from_status (Cancelled r) = Res_Cancelled r"
| "result_from_status Retired = Res_Retired"

definition wait_retire :: "wait_status \<Rightarrow> wait_outcome \<times> wait_status" where
  "wait_retire st = (outcome_from_status st, Retired)"

fun commit_from_transition :: "wait_transition \<Rightarrow> fault + wake_commit" where
  "commit_from_transition Trans_Completed = Inl Assert_Panic"
| "commit_from_transition (Trans_AlreadyCompleted r) = Inr (Commit_AlreadyCompleted r)"
| "commit_from_transition (Trans_AlreadyCancelled r) = Inr (Commit_AlreadyCancelled r)"
| "commit_from_transition Trans_Retired = Inr Commit_Retired"

subsection \<open>Transactions on a task\<close>

text \<open>\<open>begin_wait\<close> publishes a fresh armed round for a runnable task; a nested wait and
  a zombie panic.\<close>

definition begin_wait :: "nat \<Rightarrow> bool \<Rightarrow> wait_core \<Rightarrow> fault + nat \<times> wait_core" where
  "begin_wait task interruptible wc =
     (case wc_task wc task of
        Runnable \<Rightarrow>
          (let w = wc_next wc in
           Inr (w, wc\<lparr>wc_status := (wc_status wc)(w := Armed), wc_next := Suc w,
             wc_task := (wc_task wc)(task := Waiting w interruptible PrePark)\<rparr>))
      | _ \<Rightarrow> Inl Assert_Panic)"

definition cancel_wait :: "nat \<Rightarrow> nat \<Rightarrow> wait_reason \<Rightarrow> wait_core \<Rightarrow> wait_result \<times> wait_core" where
  "cancel_wait task w reason wc =
     (case wc_task wc task of
        Waiting w' interruptible park \<Rightarrow>
          if w' = w then
            (let (res, st) = cancel_if_armed reason (wc_status wc w);
                 wc' = wc\<lparr>wc_status := (wc_status wc)(w := st)\<rparr>
             in case res of
                  Res_Cancelled _ \<Rightarrow> (res, wc'\<lparr>wc_task := (wc_task wc)(task := Runnable)\<rparr>)
                | _ \<Rightarrow> (res, wc'))
          else (result_from_status (wc_status wc w), wc)
      | _ \<Rightarrow> (result_from_status (wc_status wc w), wc))"

definition finish_wait :: "nat \<Rightarrow> nat \<Rightarrow> wait_core \<Rightarrow> wait_outcome \<times> wait_core" where
  "finish_wait task w wc =
     (let (outcome, st) = wait_retire (wc_status wc w);
          wc' = wc\<lparr>wc_status := (wc_status wc)(w := st)\<rparr>
      in case wc_task wc task of
           Waiting w' interruptible park \<Rightarrow>
             if w' = w then (outcome, wc'\<lparr>wc_task := (wc_task wc)(task := Runnable)\<rparr>)
             else (outcome, wc')
         | _ \<Rightarrow> (outcome, wc'))"

text \<open>The shared part of the two wake entry points: the task waits in round \<open>w\<close>.\<close>

definition wake_waiting ::
  "nat \<Rightarrow> nat \<Rightarrow> bool \<Rightarrow> park_state \<Rightarrow> wait_reason \<Rightarrow> wake_mode \<Rightarrow> wait_core \<Rightarrow> fault + wake_commit \<times> wait_core" where
  "wake_waiting task w interruptible park reason mode wc =
     (case wc_status wc w of
        Completed r \<Rightarrow> Inr (Commit_AlreadyCompleted r, wc)
      | Cancelled r \<Rightarrow> Inr (Commit_AlreadyCancelled r, wc)
      | Retired \<Rightarrow> Inr (Commit_Retired, wc)
      | Armed \<Rightarrow>
          if \<not> mode_allows mode interruptible then Inr (Commit_ModeBlocked, wc)
          else
            (let (transition, st) = complete_if_armed reason (wc_status wc w);
                 wc' = wc\<lparr>wc_status := (wc_status wc)(w := st)\<rparr>
             in case transition of
                  Trans_Completed \<Rightarrow>
                    Inr (Commit_Woke park, wc'\<lparr>wc_task := (wc_task wc)(task := Runnable)\<rparr>)
                | _ \<Rightarrow> (case commit_from_transition transition of Inl f \<Rightarrow> Inl f | Inr c \<Rightarrow> Inr (c, wc'))))"

definition wake_wait ::
  "nat \<Rightarrow> nat \<Rightarrow> wait_reason \<Rightarrow> wake_mode \<Rightarrow> wait_core \<Rightarrow> fault + wake_commit \<times> wait_core" where
  "wake_wait task w reason mode wc =
     (case wc_task wc task of
        Waiting w' interruptible park \<Rightarrow>
          if w' = w then wake_waiting task w interruptible park reason mode wc else Inr (Commit_Stale, wc)
      | _ \<Rightarrow> Inr (Commit_Stale, wc))"

definition wake_active_wait ::
  "nat \<Rightarrow> wait_reason \<Rightarrow> wake_mode \<Rightarrow> wait_core \<Rightarrow> fault + wake_commit \<times> wait_core" where
  "wake_active_wait task reason mode wc =
     (case wc_task wc task of
        Waiting w interruptible park \<Rightarrow> wake_waiting task w interruptible park reason mode wc
      | _ \<Rightarrow> Inr (Commit_Stale, wc))"

text \<open>\<open>finish_wake_attempt\<close>: the result for the caller; a successful wake also submits
  the placement of the task with the park state it was woken from.\<close>

fun finish_wake_attempt :: "wake_commit \<Rightarrow> wake_result \<times> park_state option" where
  "finish_wake_attempt (Commit_Woke park) = (Woke, Some park)"
| "finish_wake_attempt Commit_ModeBlocked = (ModeBlocked, None)"
| "finish_wake_attempt Commit_Stale = (Stale, None)"
| "finish_wake_attempt (Commit_AlreadyCompleted r) = (AlreadyCompleted r, None)"
| "finish_wake_attempt (Commit_AlreadyCancelled r) = (AlreadyCancelled r, None)"
| "finish_wake_attempt Commit_Retired = (Wake_Retired, None)"

definition requeue_permit_if_mode_blocked :: "nat \<Rightarrow> nat \<Rightarrow> wake_mode \<Rightarrow> wait_core \<Rightarrow> bool" where
  "requeue_permit_if_mode_blocked task w mode wc =
     (case wc_task wc task of
        Waiting w' interruptible park \<Rightarrow>
          w' = w \<and> wc_status wc w = Armed \<and> \<not> mode_allows mode interruptible
      | _ \<Rightarrow> False)"

subsection \<open>The scheduling decision\<close>

datatype schedule_mode = WaitSleep nat | Preempt | Yield | Idle | Zombie_Exit

datatype schedule_decision =
    Yielded | Preempted | Idled | WaitCoreParked nat bool | Became_Zombie | AbortWaitSleep nat | DeferredPreempt nat

text \<open>The transaction of \<open>schedule_inner\<close> on the state of the current task, every
  panicking combination included.\<close>

fun schedule_decide ::
  "(nat \<Rightarrow> wait_status) \<Rightarrow> schedule_mode \<Rightarrow> task_sched_state \<Rightarrow> fault + task_sched_state \<times> schedule_decision" where
  "schedule_decide status (WaitSleep token) Runnable =
     (if status token \<noteq> Armed then Inr (Runnable, AbortWaitSleep token) else Inl Assert_Panic)"
| "schedule_decide status Preempt Runnable = Inr (Runnable, Preempted)"
| "schedule_decide status Yield Runnable = Inr (Runnable, Yielded)"
| "schedule_decide status Idle Runnable = Inr (Runnable, Idled)"
| "schedule_decide status Zombie_Exit Runnable = Inr (Zombie, Became_Zombie)"
| "schedule_decide status (WaitSleep token) (Waiting w interruptible PrePark) =
     (if token \<noteq> w then Inl Assert_Panic
      else Inr (Waiting w interruptible Parked, WaitCoreParked w interruptible))"
| "schedule_decide status Preempt (Waiting w interruptible PrePark) =
     Inr (Waiting w interruptible PrePark, DeferredPreempt w)"
| "schedule_decide status Yield (Waiting w interruptible PrePark) = Inl Assert_Panic"
| "schedule_decide status Idle (Waiting w interruptible PrePark) = Inl Assert_Panic"
| "schedule_decide status Zombie_Exit (Waiting w interruptible PrePark) = Inl Assert_Panic"
| "schedule_decide status (WaitSleep token) (Waiting w interruptible Parked) =
     (if token \<noteq> w then Inl Assert_Panic
      else Inr (Waiting w interruptible Parked, WaitCoreParked w interruptible))"
| "schedule_decide status Preempt (Waiting w interruptible Parked) = Inl Assert_Panic"
| "schedule_decide status Yield (Waiting w interruptible Parked) = Inl Assert_Panic"
| "schedule_decide status Idle (Waiting w interruptible Parked) = Inl Assert_Panic"
| "schedule_decide status Zombie_Exit (Waiting w interruptible Parked) = Inl Assert_Panic"
| "schedule_decide status mode Zombie = Inl Assert_Panic"

text \<open>The second look of \<open>schedule_inner\<close> at a task that has just been parked: it was
  woken meanwhile (hand it to the run queue), or it blocks; every other
  observation is an assertion failure.\<close>

datatype park_commit = Park_Handoff | Park_Blocked

fun park_recheck :: "nat \<Rightarrow> bool \<Rightarrow> task_sched_state \<Rightarrow> fault + park_commit" where
  "park_recheck w interruptible Runnable = Inr Park_Handoff"
| "park_recheck w interruptible (Waiting w' interruptible' park) =
     (if w' \<noteq> w then Inl Assert_Panic
      else if interruptible' \<noteq> interruptible then Inl Assert_Panic
      else Inr Park_Blocked)"
| "park_recheck w interruptible Zombie = Inl Assert_Panic"

text \<open>\<open>local_wake_enqueue\<close>: what the owner CPU does with a wake placement.\<close>

datatype wake_enqueue_result = Enqueue_Stale | Enqueue_AlreadyCurrent | Enqueue_ParkPending | Enqueue_AlreadyQueued | Enqueue_Enqueued

definition local_wake_enqueue :: "task_sched_state \<Rightarrow> bool \<Rightarrow> bool \<Rightarrow> park_state \<Rightarrow> wake_enqueue_result" where
  "local_wake_enqueue state is_current on_runq park =
     (if state \<noteq> Runnable then Enqueue_Stale
      else if is_current then (case park of PrePark \<Rightarrow> Enqueue_AlreadyCurrent | Parked \<Rightarrow> Enqueue_ParkPending)
      else if on_runq then Enqueue_AlreadyQueued
      else Enqueue_Enqueued)"

end
