(* ===== verification/Wait_System.thy ===== *)
theory Wait_System
  imports Wait_Core
begin

text \<open>
  Many tasks on many CPUs that begin, cancel, sleep in, finish and wake wait
  rounds. Every step is one transaction of the source, in any interleaving that
  the hardware allows: a CPU that is between the two looks of \<open>schedule_inner\<close> has
  its interrupts off, so nothing else happens on it, but other CPUs go on. A
  task is pinned to the CPU \<open>cpu_of\<close>. Wakes on another CPU travel as messages
  (\<open>WakeUpTaskStaleSafe\<close>) and are delivered at any later time. A step that
  panics ends in \<open>Inl\<close>.
\<close>

subsection \<open>The system\<close>

text \<open>Where a task is in its wait protocol: running, having begun a round, between
  the two looks of \<open>schedule_inner\<close> (with the interruptible flag that the first
  look returned), switched out in \<open>schedule_inner\<close>, about to finish the round, or
  gone.\<close>

datatype task_phase =
  Ph_Run | Ph_Setup nat | Ph_Parking nat bool | Ph_Asleep nat | Ph_Finishing nat | Ph_Dead

fun round_of :: "task_phase \<Rightarrow> nat option" where
  "round_of (Ph_Setup w) = Some w"
| "round_of (Ph_Parking w _) = Some w"
| "round_of (Ph_Asleep w) = Some w"
| "round_of (Ph_Finishing w) = Some w"
| "round_of _ = None"

record wait_sys =
  s_core :: wait_core
  s_phase :: "nat \<Rightarrow> task_phase"
  s_current :: "nat \<Rightarrow> nat option"
  s_runq :: "nat set"
  s_ipis :: "(nat \<times> park_state) list"

text \<open>The CPU runs with interrupts off inside \<open>schedule_inner\<close>.\<close>

definition cpu_parking :: "wait_sys \<Rightarrow> nat \<Rightarrow> bool" where
  "cpu_parking s c \<longleftrightarrow> (\<exists>t w i. s_current s c = Some t \<and> s_phase s t = Ph_Parking w i)"

definition set_task :: "wait_sys \<Rightarrow> nat \<Rightarrow> task_sched_state \<Rightarrow> wait_sys" where
  "set_task s t st = s\<lparr>s_core := (s_core s)\<lparr>wc_task := (wc_task (s_core s))(t := st)\<rparr>\<rparr>"

definition set_phase :: "wait_sys \<Rightarrow> nat \<Rightarrow> task_phase \<Rightarrow> wait_sys" where
  "set_phase s t p = s\<lparr>s_phase := (s_phase s)(t := p)\<rparr>"

text \<open>Placement of a woken task on its owner CPU, and the choice between the local
  and the remote way.\<close>

definition place_woken :: "(nat \<Rightarrow> nat) \<Rightarrow> nat \<Rightarrow> park_state \<Rightarrow> wait_sys \<Rightarrow> wait_sys" where
  "place_woken cpu_of t park s =
     (case local_wake_enqueue (wc_task (s_core s) t) (s_current s (cpu_of t) = Some t) (t \<in> s_runq s) park of
        Enqueue_Enqueued \<Rightarrow> s\<lparr>s_runq := insert t (s_runq s)\<rparr>
      | _ \<Rightarrow> s)"

definition submit_wake_placement :: "(nat \<Rightarrow> nat) \<Rightarrow> nat \<Rightarrow> nat \<Rightarrow> park_state \<Rightarrow> wait_sys \<Rightarrow> wait_sys" where
  "submit_wake_placement cpu_of c t park s =
     (if cpu_of t = c then place_woken cpu_of t park s else s\<lparr>s_ipis := s_ipis s @ [(t, park)]\<rparr>)"

definition after_wake ::
  "(nat \<Rightarrow> nat) \<Rightarrow> nat \<Rightarrow> nat \<Rightarrow> wait_sys \<Rightarrow> fault + wake_commit \<times> wait_core \<Rightarrow> fault + wait_sys" where
  "after_wake cpu_of c t s res =
     (case res of
        Inl f \<Rightarrow> Inl f
      | Inr (commit, wc) \<Rightarrow>
          Inr (case snd (finish_wake_attempt commit) of
                 None \<Rightarrow> s\<lparr>s_core := wc\<rparr>
               | Some park \<Rightarrow> submit_wake_placement cpu_of c t park (s\<lparr>s_core := wc\<rparr>)))"

text \<open>\<open>requeue_current_with\<close> and \<open>put_prev_current_with\<close> with their assertions, and the
  switch to a picked task (\<open>None\<close> is the idle task), which must be runnable.\<close>

definition requeue_current :: "(nat \<Rightarrow> nat) \<Rightarrow> nat \<Rightarrow> wait_sys \<Rightarrow> fault + wait_sys" where
  "requeue_current cpu_of t s =
     (if wc_task (s_core s) t \<noteq> Runnable \<or> s_current s (cpu_of t) \<noteq> Some t \<or> t \<in> s_runq s then Inl Assert_Panic
      else Inr (s\<lparr>s_runq := insert t (s_runq s)\<rparr>))"

definition put_prev_current :: "(nat \<Rightarrow> nat) \<Rightarrow> nat \<Rightarrow> wait_sys \<Rightarrow> fault + wait_sys" where
  "put_prev_current cpu_of t s =
     (if s_current s (cpu_of t) \<noteq> Some t \<or> t \<in> s_runq s then Inl Assert_Panic else Inr s)"

definition switch_to_next :: "nat \<Rightarrow> nat option \<Rightarrow> wait_sys \<Rightarrow> fault + wait_sys" where
  "switch_to_next c n s =
     (case n of
        None \<Rightarrow> Inr (s\<lparr>s_current := (s_current s)(c := None)\<rparr>)
      | Some t \<Rightarrow>
          if wc_task (s_core s) t \<noteq> Runnable then Inl Assert_Panic
          else Inr (s\<lparr>s_current := (s_current s)(c := Some t), s_runq := s_runq s - {t}\<rparr>))"

definition then_switch :: "nat \<Rightarrow> nat option \<Rightarrow> fault + wait_sys \<Rightarrow> fault + wait_sys" where
  "then_switch c n res = (case res of Inl f \<Rightarrow> Inl f | Inr s \<Rightarrow> switch_to_next c n s)"

text \<open>A task that may be picked on CPU \<open>c\<close> when \<open>extra\<close> has just been queued.\<close>

definition pickable :: "(nat \<Rightarrow> nat) \<Rightarrow> wait_sys \<Rightarrow> nat set \<Rightarrow> nat \<Rightarrow> nat option \<Rightarrow> bool" where
  "pickable cpu_of s extra c n \<longleftrightarrow> (\<forall>t. n = Some t \<longrightarrow> t \<in> s_runq s \<union> extra \<and> cpu_of t = c)"

definition do_begin :: "nat \<Rightarrow> bool \<Rightarrow> wait_sys \<Rightarrow> fault + wait_sys" where
  "do_begin t interruptible s =
     (case begin_wait t interruptible (s_core s) of
        Inl f \<Rightarrow> Inl f
      | Inr (w, wc) \<Rightarrow> Inr (set_phase (s\<lparr>s_core := wc\<rparr>) t (Ph_Setup w)))"

definition do_sleep :: "nat \<Rightarrow> nat \<Rightarrow> wait_sys \<Rightarrow> fault + wait_sys" where
  "do_sleep t w s =
     (case schedule_decide (wc_status (s_core s)) (WaitSleep w) (wc_task (s_core s) t) of
        Inl f \<Rightarrow> Inl f
      | Inr (st, AbortWaitSleep _) \<Rightarrow> Inr (set_phase (set_task s t st) t (Ph_Finishing w))
      | Inr (st, WaitCoreParked w' i) \<Rightarrow> Inr (set_phase (set_task s t st) t (Ph_Parking w' i))
      | Inr _ \<Rightarrow> Inl Assert_Panic)"

definition do_park :: "(nat \<Rightarrow> nat) \<Rightarrow> nat \<Rightarrow> nat \<Rightarrow> bool \<Rightarrow> nat option \<Rightarrow> wait_sys \<Rightarrow> fault + wait_sys" where
  "do_park cpu_of t w i n s =
     (case park_recheck w i (wc_task (s_core s) t) of
        Inl f \<Rightarrow> Inl f
      | Inr Park_Handoff \<Rightarrow> then_switch (cpu_of t) n (requeue_current cpu_of t (set_phase s t (Ph_Asleep w)))
      | Inr Park_Blocked \<Rightarrow> then_switch (cpu_of t) n (put_prev_current cpu_of t (set_phase s t (Ph_Asleep w))))"

definition do_finish :: "nat \<Rightarrow> nat \<Rightarrow> wait_sys \<Rightarrow> fault + wait_sys" where
  "do_finish t w s =
     (let (outcome, wc) = finish_wait t w (s_core s) in
      case outcome of
        Out_Armed \<Rightarrow> Inl Assert_Panic
      | Out_Retired \<Rightarrow> Inl Assert_Panic
      | _ \<Rightarrow> Inr (set_phase (s\<lparr>s_core := wc\<rparr>) t Ph_Run))"

definition do_preempt :: "(nat \<Rightarrow> nat) \<Rightarrow> nat \<Rightarrow> nat option \<Rightarrow> wait_sys \<Rightarrow> fault + wait_sys" where
  "do_preempt cpu_of t n s =
     (case schedule_decide (wc_status (s_core s)) Preempt (wc_task (s_core s) t) of
        Inl f \<Rightarrow> Inl f
      | Inr (st, Preempted) \<Rightarrow> then_switch (cpu_of t) n (requeue_current cpu_of t (set_task s t st))
      | Inr (st, DeferredPreempt _) \<Rightarrow> Inr (set_task s t st)
      | Inr _ \<Rightarrow> Inl Assert_Panic)"

definition do_exit :: "(nat \<Rightarrow> nat) \<Rightarrow> nat \<Rightarrow> nat option \<Rightarrow> wait_sys \<Rightarrow> fault + wait_sys" where
  "do_exit cpu_of t n s =
     (case schedule_decide (wc_status (s_core s)) Zombie_Exit (wc_task (s_core s) t) of
        Inl f \<Rightarrow> Inl f
      | Inr (st, Became_Zombie) \<Rightarrow>
          then_switch (cpu_of t) n (put_prev_current cpu_of t (set_phase (set_task s t st) t Ph_Dead))
      | Inr _ \<Rightarrow> Inl Assert_Panic)"

inductive wait_step :: "(nat \<Rightarrow> nat) \<Rightarrow> wait_sys \<Rightarrow> fault + wait_sys \<Rightarrow> bool" for cpu_of :: "nat \<Rightarrow> nat" where
  begin_round: "\<lbrakk> s_current s (cpu_of t) = Some t; s_phase s t = Ph_Run \<rbrakk> \<Longrightarrow>
     wait_step cpu_of s (do_begin t interruptible s)"
| cancel_round: "\<lbrakk> s_current s (cpu_of t) = Some t; s_phase s t = Ph_Setup w \<rbrakk> \<Longrightarrow>
     wait_step cpu_of s (Inr (set_phase (s\<lparr>s_core := snd (cancel_wait t w reason (s_core s))\<rparr>) t (Ph_Finishing w)))"
| sleep: "\<lbrakk> s_current s (cpu_of t) = Some t; s_phase s t = Ph_Setup w \<rbrakk> \<Longrightarrow>
     wait_step cpu_of s (do_sleep t w s)"
| park: "\<lbrakk> s_current s (cpu_of t) = Some t; s_phase s t = Ph_Parking w i;
     pickable cpu_of s (if wc_task (s_core s) t = Runnable then {t} else {}) (cpu_of t) n \<rbrakk> \<Longrightarrow>
     wait_step cpu_of s (do_park cpu_of t w i n s)"
| resume: "\<lbrakk> s_current s (cpu_of t) = Some t; s_phase s t = Ph_Asleep w \<rbrakk> \<Longrightarrow>
     wait_step cpu_of s (Inr (set_phase s t (Ph_Finishing w)))"
| finish_round: "\<lbrakk> s_current s (cpu_of t) = Some t; s_phase s t = Ph_Finishing w \<rbrakk> \<Longrightarrow>
     wait_step cpu_of s (do_finish t w s)"
| wake_token: "\<not> cpu_parking s c \<Longrightarrow>
     wait_step cpu_of s (after_wake cpu_of c t s (wake_wait t w reason mode (s_core s)))"
| wake_active: "\<not> cpu_parking s c \<Longrightarrow>
     wait_step cpu_of s (after_wake cpu_of c t s (wake_active_wait t reason mode (s_core s)))"
| deliver: "\<lbrakk> \<not> cpu_parking s (cpu_of t); (t, park) \<in> set (s_ipis s) \<rbrakk> \<Longrightarrow>
     wait_step cpu_of s (Inr (place_woken cpu_of t park (s\<lparr>s_ipis := remove1 (t, park) (s_ipis s)\<rparr>)))"
| preempt: "\<lbrakk> s_current s (cpu_of t) = Some t; \<not> cpu_parking s (cpu_of t);
     pickable cpu_of s {t} (cpu_of t) n \<rbrakk> \<Longrightarrow>
     wait_step cpu_of s (do_preempt cpu_of t n s)"
| exit_task: "\<lbrakk> s_current s (cpu_of t) = Some t; s_phase s t = Ph_Run; pickable cpu_of s {} (cpu_of t) n \<rbrakk> \<Longrightarrow>
     wait_step cpu_of s (do_exit cpu_of t n s)"
| leave_idle: "\<lbrakk> s_current s c = None; pickable cpu_of s {} c n \<rbrakk> \<Longrightarrow>
     wait_step cpu_of s (switch_to_next c n s)"

text \<open>At the start the tasks of a set are queued and runnable, every CPU is idle.\<close>

definition wait_init :: "nat set \<Rightarrow> wait_sys" where
  "wait_init tasks =
     \<lparr>s_core = \<lparr>wc_status = (\<lambda>_. Retired), wc_next = 0,
        wc_task = (\<lambda>t. if t \<in> tasks then Runnable else Zombie)\<rparr>,
      s_phase = (\<lambda>t. if t \<in> tasks then Ph_Run else Ph_Dead),
      s_current = (\<lambda>_. None), s_runq = tasks, s_ipis = []\<rparr>"

inductive wait_reachable :: "(nat \<Rightarrow> nat) \<Rightarrow> wait_sys \<Rightarrow> bool" for cpu_of :: "nat \<Rightarrow> nat" where
  initial: "wait_reachable cpu_of (wait_init tasks)"
| stepped: "\<lbrakk> wait_reachable cpu_of s; wait_step cpu_of s (Inr s') \<rbrakk> \<Longrightarrow> wait_reachable cpu_of s'"

subsection \<open>The invariant\<close>

text \<open>What holds of one task, as a predicate on all that concerns it: its state, the
  status of its round, its phase, whether it is current, queued, and has a wake
  message on the way.\<close>

fun phase_ok :: "task_sched_state \<Rightarrow> wait_status \<Rightarrow> bool \<Rightarrow> task_phase \<Rightarrow> bool" where
  "phase_ok st status cur Ph_Run \<longleftrightarrow> st = Runnable"
| "phase_ok st status cur (Ph_Setup w) \<longleftrightarrow>
     (\<exists>i. st = Waiting w i PrePark) \<and> status = Armed \<and> cur \<or> st = Runnable \<and> (\<exists>r. status = Completed r)"
| "phase_ok st status cur (Ph_Parking w i) \<longleftrightarrow>
     cur \<and> (st = Waiting w i Parked \<and> status = Armed \<or> st = Runnable \<and> (\<exists>r. status = Completed r))"
| "phase_ok st status cur (Ph_Asleep w) \<longleftrightarrow>
     (\<exists>i. st = Waiting w i Parked) \<and> status = Armed \<and> \<not> cur \<or> st = Runnable \<and> (\<exists>r. status = Completed r)"
| "phase_ok st status cur (Ph_Finishing w) \<longleftrightarrow>
     st = Runnable \<and> (\<exists>r. status = Completed r \<or> status = Cancelled r)"
| "phase_ok st status cur Ph_Dead \<longleftrightarrow> st = Zombie \<and> \<not> cur"

definition view_ok :: "task_sched_state \<Rightarrow> wait_status \<Rightarrow> task_phase \<Rightarrow> bool \<Rightarrow> bool \<Rightarrow> bool \<Rightarrow> bool" where
  "view_ok st status p cur queued coming \<longleftrightarrow>
     phase_ok st status cur p \<and> (queued \<longrightarrow> st = Runnable \<and> \<not> cur) \<and>
     (st = Runnable \<longrightarrow> cur \<or> queued \<or> coming)"

definition round_status :: "wait_sys \<Rightarrow> nat \<Rightarrow> wait_status" where
  "round_status s t = (case round_of (s_phase s t) of None \<Rightarrow> Retired | Some w \<Rightarrow> wc_status (s_core s) w)"

definition task_ok :: "(nat \<Rightarrow> nat) \<Rightarrow> wait_sys \<Rightarrow> nat \<Rightarrow> bool" where
  "task_ok cpu_of s t \<longleftrightarrow>
     view_ok (wc_task (s_core s) t) (round_status s t) (s_phase s t) (s_current s (cpu_of t) = Some t)
       (t \<in> s_runq s) (\<exists>park. (t, park) \<in> set (s_ipis s))"

definition wait_inv :: "(nat \<Rightarrow> nat) \<Rightarrow> wait_sys \<Rightarrow> bool" where
  "wait_inv cpu_of s \<longleftrightarrow>
     (\<forall>t. task_ok cpu_of s t) \<and>
     (\<forall>c t. s_current s c = Some t \<longrightarrow> cpu_of t = c) \<and>
     (\<forall>t w. round_of (s_phase s t) = Some w \<longrightarrow> w < wc_next (s_core s)) \<and>
     (\<forall>t t' w. round_of (s_phase s t) = Some w \<longrightarrow> round_of (s_phase s t') = Some w \<longrightarrow> t = t')"

definition step_keeps :: "(nat \<Rightarrow> nat) \<Rightarrow> fault + wait_sys \<Rightarrow> bool" where
  "step_keeps cpu_of res \<longleftrightarrow> (\<exists>s. res = Inr s \<and> wait_inv cpu_of s)"

lemma step_keeps_Inr [simp]: "step_keeps cpu_of (Inr s) \<longleftrightarrow> wait_inv cpu_of s"
  by (simp add: step_keeps_def)

lemma wait_invD:
  assumes "wait_inv cpu_of s"
  shows "task_ok cpu_of s t" "s_current s c = Some t \<Longrightarrow> cpu_of t = c"
    "round_of (s_phase s t) = Some w \<Longrightarrow> w < wc_next (s_core s)"
    "round_of (s_phase s t) = Some w \<Longrightarrow> round_of (s_phase s t') = Some w \<Longrightarrow> t = t'"
  using assms by (auto simp: wait_inv_def)

lemma round_status_upd [simp]:
  "round_status (s\<lparr>s_current := x\<rparr>) = round_status s"
  "round_status (s\<lparr>s_runq := y\<rparr>) = round_status s"
  "round_status (s\<lparr>s_ipis := z\<rparr>) = round_status s"
  "round_status (set_task s u st) = round_status s"
  by (simp_all add: round_status_def set_task_def fun_eq_iff cong: option.case_cong)

subsection \<open>Steps that concern one task\<close>

text \<open>The other tasks see no difference between two states.\<close>

definition same_for :: "(nat \<Rightarrow> nat) \<Rightarrow> wait_sys \<Rightarrow> wait_sys \<Rightarrow> nat \<Rightarrow> bool" where
  "same_for cpu_of s s' u \<longleftrightarrow>
     wc_task (s_core s') u = wc_task (s_core s) u \<and> s_phase s' u = s_phase s u \<and>
     round_status s' u = round_status s u \<and>
     (s_current s' (cpu_of u) = Some u \<longleftrightarrow> s_current s (cpu_of u) = Some u) \<and>
     (u \<in> s_runq s' \<longleftrightarrow> u \<in> s_runq s) \<and>
     ((\<exists>park. (u, park) \<in> set (s_ipis s')) \<longleftrightarrow> (\<exists>park. (u, park) \<in> set (s_ipis s)))"

lemma task_ok_same: "same_for cpu_of s s' u \<Longrightarrow> task_ok cpu_of s' u = task_ok cpu_of s u"
  by (simp add: same_for_def task_ok_def)

lemma inv_local:
  assumes inv: "wait_inv cpu_of s"
    and others: "\<And>u. u \<noteq> t \<Longrightarrow> same_for cpu_of s s' u"
    and own: "task_ok cpu_of s' t"
    and cur: "s_current s' = s_current s"
    and nxt: "wc_next (s_core s) \<le> wc_next (s_core s')"
    and round: "round_of (s_phase s' t) = None \<or> round_of (s_phase s' t) = round_of (s_phase s t) \<or>
      round_of (s_phase s' t) = Some (wc_next (s_core s)) \<and> wc_next (s_core s) < wc_next (s_core s')"
  shows "wait_inv cpu_of s'"
proof -
  have phase: "s_phase s' u = s_phase s u" if "u \<noteq> t" for u
    using others [OF that] by (simp add: same_for_def)
  have "task_ok cpu_of s' u" for u
    using own task_ok_same [OF others, of u] wait_invD(1) [OF inv, of u] by (cases "u = t") auto
  moreover have "w < wc_next (s_core s')" if "round_of (s_phase s' u) = Some w" for u w
    using that round nxt phase wait_invD(3) [OF inv] by (cases "u = t") fastforce+
  moreover have "u = v" if "round_of (s_phase s' u) = Some w" "round_of (s_phase s' v) = Some w" for u v w
  proof -
    have old: "round_of (s_phase s x) = Some w \<or> w = wc_next (s_core s) \<and> x = t" if "round_of (s_phase s' x) = Some w" for x
      using that round phase by (cases "x = t") auto
    from old [OF that(1)] old [OF that(2)] wait_invD(3,4) [OF inv] show ?thesis by (metis less_irrefl)
  qed
  ultimately show ?thesis using cur wait_invD(2) [OF inv] by (auto simp: wait_inv_def)
qed

lemma same_for_status:
  assumes "wait_inv cpu_of s" "round_of (s_phase s t) = Some w" "u \<noteq> t" "s_phase s' u = s_phase s u"
    "\<And>w'. w' \<noteq> w \<Longrightarrow> wc_status (s_core s') w' = wc_status (s_core s) w'"
  shows "round_status s' u = round_status s u"
proof (cases "round_of (s_phase s u)")
  case None
  with assms(4) show ?thesis by (simp add: round_status_def)
next
  case (Some w')
  with wait_invD(4) [OF assms(1,2), of u] assms(3) have "w' \<noteq> w" by blast
  with Some assms(4,5) show ?thesis by (simp add: round_status_def)
qed

subsection \<open>Switching\<close>

lemma phase_ok_switch_in: "phase_ok Runnable st False p \<Longrightarrow> phase_ok Runnable st True p"
  by (cases p) auto

text \<open>After the outgoing task has been put away, any picked task may become current.\<close>

lemma switch_keeps:
  assumes others: "\<And>u. s_current s c \<noteq> Some u \<Longrightarrow> task_ok cpu_of s u"
    and out: "\<And>t. s_current s c = Some t \<Longrightarrow>
      view_ok (wc_task (s_core s) t) (round_status s t) (s_phase s t) False (t \<in> s_runq s)
        (\<exists>park. (t, park) \<in> set (s_ipis s))"
    and rest: "\<forall>c t. s_current s c = Some t \<longrightarrow> cpu_of t = c"
      "\<forall>t w. round_of (s_phase s t) = Some w \<longrightarrow> w < wc_next (s_core s)"
      "\<forall>t t' w. round_of (s_phase s t) = Some w \<longrightarrow> round_of (s_phase s t') = Some w \<longrightarrow> t = t'"
    and pick: "\<And>t. n = Some t \<Longrightarrow> t \<in> s_runq s \<and> cpu_of t = c"
  shows "step_keeps cpu_of (switch_to_next c n s)"
proof -
  have away: "view_ok (wc_task (s_core s) u) (round_status s u) (s_phase s u) (cpu_of u \<noteq> c \<and> s_current s (cpu_of u) = Some u)
      (u \<in> s_runq s) (\<exists>park. (u, park) \<in> set (s_ipis s))" for u
  proof (cases "s_current s c = Some u")
    case True
    then show ?thesis using out rest(1) by auto
  next
    case False
    with others [OF False] show ?thesis unfolding task_ok_def
      by (cases "cpu_of u = c") auto
  qed
  show ?thesis
  proof (cases n)
    case None
    have "task_ok cpu_of (s\<lparr>s_current := (s_current s)(c := None)\<rparr>) u" for u
      using away [of u] by (cases "cpu_of u = c") (simp_all add: task_ok_def)
    then show ?thesis using None rest by (auto simp: switch_to_next_def wait_inv_def)
  next
    case (Some t)
    with pick have t: "t \<in> s_runq s" "cpu_of t = c" by auto
    with away [of t] have run: "wc_task (s_core s) t = Runnable" "phase_ok Runnable (round_status s t) True (s_phase s t)"
      by (auto simp: view_ok_def intro: phase_ok_switch_in)
    let ?s = "s\<lparr>s_current := (s_current s)(c := Some t), s_runq := s_runq s - {t}\<rparr>"
    have "task_ok cpu_of ?s u" for u
    proof (cases "u = t")
      case True
      then show ?thesis using run t by (simp add: task_ok_def view_ok_def)
    next
      case False
      then show ?thesis using away [of u]
        by (cases "cpu_of u = c") (simp_all add: task_ok_def)
    qed
    then show ?thesis using Some run rest t by (auto simp: switch_to_next_def wait_inv_def)
  qed
qed

subsection \<open>Placing woken tasks\<close>

text \<open>The invariant, except that \<open>t\<close> may be runnable with nobody about to run it.\<close>

definition owes_placement :: "(nat \<Rightarrow> nat) \<Rightarrow> wait_sys \<Rightarrow> nat \<Rightarrow> bool" where
  "owes_placement cpu_of s t \<longleftrightarrow>
     (\<forall>u. u \<noteq> t \<longrightarrow> task_ok cpu_of s u) \<and>
     view_ok (wc_task (s_core s) t) (round_status s t) (s_phase s t) (s_current s (cpu_of t) = Some t) (t \<in> s_runq s) True \<and>
     (\<forall>c t. s_current s c = Some t \<longrightarrow> cpu_of t = c) \<and>
     (\<forall>t w. round_of (s_phase s t) = Some w \<longrightarrow> w < wc_next (s_core s)) \<and>
     (\<forall>t t' w. round_of (s_phase s t) = Some w \<longrightarrow> round_of (s_phase s t') = Some w \<longrightarrow> t = t')"

lemma place_keeps:
  assumes "owes_placement cpu_of s t"
  shows "wait_inv cpu_of (place_woken cpu_of t park s)"
proof -
  have view: "view_ok (wc_task (s_core s) t) (round_status s t) (s_phase s t) (s_current s (cpu_of t) = Some t) (t \<in> s_runq s) True"
    using assms by (simp add: owes_placement_def)
  show ?thesis
  proof (cases "wc_task (s_core s) t = Runnable \<and> s_current s (cpu_of t) \<noteq> Some t \<and> t \<notin> s_runq s")
    case True
    let ?s = "s\<lparr>s_runq := insert t (s_runq s)\<rparr>"
    have "place_woken cpu_of t park s = ?s"
      using True by (simp add: place_woken_def local_wake_enqueue_def)
    moreover have "task_ok cpu_of ?s u" for u
      using assms view True by (cases "u = t") (auto simp: task_ok_def owes_placement_def view_ok_def)
    ultimately show ?thesis using assms by (simp add: wait_inv_def owes_placement_def)
  next
    case False
    then have "place_woken cpu_of t park s = s"
      by (auto simp: place_woken_def local_wake_enqueue_def split: park_state.split)
    moreover have "task_ok cpu_of s t"
      using view False by (auto simp: task_ok_def view_ok_def)
    then have "task_ok cpu_of s u" for u
      using assms by (cases "u = t") (auto simp: owes_placement_def)
    ultimately show ?thesis using assms by (simp add: wait_inv_def owes_placement_def)
  qed
qed

lemma submit_keeps:
  assumes "owes_placement cpu_of s t"
  shows "wait_inv cpu_of (submit_wake_placement cpu_of c t park s)"
proof (cases "cpu_of t = c")
  case True
  with place_keeps [OF assms] show ?thesis by (simp add: submit_wake_placement_def)
next
  case False
  let ?s = "s\<lparr>s_ipis := s_ipis s @ [(t, park)]\<rparr>"
  have "task_ok cpu_of ?s u" for u
    using assms by (cases "u = t") (auto simp: task_ok_def owes_placement_def view_ok_def)
  with False assms show ?thesis
    by (simp add: submit_wake_placement_def wait_inv_def owes_placement_def)
qed

lemma deliver_keeps:
  assumes "wait_inv cpu_of s"
  shows "wait_inv cpu_of (place_woken cpu_of t park (s\<lparr>s_ipis := remove1 (t, park) (s_ipis s)\<rparr>))"
proof (rule place_keeps)
  let ?s = "s\<lparr>s_ipis := remove1 (t, park) (s_ipis s)\<rparr>"
  have "task_ok cpu_of ?s u" if "u \<noteq> t" for u
    using wait_invD(1) [OF assms, of u] that by (auto simp: task_ok_def in_set_remove1)
  moreover have "view_ok (wc_task (s_core s) t) (round_status s t) (s_phase s t) (s_current s (cpu_of t) = Some t) (t \<in> s_runq s) True"
    using wait_invD(1) [OF assms, of t] by (simp add: task_ok_def view_ok_def)
  ultimately show "owes_placement cpu_of ?s t"
    using assms by (simp add: owes_placement_def wait_inv_def)
qed

lemma woken_owes:
  assumes inv: "wait_inv cpu_of s" and st: "wc_task (s_core s) t = Waiting w i park" and armed: "wc_status (s_core s) w = Armed"
  shows "owes_placement cpu_of (s\<lparr>s_core := (s_core s)\<lparr>wc_status := (wc_status (s_core s))(w := Completed r),
    wc_task := (wc_task (s_core s))(t := Runnable)\<rparr>\<rparr>) t" (is "owes_placement _ ?s t")
proof -
  note ok = wait_invD(1) [OF inv, of t]
  have round: "round_of (s_phase s t) = Some w"
    using ok st by (cases "s_phase s t") (auto simp: task_ok_def view_ok_def)
  have "view_ok Runnable (Completed r) (s_phase s t) (s_current s (cpu_of t) = Some t) (t \<in> s_runq s) True"
    using ok st by (cases "s_phase s t") (auto simp: task_ok_def view_ok_def)
  moreover have "round_status ?s t = Completed r" using round by (simp add: round_status_def)
  moreover have "task_ok cpu_of ?s u" if u: "u \<noteq> t" for u
  proof -
    have "round_status ?s u = round_status s u" by (rule same_for_status [OF inv round u]) simp_all
    with wait_invD(1) [OF inv, of u] u show ?thesis by (simp add: task_ok_def)
  qed
  ultimately show ?thesis using inv by (simp add: owes_placement_def wait_inv_def)
qed

lemma wake_waiting_keeps:
  assumes inv: "wait_inv cpu_of s" and st: "wc_task (s_core s) t = Waiting w i park"
  shows "step_keeps cpu_of (after_wake cpu_of c t s (wake_waiting t w i park reason mode (s_core s)))"
proof (cases "wc_status (s_core s) w = Armed \<and> mode_allows mode i")
  case True
  with submit_keeps [OF woken_owes [OF inv st, of reason], of c park] show ?thesis
    by (simp add: wake_waiting_def after_wake_def)
next
  case False
  then show ?thesis using inv
    by (auto simp: wake_waiting_def after_wake_def split: wait_status.splits)
qed

lemma wake_keeps:
  assumes "wait_inv cpu_of s"
  shows "step_keeps cpu_of (after_wake cpu_of c t s (wake_wait t w reason mode (s_core s)))"
    "step_keeps cpu_of (after_wake cpu_of c t s (wake_active_wait t reason mode (s_core s)))"
  using assms wake_waiting_keeps [OF assms]
  by (auto simp: wake_wait_def wake_active_wait_def after_wake_def split: task_sched_state.split)

subsection \<open>The steps of the waiting task\<close>

lemma set_phase_sel [simp]:
  "s_core (set_phase s t p) = s_core s" "s_current (set_phase s t p) = s_current s"
  "s_runq (set_phase s t p) = s_runq s" "s_ipis (set_phase s t p) = s_ipis s"
  "s_phase (set_phase s t p) u = (if u = t then p else s_phase s u)"
  by (simp_all add: set_phase_def)

lemma set_task_sel [simp]:
  "wc_task (s_core (set_task s t st)) u = (if u = t then st else wc_task (s_core s) u)"
  "wc_status (s_core (set_task s t st)) = wc_status (s_core s)" "wc_next (s_core (set_task s t st)) = wc_next (s_core s)"
  "s_phase (set_task s t st) = s_phase s" "s_current (set_task s t st) = s_current s"
  "s_runq (set_task s t st) = s_runq s" "s_ipis (set_task s t st) = s_ipis s"
  by (simp_all add: set_task_def)

lemma round_status_set_phase:
  "u \<noteq> t \<Longrightarrow> round_status (set_phase s t p) u = round_status s u"
  "round_status (set_phase s t p) t = (case round_of p of None \<Rightarrow> Retired | Some w \<Rightarrow> wc_status (s_core s) w)"
  by (simp_all add: round_status_def cong: option.case_cong)

text \<open>The step changes the state, the phase and the status of the round of \<open>t\<close> only.\<close>

lemma own_step_keeps:
  assumes inv: "wait_inv cpu_of s"
    and s': "s' = set_phase (s\<lparr>s_core := wc\<rparr>) t p"
    and wc: "wc_next wc = wc_next (s_core s)" "\<And>u. u \<noteq> t \<Longrightarrow> wc_task wc u = wc_task (s_core s) u"
      "\<And>w'. round_of (s_phase s t) \<noteq> Some w' \<Longrightarrow> wc_status wc w' = wc_status (s_core s) w'"
    and round: "round_of p = None \<or> round_of p = round_of (s_phase s t)"
    and ok: "view_ok (wc_task wc t) (case round_of p of None \<Rightarrow> Retired | Some w \<Rightarrow> wc_status wc w) p
      (s_current s (cpu_of t) = Some t) (t \<in> s_runq s) (\<exists>park. (t, park) \<in> set (s_ipis s))"
  shows "wait_inv cpu_of s'"
proof (rule inv_local [OF inv, of t])
  fix u assume u: "u \<noteq> t"
  have "round_status s' u = round_status s u"
  proof (cases "round_of (s_phase s u)")
    case None
    then show ?thesis using u by (simp add: s' round_status_def)
  next
    case (Some w')
    then have "round_of (s_phase s t) \<noteq> Some w'" using wait_invD(4) [OF inv] u by blast
    with Some u wc(3) show ?thesis by (simp add: s' round_status_def)
  qed
  with u wc(2) show "same_for cpu_of s s' u" by (simp add: same_for_def s')
next
  show "task_ok cpu_of s' t"
    using ok by (simp add: task_ok_def s' round_status_set_phase cong: option.case_cong)
qed (use wc(1) round in \<open>auto simp: s'\<close>)

lemma begin_keeps:
  assumes inv: "wait_inv cpu_of s" and cur: "s_current s (cpu_of t) = Some t" and ph: "s_phase s t = Ph_Run"
  shows "step_keeps cpu_of (do_begin t i s)"
proof -
  let ?w = "wc_next (s_core s)"
  have run: "wc_task (s_core s) t = Runnable" "t \<notin> s_runq s"
    using wait_invD(1) [OF inv, of t] ph cur by (auto simp: task_ok_def view_ok_def)
  let ?wc = "(s_core s)\<lparr>wc_status := (wc_status (s_core s))(?w := Armed), wc_next := Suc ?w,
    wc_task := (wc_task (s_core s))(t := Waiting ?w i PrePark)\<rparr>"
  let ?s = "set_phase (s\<lparr>s_core := ?wc\<rparr>) t (Ph_Setup ?w)"
  have "wait_inv cpu_of ?s"
  proof (rule inv_local [OF inv, of t])
    fix u assume u: "u \<noteq> t"
    have "round_status ?s u = round_status s u"
    proof (cases "round_of (s_phase s u)")
      case None
      then show ?thesis using u by (simp add: round_status_def)
    next
      case (Some w')
      then have "w' < ?w" using wait_invD(3) [OF inv] by blast
      with Some u show ?thesis by (simp add: round_status_def)
    qed
    with u show "same_for cpu_of s ?s u" by (simp add: same_for_def)
  next
    show "task_ok cpu_of ?s t"
      using cur run by (simp add: task_ok_def view_ok_def round_status_set_phase)
  qed auto
  then show ?thesis using run by (simp add: do_begin_def begin_wait_def Let_def)
qed

lemma cancel_keeps:
  assumes inv: "wait_inv cpu_of s" and cur: "s_current s (cpu_of t) = Some t" and ph: "s_phase s t = Ph_Setup w"
  shows "wait_inv cpu_of (set_phase (s\<lparr>s_core := snd (cancel_wait t w reason (s_core s))\<rparr>) t (Ph_Finishing w))"
proof -
  have ok: "wc_status (s_core s) w = Armed \<and> (\<exists>i. wc_task (s_core s) t = Waiting w i PrePark) \<or>
      wc_task (s_core s) t = Runnable \<and> (\<exists>r. wc_status (s_core s) w = Completed r)"
    and q: "t \<notin> s_runq s"
    using wait_invD(1) [OF inv, of t] ph cur by (auto simp: task_ok_def view_ok_def round_status_def)
  show ?thesis
    by (rule own_step_keeps [OF inv refl])
      (use ok q ph cur in \<open>auto simp: cancel_wait_def view_ok_def Let_def\<close>)
qed

lemma sleep_keeps:
  assumes inv: "wait_inv cpu_of s" and cur: "s_current s (cpu_of t) = Some t" and ph: "s_phase s t = Ph_Setup w"
  shows "step_keeps cpu_of (do_sleep t w s)"
proof -
  have q: "t \<notin> s_runq s" and ok: "wc_status (s_core s) w = Armed \<and> (\<exists>i. wc_task (s_core s) t = Waiting w i PrePark) \<or>
      wc_task (s_core s) t = Runnable \<and> (\<exists>r. wc_status (s_core s) w = Completed r)"
    using wait_invD(1) [OF inv, of t] ph cur by (auto simp: task_ok_def view_ok_def round_status_def)
  from ok show ?thesis
  proof (elim disjE conjE exE)
    fix i assume st: "wc_status (s_core s) w = Armed" "wc_task (s_core s) t = Waiting w i PrePark"
    have "wait_inv cpu_of (set_phase (set_task s t (Waiting w i Parked)) t (Ph_Parking w i))"
      by (rule own_step_keeps [OF inv, where wc = "(s_core s)\<lparr>wc_task := (wc_task (s_core s))(t := Waiting w i Parked)\<rparr>"])
        (use st q ph cur in \<open>auto simp: set_task_def view_ok_def\<close>)
    with st show ?thesis by (simp add: do_sleep_def)
  next
    fix r assume st: "wc_task (s_core s) t = Runnable" "wc_status (s_core s) w = Completed r"
    have "wait_inv cpu_of (set_phase (set_task s t Runnable) t (Ph_Finishing w))"
      by (rule own_step_keeps [OF inv, where wc = "(s_core s)\<lparr>wc_task := (wc_task (s_core s))(t := Runnable)\<rparr>"])
        (use st q ph cur in \<open>auto simp: set_task_def view_ok_def\<close>)
    with st show ?thesis by (simp add: do_sleep_def)
  qed
qed

lemma resume_keeps:
  assumes inv: "wait_inv cpu_of s" and cur: "s_current s (cpu_of t) = Some t" and ph: "s_phase s t = Ph_Asleep w"
  shows "wait_inv cpu_of (set_phase s t (Ph_Finishing w))"
  by (rule own_step_keeps [OF inv, where wc = "s_core s"])
    (use wait_invD(1) [OF inv, of t] cur ph in \<open>auto simp: task_ok_def view_ok_def round_status_def\<close>)

lemma finish_keeps:
  assumes inv: "wait_inv cpu_of s" and cur: "s_current s (cpu_of t) = Some t" and ph: "s_phase s t = Ph_Finishing w"
  shows "step_keeps cpu_of (do_finish t w s)"
proof -
  have st: "wc_task (s_core s) t = Runnable" "\<exists>r. wc_status (s_core s) w = Completed r \<or> wc_status (s_core s) w = Cancelled r"
    and q: "t \<notin> s_runq s"
    using wait_invD(1) [OF inv, of t] ph cur by (auto simp: task_ok_def view_ok_def round_status_def)
  have "wait_inv cpu_of (set_phase (s\<lparr>s_core := (s_core s)\<lparr>wc_status := (wc_status (s_core s))(w := Retired)\<rparr>\<rparr>) t Ph_Run)"
    by (rule own_step_keeps [OF inv refl]) (use st q ph cur in \<open>auto simp: view_ok_def\<close>)
  with st show ?thesis by (auto simp: do_finish_def finish_wait_def wait_retire_def Let_def)
qed

subsection \<open>Switching out\<close>

text \<open>The current task \<open>t\<close> is put away with a new state and phase, on the run queue
  or not; what is left of the invariant is enough for the switch.\<close>

lemma leave_cpu_keeps:
  assumes inv: "wait_inv cpu_of s" and cur: "s_current s (cpu_of t) = Some t"
    and s1: "s1 = (set_phase (set_task s t st) t p)\<lparr>s_runq := (if queue then insert t (s_runq s) else s_runq s)\<rparr>"
    and round: "round_of p = None \<or> round_of p = round_of (s_phase s t)"
    and ok: "view_ok st (case round_of p of None \<Rightarrow> Retired | Some w \<Rightarrow> wc_status (s_core s) w) p False queue
      (\<exists>park. (t, park) \<in> set (s_ipis s))"
    and pick: "pickable cpu_of s (if queue then {t} else {}) (cpu_of t) n"
  shows "step_keeps cpu_of (switch_to_next (cpu_of t) n s1)"
proof (rule switch_keeps)
  have notq: "t \<notin> s_runq s" using wait_invD(1) [OF inv, of t] cur by (auto simp: task_ok_def view_ok_def)
  show "task_ok cpu_of s1 u" if "s_current s1 (cpu_of t) \<noteq> Some u" for u
  proof -
    have u: "u \<noteq> t" using that cur by (auto simp: s1)
    have "round_status s1 u = round_status s u" using u by (simp add: s1 round_status_set_phase)
    with wait_invD(1) [OF inv, of u] u show ?thesis by (auto simp: task_ok_def s1)
  qed
  show "view_ok (wc_task (s_core s1) u) (round_status s1 u) (s_phase s1 u) False (u \<in> s_runq s1)
      (\<exists>park. (u, park) \<in> set (s_ipis s1))" if "s_current s1 (cpu_of t) = Some u" for u
  proof -
    have u: "u = t" using that cur by (simp add: s1)
    have "round_status s1 t = (case round_of p of None \<Rightarrow> Retired | Some w \<Rightarrow> wc_status (s_core s) w)"
      by (simp add: s1 round_status_set_phase cong: option.case_cong)
    with ok notq u show ?thesis by (cases queue) (simp_all add: s1)
  qed
  show "\<forall>c u. s_current s1 c = Some u \<longrightarrow> cpu_of u = c"
    using wait_invD(2) [OF inv] by (simp add: s1)
  show "\<forall>u w. round_of (s_phase s1 u) = Some w \<longrightarrow> w < wc_next (s_core s1)"
    using wait_invD(3) [OF inv] round by (auto simp: s1)
  have old: "round_of (s_phase s u) = Some w" if "round_of (s_phase s1 u) = Some w" for u w
    using that round by (cases "u = t") (auto simp: s1)
  show "\<forall>u v w. round_of (s_phase s1 u) = Some w \<longrightarrow> round_of (s_phase s1 v) = Some w \<longrightarrow> u = v"
    using wait_invD(4) [OF inv] old by blast
  show "u \<in> s_runq s1 \<and> cpu_of u = cpu_of t" if "n = Some u" for u
    using pick that by (auto simp: pickable_def s1 split: if_splits)
qed

lemma runq_same [simp]:
  "(set_phase s t p)\<lparr>s_runq := s_runq s\<rparr> = set_phase s t p"
  "(set_phase (set_task s t st) t p)\<lparr>s_runq := s_runq s\<rparr> = set_phase (set_task s t st) t p"
  by (simp_all add: set_phase_def set_task_def)

lemma set_task_same: "wc_task (s_core s) t = st \<Longrightarrow> set_task s t st = s"
  by (simp add: set_task_def fun_upd_idem)

lemma park_keeps:
  assumes inv: "wait_inv cpu_of s" and cur: "s_current s (cpu_of t) = Some t" and ph: "s_phase s t = Ph_Parking w i"
    and pick: "pickable cpu_of s (if wc_task (s_core s) t = Runnable then {t} else {}) (cpu_of t) n"
  shows "step_keeps cpu_of (do_park cpu_of t w i n s)"
proof -
  have q: "t \<notin> s_runq s" and ok: "wc_task (s_core s) t = Waiting w i Parked \<and> wc_status (s_core s) w = Armed \<or>
      wc_task (s_core s) t = Runnable \<and> (\<exists>r. wc_status (s_core s) w = Completed r)"
    using wait_invD(1) [OF inv, of t] ph cur by (auto simp: task_ok_def view_ok_def round_status_def)
  note leave = leave_cpu_keeps [OF inv cur refl, where st = "wc_task (s_core s) t" and p = "Ph_Asleep w" and n = n]
  from ok show ?thesis
  proof (elim disjE conjE exE)
    assume st: "wc_task (s_core s) t = Waiting w i Parked" "wc_status (s_core s) w = Armed"
    show ?thesis
      using leave [where queue = False] st ph pick q cur
      by (simp add: do_park_def then_switch_def put_prev_current_def view_ok_def set_task_same)
  next
    fix r assume st: "wc_task (s_core s) t = Runnable" "wc_status (s_core s) w = Completed r"
    show ?thesis
      using leave [where queue = True] st ph pick q cur
      by (simp add: do_park_def then_switch_def requeue_current_def view_ok_def set_task_same)
  qed
qed

lemma preempt_keeps:
  assumes inv: "wait_inv cpu_of s" and cur: "s_current s (cpu_of t) = Some t" and np: "\<not> cpu_parking s (cpu_of t)"
    and pick: "pickable cpu_of s {t} (cpu_of t) n"
  shows "step_keeps cpu_of (do_preempt cpu_of t n s)"
proof -
  have q: "t \<notin> s_runq s" using wait_invD(1) [OF inv, of t] cur by (auto simp: task_ok_def view_ok_def)
  have same: "set_phase s t (s_phase s t) = s" by (simp add: set_phase_def)
  consider (run) "wc_task (s_core s) t = Runnable" | (preparing) w j where "wc_task (s_core s) t = Waiting w j PrePark"
    using wait_invD(1) [OF inv, of t] cur np
    by (cases "s_phase s t") (auto simp: task_ok_def view_ok_def cpu_parking_def)
  then show ?thesis
  proof cases
    case run
    have "view_ok Runnable (round_status s t) (s_phase s t) False True (\<exists>park. (t, park) \<in> set (s_ipis s))"
      using wait_invD(1) [OF inv, of t] run cur np
      by (cases "s_phase s t") (auto simp: task_ok_def view_ok_def cpu_parking_def)
    then show ?thesis
      using leave_cpu_keeps [OF inv cur refl, where st = Runnable and p = "s_phase s t" and queue = True and n = n]
        run pick q cur
      by (simp add: do_preempt_def then_switch_def requeue_current_def set_task_same same round_status_def)
  next
    case preparing
    then show ?thesis using inv by (simp add: do_preempt_def set_task_same)
  qed
qed

lemma exit_keeps:
  assumes inv: "wait_inv cpu_of s" and cur: "s_current s (cpu_of t) = Some t" and ph: "s_phase s t = Ph_Run"
    and pick: "pickable cpu_of s {} (cpu_of t) n"
  shows "step_keeps cpu_of (do_exit cpu_of t n s)"
proof -
  have st: "wc_task (s_core s) t = Runnable" and q: "t \<notin> s_runq s"
    using wait_invD(1) [OF inv, of t] ph cur by (auto simp: task_ok_def view_ok_def)
  then show ?thesis
    using leave_cpu_keeps [OF inv cur refl, where st = Zombie and p = Ph_Dead and queue = False and n = n] pick cur
    by (simp add: do_exit_def then_switch_def put_prev_current_def view_ok_def)
qed

lemma leave_idle_keeps:
  assumes inv: "wait_inv cpu_of s" and "s_current s c = None" "pickable cpu_of s {} c n"
  shows "step_keeps cpu_of (switch_to_next c n s)"
  by (rule switch_keeps) (use assms in \<open>auto simp: pickable_def wait_inv_def\<close>)

lemma wait_step_keeps: "wait_step cpu_of s res \<Longrightarrow> wait_inv cpu_of s \<Longrightarrow> step_keeps cpu_of res"
  by (induction rule: wait_step.induct)
    (simp_all add: begin_keeps cancel_keeps sleep_keeps park_keeps resume_keeps finish_keeps wake_keeps deliver_keeps
      preempt_keeps exit_keeps leave_idle_keeps)

lemma wait_init_inv: "wait_inv cpu_of (wait_init tasks)"
  by (auto simp: wait_init_def wait_inv_def task_ok_def view_ok_def split: if_splits)

lemma wait_reachable_inv: "wait_reachable cpu_of s \<Longrightarrow> wait_inv cpu_of s"
  by (induction rule: wait_reachable.induct) (auto simp: wait_init_inv dest: wait_step_keeps)

subsection \<open>Properties\<close>

text \<open>C7: The wait protocol never panics and never strands a task. From the start of
  the system on, whatever the interleaving of waits, wakes from any CPU, message
  deliveries, preemptions and exits: no step runs into one of the panics or
  assertions of the wait core and the scheduler, and afterwards every runnable
  task is running, queued, or has a wake message on its way to its CPU.\<close>

theorem no_lost_wakeup:
  assumes "wait_reachable cpu_of s" "wait_step cpu_of s res"
  shows "\<exists>s'. res = Inr s' \<and>
    (\<forall>t. wc_task (s_core s') t = Runnable \<longrightarrow>
       s_current s' (cpu_of t) = Some t \<or> t \<in> s_runq s' \<or> (\<exists>park. (t, park) \<in> set (s_ipis s')))"
proof -
  from wait_step_keeps [OF assms(2) wait_reachable_inv [OF assms(1)]] obtain s' where
    s': "res = Inr s'" "wait_inv cpu_of s'" by (auto simp: step_keeps_def)
  then show ?thesis using wait_invD(1) [OF s'(2)] by (auto simp: task_ok_def view_ok_def)
qed

theorem no_lost_wakeup_witness:
  "\<exists>s s'. wait_reachable id s \<and> wait_step id s (Inr s') \<and> s_current s' 0 = Some 0"
proof -
  let ?s = "wait_init {0}"
  have r: "wait_reachable id ?s" by (rule wait_reachable.initial)
  have step: "wait_step id ?s (switch_to_next 0 (Some 0) ?s)"
    by (rule wait_step.leave_idle) (simp_all add: wait_init_def pickable_def)
  from no_lost_wakeup [OF r step] obtain s' where s': "switch_to_next 0 (Some 0) ?s = Inr s'" by blast
  then have "s_current s' 0 = Some 0" by (auto simp: switch_to_next_def wait_init_def)
  with r step s' show ?thesis by metis
qed

text \<open>C19: A wake by token is exact: it completes the round it names and no other. If
  the task waits in that round, still armed, and the mode allows it, the task
  becomes runnable with that reason recorded; otherwise (an old token, a round
  already decided, a mode that does not reach an uninterruptible wait) nothing
  at all changes. So of two wakes of one round only the first succeeds.\<close>

theorem wake_exact:
  assumes "wait_reachable cpu_of s"
  shows "\<exists>commit wc. wake_wait t w reason mode (s_core s) = Inr (commit, wc) \<and>
    (if \<exists>i park. wc_task (s_core s) t = Waiting w i park \<and> mode_allows mode i
     then (\<exists>park. commit = Commit_Woke park) \<and> wc_task wc = (wc_task (s_core s))(t := Runnable) \<and>
       wc_status wc = (wc_status (s_core s))(w := Completed reason) \<and>
       wake_wait t w reason' mode' wc = Inr (Commit_Stale, wc)
     else wc = s_core s \<and> (\<forall>park. commit \<noteq> Commit_Woke park))"
proof -
  have armed: "wc_status (s_core s) w = Armed" if "wc_task (s_core s) t = Waiting w i park" for i park
    using wait_invD(1) [OF wait_reachable_inv [OF assms], of t] that
    by (cases "s_phase s t") (auto simp: task_ok_def view_ok_def round_status_def)
  then show ?thesis
    by (auto simp: wake_wait_def wake_waiting_def split: task_sched_state.split)
qed

theorem wake_exact_witness:
  "\<exists>commit wc. wake_wait 3 7 Event_Reason AnyWait (s_core (wait_init {3})) = Inr (commit, wc) \<and> wc = s_core (wait_init {3})"
  using wake_exact [OF wait_reachable.initial [of id "{3}"], of 3 7 Event_Reason AnyWait]
  by (auto simp: wait_init_def split: if_splits)

text \<open>C21: A sleeping task was not forgotten. A task that has gone to sleep in a round
  is either waiting in that round, which is still armed so that a wake by its
  token succeeds, or its round has been completed and it is runnable; and when
  it runs again the round it finishes has an outcome.\<close>

theorem sleeper_wakeable:
  assumes "wait_reachable cpu_of s" "s_phase s t = Ph_Asleep w"
  shows "(\<exists>i. wc_task (s_core s) t = Waiting w i Parked \<and> wc_status (s_core s) w = Armed \<and>
      s_current s (cpu_of t) \<noteq> Some t \<and>
      (\<exists>wc. wake_wait t w reason AnyWait (s_core s) = Inr (Commit_Woke Parked, wc))) \<or>
    (wc_task (s_core s) t = Runnable \<and> (\<exists>r. fst (finish_wait t w (s_core s)) = Out_Completed r))"
  using wait_invD(1) [OF wait_reachable_inv [OF assms(1)], of t] assms(2)
  by (auto simp: task_ok_def view_ok_def round_status_def wake_wait_def wake_waiting_def finish_wait_def wait_retire_def)

text \<open>One task that goes to sleep on CPU 0, step by step.\<close>

lemma example_sleeper:
  "\<exists>s. wait_reachable id s \<and> s_phase s 0 = Ph_Asleep 0"
proof -
  define s0 where "s0 = wait_init {0}"
  define s1 where "s1 = s0\<lparr>s_current := (s_current s0)(0 := Some 0), s_runq := {}\<rparr>"
  define s2 where "s2 = projr (do_begin 0 True s1)"
  define s3 where "s3 = projr (do_sleep 0 0 s2)"
  define s4 where "s4 = projr (do_park id 0 0 True None s3)"
  note defs = s0_def s1_def s2_def s3_def s4_def wait_init_def do_begin_def begin_wait_def do_sleep_def do_park_def
    set_phase_def set_task_def then_switch_def put_prev_current_def switch_to_next_def pickable_def Let_def
  have "wait_reachable id s0" unfolding s0_def by (rule wait_reachable.initial)
  moreover have "wait_step id s0 (Inr s1)"
    using wait_step.leave_idle [of s0 0 id "Some 0"] by (simp add: defs)
  ultimately have 1: "wait_reachable id s1" by (rule wait_reachable.stepped)
  have "wait_step id s1 (Inr s2)"
    using wait_step.begin_round [of s1 id 0 True] by (simp add: defs)
  with 1 have 2: "wait_reachable id s2" by (rule wait_reachable.stepped)
  have "wait_step id s2 (Inr s3)"
    using wait_step.sleep [of s2 id 0 0] by (simp add: defs)
  with 2 have 3: "wait_reachable id s3" by (rule wait_reachable.stepped)
  have "wait_step id s3 (Inr s4)"
    using wait_step.park [of s3 id 0 0 True None] by (simp add: defs)
  with 3 have 4: "wait_reachable id s4" by (rule wait_reachable.stepped)
  have "s_phase s4 0 = Ph_Asleep 0" by (simp add: defs)
  with 4 show ?thesis by blast
qed

theorem sleeper_wakeable_witness:
  "\<exists>s. wait_reachable id s \<and> s_phase s 0 = Ph_Asleep 0 \<and>
     ((\<exists>i. wc_task (s_core s) 0 = Waiting 0 i Parked) \<or> wc_task (s_core s) 0 = Runnable)"
  using example_sleeper sleeper_wakeable by blast

end
