(* ===== verification/Event.thy ===== *)
theory Event
  imports Wait_Core
begin

text \<open>
  Events (\<open>sched/event.rs\<close>): two queues of listeners, publication, registration and
  cleaning, on top of the wait core. A listener is a task with the round it waits
  in; two listeners are equal when their rounds are. The weak reference to the
  task may have died (\<open>alive\<close>).
\<close>

subsection \<open>Queues\<close>

record listener =
  l_task :: nat
  l_wait :: nat

definition same_wait :: "listener \<Rightarrow> listener \<Rightarrow> bool" where
  "same_wait a b \<longleftrightarrow> l_wait a = l_wait b"

record event_inner =
  non_exclusive :: "listener list"
  exclusive :: "listener list"

datatype queue_kind = NonExclusive | Exclusive_Queue

definition queue_of :: "queue_kind \<Rightarrow> event_inner \<Rightarrow> listener list" where
  "queue_of k ev = (case k of NonExclusive \<Rightarrow> non_exclusive ev | Exclusive_Queue \<Rightarrow> exclusive ev)"

definition set_queue :: "queue_kind \<Rightarrow> listener list \<Rightarrow> event_inner \<Rightarrow> event_inner" where
  "set_queue k q ev = (case k of NonExclusive \<Rightarrow> ev\<lparr>non_exclusive := q\<rparr> | Exclusive_Queue \<Rightarrow> ev\<lparr>exclusive := q\<rparr>)"

definition queue_contains :: "listener list \<Rightarrow> listener \<Rightarrow> bool" where
  "queue_contains q l \<longleftrightarrow> (\<exists>x \<in> set q. same_wait x l)"

definition register_listener :: "queue_kind \<Rightarrow> listener \<Rightarrow> event_inner \<Rightarrow> event_inner" where
  "register_listener k l ev =
     (if queue_contains (queue_of k ev) l then ev else set_queue k (queue_of k ev @ [l]) ev)"

definition clean_listener :: "queue_kind \<Rightarrow> listener \<Rightarrow> event_inner \<Rightarrow> event_inner" where
  "clean_listener k l ev = set_queue k (filter (\<lambda>x. \<not> same_wait x l) (queue_of k ev)) ev"

fun pop_front :: "'a list \<Rightarrow> 'a option \<times> 'a list" where
  "pop_front [] = (None, [])"
| "pop_front (x # xs) = (Some x, xs)"

definition pop_listener :: "queue_kind \<Rightarrow> event_inner \<Rightarrow> listener option \<times> event_inner" where
  "pop_listener k ev = (let (l, q) = pop_front (queue_of k ev) in (l, set_queue k q ev))"

subsection \<open>Waking one listener\<close>

definition requeue_blocked_listener ::
  "(nat \<Rightarrow> bool) \<Rightarrow> listener \<Rightarrow> queue_kind \<Rightarrow> wake_mode \<Rightarrow> event_inner \<Rightarrow> wait_core \<Rightarrow> event_inner" where
  "requeue_blocked_listener alive l k mode ev wc =
     (if \<not> alive (l_task l) then ev
      else if \<not> requeue_permit_if_mode_blocked (l_task l) (l_wait l) mode wc then ev
      else if queue_contains (queue_of k ev) l then ev
      else set_queue k (queue_of k ev @ [l]) ev)"

text \<open>The result of waking a detached listener: whether it was woken, the queues, the
  wait core, and the placement that the wake has submitted.\<close>

definition wake_detached_listener ::
  "(nat \<Rightarrow> bool) \<Rightarrow> listener \<Rightarrow> queue_kind \<Rightarrow> wake_mode \<Rightarrow> event_inner \<Rightarrow> wait_core \<Rightarrow>
   fault + bool \<times> event_inner \<times> wait_core \<times> (nat \<times> park_state) list" where
  "wake_detached_listener alive l k mode ev wc =
     (if \<not> alive (l_task l) then Inr (False, ev, wc, [])
      else case wake_wait (l_task l) (l_wait l) Event_Reason mode wc of
          Inl f \<Rightarrow> Inl f
        | Inr (commit, wc') \<Rightarrow>
            (case finish_wake_attempt commit of
               (Woke, Some park) \<Rightarrow> Inr (True, ev, wc', [(l_task l, park)])
             | (ModeBlocked, _) \<Rightarrow> Inr (False, requeue_blocked_listener alive l k mode ev wc', wc', [])
             | _ \<Rightarrow> Inr (False, ev, wc', [])))"

subsection \<open>Publication\<close>

text \<open>The two loops of \<open>publish\<close>: every non-exclusive listener that was queued at the
  start, then exclusive ones until the quota is used or the queue has been
  scanned once. The placements are collected in order.\<close>

fun publish_non_exclusive ::
  "(nat \<Rightarrow> bool) \<Rightarrow> wake_mode \<Rightarrow> nat \<Rightarrow> event_inner \<Rightarrow> wait_core \<Rightarrow>
   fault + event_inner \<times> wait_core \<times> (nat \<times> park_state) list" where
  "publish_non_exclusive alive mode 0 ev wc = Inr (ev, wc, [])"
| "publish_non_exclusive alive mode (Suc n) ev wc =
     (case pop_listener NonExclusive ev of
        (None, ev1) \<Rightarrow> Inr (ev1, wc, [])
      | (Some l, ev1) \<Rightarrow>
          (case wake_detached_listener alive l NonExclusive mode ev1 wc of
             Inl f \<Rightarrow> Inl f
           | Inr (_, ev2, wc2, ps) \<Rightarrow>
               map_sum id (\<lambda>(ev3, wc3, ps'). (ev3, wc3, ps @ ps')) (publish_non_exclusive alive mode n ev2 wc2)))"

fun publish_exclusive ::
  "(nat \<Rightarrow> bool) \<Rightarrow> wake_mode \<Rightarrow> nat \<Rightarrow> nat \<Rightarrow> event_inner \<Rightarrow> wait_core \<Rightarrow>
   fault + event_inner \<times> wait_core \<times> (nat \<times> park_state) list" where
  "publish_exclusive alive mode 0 quota ev wc = Inr (ev, wc, [])"
| "publish_exclusive alive mode (Suc n) quota ev wc =
     (if quota = 0 then Inr (ev, wc, [])
      else case pop_listener Exclusive_Queue ev of
          (None, ev1) \<Rightarrow> Inr (ev1, wc, [])
        | (Some l, ev1) \<Rightarrow>
            (case wake_detached_listener alive l Exclusive_Queue mode ev1 wc of
               Inl f \<Rightarrow> Inl f
             | Inr (woke, ev2, wc2, ps) \<Rightarrow>
                 map_sum id (\<lambda>(ev3, wc3, ps'). (ev3, wc3, ps @ ps'))
                   (publish_exclusive alive mode n (if woke then quota - 1 else quota) ev2 wc2)))"

definition publish ::
  "(nat \<Rightarrow> bool) \<Rightarrow> nat \<Rightarrow> bool \<Rightarrow> event_inner \<Rightarrow> wait_core \<Rightarrow>
   fault + event_inner \<times> wait_core \<times> (nat \<times> park_state) list" where
  "publish alive n_exclusive wakeup_uninterruptible ev wc =
     (let mode = (if wakeup_uninterruptible then AnyWait else InterruptibleOnly) in
      case publish_non_exclusive alive mode (length (non_exclusive ev)) ev wc of
        Inl f \<Rightarrow> Inl f
      | Inr (ev1, wc1, ps) \<Rightarrow>
          map_sum id (\<lambda>(ev2, wc2, ps'). (ev2, wc2, ps @ ps'))
            (publish_exclusive alive mode (length (exclusive ev1)) n_exclusive ev1 wc1))"

subsection \<open>Waiting for a condition\<close>

text \<open>The protocol of \<open>listen\<close> for any number of interruptible, non-exclusive listeners
  and one publication: the publisher makes the condition true and then publishes;
  a listener begins a round, registers, checks the condition, and sleeps or
  leaves. Every critical section is a step of its own.\<close>

datatype listen_phase =
    L_Out | L_Begun nat | L_Registered nat | L_Sleeping nat | L_Leaving nat bool | L_Left nat bool | L_Return

datatype publish_phase = Pub_Before | Pub_Set | Pub_Loop nat | Pub_Holding nat listener | Pub_Done

fun listen_round :: "listen_phase \<Rightarrow> nat option" where
  "listen_round (L_Begun w) = Some w"
| "listen_round (L_Registered w) = Some w"
| "listen_round (L_Sleeping w) = Some w"
| "listen_round (L_Leaving w _) = Some w"
| "listen_round (L_Left w _) = Some w"
| "listen_round _ = None"

record cv_sys =
  cv_core :: wait_core
  cv_event :: event_inner
  cv_pred :: bool
  cv_pub :: publish_phase
  cv_pc :: "nat \<Rightarrow> listen_phase"

definition set_pc :: "cv_sys \<Rightarrow> nat \<Rightarrow> listen_phase \<Rightarrow> cv_sys" where
  "set_pc s t p = s\<lparr>cv_pc := (cv_pc s)(t := p)\<rparr>"

text \<open>The end of a round: after a cancelled one the listener returns (\<open>b\<close>); after a
  sleep it looks again when the event woke it, returns when a signal or a force
  did, and asserts that nothing else happened.\<close>

definition listen_finish :: "nat \<Rightarrow> nat \<Rightarrow> bool \<Rightarrow> cv_sys \<Rightarrow> fault + cv_sys" where
  "listen_finish t w b s =
     (let (outcome, wc) = finish_wait t w (cv_core s); s' = s\<lparr>cv_core := wc\<rparr> in
      if b then Inr (set_pc s' t L_Return)
      else case outcome of
          Out_Completed Event_Reason \<Rightarrow> Inr (set_pc s' t L_Out)
        | Out_Completed Signal_Reason \<Rightarrow> Inr (set_pc s' t L_Return)
        | Out_Completed Force_Reason \<Rightarrow> Inr (set_pc s' t L_Return)
        | _ \<Rightarrow> Inl Assert_Panic)"

inductive cv_step :: "cv_sys \<Rightarrow> fault + cv_sys \<Rightarrow> bool" where
  l_begin: "cv_pc s t = L_Out \<Longrightarrow>
     cv_step s (map_sum id (\<lambda>(w, wc). set_pc (s\<lparr>cv_core := wc\<rparr>) t (L_Begun w)) (begin_wait t True (cv_core s)))"
| l_register: "cv_pc s t = L_Begun w \<Longrightarrow>
     cv_step s (Inr (set_pc (s\<lparr>cv_event := register_listener NonExclusive \<lparr>l_task = t, l_wait = w\<rparr> (cv_event s)\<rparr>)
       t (L_Registered w)))"
| l_ready: "\<lbrakk> cv_pc s t = L_Registered w; cv_pred s \<rbrakk> \<Longrightarrow>
     cv_step s (Inr (set_pc (s\<lparr>cv_core := snd (cancel_wait t w PredicateReady (cv_core s))\<rparr>) t (L_Leaving w True)))"
| l_interrupted: "\<lbrakk> cv_pc s t = L_Registered w; \<not> cv_pred s \<rbrakk> \<Longrightarrow>
     cv_step s (Inr (set_pc (s\<lparr>cv_core := snd (cancel_wait t w Signal_Reason (cv_core s))\<rparr>) t (L_Leaving w True)))"
| l_sleep: "\<lbrakk> cv_pc s t = L_Registered w; \<not> cv_pred s \<rbrakk> \<Longrightarrow> cv_step s (Inr (set_pc s t (L_Sleeping w)))"
| l_wakes: "\<lbrakk> cv_pc s t = L_Sleeping w; wc_task (cv_core s) t = Runnable \<rbrakk> \<Longrightarrow>
     cv_step s (Inr (set_pc s t (L_Leaving w False)))"
| l_clean: "cv_pc s t = L_Leaving w b \<Longrightarrow>
     cv_step s (Inr (set_pc (s\<lparr>cv_event := clean_listener NonExclusive \<lparr>l_task = t, l_wait = w\<rparr> (cv_event s)\<rparr>) t (L_Left w b)))"
| l_finish: "cv_pc s t = L_Left w b \<Longrightarrow>
     cv_step s (listen_finish t w b s)"
| l_signal: "cv_step s (map_sum id (\<lambda>(_, wc). s\<lparr>cv_core := wc\<rparr>)
     (wake_active_wait t Signal_Reason InterruptibleOnly (cv_core s)))"
| p_set: "cv_pub s = Pub_Before \<Longrightarrow> cv_step s (Inr (s\<lparr>cv_pred := True, cv_pub := Pub_Set\<rparr>))"
| p_start: "cv_pub s = Pub_Set \<Longrightarrow> cv_step s (Inr (s\<lparr>cv_pub := Pub_Loop (length (non_exclusive (cv_event s)))\<rparr>))"
| p_pop: "cv_pub s = Pub_Loop (Suc n) \<Longrightarrow>
     cv_step s (Inr (case pop_listener NonExclusive (cv_event s) of
       (None, ev) \<Rightarrow> s\<lparr>cv_event := ev, cv_pub := Pub_Done\<rparr>
     | (Some l, ev) \<Rightarrow> s\<lparr>cv_event := ev, cv_pub := Pub_Holding n l\<rparr>))"
| p_wake: "cv_pub s = Pub_Holding n l \<Longrightarrow>
     cv_step s (map_sum id (\<lambda>(_, ev, wc, _). s\<lparr>cv_event := ev, cv_core := wc, cv_pub := Pub_Loop n\<rparr>)
       (wake_detached_listener (\<lambda>_. True) l NonExclusive InterruptibleOnly (cv_event s) (cv_core s)))"
| p_end: "cv_pub s = Pub_Loop 0 \<Longrightarrow> cv_step s (Inr (s\<lparr>cv_pub := Pub_Done\<rparr>))"

definition cv_init :: cv_sys where
  "cv_init = \<lparr>cv_core = \<lparr>wc_status = (\<lambda>_. Retired), wc_next = 0, wc_task = (\<lambda>_. Runnable)\<rparr>,
     cv_event = \<lparr>non_exclusive = [], exclusive = []\<rparr>, cv_pred = False, cv_pub = Pub_Before,
     cv_pc = (\<lambda>_. L_Out)\<rparr>"

inductive cv_reachable :: "cv_sys \<Rightarrow> bool" where
  cv_initial: "cv_reachable cv_init"
| cv_stepped: "\<lbrakk> cv_reachable s; cv_step s (Inr s') \<rbrakk> \<Longrightarrow> cv_reachable s'"

subsection \<open>Who can be woken\<close>

definition wakeable :: "(nat \<Rightarrow> bool) \<Rightarrow> wake_mode \<Rightarrow> wait_core \<Rightarrow> listener \<Rightarrow> bool" where
  "wakeable alive mode wc l \<longleftrightarrow> alive (l_task l) \<and> wc_status wc (l_wait l) = Armed \<and>
     (\<exists>i park. wc_task wc (l_task l) = Waiting (l_wait l) i park \<and> mode_allows mode i)"

definition mode_blocked :: "(nat \<Rightarrow> bool) \<Rightarrow> wake_mode \<Rightarrow> wait_core \<Rightarrow> listener \<Rightarrow> bool" where
  "mode_blocked alive mode wc l \<longleftrightarrow> alive (l_task l) \<and> wc_status wc (l_wait l) = Armed \<and>
     (\<exists>i park. wc_task wc (l_task l) = Waiting (l_wait l) i park \<and> \<not> mode_allows mode i)"

text \<open>The wait core after waking the listeners of a list.\<close>

definition wake_all :: "listener list \<Rightarrow> wait_core \<Rightarrow> wait_core" where
  "wake_all ls wc = fold (\<lambda>l wc. wc\<lparr>wc_status := (wc_status wc)(l_wait l := Completed Event_Reason),
     wc_task := (wc_task wc)(l_task l := Runnable)\<rparr>) ls wc"

lemma wake_all_simps [simp]:
  "wake_all [] wc = wc"
  "wake_all (xs @ ys) wc = wake_all ys (wake_all xs wc)"
  by (simp_all add: wake_all_def)

lemma wake_all_Cons: "wake_all (l # ls) wc = wake_all ls (wake_all [l] wc)"
  by (simp add: wake_all_def)

lemma wake_single:
  "wake_all [l] wc = wc\<lparr>wc_status := (wc_status wc)(l_wait l := Completed Event_Reason),
     wc_task := (wc_task wc)(l_task l := Runnable)\<rparr>"
  by (simp add: wake_all_def)

text \<open>Waking one listener does not change what can be done with one of another round.\<close>

lemma wakeable_other:
  assumes "wakeable alive mode wc l" "l_wait l' \<noteq> l_wait l"
  shows "wakeable alive mode' (wake_all [l] wc) l' = wakeable alive mode' wc l'"
    "mode_blocked alive mode' (wake_all [l] wc) l' = mode_blocked alive mode' wc l'"
  using assms by (auto simp: wakeable_def mode_blocked_def wake_single)

lemma wake_detached_cases:
  "wake_detached_listener alive l k mode ev wc =
     (if wakeable alive mode wc l
      then Inr (True, ev, wake_all [l] wc, [(l_task l, case wc_task wc (l_task l) of Waiting _ _ park \<Rightarrow> park | _ \<Rightarrow> PrePark)])
      else if mode_blocked alive mode wc l \<and> \<not> queue_contains (queue_of k ev) l
      then Inr (False, set_queue k (queue_of k ev @ [l]) ev, wc, [])
      else Inr (False, ev, wc, []))"
  by (auto simp: wake_detached_listener_def wake_wait_def wake_waiting_def wakeable_def mode_blocked_def
      requeue_blocked_listener_def requeue_permit_if_mode_blocked_def wake_single
      split: task_sched_state.split wait_status.split)

lemma filter_other:
  assumes "wakeable alive mode wc l" "l_wait l \<notin> l_wait ` set xs"
  shows "filter (wakeable alive mode (wake_all [l] wc)) xs = filter (wakeable alive mode wc) xs"
    "filter (mode_blocked alive mode (wake_all [l] wc)) xs = filter (mode_blocked alive mode wc) xs"
proof -
  have "l_wait x \<noteq> l_wait l" if "x \<in> set xs" for x using that assms(2) by (metis image_eqI)
  then show "filter (wakeable alive mode (wake_all [l] wc)) xs = filter (wakeable alive mode wc) xs"
    "filter (mode_blocked alive mode (wake_all [l] wc)) xs = filter (mode_blocked alive mode wc) xs"
    using wakeable_other [OF assms(1)] by (auto intro: filter_cong)
qed

lemma not_contains: "queue_contains q l \<longleftrightarrow> l_wait l \<in> l_wait ` set q"
  unfolding queue_contains_def same_wait_def image_iff by metis

subsection \<open>The loops\<close>

lemma publish_non_exclusive_spec:
  assumes "non_exclusive ev = xs @ zs" "distinct (map l_wait (xs @ zs))"
  shows "\<exists>ps. publish_non_exclusive alive mode (length xs) ev wc = Inr
      (ev\<lparr>non_exclusive := zs @ filter (mode_blocked alive mode wc) xs\<rparr>,
       wake_all (filter (wakeable alive mode wc) xs) wc, ps) \<and>
    map fst ps = map l_task (filter (wakeable alive mode wc) xs)"
  using assms
proof (induction xs arbitrary: ev wc zs)
  case Nil
  then show ?case by simp
next
  case (Cons x xs)
  let ?ev = "ev\<lparr>non_exclusive := xs @ zs\<rparr>"
  have pop: "pop_listener NonExclusive ev = (Some x, ?ev)"
    using Cons.prems(1) by (simp add: pop_listener_def queue_of_def set_queue_def)
  have new: "l_wait x \<notin> l_wait ` set (xs @ zs)" "l_wait x \<notin> l_wait ` set xs" using Cons.prems(2) by auto
  consider (wake) "wakeable alive mode wc x" | (blocked) "\<not> wakeable alive mode wc x" "mode_blocked alive mode wc x"
    | (stale) "\<not> wakeable alive mode wc x" "\<not> mode_blocked alive mode wc x" by blast
  then show ?case
  proof cases
    case wake
    then have nb: "\<not> mode_blocked alive mode wc x" by (auto simp: wakeable_def mode_blocked_def)
    from Cons.IH [of ?ev zs "wake_all [x] wc"] Cons.prems(2)
    obtain ps where "publish_non_exclusive alive mode (length xs) ?ev (wake_all [x] wc) = Inr
        (ev\<lparr>non_exclusive := zs @ filter (mode_blocked alive mode wc) xs\<rparr>,
         wake_all (filter (wakeable alive mode wc) xs) (wake_all [x] wc), ps)"
      "map fst ps = map l_task (filter (wakeable alive mode wc) xs)"
      by (auto simp: filter_other [OF wake new(2)])
    with wake nb pop show ?thesis
      by (simp add: wake_detached_cases wake_all_Cons [of x "filter (wakeable alive mode wc) xs"])
  next
    case blocked
    let ?ev2 = "ev\<lparr>non_exclusive := xs @ zs @ [x]\<rparr>"
    from Cons.IH [of ?ev2 "zs @ [x]" wc] Cons.prems(2) new obtain ps where
      "publish_non_exclusive alive mode (length xs) ?ev2 wc = Inr
        (ev\<lparr>non_exclusive := zs @ x # filter (mode_blocked alive mode wc) xs\<rparr>,
         wake_all (filter (wakeable alive mode wc) xs) wc, ps)"
      "map fst ps = map l_task (filter (wakeable alive mode wc) xs)"
      by auto
    with blocked pop new show ?thesis
      by (simp add: wake_detached_cases not_contains queue_of_def set_queue_def)
  next
    case stale
    from Cons.IH [of ?ev zs wc] Cons.prems(2) obtain ps where
      "publish_non_exclusive alive mode (length xs) ?ev wc = Inr
        (ev\<lparr>non_exclusive := zs @ filter (mode_blocked alive mode wc) xs\<rparr>,
         wake_all (filter (wakeable alive mode wc) xs) wc, ps)"
      "map fst ps = map l_task (filter (wakeable alive mode wc) xs)"
      by auto
    with stale pop show ?thesis by (simp add: wake_detached_cases)
  qed
qed

text \<open>How the exclusive loop ends: the queue was scanned up to some point, the
  listeners scanned that could be woken were woken, the blocked ones are back at
  the end of the queue; it stopped because the quota was used or nothing was left.\<close>

definition exclusive_scan ::
  "(nat \<Rightarrow> bool) \<Rightarrow> wake_mode \<Rightarrow> nat \<Rightarrow> wait_core \<Rightarrow> listener list \<Rightarrow> listener list \<Rightarrow> listener list \<Rightarrow> listener list \<Rightarrow> bool" where
  "exclusive_scan alive mode quota wc xs zs woken queue \<longleftrightarrow>
     (\<exists>scanned rest. xs = scanned @ rest \<and> woken = filter (wakeable alive mode wc) scanned \<and>
        queue = rest @ zs @ filter (mode_blocked alive mode wc) scanned \<and>
        length woken \<le> quota \<and> (length woken = quota \<or> rest = []))"

lemma publish_exclusive_spec:
  assumes "exclusive ev = xs @ zs" "distinct (map l_wait (xs @ zs))"
  shows "\<exists>woken queue ps. publish_exclusive alive mode (length xs) quota ev wc =
      Inr (ev\<lparr>exclusive := queue\<rparr>, wake_all woken wc, ps) \<and>
    map fst ps = map l_task woken \<and> exclusive_scan alive mode quota wc xs zs woken queue"
  using assms
proof (induction xs arbitrary: ev wc zs quota)
  case Nil
  then show ?case by (simp add: exclusive_scan_def)
next
  case (Cons x xs)
  show ?case
  proof (cases "quota = 0")
    case True
    then have "exclusive_scan alive mode quota wc (x # xs) zs [] (x # xs @ zs)"
      unfolding exclusive_scan_def by (intro exI [of _ "[]"] exI [of _ "x # xs"]) simp
    then show ?thesis
      using True Cons.prems(1) by (intro exI [of _ "[]"] exI [of _ "x # xs @ zs"]) simp
  next
    case False
    let ?ev = "ev\<lparr>exclusive := xs @ zs\<rparr>"
    have pop: "pop_listener Exclusive_Queue ev = (Some x, ?ev)"
      using Cons.prems(1) by (simp add: pop_listener_def queue_of_def set_queue_def)
    have new: "l_wait x \<notin> l_wait ` set (xs @ zs)" "l_wait x \<notin> l_wait ` set xs" using Cons.prems(2) by auto
    consider (wake) "wakeable alive mode wc x" | (blocked) "\<not> wakeable alive mode wc x" "mode_blocked alive mode wc x"
      | (stale) "\<not> wakeable alive mode wc x" "\<not> mode_blocked alive mode wc x" by blast
    then show ?thesis
    proof cases
      case wake
      then have nb: "\<not> mode_blocked alive mode wc x" by (auto simp: wakeable_def mode_blocked_def)
      from Cons.IH [of ?ev zs "quota - 1" "wake_all [x] wc"] Cons.prems(2) obtain woken queue ps where
        IH: "publish_exclusive alive mode (length xs) (quota - 1) ?ev (wake_all [x] wc) =
          Inr (ev\<lparr>exclusive := queue\<rparr>, wake_all woken (wake_all [x] wc), ps)" "map fst ps = map l_task woken"
          "exclusive_scan alive mode (quota - 1) (wake_all [x] wc) xs zs woken queue" by auto
      then obtain scanned rest where sc0: "xs = scanned @ rest"
        "woken = filter (wakeable alive mode (wake_all [x] wc)) scanned"
        "queue = rest @ zs @ filter (mode_blocked alive mode (wake_all [x] wc)) scanned"
        "length woken \<le> quota - 1" "length woken = quota - 1 \<or> rest = []"
        unfolding exclusive_scan_def by blast
      have "l_wait x \<notin> l_wait ` set scanned" using new(2) sc0(1) by (simp add: image_Un)
      note sc = sc0 [unfolded filter_other [OF wake this]]
      have "exclusive_scan alive mode quota wc (x # xs) zs (x # woken) queue"
        unfolding exclusive_scan_def using sc wake nb False
        by (intro exI [of _ "x # scanned"] exI [of _ rest]) auto
      with IH wake pop False show ?thesis
        by (intro exI [of _ "x # woken"] exI [of _ queue]) (simp add: wake_detached_cases wake_all_Cons [of x woken])
    next
      case blocked
      let ?ev2 = "ev\<lparr>exclusive := xs @ zs @ [x]\<rparr>"
      from Cons.IH [of ?ev2 "zs @ [x]" quota wc] Cons.prems(2) new obtain woken queue ps where
        IH: "publish_exclusive alive mode (length xs) quota ?ev2 wc = Inr (ev\<lparr>exclusive := queue\<rparr>, wake_all woken wc, ps)"
          "map fst ps = map l_task woken" "exclusive_scan alive mode quota wc xs (zs @ [x]) woken queue" by auto
      then obtain scanned rest where sc: "xs = scanned @ rest" "woken = filter (wakeable alive mode wc) scanned"
        "queue = rest @ zs @ x # filter (mode_blocked alive mode wc) scanned"
        "length woken \<le> quota" "length woken = quota \<or> rest = []"
        unfolding exclusive_scan_def by auto
      have "exclusive_scan alive mode quota wc (x # xs) zs woken queue"
        unfolding exclusive_scan_def using sc blocked by (intro exI [of _ "x # scanned"] exI [of _ rest]) auto
      with IH blocked pop False new show ?thesis
        by (intro exI [of _ woken] exI [of _ queue])
          (simp add: wake_detached_cases not_contains queue_of_def set_queue_def)
    next
      case stale
      from Cons.IH [of ?ev zs quota wc] Cons.prems(2) obtain woken queue ps where
        IH: "publish_exclusive alive mode (length xs) quota ?ev wc = Inr (ev\<lparr>exclusive := queue\<rparr>, wake_all woken wc, ps)"
          "map fst ps = map l_task woken" "exclusive_scan alive mode quota wc xs zs woken queue" by auto
      then obtain scanned rest where sc: "xs = scanned @ rest" "woken = filter (wakeable alive mode wc) scanned"
        "queue = rest @ zs @ filter (mode_blocked alive mode wc) scanned"
        "length woken \<le> quota" "length woken = quota \<or> rest = []"
        unfolding exclusive_scan_def by auto
      have "exclusive_scan alive mode quota wc (x # xs) zs woken queue"
        unfolding exclusive_scan_def using sc stale by (intro exI [of _ "x # scanned"] exI [of _ rest]) auto
      with IH stale pop False show ?thesis
        by (intro exI [of _ woken] exI [of _ queue]) (simp add: wake_detached_cases)
    qed
  qed
qed

lemma filter_other_list:
  assumes "\<forall>l \<in> set ls. wakeable alive mode wc l" "distinct (map l_wait ls)" "l_wait ` set ls \<inter> l_wait ` set xs = {}"
  shows "filter (wakeable alive mode (wake_all ls wc)) xs = filter (wakeable alive mode wc) xs \<and>
    filter (mode_blocked alive mode (wake_all ls wc)) xs = filter (mode_blocked alive mode wc) xs"
  using assms
proof (induction ls arbitrary: wc)
  case (Cons l ls)
  have w: "wakeable alive mode wc l" and new: "l_wait l \<notin> l_wait ` set xs" using Cons.prems by auto
  have "\<forall>x \<in> set ls. wakeable alive mode (wake_all [l] wc) x"
  proof
    fix x assume x: "x \<in> set ls"
    then have "l_wait x \<noteq> l_wait l" using Cons.prems(2) by (metis distinct.simps(2) image_eqI list.simps(9) set_map)
    with wakeable_other(1) [OF w this] x Cons.prems(1) show "wakeable alive mode (wake_all [l] wc) x" by simp
  qed
  then show ?case
    using Cons.IH [of "wake_all [l] wc"] Cons.prems(2,3) filter_other [OF w new]
    by (auto simp: wake_all_Cons [of l ls])
qed simp

lemma scan_take: "exclusive_scan alive mode quota wc xs [] woken queue \<Longrightarrow>
    woken = take quota (filter (wakeable alive mode wc) xs) \<and> set queue \<subseteq> set xs \<and>
    (\<forall>l \<in> set xs. mode_blocked alive mode wc l \<longrightarrow> l \<in> set queue)"
  unfolding exclusive_scan_def by auto

subsection \<open>The invariant of the protocol\<close>

definition held_listener :: "publish_phase \<Rightarrow> listener set" where
  "held_listener p = (case p of Pub_Holding n l \<Rightarrow> {l} | _ \<Rightarrow> {})"

text \<open>The publication will still come to this listener.\<close>

definition in_line :: "publish_phase \<Rightarrow> listener list \<Rightarrow> listener \<Rightarrow> bool" where
  "in_line p q l \<longleftrightarrow>
     (case p of
        Pub_Before \<Rightarrow> l \<in> set q
      | Pub_Set \<Rightarrow> l \<in> set q
      | Pub_Loop k \<Rightarrow> l \<in> set (take k q)
      | Pub_Holding k l' \<Rightarrow> l = l' \<or> l \<in> set (take k q)
      | Pub_Done \<Rightarrow> False)"

text \<open>The round of a listener that will be looked at after its sleep.\<close>

fun slept_round :: "listen_phase \<Rightarrow> nat option" where
  "slept_round (L_Leaving w b) = (if b then None else Some w)"
| "slept_round (L_Left w b) = (if b then None else Some w)"
| "slept_round p = listen_round p"

definition cv_task_ok :: "cv_sys \<Rightarrow> nat \<Rightarrow> bool" where
  "cv_task_ok s t \<longleftrightarrow>
     wc_task (cv_core s) t = Runnable \<and>
       (\<forall>w. slept_round (cv_pc s t) = Some w \<longrightarrow> wc_status (cv_core s) w \<in> {Completed Event_Reason, Completed Signal_Reason}) \<or>
     (\<exists>w p. wc_task (cv_core s) t = Waiting w True p \<and> wc_status (cv_core s) w = Armed \<and>
        (cv_pc s t = L_Begun w \<or>
         cv_pc s t = L_Registered w \<and>
           (cv_pub s = Pub_Before \<longrightarrow> \<lparr>l_task = t, l_wait = w\<rparr> \<in> set (non_exclusive (cv_event s))) \<or>
         cv_pc s t = L_Sleeping w \<and> in_line (cv_pub s) (non_exclusive (cv_event s)) \<lparr>l_task = t, l_wait = w\<rparr>))"

definition cv_inv :: "cv_sys \<Rightarrow> bool" where
  "cv_inv s \<longleftrightarrow>
     (\<forall>t. cv_task_ok s t) \<and>
     (\<forall>t w. listen_round (cv_pc s t) = Some w \<longrightarrow> w < wc_next (cv_core s)) \<and>
     (\<forall>t t' w. listen_round (cv_pc s t) = Some w \<longrightarrow> listen_round (cv_pc s t') = Some w \<longrightarrow> t = t') \<and>
     (\<forall>x \<in> set (non_exclusive (cv_event s)) \<union> held_listener (cv_pub s).
        l_wait x < wc_next (cv_core s) \<and> (\<forall>t. cv_pc s t \<noteq> L_Begun (l_wait x))) \<and>
     (cv_pred s \<longleftrightarrow> cv_pub s \<noteq> Pub_Before)"

definition cv_keeps :: "fault + cv_sys \<Rightarrow> bool" where
  "cv_keeps res \<longleftrightarrow> (\<exists>s. res = Inr s \<and> cv_inv s)"

lemma cv_keeps_Inr [simp]: "cv_keeps (Inr s) \<longleftrightarrow> cv_inv s"
  by (simp add: cv_keeps_def)

lemma cv_invD:
  assumes "cv_inv s"
  shows "cv_task_ok s t" "listen_round (cv_pc s t) = Some w \<Longrightarrow> w < wc_next (cv_core s)"
    "listen_round (cv_pc s t) = Some w \<Longrightarrow> listen_round (cv_pc s t') = Some w \<Longrightarrow> t = t'"
    "x \<in> set (non_exclusive (cv_event s)) \<union> held_listener (cv_pub s) \<Longrightarrow>
       l_wait x < wc_next (cv_core s) \<and> cv_pc s t \<noteq> L_Begun (l_wait x)"
    "cv_pred s \<longleftrightarrow> cv_pub s \<noteq> Pub_Before"
  using assms unfolding cv_inv_def by blast+

lemma set_pc_sel [simp]:
  "cv_core (set_pc s t p) = cv_core s" "cv_event (set_pc s t p) = cv_event s" "cv_pred (set_pc s t p) = cv_pred s"
  "cv_pub (set_pc s t p) = cv_pub s" "cv_pc (set_pc s t p) u = (if u = t then p else cv_pc s u)"
  by (simp_all add: set_pc_def)

lemma cv_round_of_waiting:
  "cv_task_ok s t \<Longrightarrow> wc_task (cv_core s) t = Waiting w i p \<Longrightarrow>
     listen_round (cv_pc s t) = Some w \<and> i \<and> wc_status (cv_core s) w = Armed"
  by (auto simp: cv_task_ok_def)

lemma slept_listen: "slept_round p = Some w \<Longrightarrow> listen_round p = Some w"
  by (cases p) (auto split: if_splits)

text \<open>A step of task \<open>t\<close> that leaves the other tasks, their rounds and their places in
  line alone.\<close>

lemma cv_local:
  assumes inv: "cv_inv s"
    and others: "\<And>u. u \<noteq> t \<Longrightarrow> cv_pc s' u = cv_pc s u \<and> wc_task (cv_core s') u = wc_task (cv_core s) u"
    and status: "\<And>u w. u \<noteq> t \<Longrightarrow> listen_round (cv_pc s u) = Some w \<Longrightarrow> wc_status (cv_core s') w = wc_status (cv_core s) w"
    and place: "\<And>u w. u \<noteq> t \<Longrightarrow> listen_round (cv_pc s u) = Some w \<Longrightarrow>
      (\<lparr>l_task = u, l_wait = w\<rparr> \<in> set (non_exclusive (cv_event s)) \<longrightarrow> \<lparr>l_task = u, l_wait = w\<rparr> \<in> set (non_exclusive (cv_event s'))) \<and>
      (in_line (cv_pub s) (non_exclusive (cv_event s)) \<lparr>l_task = u, l_wait = w\<rparr> \<longrightarrow>
       in_line (cv_pub s') (non_exclusive (cv_event s')) \<lparr>l_task = u, l_wait = w\<rparr>)"
    and pub: "cv_pub s' = cv_pub s" "cv_pred s' = cv_pred s"
    and own: "cv_task_ok s' t"
    and nxt: "wc_next (cv_core s) \<le> wc_next (cv_core s')"
    and round: "listen_round (cv_pc s' t) = None \<or> listen_round (cv_pc s' t) = listen_round (cv_pc s t) \<or>
      listen_round (cv_pc s' t) = Some (wc_next (cv_core s)) \<and> wc_next (cv_core s) < wc_next (cv_core s')"
    and queue: "\<And>x. x \<in> set (non_exclusive (cv_event s')) \<union> held_listener (cv_pub s) \<Longrightarrow>
      x \<in> set (non_exclusive (cv_event s)) \<union> held_listener (cv_pub s) \<or> cv_pc s t = L_Begun (l_wait x)"
    and begun: "(\<forall>w. cv_pc s' t \<noteq> L_Begun w) \<or>
      (cv_pc s' t = L_Begun (wc_next (cv_core s)) \<or> cv_pc s' t = cv_pc s t) \<and>
      set (non_exclusive (cv_event s')) \<subseteq> set (non_exclusive (cv_event s))"
  shows "cv_inv s'"
proof -
  have ok: "cv_task_ok s' u" for u
  proof (cases "u = t")
    case False
    from cv_invD(1) [OF inv, of u] show ?thesis
      unfolding cv_task_ok_def using others [OF False] status [OF False] status [OF False slept_listen] place [OF False] pub
      by (elim disjE exE conjE) auto
  qed (use own in simp)
  have "w < wc_next (cv_core s')" if "listen_round (cv_pc s' u) = Some w" for u w
    using that round nxt others cv_invD(2) [OF inv] by (cases "u = t") fastforce+
  moreover have "u = v" if "listen_round (cv_pc s' u) = Some w" "listen_round (cv_pc s' v) = Some w" for u v w
  proof -
    have old: "listen_round (cv_pc s x) = Some w \<or> w = wc_next (cv_core s) \<and> x = t" if "listen_round (cv_pc s' x) = Some w" for x
      using that round others by (cases "x = t") auto
    from old [OF that(1)] old [OF that(2)] cv_invD(2,3) [OF inv] show ?thesis by (metis less_irrefl)
  qed
  moreover have "l_wait x < wc_next (cv_core s') \<and> cv_pc s' u \<noteq> L_Begun (l_wait x)"
    if x: "x \<in> set (non_exclusive (cv_event s')) \<union> held_listener (cv_pub s)" for x u
  proof (cases "x \<in> set (non_exclusive (cv_event s)) \<union> held_listener (cv_pub s)")
    case True
    with cv_invD(4) [OF inv True] nxt have "l_wait x < wc_next (cv_core s)" "cv_pc s u \<noteq> L_Begun (l_wait x)" by auto
    with nxt begun others show ?thesis by (cases "u = t") (auto dest: less_imp_neq)
  next
    case False
    with queue [OF x] have "cv_pc s t = L_Begun (l_wait x)" by blast
    with cv_invD(2) [OF inv, of t] cv_invD(3) [OF inv, of t _ u] nxt begun others x False show ?thesis
      by (cases "u = t") fastforce+
  qed
  ultimately show ?thesis
    using ok pub cv_invD(5) [OF inv] unfolding cv_inv_def by auto
qed

lemma in_take_filter: "x \<in> set (take k q) \<Longrightarrow> P x \<Longrightarrow> x \<in> set (take k (filter P q))"
proof (induction q arbitrary: k)
  case (Cons a q)
  have "set (take n ys) \<subseteq> set (take (Suc n) ys)" for n and ys :: "'a list" by (simp add: set_take_subset_set_take)
  with Cons show ?case by (cases k) (auto 4 4)
qed simp

lemma in_line_append: "in_line p q l \<Longrightarrow> in_line p (q @ q') l"
  by (auto simp: in_line_def split: publish_phase.splits)

lemma in_line_filter: "in_line p q l \<Longrightarrow> P l \<Longrightarrow> in_line p (filter P q) l"
  by (auto simp: in_line_def in_take_filter split: publish_phase.splits)

lemma cv_not_waiting:
  "cv_inv s \<Longrightarrow> cv_pc s t \<notin> {L_Begun w, L_Registered w, L_Sleeping w} \<Longrightarrow>
     listen_round (cv_pc s t) = Some w \<or> listen_round (cv_pc s t) = None \<Longrightarrow> wc_task (cv_core s) t = Runnable"
  using cv_invD(1) [of s t] by (auto simp: cv_task_ok_def)

lemma cv_keeps_begin:
  assumes "cv_inv s" "cv_pc s t = L_Out"
  shows "cv_keeps (map_sum id (\<lambda>(w, wc). set_pc (s\<lparr>cv_core := wc\<rparr>) t (L_Begun w)) (begin_wait t True (cv_core s)))"
proof -
  have "wc_task (cv_core s) t = Runnable" using cv_not_waiting [OF assms(1), of t] assms(2) by simp
  moreover have "w \<noteq> wc_next (cv_core s)" if "listen_round (cv_pc s u) = Some w" for u w
    using cv_invD(2) [OF assms(1) that] by simp
  ultimately show ?thesis
    by (auto simp: begin_wait_def Let_def cv_task_ok_def intro!: cv_local [OF assms(1), of t])
qed

lemma cv_keeps_register:
  assumes "cv_inv s" "cv_pc s t = L_Begun w"
  shows "cv_inv (set_pc (s\<lparr>cv_event := register_listener NonExclusive \<lparr>l_task = t, l_wait = w\<rparr> (cv_event s)\<rparr>) t (L_Registered w))"
proof -
  have "\<not> queue_contains (non_exclusive (cv_event s)) \<lparr>l_task = t, l_wait = w\<rparr>"
    using cv_invD(4) [OF assms(1), of _ t] assms(2) by (auto simp: queue_contains_def same_wait_def)
  moreover have "w < wc_next (cv_core s)" using cv_invD(2) [OF assms(1), of t] assms(2) by simp
  moreover have "cv_pc s u \<noteq> L_Begun w" if "u \<noteq> t" for u
    using cv_invD(3) [OF assms(1), of t w u] assms(2) that by auto
  moreover have "wc_task (cv_core s) t = Runnable \<and> wc_status (cv_core s) w \<in> {Completed Event_Reason, Completed Signal_Reason} \<or>
      (\<exists>p. wc_task (cv_core s) t = Waiting w True p \<and> wc_status (cv_core s) w = Armed)"
    using cv_invD(1) [OF assms(1), of t] assms(2) by (auto simp: cv_task_ok_def)
  ultimately show ?thesis
    using assms(2)
    by (auto simp: register_listener_def queue_of_def set_queue_def cv_task_ok_def
        intro!: cv_local [OF assms(1), of t] in_line_append)
qed

text \<open>A step that leaves the queue alone and ends with task \<open>t\<close> runnable.\<close>

lemma cv_runnable:
  assumes "cv_inv s" "\<And>u. u \<noteq> t \<Longrightarrow> wc_task wc u = wc_task (cv_core s) u" "wc_task wc t = Runnable"
    "\<And>u w. u \<noteq> t \<Longrightarrow> listen_round (cv_pc s u) = Some w \<Longrightarrow> wc_status wc w = wc_status (cv_core s) w"
    "wc_next wc = wc_next (cv_core s)" "listen_round pc = None \<or> listen_round pc = listen_round (cv_pc s t)"
    "pc = cv_pc s t \<or> (\<forall>w. pc \<noteq> L_Begun w)"
    "\<And>w. slept_round pc = Some w \<Longrightarrow> wc_status wc w \<in> {Completed Event_Reason, Completed Signal_Reason}"
  shows "cv_inv (set_pc (s\<lparr>cv_core := wc\<rparr>) t pc)"
  using assms(2-)
  by (intro cv_local [OF assms(1), of t]) (auto simp: cv_task_ok_def)

lemma cv_own_round:
  "cv_inv s \<Longrightarrow> listen_round (cv_pc s t) = Some w \<Longrightarrow> u \<noteq> t \<Longrightarrow> listen_round (cv_pc s u) = Some w' \<Longrightarrow> w' \<noteq> w"
  using cv_invD(3) by metis

lemma cv_keeps_cancel:
  assumes "cv_inv s" "cv_pc s t = L_Registered w"
  shows "cv_inv (set_pc (s\<lparr>cv_core := snd (cancel_wait t w reason (cv_core s))\<rparr>) t (L_Leaving w True))"
  using cv_invD(1) [OF assms(1), of t] assms(2) cv_own_round [OF assms(1), of t w]
  by (intro cv_runnable [OF assms(1)]) (auto simp: cv_task_ok_def cancel_wait_def)

lemma cv_keeps_finish:
  assumes "cv_inv s" "cv_pc s t = L_Left w b"
  shows "cv_keeps (listen_finish t w b s)"
proof -
  have st: "wc_task (cv_core s) t = Runnable" "\<not> b \<Longrightarrow> wc_status (cv_core s) w \<in> {Completed Event_Reason, Completed Signal_Reason}"
    using cv_invD(1) [OF assms(1), of t] assms(2) by (auto simp: cv_task_ok_def)
  let ?wc = "(cv_core s)\<lparr>wc_status := (wc_status (cv_core s))(w := Retired)\<rparr>"
  have "cv_inv (set_pc (s\<lparr>cv_core := ?wc\<rparr>) t pc)" if "pc = L_Out \<or> pc = L_Return" for pc
    using st(1) that assms(2) cv_own_round [OF assms(1), of t w] by (intro cv_runnable [OF assms(1)]) auto
  then show ?thesis using st by (cases b) (auto simp: listen_finish_def finish_wait_def wait_retire_def)
qed

lemma cv_keeps_sleep:
  assumes "cv_inv s" "cv_pc s t = L_Registered w" "\<not> cv_pred s"
  shows "cv_inv (set_pc s t (L_Sleeping w))"
  using cv_invD(1) [OF assms(1), of t] assms(2,3) cv_invD(5) [OF assms(1)]
  by (intro cv_local [OF assms(1), of t]) (auto simp: cv_task_ok_def in_line_def)

lemma cv_keeps_clean:
  assumes "cv_inv s" "cv_pc s t = L_Leaving w b"
  shows "cv_inv (set_pc (s\<lparr>cv_event := clean_listener NonExclusive \<lparr>l_task = t, l_wait = w\<rparr> (cv_event s)\<rparr>) t (L_Left w b))"
proof -
  have "u = t" if "listen_round (cv_pc s u) = Some w" for u using cv_invD(3) [OF assms(1) that, of t] assms(2) by simp
  then show ?thesis
    using cv_invD(1) [OF assms(1), of t] assms(2)
    by (intro cv_local [OF assms(1), of t])
      (auto simp: cv_task_ok_def clean_listener_def queue_of_def set_queue_def same_wait_def intro!: in_line_filter)
qed

lemma cv_keeps_signal:
  assumes "cv_inv s"
  shows "cv_keeps (map_sum id (\<lambda>(_, wc). s\<lparr>cv_core := wc\<rparr>) (wake_active_wait t Signal_Reason InterruptibleOnly (cv_core s)))"
proof (cases "wc_task (cv_core s) t")
  case (Waiting w i p)
  then have r: "listen_round (cv_pc s t) = Some w" "i" "wc_status (cv_core s) w = Armed"
    using cv_round_of_waiting [OF cv_invD(1) [OF assms]] by blast+
  have same: "set_pc s' t (cv_pc s' t) = s'" for s' by (simp add: set_pc_def)
  let ?wc = "(cv_core s)\<lparr>wc_status := (wc_status (cv_core s))(w := Completed Signal_Reason),
    wc_task := (wc_task (cv_core s))(t := Runnable)\<rparr>"
  have "cv_inv (set_pc (s\<lparr>cv_core := ?wc\<rparr>) t (cv_pc s t))"
    using cv_own_round [OF assms r(1)] slept_listen [of "cv_pc s t"] r(1) by (intro cv_runnable [OF assms]) auto
  with Waiting r same [of "s\<lparr>cv_core := ?wc\<rparr>"] show ?thesis by (simp add: wake_active_wait_def wake_waiting_def)
qed (use assms in \<open>auto simp: wake_active_wait_def\<close>)

subsection \<open>The steps of the publisher\<close>

lemma cv_keeps_set: "cv_inv s \<Longrightarrow> cv_pub s = Pub_Before \<Longrightarrow> cv_inv (s\<lparr>cv_pred := True, cv_pub := Pub_Set\<rparr>)"
  by (auto simp: cv_inv_def cv_task_ok_def in_line_def held_listener_def)

lemma cv_keeps_start:
  "cv_inv s \<Longrightarrow> cv_pub s = Pub_Set \<Longrightarrow> cv_inv (s\<lparr>cv_pub := Pub_Loop (length (non_exclusive (cv_event s)))\<rparr>)"
  by (auto simp: cv_inv_def cv_task_ok_def in_line_def held_listener_def)

lemma cv_keeps_end: "cv_inv s \<Longrightarrow> cv_pub s = Pub_Loop 0 \<Longrightarrow> cv_inv (s\<lparr>cv_pub := Pub_Done\<rparr>)"
  by (auto simp: cv_inv_def cv_task_ok_def in_line_def held_listener_def)

lemma cv_keeps_pop:
  "cv_inv s \<Longrightarrow> cv_pub s = Pub_Loop (Suc n) \<Longrightarrow>
     cv_inv (case pop_listener NonExclusive (cv_event s) of
       (None, ev) \<Rightarrow> s\<lparr>cv_event := ev, cv_pub := Pub_Done\<rparr>
     | (Some l, ev) \<Rightarrow> s\<lparr>cv_event := ev, cv_pub := Pub_Holding n l\<rparr>)"
  by (cases "non_exclusive (cv_event s)")
    (auto simp: cv_inv_def cv_task_ok_def in_line_def held_listener_def pop_listener_def queue_of_def set_queue_def)

lemma cv_keeps_wake:
  assumes "cv_inv s" "cv_pub s = Pub_Holding n l"
  shows "cv_keeps (map_sum id (\<lambda>(_, ev, wc, _). s\<lparr>cv_event := ev, cv_core := wc, cv_pub := Pub_Loop n\<rparr>)
    (wake_detached_listener (\<lambda>_. True) l NonExclusive InterruptibleOnly (cv_event s) (cv_core s)))"
proof -
  let ?w = "wakeable (\<lambda>_. True) InterruptibleOnly (cv_core s) l"
  have ok: "cv_task_ok s t" for t using cv_invD(1) [OF assms(1)] .
  have nb: "\<not> mode_blocked (\<lambda>_. True) InterruptibleOnly (cv_core s) l"
    using cv_round_of_waiting [OF ok] by (auto simp: mode_blocked_def)
  let ?s = "\<lambda>wc. s\<lparr>cv_core := wc, cv_pub := Pub_Loop n\<rparr>"
  have other: "cv_task_ok (?s wc) t" if "t \<noteq> l_task l \<or> \<not> ?w" "wc_task wc t = wc_task (cv_core s) t"
      "\<And>w. listen_round (cv_pc s t) = Some w \<Longrightarrow> wc_status wc w = wc_status (cv_core s) w" for t wc
  proof -
    have "l \<noteq> \<lparr>l_task = t, l_wait = w\<rparr>" if "wc_task (cv_core s) t = Waiting w True p" "wc_status (cv_core s) w = Armed" for w p
      using that \<open>t \<noteq> l_task l \<or> \<not> ?w\<close> by (auto simp: wakeable_def)
    then show ?thesis using ok [of t] that(2,3) that(3) [OF slept_listen] assms(2) by (auto simp: cv_task_ok_def in_line_def)
  qed
  have rest: "cv_inv (?s wc)" if "\<And>t. cv_task_ok (?s wc) t" "wc_next wc = wc_next (cv_core s)" for wc
    using assms that unfolding cv_inv_def by (auto simp: held_listener_def)
  show ?thesis
  proof (cases ?w)
    case True
    then obtain i p where "wc_task (cv_core s) (l_task l) = Waiting (l_wait l) i p" by (auto simp: wakeable_def)
    then have r: "listen_round (cv_pc s (l_task l)) = Some (l_wait l)" using cv_round_of_waiting [OF ok] by blast
    have "cv_task_ok (?s (wake_all [l] (cv_core s))) t" for t
    proof (cases "t = l_task l")
      case True
      then show ?thesis using r slept_listen [of "cv_pc s t"] by (auto simp: cv_task_ok_def wake_single)
    next
      case False
      then show ?thesis using cv_own_round [OF assms(1) r False] by (intro other) (auto simp: wake_single)
    qed
    with True rest [of "wake_all [l] (cv_core s)"] show ?thesis by (simp add: wake_detached_cases wake_single)
  next
    case False
    then have "cv_inv (?s (cv_core s))" by (intro rest other) auto
    with False nb show ?thesis by (simp add: wake_detached_cases)
  qed
qed

lemma cv_step_keeps: "cv_step s res \<Longrightarrow> cv_inv s \<Longrightarrow> cv_keeps res"
proof (induction rule: cv_step.induct)
  case (l_wakes s t w)
  then have "wc_status (cv_core s) w \<in> {Completed Event_Reason, Completed Signal_Reason}"
    using cv_invD(1) [of s t] by (auto simp: cv_task_ok_def)
  with l_wakes show ?case using cv_runnable [of s t "cv_core s" "L_Leaving w False"] by simp
qed (simp_all add: cv_keeps_begin cv_keeps_register cv_keeps_cancel cv_keeps_sleep cv_keeps_clean cv_keeps_finish
    cv_keeps_signal cv_keeps_set cv_keeps_start cv_keeps_pop cv_keeps_wake cv_keeps_end del: map_sum.simps)

lemma cv_inv_init: "cv_inv cv_init"
  by (simp add: cv_inv_def cv_init_def cv_task_ok_def held_listener_def)

lemma cv_reachable_inv: "cv_reachable s \<Longrightarrow> cv_inv s"
  by (induction rule: cv_reachable.induct) (use cv_inv_init cv_step_keeps in \<open>auto simp: cv_keeps_def\<close>)

subsection \<open>Properties\<close>


definition example_cv :: "wait_status \<Rightarrow> task_sched_state \<Rightarrow> listener list \<Rightarrow> bool \<Rightarrow> publish_phase \<Rightarrow> listen_phase \<Rightarrow> cv_sys" where
  "example_cv st ts q pr pb pc = \<lparr>cv_core = \<lparr>wc_status = (\<lambda>_. Retired)(0 := st), wc_next = 1, wc_task = (\<lambda>_. Runnable)(0 := ts)\<rparr>,
     cv_event = \<lparr>non_exclusive = q, exclusive = []\<rparr>, cv_pred = pr, cv_pub = pb, cv_pc = (\<lambda>_. L_Out)(0 := pc)\<rparr>"


text \<open>C20: One publication on an event whose queues hold each wait round once wakes
  exactly the listeners it should, in queue order: every non-exclusive listener that
  can be woken, then the first \<open>n\<close> exclusive ones that can; each is completed with the
  event reason and submitted for placement once. A listener that only the wake mode
  blocked stays queued; every other non-exclusive one is gone.\<close>

theorem publish_exact:
  fixes u alive n wc
  assumes "distinct (map l_wait (non_exclusive ev @ exclusive ev))"
  defines "mode \<equiv> (if u then AnyWait else InterruptibleOnly)"
  defines "woken \<equiv> filter (wakeable alive mode wc) (non_exclusive ev) @ take n (filter (wakeable alive mode wc) (exclusive ev))"
  shows "\<exists>ev' ps. publish alive n u ev wc = Inr (ev', wake_all woken wc, ps) \<and>
    map fst ps = map l_task woken \<and>
    non_exclusive ev' = filter (mode_blocked alive mode wc) (non_exclusive ev) \<and>
    set (exclusive ev') \<subseteq> set (exclusive ev) \<and>
    (\<forall>l \<in> set (exclusive ev). mode_blocked alive mode wc l \<longrightarrow> l \<in> set (exclusive ev'))"
proof -
  let ?w = "filter (wakeable alive mode wc) (non_exclusive ev)"
  have "distinct (map l_wait (non_exclusive ev @ []))" using assms(1) by simp
  from publish_non_exclusive_spec [OF _ this, of ev alive mode wc] obtain ps where
    1: "publish_non_exclusive alive mode (length (non_exclusive ev)) ev wc =
      Inr (ev\<lparr>non_exclusive := filter (mode_blocked alive mode wc) (non_exclusive ev)\<rparr>, wake_all ?w wc, ps)"
      "map fst ps = map l_task ?w" by auto
  let ?ev1 = "ev\<lparr>non_exclusive := filter (mode_blocked alive mode wc) (non_exclusive ev)\<rparr>"
  have "exclusive ?ev1 = exclusive ev @ []" "distinct (map l_wait (exclusive ev @ []))" using assms(1) by simp_all
  from publish_exclusive_spec [OF this, of alive mode n "wake_all ?w wc"] obtain woken' queue ps' where
    2: "publish_exclusive alive mode (length (exclusive ev)) n ?ev1 (wake_all ?w wc) =
        Inr (?ev1\<lparr>exclusive := queue\<rparr>, wake_all woken' (wake_all ?w wc), ps')"
      "map fst ps' = map l_task woken'" "exclusive_scan alive mode n (wake_all ?w wc) (exclusive ev) [] woken' queue" by blast
  have "\<forall>l \<in> set ?w. wakeable alive mode wc l" by simp
  moreover have "distinct (map l_wait ?w)" using assms(1) by (simp add: distinct_map_filter)
  moreover have "l_wait ` set ?w \<inter> l_wait ` set (exclusive ev) = {}"
  proof -
    have "l_wait ` set (non_exclusive ev) \<inter> l_wait ` set (exclusive ev) = {}" using assms(1) by simp
    moreover have "l_wait ` set ?w \<subseteq> l_wait ` set (non_exclusive ev)" by (simp add: image_mono)
    ultimately show ?thesis by blast
  qed
  ultimately have same: "filter (wakeable alive mode (wake_all ?w wc)) (exclusive ev) = filter (wakeable alive mode wc) (exclusive ev) \<and>
    filter (mode_blocked alive mode (wake_all ?w wc)) (exclusive ev) = filter (mode_blocked alive mode wc) (exclusive ev)"
    by (rule filter_other_list)
  have blocked: "mode_blocked alive mode (wake_all ?w wc) l = mode_blocked alive mode wc l" if "l \<in> set (exclusive ev)" for l
    using arg_cong [OF conjunct2 [OF same], of "\<lambda>x. l \<in> set x"] that unfolding set_filter by blast
  note scan = scan_take [OF 2(3)]
  have "woken' = take n (filter (wakeable alive mode wc) (exclusive ev))" using scan same by simp
  moreover have "set queue \<subseteq> set (exclusive ev)" "\<forall>l \<in> set (exclusive ev). mode_blocked alive mode wc l \<longrightarrow> l \<in> set queue"
    using scan blocked by blast+
  ultimately show ?thesis using 1 2(1,2) by (simp add: publish_def mode_def [symmetric] woken_def)
qed

definition example_event :: event_inner where
  "example_event = \<lparr>non_exclusive = [\<lparr>l_task = 0, l_wait = 0\<rparr>], exclusive = [\<lparr>l_task = 1, l_wait = 1\<rparr>, \<lparr>l_task = 2, l_wait = 2\<rparr>]\<rparr>"

definition example_core :: wait_core where
  "example_core = \<lparr>wc_status = (\<lambda>_. Armed), wc_next = 3, wc_task = (\<lambda>t. Waiting t (t \<noteq> 1) Parked)\<rparr>"

theorem publish_exact_witness:
  "\<exists>ev' wc' ps. publish (\<lambda>_. True) 1 False example_event example_core = Inr (ev', wc', ps) \<and> map fst ps = [0, 2] \<and>
     wc_task wc' 0 = Runnable \<and> wc_task wc' 1 = Waiting 1 False Parked \<and> wc_task wc' 2 = Runnable \<and>
     \<lparr>l_task = 1, l_wait = 1\<rparr> \<in> set (exclusive ev')"
proof -
  have d: "distinct (map l_wait (non_exclusive example_event @ exclusive example_event))" by (simp add: example_event_def)
  show ?thesis
    using publish_exact [OF d, where u = False and alive = "\<lambda>_. True" and n = 1 and wc = example_core]
    by (auto simp: example_event_def example_core_def wakeable_def mode_blocked_def wake_all_def)
qed

end
