(* ===== verification/Btree_Map.thy ===== *)
theory Btree_Map
  imports Prelude
begin

text \<open>
  The ordered map of the Rust library (\<open>BTreeMap\<close>) as the code uses it: the list of
  its entries in increasing order of the keys. The components that keep their state in
  such maps use the facts below about membership, neighbours and the order.
\<close>

type_synonym ('k, 'v) bt_map = "('k \<times> 'v) list"

definition bt_ok :: "('k::linorder, 'v) bt_map \<Rightarrow> bool" where
  "bt_ok m \<longleftrightarrow> sorted_wrt (<) (map fst m)"

fun bt_insert :: "'k::linorder \<Rightarrow> 'v \<Rightarrow> ('k, 'v) bt_map \<Rightarrow> ('k, 'v) bt_map" where
  "bt_insert k v [] = [(k, v)]"
| "bt_insert k v ((k', v') # m) =
     (if k < k' then (k, v) # (k', v') # m
      else if k = k' then (k, v) # m
      else (k', v') # bt_insert k v m)"

definition bt_remove :: "'k::linorder \<Rightarrow> ('k, 'v) bt_map \<Rightarrow> ('k, 'v) bt_map" where
  "bt_remove k m = filter (\<lambda>e. fst e \<noteq> k) m"

abbreviation bt_get :: "('k, 'v) bt_map \<Rightarrow> 'k \<Rightarrow> 'v option" where
  "bt_get m k \<equiv> map_of m k"

text \<open>\<open>range(k..)\<close>, \<open>range(..k)\<close> and \<open>range(..=k)\<close>, and the first and last entry of such a range.\<close>

definition bt_from :: "'k::linorder \<Rightarrow> ('k, 'v) bt_map \<Rightarrow> ('k, 'v) bt_map" where
  "bt_from k m = filter (\<lambda>e. k \<le> fst e) m"

definition bt_before :: "'k::linorder \<Rightarrow> ('k, 'v) bt_map \<Rightarrow> ('k, 'v) bt_map" where
  "bt_before k m = filter (\<lambda>e. fst e < k) m"

definition bt_upto :: "'k::linorder \<Rightarrow> ('k, 'v) bt_map \<Rightarrow> ('k, 'v) bt_map" where
  "bt_upto k m = filter (\<lambda>e. fst e \<le> k) m"

fun first_opt :: "'a list \<Rightarrow> 'a option" where
  "first_opt [] = None"
| "first_opt (x # xs) = Some x"

fun last_opt :: "'a list \<Rightarrow> 'a option" where
  "last_opt [] = None"
| "last_opt (x # xs) = Some (last (x # xs))"

fun find_map :: "('a \<Rightarrow> 'b option) \<Rightarrow> 'a list \<Rightarrow> 'b option" where
  "find_map f [] = None"
| "find_map f (x # xs) = (case f x of None \<Rightarrow> find_map f xs | Some y \<Rightarrow> Some y)"

subsection \<open>Entries\<close>

lemma bt_ok_simps [simp]:
  "bt_ok []"
  "bt_ok ((k, v) # m) \<longleftrightarrow> (\<forall>e \<in> set m. k < fst e) \<and> bt_ok m"
  by (auto simp: bt_ok_def)

lemma bt_ok_distinct: "bt_ok m \<Longrightarrow> distinct (map fst m)"
  by (simp add: bt_ok_def strict_sorted_iff)

lemma bt_ok_key: "bt_ok m \<Longrightarrow> (k, v) \<in> set m \<Longrightarrow> (k, v') \<in> set m \<Longrightarrow> v = v'"
  using bt_ok_distinct by (metis eq_key_imp_eq_value)

lemma bt_get_iff [simp]: "bt_ok m \<Longrightarrow> map_of m k = Some v \<longleftrightarrow> (k, v) \<in> set m"
  by (simp add: bt_ok_distinct)

lemma bt_get_None: "map_of m k = None \<longleftrightarrow> (\<forall>v. (k, v) \<notin> set m)"
  by (induction m) auto

lemma in_bt_insert: "bt_ok m \<Longrightarrow> e \<in> set (bt_insert k v m) \<longleftrightarrow> e = (k, v) \<or> e \<in> set m \<and> fst e \<noteq> k"
proof (induction k v m rule: bt_insert.induct)
  case (2 k v k' v' m)
  then have m: "\<And>e. e \<in> set m \<Longrightarrow> k' < fst e" "bt_ok m" by simp_all
  show ?case
  proof (cases k k' rule: linorder_cases)
    case less
    have "fst e \<noteq> k" if "e \<in> set m" using m(1) [OF that] less by simp
    moreover have "fst e \<noteq> k" if "e = (k', v')" using that less by simp
    ultimately show ?thesis using less by (simp only: bt_insert.simps if_True list.set insert_iff) blast
  next
    case equal
    have "fst e \<noteq> k" if "e \<in> set m" using m(1) [OF that] equal by simp
    moreover have "fst e = k" if "e = (k', v')" using that equal by simp
    moreover have "bt_insert k v ((k', v') # m) = (k, v) # m" using equal by simp
    ultimately show ?thesis by (simp only: list.set insert_iff) blast
  next
    case greater
    then have k: "\<not> k < k'" "k \<noteq> k'" by simp_all
    have "fst e \<noteq> k" if "e = (k', v')" using that k by simp
    moreover have "bt_insert k v ((k', v') # m) = (k', v') # bt_insert k v m" using k by simp
    ultimately show ?thesis using "2.IH" [OF k m(2)] by (simp only: list.set insert_iff) blast
  qed
qed simp

lemma set_bt_insert: "bt_ok m \<Longrightarrow> set (bt_insert k v m) = insert (k, v) {e \<in> set m. fst e \<noteq> k}"
  using in_bt_insert by (intro set_eqI) (simp only: insert_iff mem_Collect_eq)

lemma bt_ok_insert [simp]: "bt_ok m \<Longrightarrow> bt_ok (bt_insert k v m)"
proof (induction k v m rule: bt_insert.induct)
  case (2 k v k' v' m)
  then have m: "\<forall>e \<in> set m. k' < fst e" "bt_ok m" by simp_all
  show ?case
  proof (cases k k' rule: linorder_cases)
    case less
    then have "\<forall>e \<in> set m. k < fst e" using m(1) by (metis less_trans)
    with less m show ?thesis by simp
  next
    case greater
    then have "bt_ok (bt_insert k v m)" using "2.IH" m(2) by simp
    moreover have "\<forall>e \<in> set (bt_insert k v m). k' < fst e" using m greater by (simp add: set_bt_insert)
    moreover have "\<not> k < k'" "k \<noteq> k'" using greater by simp_all
    ultimately show ?thesis by simp
  qed (use m in simp)
qed simp

lemma set_bt_remove [simp]: "set (bt_remove k m) = {e \<in> set m. fst e \<noteq> k}"
  by (auto simp: bt_remove_def)

lemma bt_ok_filter: "bt_ok m \<Longrightarrow> bt_ok (filter P m)"
  by (induction m) auto

lemma bt_ok_ranges [simp]:
  "bt_ok m \<Longrightarrow> bt_ok (bt_remove k m)" "bt_ok m \<Longrightarrow> bt_ok (bt_from k m)" "bt_ok m \<Longrightarrow> bt_ok (bt_before k m)"
  by (simp_all add: bt_remove_def bt_from_def bt_before_def bt_ok_filter)

lemma set_bt_ranges [simp]:
  "set (bt_from k m) = {e \<in> set m. k \<le> fst e}" "set (bt_before k m) = {e \<in> set m. fst e < k}"
  by (auto simp: bt_from_def bt_before_def)

lemma bt_get_insert [simp]: "bt_ok m \<Longrightarrow> map_of (bt_insert k v m) k' = (if k' = k then Some v else map_of m k')"
proof (induction k v m rule: bt_insert.induct)
  case (2 k v k1 v1 m)
  then have "\<forall>e \<in> set m. k1 < fst e" by simp
  then have "map_of m k' = None" if "k' \<le> k1" for k' using that by (auto simp: map_of_eq_None_iff)
  with 2 show ?case by (auto split: if_splits)
qed auto

lemma bt_get_remove [simp]: "map_of (bt_remove k m) k' = (if k' = k then None else map_of m k')"
  by (induction m) (auto simp: bt_remove_def)

subsection \<open>Neighbours\<close>

lemma first_opt_None [simp]: "first_opt xs = None \<longleftrightarrow> xs = []"
  by (cases xs) auto

lemma last_opt_None [simp]: "last_opt xs = None \<longleftrightarrow> xs = []"
  by (cases xs) auto

lemma first_opt_min: "bt_ok m \<Longrightarrow> first_opt m = Some e \<Longrightarrow> e \<in> set m \<and> (\<forall>x \<in> set m. x = e \<or> fst e < fst x)"
proof (cases m)
  case (Cons a l)
  assume "bt_ok m" "first_opt m = Some e"
  with Cons have "bt_ok (a # l)" "e = a" by simp_all
  then have "\<forall>x \<in> set l. fst a < fst x" by (cases a) simp
  with Cons \<open>e = a\<close> show ?thesis by simp
qed simp

lemma last_opt_def_of: "last_opt xs = (if xs = [] then None else Some (last xs))"
  by (cases xs) simp_all

lemma last_opt_last: "last_opt xs = Some e \<Longrightarrow> \<exists>ys. xs = ys @ [e]"
  by (cases xs rule: rev_cases) (simp_all add: last_opt_def_of)

lemma last_opt_max: "bt_ok m \<Longrightarrow> last_opt m = Some e \<Longrightarrow> e \<in> set m \<and> (\<forall>x \<in> set m. x = e \<or> fst x < fst e)"
proof -
  assume "bt_ok m" "last_opt m = Some e"
  moreover from last_opt_last [OF this(2)] obtain ys where "m = ys @ [e]" by blast
  ultimately show ?thesis by (simp add: bt_ok_def sorted_wrt_append)
qed

lemma next_entry:
  assumes "bt_ok m"
  shows "first_opt (bt_from k m) = None \<Longrightarrow> \<forall>e \<in> set m. fst e < k"
    "first_opt (bt_from k m) = Some e \<Longrightarrow> e \<in> set m \<and> k \<le> fst e \<and> (\<forall>x \<in> set m. fst x < k \<or> x = e \<or> fst e < fst x)"
proof -
  show "\<forall>e \<in> set m. fst e < k" if "first_opt (bt_from k m) = None"
    using that set_bt_ranges(1) [of k m] by (auto simp: not_less)
  show "e \<in> set m \<and> k \<le> fst e \<and> (\<forall>x \<in> set m. fst x < k \<or> x = e \<or> fst e < fst x)" if "first_opt (bt_from k m) = Some e"
  proof -
    have e: "e \<in> {e \<in> set m. k \<le> fst e}" "\<forall>x \<in> {e \<in> set m. k \<le> fst e}. x = e \<or> fst e < fst x"
      using first_opt_min [OF bt_ok_ranges(2) [OF assms] that] unfolding set_bt_ranges by blast+
    have "fst x < k \<or> x = e \<or> fst e < fst x" if "x \<in> set m" for x
      by (cases "fst x < k") (use e(2) that in \<open>simp_all add: not_less del: split_paired_All\<close>)
    with e(1) show ?thesis by blast
  qed
qed

lemma prev_entry:
  assumes "bt_ok m"
  shows "last_opt (bt_before k m) = None \<Longrightarrow> \<forall>e \<in> set m. k \<le> fst e"
    "last_opt (bt_before k m) = Some e \<Longrightarrow> e \<in> set m \<and> fst e < k \<and> (\<forall>x \<in> set m. k \<le> fst x \<or> x = e \<or> fst x < fst e)"
proof -
  show "\<forall>e \<in> set m. k \<le> fst e" if "last_opt (bt_before k m) = None"
    using that set_bt_ranges(2) [of k m] by (auto simp: not_less)
  show "e \<in> set m \<and> fst e < k \<and> (\<forall>x \<in> set m. k \<le> fst x \<or> x = e \<or> fst x < fst e)" if "last_opt (bt_before k m) = Some e"
  proof -
    have e: "e \<in> {e \<in> set m. fst e < k}" "\<forall>x \<in> {e \<in> set m. fst e < k}. x = e \<or> fst x < fst e"
      using last_opt_max [OF bt_ok_ranges(3) [OF assms] that] unfolding set_bt_ranges by blast+
    have "k \<le> fst x \<or> x = e \<or> fst x < fst e" if "x \<in> set m" for x
      by (cases "k \<le> fst x") (use e(2) that in \<open>simp_all add: not_le del: split_paired_All\<close>)
    with e(1) show ?thesis by blast
  qed
qed

lemma upto_entry:
  assumes "bt_ok m"
  shows "last_opt (bt_upto k m) = None \<Longrightarrow> \<forall>e \<in> set m. k < fst e"
    "last_opt (bt_upto k m) = Some e \<Longrightarrow> e \<in> set m \<and> fst e \<le> k \<and> (\<forall>x \<in> set m. k < fst x \<or> x = e \<or> fst x < fst e)"
proof -
  have ok: "bt_ok (bt_upto k m)" and set: "set (bt_upto k m) = {e \<in> set m. fst e \<le> k}"
    using assms by (simp_all add: bt_upto_def bt_ok_filter)
  show "\<forall>e \<in> set m. k < fst e" if "last_opt (bt_upto k m) = None" using that set by (auto simp: not_less)
  show "e \<in> set m \<and> fst e \<le> k \<and> (\<forall>x \<in> set m. k < fst x \<or> x = e \<or> fst x < fst e)" if "last_opt (bt_upto k m) = Some e"
  proof -
    have e: "e \<in> {e \<in> set m. fst e \<le> k}" "\<forall>x \<in> {e \<in> set m. fst e \<le> k}. x = e \<or> fst x < fst e"
      using last_opt_max [OF ok that] unfolding set by blast+
    have "k < fst x \<or> x = e \<or> fst x < fst e" if "x \<in> set m" for x
      by (cases "k < fst x") (use e(2) that in \<open>simp_all add: not_less del: split_paired_All\<close>)
    with e(1) show ?thesis by blast
  qed
qed

subsection \<open>Searching\<close>

lemma find_map_None: "find_map f xs = None \<longleftrightarrow> (\<forall>x \<in> set xs. f x = None)"
  by (induction xs) (auto split: option.split)

lemma find_map_Some: "find_map f xs = Some y \<Longrightarrow>
    \<exists>ys x zs. xs = ys @ x # zs \<and> f x = Some y \<and> (\<forall>z \<in> set ys. f z = None)"
proof (induction xs)
  case (Cons a xs)
  show ?case
  proof (cases "f a")
    case None
    with Cons obtain ys x zs where "xs = ys @ x # zs" "f x = Some y" "\<forall>z \<in> set ys. f z = None" by auto
    with None show ?thesis by (intro exI [of _ "a # ys"]) auto
  next
    case (Some b)
    with Cons.prems show ?thesis by (intro exI [of _ "[]"]) auto
  qed
qed simp

end
