(* ===== verification/Range_Allocator.thy ===== *)
theory Range_Allocator
  imports Btree_Map Sys_Error
begin

text \<open>
  The two range allocators of the crate \<open>range-allocator\<close>. A range is what the trait
  \<open>Rangable\<close> shows of it, a start and a length. The best-fit allocator keeps every free
  range in two indices, by start and by length; a hash set of the second index is a list
  whose iteration order is the parameter \<open>iter\<close>, as the order of the hashing library is
  not specified. The increasing allocator moves a cursor through one range.
\<close>

datatype rng = Rng (r_start: nat) (r_len: nat)

datatype range_alloc_error = FreeingExistingRange

definition padd :: "nat \<Rightarrow> nat \<Rightarrow> fault + nat" where
  "padd a b = (if a + b < u64_limit then Inr (a + b) else Inl Overflow_Panic)"

subsection \<open>The best-fit allocator\<close>

record range_allocator =
  free_by_start :: "(nat, rng) bt_map"
  free_by_length :: "(nat, rng list) bt_map"

definition range_allocator_new :: range_allocator where
  "range_allocator_new = \<lparr>free_by_start = [], free_by_length = []\<rparr>"

definition align_up :: "nat \<Rightarrow> nat \<Rightarrow> nat option" where
  "align_up value align =
     (if align = 0 then None
      else let rem = value mod align in if rem = 0 then Some value else checked_add value (align - rem))"

definition try_alloc_in_range :: "rng \<Rightarrow> nat \<Rightarrow> nat \<Rightarrow> (nat \<times> nat \<times> nat) option" where
  "try_alloc_in_range r len align =
     (case checked_add (r_start r) (r_len r) of
        None \<Rightarrow> None
      | Some range_end \<Rightarrow>
          (case align_up (r_start r) align of
             None \<Rightarrow> None
           | Some alloc_start \<Rightarrow>
               (case checked_add alloc_start len of
                  None \<Rightarrow> None
                | Some alloc_end \<Rightarrow>
                    if alloc_end > range_end then None else Some (alloc_start, alloc_end, range_end))))"

definition insert_free_range :: "rng \<Rightarrow> range_allocator \<Rightarrow> range_allocator" where
  "insert_free_range r a =
     a\<lparr>free_by_start := bt_insert (r_start r) r (free_by_start a),
       free_by_length := bt_insert (r_len r)
         (List.insert r (case bt_get (free_by_length a) (r_len r) of None \<Rightarrow> [] | Some rs \<Rightarrow> rs))
         (free_by_length a)\<rparr>"

definition remove_free_range :: "rng \<Rightarrow> range_allocator \<Rightarrow> fault + range_allocator" where
  "remove_free_range r a =
     (case bt_get (free_by_start a) (r_start r) of
        None \<Rightarrow> Inl Assert_Panic
      | Some _ \<Rightarrow>
          (case bt_get (free_by_length a) (r_len r) of
             None \<Rightarrow> Inl Assert_Panic
           | Some rs \<Rightarrow>
               (let rs' = removeAll r rs in
                Inr (a\<lparr>free_by_start := bt_remove (r_start r) (free_by_start a),
                  free_by_length := (if rs' = [] then bt_remove (r_len r) (free_by_length a)
                     else bt_insert (r_len r) rs' (free_by_length a))\<rparr>))))"

definition select_range :: "(rng list \<Rightarrow> rng list) \<Rightarrow> nat \<Rightarrow> nat \<Rightarrow> range_allocator \<Rightarrow> (rng \<times> nat \<times> nat \<times> nat) option" where
  "select_range iter len align a =
     find_map (\<lambda>(_, rs). find_map (\<lambda>r. map_option (\<lambda>p. (r, p)) (try_alloc_in_range r len align)) (iter rs))
       (bt_from len (free_by_length a))"

definition allocate_aligned ::
  "(rng list \<Rightarrow> rng list) \<Rightarrow> nat \<Rightarrow> nat \<Rightarrow> range_allocator \<Rightarrow> fault + rng option \<times> range_allocator" where
  "allocate_aligned iter len align a =
     (if align = 0 then Inl Assert_Panic
      else if len = 0 then Inr (None, a)
      else case select_range iter len align a of
          None \<Rightarrow> Inr (None, a)
        | Some (r, alloc_start, alloc_end, range_end) \<Rightarrow>
            (case remove_free_range r a of
               Inl f \<Rightarrow> Inl f
             | Inr a1 \<Rightarrow>
                 (let a2 = (if alloc_start > r_start r
                            then insert_free_range (Rng (r_start r) (alloc_start - r_start r)) a1 else a1);
                      a3 = (if alloc_end < range_end
                            then insert_free_range (Rng alloc_end (range_end - alloc_end)) a2 else a2)
                  in Inr (Some (Rng alloc_start len), a3))))"

definition range_allocate :: "(rng list \<Rightarrow> rng list) \<Rightarrow> nat \<Rightarrow> range_allocator \<Rightarrow> fault + rng option \<times> range_allocator" where
  "range_allocate iter len a = allocate_aligned iter len 1 a"

text \<open>\<open>free\<close> in two parts: joining with the range before, and with the one after. The
  parts return the new start and length, or the error with the state at that point.\<close>

definition merge_prev ::
  "rng option \<Rightarrow> nat \<Rightarrow> nat \<Rightarrow> range_allocator \<Rightarrow> fault + (range_alloc_error + nat \<times> nat) \<times> range_allocator" where
  "merge_prev prev start len a =
     (case prev of
        None \<Rightarrow> Inr (Inr (start, len), a)
      | Some r \<Rightarrow>
          (case padd (r_start r) (r_len r) of
             Inl f \<Rightarrow> Inl f
           | Inr r_end \<Rightarrow>
               if r_end > start then Inr (Inl FreeingExistingRange, a)
               else if r_end = start then
                 (case padd len (r_len r) of
                    Inl f \<Rightarrow> Inl f
                  | Inr len' \<Rightarrow> map_sum id (\<lambda>a'. (Inr (r_start r, len'), a')) (remove_free_range r a))
               else Inr (Inr (start, len), a)))"

definition merge_next ::
  "rng option \<Rightarrow> nat \<Rightarrow> nat \<Rightarrow> nat \<Rightarrow> range_allocator \<Rightarrow> fault + (range_alloc_error + nat \<times> nat) \<times> range_allocator" where
  "merge_next next fin start len a =
     (case next of
        None \<Rightarrow> Inr (Inr (start, len), a)
      | Some r \<Rightarrow>
          if r_start r < fin then Inr (Inl FreeingExistingRange, a)
          else if r_start r = fin then
            (case padd len (r_len r) of
               Inl f \<Rightarrow> Inl f
             | Inr len' \<Rightarrow> map_sum id (\<lambda>a'. (Inr (start, len'), a')) (remove_free_range r a))
          else Inr (Inr (start, len), a))"

definition range_free :: "rng \<Rightarrow> range_allocator \<Rightarrow> fault + (range_alloc_error + unit) \<times> range_allocator" where
  "range_free r a =
     (if r_len r = 0 then Inr (Inr (), a)
      else case padd (r_start r) (r_len r) of
          Inl f \<Rightarrow> Inl f
        | Inr fin \<Rightarrow>
            (let prev = map_option snd (last_opt (bt_before (r_start r) (free_by_start a)));
                 next = map_option snd (first_opt (bt_from (r_start r) (free_by_start a)))
             in case merge_prev prev (r_start r) (r_len r) a of
                  Inl f \<Rightarrow> Inl f
                | Inr (Inl e, a1) \<Rightarrow> Inr (Inl e, a1)
                | Inr (Inr (start, len), a1) \<Rightarrow>
                    (case merge_next next fin start len a1 of
                       Inl f \<Rightarrow> Inl f
                     | Inr (Inl e, a2) \<Rightarrow> Inr (Inl e, a2)
                     | Inr (Inr (start', len'), a2) \<Rightarrow> Inr (Inr (), insert_free_range (Rng start' len') a2))))"

subsection \<open>The increasing allocator\<close>

record increasing_allocator =
  inc_start :: nat
  inc_end :: nat
  inc_cursor :: nat

definition increasing_new :: "rng \<Rightarrow> fault + increasing_allocator" where
  "increasing_new whole =
     map_sum id (\<lambda>fin. \<lparr>inc_start = r_start whole, inc_end = fin, inc_cursor = r_start whole\<rparr>)
       (padd (r_start whole) (r_len whole))"

definition increasing_allocate_aligned :: "nat \<Rightarrow> nat \<Rightarrow> increasing_allocator \<Rightarrow> fault + rng option \<times> increasing_allocator" where
  "increasing_allocate_aligned len align a =
     (if align = 0 then Inl Assert_Panic
      else if len = 0 then Inr (None, a)
      else Inr (case align_up (inc_cursor a) align of
          None \<Rightarrow> (None, a)
        | Some alloc_start \<Rightarrow>
            (case checked_add alloc_start len of
               None \<Rightarrow> (None, a)
             | Some alloc_end \<Rightarrow>
                 if alloc_end > inc_end a then (None, a)
                 else (Some (Rng alloc_start len), a\<lparr>inc_cursor := alloc_end\<rparr>))))"

definition increasing_allocate :: "nat \<Rightarrow> increasing_allocator \<Rightarrow> fault + rng option \<times> increasing_allocator" where
  "increasing_allocate len = increasing_allocate_aligned len 1"

definition increasing_free_size :: "increasing_allocator \<Rightarrow> nat" where
  "increasing_free_size a = inc_end a - inc_cursor a"

definition increasing_free :: "rng \<Rightarrow> increasing_allocator \<Rightarrow> bool \<times> increasing_allocator" where
  "increasing_free r a =
     (if r_len r = 0 then (True, a)
      else case checked_add (r_start r) (r_len r) of
          None \<Rightarrow> (False, a)
        | Some fin \<Rightarrow>
            if r_start r < inc_start a \<or> fin > inc_end a then (False, a)
            else if fin = inc_cursor a then (True, a\<lparr>inc_cursor := r_start r\<rparr>)
            else (False, a))"

definition align_current_to :: "nat \<Rightarrow> increasing_allocator \<Rightarrow> fault + nat option \<times> increasing_allocator" where
  "align_current_to align a =
     (if align = 0 then Inl Assert_Panic
      else Inr (case align_up (inc_cursor a) align of
          None \<Rightarrow> (None, a)
        | Some aligned \<Rightarrow> if aligned > inc_end a then (None, a) else (Some aligned, a\<lparr>inc_cursor := aligned\<rparr>)))"

subsection \<open>The two indices\<close>

definition ranges :: "range_allocator \<Rightarrow> rng set" where
  "ranges a = snd ` set (free_by_start a)"

definition bucket :: "range_allocator \<Rightarrow> nat \<Rightarrow> rng list" where
  "bucket a n = (case bt_get (free_by_length a) n of None \<Rightarrow> [] | Some rs \<Rightarrow> rs)"

definition idx_ok :: "range_allocator \<Rightarrow> bool" where
  "idx_ok a \<longleftrightarrow> bt_ok (free_by_start a) \<and> bt_ok (free_by_length a) \<and>
     (\<forall>e \<in> set (free_by_start a). fst e = r_start (snd e)) \<and>
     (\<forall>e \<in> set (free_by_length a). snd e \<noteq> []) \<and>
     (\<forall>n. set (bucket a n) = {r \<in> ranges a. r_len r = n})"

lemma ranges_start: "idx_ok a \<Longrightarrow> r \<in> ranges a \<longleftrightarrow> (r_start r, r) \<in> set (free_by_start a)"
proof -
  assume "idx_ok a"
  then have "k = r_start r" if "(k, r) \<in> set (free_by_start a)" for k using that by (metis fst_conv idx_ok_def snd_conv)
  moreover have "r \<in> ranges a \<longleftrightarrow> (\<exists>k. (k, r) \<in> set (free_by_start a))"
    unfolding ranges_def by force
  ultimately show ?thesis by blast
qed

lemma ranges_inj: "idx_ok a \<Longrightarrow> r \<in> ranges a \<Longrightarrow> r' \<in> ranges a \<Longrightarrow> r_start r = r_start r' \<Longrightarrow> r = r'"
  using bt_ok_key [of "free_by_start a"] by (metis idx_ok_def ranges_start)

lemma bucket_upd:
  "bt_ok (free_by_length a) \<Longrightarrow>
     bucket (a\<lparr>free_by_start := m, free_by_length := bt_insert n rs (free_by_length a)\<rparr>) k = (if k = n then rs else bucket a k)"
  "bucket (a\<lparr>free_by_start := m, free_by_length := bt_remove n (free_by_length a)\<rparr>) k = (if k = n then [] else bucket a k)"
  by (simp_all add: bucket_def)

lemma insert_indices:
  assumes "idx_ok a" "\<And>r'. r' \<in> ranges a \<Longrightarrow> r_start r' \<noteq> r_start r"
  shows "ranges (insert_free_range r a) = insert r (ranges a) \<and> idx_ok (insert_free_range r a)"
proof -
  let ?a = "insert_free_range r a"
  note ok = assms(1) [unfolded idx_ok_def]
  have a: "?a = a\<lparr>free_by_start := bt_insert (r_start r) r (free_by_start a),
      free_by_length := bt_insert (r_len r) (List.insert r (bucket a (r_len r))) (free_by_length a)\<rparr>"
    by (simp add: insert_free_range_def bucket_def)
  have old: "fst e \<noteq> r_start r" if "e \<in> set (free_by_start a)" for e
    using assms(2) [of "snd e"] ok that by (auto simp: ranges_def)
  then have "{e \<in> set (free_by_start a). fst e \<noteq> r_start r} = set (free_by_start a)" by blast
  then have starts: "set (free_by_start ?a) = insert (r_start r, r) (set (free_by_start a))"
    using ok by (simp add: a set_bt_insert)
  then have R: "ranges ?a = insert r (ranges a)" by (simp add: ranges_def)
  moreover have "set (bucket ?a n) = {r' \<in> ranges ?a. r_len r' = n}" for n
    unfolding R using ok by (auto simp: a bucket_upd)
  moreover have "snd e \<noteq> []" if "e \<in> set (free_by_length ?a)" for e
  proof -
    have "List.insert r xs \<noteq> []" for xs by (simp add: List.insert_def) auto
    then show ?thesis using that ok by (auto simp: a set_bt_insert)
  qed
  moreover have "bt_ok (free_by_start ?a)" "bt_ok (free_by_length ?a)" using ok by (simp_all add: a)
  ultimately show ?thesis using ok starts by (simp add: idx_ok_def)
qed

lemma remove_indices:
  assumes "idx_ok a" "r \<in> ranges a"
  obtains a' where "remove_free_range r a = Inr a'" "idx_ok a'" "ranges a' = ranges a - {r}"
proof -
  note ok = assms(1) [unfolded idx_ok_def]
  have start: "bt_get (free_by_start a) (r_start r) = Some r" using assms ok by (simp add: ranges_start)
  have mem: "r \<in> set (bucket a (r_len r))" using ok assms(2) by simp
  then obtain rs where rs: "bt_get (free_by_length a) (r_len r) = Some rs"
    by (cases "bt_get (free_by_length a) (r_len r)") (auto simp: bucket_def)
  have buck: "bucket a (r_len r) = rs" using rs by (simp add: bucket_def)
  define a' where "a' = a\<lparr>free_by_start := bt_remove (r_start r) (free_by_start a),
    free_by_length := (if removeAll r rs = [] then bt_remove (r_len r) (free_by_length a)
      else bt_insert (r_len r) (removeAll r rs) (free_by_length a))\<rparr>"
  have R: "ranges a' = ranges a - {r}"
  proof (intro set_eqI)
    fix x
    have "x \<in> ranges a' \<longleftrightarrow> (\<exists>k. (k, x) \<in> set (free_by_start a) \<and> k \<noteq> r_start r)"
      by (force simp: a'_def ranges_def)
    also have "\<dots> \<longleftrightarrow> x \<in> ranges a \<and> r_start x \<noteq> r_start r"
      using ranges_start [OF assms(1)] ok by (metis fst_conv snd_conv)
    also have "\<dots> \<longleftrightarrow> x \<in> ranges a - {r}" using ranges_inj [OF assms(1) _ assms(2), of x] by auto
    finally show "x \<in> ranges a' \<longleftrightarrow> x \<in> ranges a - {r}" .
  qed
  have "set (bucket a' n) = {r' \<in> ranges a'. r_len r' = n}" for n
  proof -
    have "set (bucket a' n) = (if n = r_len r then set rs - {r} else set (bucket a n))"
    proof (cases "removeAll r rs = []")
      case True
      then have "set rs - {r} = {}" by (metis list.set(1) set_removeAll)
      with True show ?thesis by (simp add: a'_def bucket_upd)
    qed (use ok in \<open>simp add: a'_def bucket_upd\<close>)
    also have "\<dots> = {r' \<in> ranges a. r_len r' = n} - {r}" using ok buck by auto
    finally show ?thesis unfolding R by auto
  qed
  moreover have "snd e \<noteq> []" if "e \<in> set (free_by_length a')" for e
    using that ok by (auto simp: a'_def set_bt_insert split: if_splits)
  moreover have "bt_ok (free_by_start a')" "bt_ok (free_by_length a')" using ok by (simp_all add: a'_def)
  moreover have "\<forall>e \<in> set (free_by_start a'). fst e = r_start (snd e)" using ok by (simp add: a'_def)
  ultimately have "idx_ok a'" by (simp add: idx_ok_def)
  moreover have "remove_free_range r a = Inr a'" by (simp add: remove_free_range_def start rs a'_def Let_def)
  ultimately show ?thesis using that R by blast
qed

subsection \<open>Free cells\<close>

text \<open>The free ranges cover their cells once, and no two of them touch: freeing always
  joins neighbours.\<close>

definition cells :: "rng \<Rightarrow> nat set" where
  "cells r = {r_start r ..< r_start r + r_len r}"

definition separated :: "rng set \<Rightarrow> bool" where
  "separated R \<longleftrightarrow> (\<forall>r \<in> R. 0 < r_len r \<and> r_start r + r_len r < u64_limit) \<and>
     (\<forall>r \<in> R. \<forall>r' \<in> R. r = r' \<or> r_start r + r_len r < r_start r' \<or> r_start r' + r_len r' < r_start r)"

definition ra_inv :: "range_allocator \<Rightarrow> bool" where
  "ra_inv a \<longleftrightarrow> idx_ok a \<and> separated (ranges a)"

definition free_cells :: "range_allocator \<Rightarrow> nat set" where
  "free_cells a = \<Union> (cells ` ranges a)"

lemma separatedD:
  "separated R \<Longrightarrow> r \<in> R \<Longrightarrow> 0 < r_len r" "separated R \<Longrightarrow> r \<in> R \<Longrightarrow> r_start r + r_len r < u64_limit"
  "separated R \<Longrightarrow> r \<in> R \<Longrightarrow> r' \<in> R \<Longrightarrow> r = r' \<or> r_start r + r_len r < r_start r' \<or> r_start r' + r_len r' < r_start r"
  by (auto simp: separated_def)

lemma separated_subset: "separated R \<Longrightarrow> S \<subseteq> R \<Longrightarrow> separated S"
  unfolding separated_def by blast

lemma separated_insert:
  "separated (insert r R) \<longleftrightarrow> separated R \<and> 0 < r_len r \<and> r_start r + r_len r < u64_limit \<and>
     (\<forall>r' \<in> R. r = r' \<or> r_start r + r_len r < r_start r' \<or> r_start r' + r_len r' < r_start r)"
  by (auto simp: separated_def)

text \<open>A contiguous block of free cells lies in one free range.\<close>

lemma block_in_range:
  assumes "separated R" "{s ..< s + n} \<subseteq> \<Union> (cells ` R)" "0 < n"
  obtains r where "r \<in> R" "r_start r \<le> s" "s + n \<le> r_start r + r_len r"
proof -
  have "s \<in> {s ..< s + n}" using assms(3) by simp
  then have "s \<in> \<Union> (cells ` R)" using assms(2) by blast
  then obtain r where r: "r \<in> R" "r_start r \<le> s" "s < r_start r + r_len r" by (auto simp: cells_def)
  have "r_start r + r_len r \<notin> \<Union> (cells ` R)"
  proof
    assume "r_start r + r_len r \<in> \<Union> (cells ` R)"
    then obtain r' where r': "r' \<in> R" "r_start r' \<le> r_start r + r_len r" "r_start r + r_len r < r_start r' + r_len r'"
      by (auto simp: cells_def)
    then show False using separatedD(3) [OF assms(1) r(1) r'(1)] by auto
  qed
  then have "r_start r + r_len r \<notin> {s ..< s + n}" using assms(2) by blast
  then have "s + n \<le> r_start r + r_len r" using r(3) by auto
  with r that show ?thesis by blast
qed

subsection \<open>Alignment\<close>

definition next_multiple :: "nat \<Rightarrow> nat \<Rightarrow> nat" where
  "next_multiple v align = (if v mod align = 0 then v else v + (align - v mod align))"

lemma next_multiple:
  assumes "0 < align"
  shows "v \<le> next_multiple v align" "align dvd next_multiple v align"
    "align dvd x \<Longrightarrow> v \<le> x \<Longrightarrow> next_multiple v align \<le> x"
proof -
  define d m where "d = v div align" and "m = v mod align"
  have v: "v = align * d + m" and m: "m < align" using assms by (simp_all add: d_def m_def)
  have n: "next_multiple v align = align * (if m = 0 then d else Suc d)"
    unfolding next_multiple_def m_def [symmetric] using v m by simp
  then show "align dvd next_multiple v align" by simp
  show "v \<le> next_multiple v align" by (simp add: next_multiple_def)
  show "next_multiple v align \<le> x" if "align dvd x" "v \<le> x"
  proof -
    from that(1) obtain q where q: "x = align * q" by blast
    have "\<not> q < d" using that(2) v q by (metis add_lessD1 mult_less_mono2 assms not_less add.commute le_add1 le_trans)
    moreover have "q \<noteq> d" if "m \<noteq> 0" using that \<open>v \<le> x\<close> v q by auto
    ultimately have "(if m = 0 then d else Suc d) \<le> q" by auto
    then show ?thesis unfolding n q by (rule mult_le_mono2)
  qed
qed

lemma align_up_eq:
  "0 < align \<Longrightarrow> v < u64_limit \<Longrightarrow>
     align_up v align = (if next_multiple v align < u64_limit then Some (next_multiple v align) else None)"
  by (auto simp: align_up_def next_multiple_def checked_add_def Let_def)

text \<open>A free range has room for an aligned block exactly when the attempt succeeds.\<close>

definition fits :: "nat \<Rightarrow> nat \<Rightarrow> rng \<Rightarrow> bool" where
  "fits len align r \<longleftrightarrow> (\<exists>s. align dvd s \<and> r_start r \<le> s \<and> s + len \<le> r_start r + r_len r)"

lemma try_alloc:
  assumes "0 < align" "r_start r + r_len r < u64_limit"
  shows "try_alloc_in_range r len align =
    (let s = next_multiple (r_start r) align in
     if fits len align r then Some (s, s + len, r_start r + r_len r) else None)"
    "fits len align r \<Longrightarrow> next_multiple (r_start r) align + len \<le> r_start r + r_len r"
proof -
  let ?s = "next_multiple (r_start r) align"
  note nm = next_multiple [OF assms(1), where v = "r_start r"]
  have iff: "fits len align r \<longleftrightarrow> ?s + len \<le> r_start r + r_len r"
    unfolding fits_def using nm by (meson add_le_mono1 le_trans)
  then show "fits len align r \<Longrightarrow> ?s + len \<le> r_start r + r_len r" by simp
  show "try_alloc_in_range r len align = (let s = ?s in if fits len align r then Some (s, s + len, r_start r + r_len r) else None)"
    using assms iff by (simp add: try_alloc_in_range_def align_up_eq checked_add_def Let_def)
qed

subsection \<open>Selecting a range\<close>

lemma entry_bucket:
  "idx_ok a \<Longrightarrow> (n, rs) \<in> set (free_by_length a) \<Longrightarrow> set rs = {r \<in> ranges a. r_len r = n}"
proof -
  assume "idx_ok a" "(n, rs) \<in> set (free_by_length a)"
  then have "bt_get (free_by_length a) n = Some rs" by (simp add: idx_ok_def)
  then have "bucket a n = rs" by (simp add: bucket_def)
  with \<open>idx_ok a\<close> show ?thesis by (auto simp: idx_ok_def)
qed

lemma bucket_entry:
  "idx_ok a \<Longrightarrow> r \<in> ranges a \<Longrightarrow> \<exists>rs. (r_len r, rs) \<in> set (free_by_length a) \<and> r \<in> set rs"
proof -
  assume ok: "idx_ok a" and r: "r \<in> ranges a"
  then have "r \<in> set (bucket a (r_len r))" by (simp add: idx_ok_def)
  then obtain rs where "bt_get (free_by_length a) (r_len r) = Some rs" "r \<in> set rs"
    by (cases "bt_get (free_by_length a) (r_len r)") (auto simp: bucket_def)
  with ok show ?thesis by (auto simp: idx_ok_def)
qed

lemma select_range_spec:
  assumes "ra_inv a" "0 < align" "\<And>xs. set (iter xs) = set xs"
  shows "select_range iter len align a = None \<Longrightarrow> r \<in> ranges a \<Longrightarrow> \<not> fits len align r"
    "select_range iter len align a = Some (r0, s, e, f) \<Longrightarrow> r0 \<in> ranges a \<and> fits len align r0 \<and>
       s = next_multiple (r_start r0) align \<and> e = s + len \<and> f = r_start r0 + r_len r0 \<and>
       (\<forall>r \<in> ranges a. fits len align r \<longrightarrow> r_len r0 \<le> r_len r)"
proof -
  have ok: "idx_ok a" and sep: "separated (ranges a)" using assms(1) by (simp_all add: ra_inv_def)
  note attempt = try_alloc [OF assms(2) separatedD(2) [OF sep]]
  have large: "len \<le> r_len r" if "fits len align r" for r using that by (auto simp: fits_def)
  let ?f = "\<lambda>r. map_option (\<lambda>p. (r, p)) (try_alloc_in_range r len align)"
  have f: "?f r = None \<longleftrightarrow> \<not> fits len align r" if "r \<in> ranges a" for r using attempt(1) [OF that, of len] by (simp add: Let_def)
  show "\<not> fits len align r" if none: "select_range iter len align a = None" and r: "r \<in> ranges a"
  proof
    assume fit: "fits len align r"
    from bucket_entry [OF ok r] obtain rs where "(r_len r, rs) \<in> set (free_by_length a)" "r \<in> set rs" by blast
    with none large [OF fit] assms(3) have "?f r = None" by (fastforce simp: select_range_def find_map_None)
    with f [OF r] fit show False by simp
  qed
  show "r0 \<in> ranges a \<and> fits len align r0 \<and> s = next_multiple (r_start r0) align \<and> e = s + len \<and>
    f = r_start r0 + r_len r0 \<and> (\<forall>r \<in> ranges a. fits len align r \<longrightarrow> r_len r0 \<le> r_len r)"
    if some: "select_range iter len align a = Some (r0, s, e, f)"
  proof -
    from find_map_Some [OF some [unfolded select_range_def]] obtain ys n rs zs where
      split: "bt_from len (free_by_length a) = ys @ (n, rs) # zs" "find_map ?f (iter rs) = Some (r0, s, e, f)"
        "\<forall>z \<in> set ys. find_map ?f (iter (snd z)) = None" by (auto simp: case_prod_beta)
    from split(2) obtain p where p: "r0 \<in> set (iter rs)" "?f r0 = Some (r0, s, e, f)"
      by (auto dest!: find_map_Some)
    have entries: "set (ys @ (n, rs) # zs) \<subseteq> set (free_by_length a)" using split(1) by (metis filter_is_subset bt_from_def)
    have r0: "r0 \<in> ranges a" "r_len r0 = n" using entry_bucket [OF ok, of n rs] entries p(1) assms(3) by auto
    have least: "n \<le> r_len r" if r: "r \<in> ranges a" "fits len align r" for r
    proof -
      from bucket_entry [OF ok r(1)] obtain rs' where rs': "(r_len r, rs') \<in> set (free_by_length a)" "r \<in> set rs'" by blast
      with large [OF r(2)] have "(r_len r, rs') \<in> set (ys @ (n, rs) # zs)" unfolding split(1) [symmetric] by simp
      moreover have "(r_len r, rs') \<notin> set ys" using split(3) rs'(2) f [OF r(1)] r(2) assms(3) by (force simp: find_map_None)
      moreover have "bt_ok (ys @ (n, rs) # zs)" using ok unfolding split(1) [symmetric] by (simp add: idx_ok_def)
      ultimately show ?thesis by (auto simp: bt_ok_def sorted_wrt_append)
    qed
    have "fits len align r0" using f [OF r0(1)] p(2) by auto
    moreover from this p(2) attempt(1) [OF r0(1), of len] have "s = next_multiple (r_start r0) align" "e = s + len" "f = r_start r0 + r_len r0"
      by (auto simp: Let_def)
    ultimately show ?thesis using r0 least by blast
  qed
qed

subsection \<open>Changing the free ranges\<close>

lemma insert_ok:
  assumes "ra_inv a" "r \<notin> ranges a" "separated (insert r (ranges a))"
  shows "ra_inv (insert_free_range r a)" "ranges (insert_free_range r a) = insert r (ranges a)"
proof -
  have "r_start r' \<noteq> r_start r" if "r' \<in> ranges a" for r'
  proof -
    have "r \<noteq> r'" using that assms(2) by blast
    with separatedD(3) [OF assms(3), of r r'] that show ?thesis by auto
  qed
  with insert_indices [of a r] assms show "ra_inv (insert_free_range r a)" "ranges (insert_free_range r a) = insert r (ranges a)"
    by (simp_all add: ra_inv_def)
qed

lemma remove_ok:
  assumes "ra_inv a" "r \<in> ranges a"
  obtains a' where "remove_free_range r a = Inr a'" "ra_inv a'" "ranges a' = ranges a - {r}"
proof -
  from assms have "idx_ok a" "separated (ranges a)" by (simp_all add: ra_inv_def)
  from remove_indices [OF this(1) assms(2)] obtain a' where a': "remove_free_range r a = Inr a'" "idx_ok a'" "ranges a' = ranges a - {r}" .
  moreover have "separated (ranges a')" using \<open>separated (ranges a)\<close> a'(3) by (auto intro: separated_subset)
  ultimately show ?thesis using that by (simp add: ra_inv_def)
qed

lemma cells_apart:
  "r_start r + r_len r < r_start r' \<or> r_start r' + r_len r' < r_start r \<Longrightarrow> cells r \<inter> cells r' = {}"
  by (auto simp: cells_def)

lemma cells_disjoint: "separated R \<Longrightarrow> r \<in> R \<Longrightarrow> r' \<in> R \<Longrightarrow> r \<noteq> r' \<Longrightarrow> cells r \<inter> cells r' = {}"
  using separatedD(3) cells_apart by metis

lemma free_cells_remove:
  "separated R \<Longrightarrow> r \<in> R \<Longrightarrow> \<Union> (cells ` (R - {r})) = \<Union> (cells ` R) - cells r"
  using cells_disjoint [of R r] by blast

text \<open>Cutting a block out of a free range leaves the pieces before and after it.\<close>

definition cut :: "rng \<Rightarrow> nat \<Rightarrow> nat \<Rightarrow> rng set" where
  "cut r s e =
     (if s > r_start r then {Rng (r_start r) (s - r_start r)} else {}) \<union>
     (if e < r_start r + r_len r then {Rng e (r_start r + r_len r - e)} else {})"

lemma cut_cells: "r_start r \<le> s \<Longrightarrow> s \<le> e \<Longrightarrow> e \<le> r_start r + r_len r \<Longrightarrow> \<Union> (cells ` cut r s e) = cells r - {s ..< e}"
  by (auto simp: cut_def cells_def)

lemma cut_piece:
  "r_start r \<le> s \<Longrightarrow> s < e \<Longrightarrow> e \<le> r_start r + r_len r \<Longrightarrow> p \<in> cut r s e \<Longrightarrow>
     r_start r \<le> r_start p \<and> r_start p + r_len p \<le> r_start r + r_len r \<and> 0 < r_len p \<and>
     (r_start p + r_len p = s \<and> p = Rng (r_start r) (s - r_start r) \<or>
      r_start p = e \<and> p = Rng e (r_start r + r_len r - e))"
  by (auto simp: cut_def split: if_splits)

lemma cut_separated:
  assumes "separated R" "r \<in> R" "r_start r \<le> s" "s < e" "e \<le> r_start r + r_len r"
  shows "separated (cut r s e \<union> (R - {r}))"
proof -
  note piece = cut_piece [OF assms(3-5)]
  have "0 < r_len x \<and> r_start x + r_len x < u64_limit" if "x \<in> cut r s e \<union> (R - {r})" for x
    using that piece [of x] separatedD(1,2) [OF assms(1)] assms(2) by (metis DiffD1 UnE le_less_trans)
  moreover have "x = y \<or> r_start x + r_len x < r_start y \<or> r_start y + r_len y < r_start x"
    if x: "x \<in> cut r s e \<union> (R - {r})" and y: "y \<in> cut r s e \<union> (R - {r})" for x y
  proof -
    have mixed: "r_start p + r_len p < r_start q \<or> r_start q + r_len q < r_start p" if "p \<in> cut r s e" "q \<in> R - {r}" for p q
      using piece [OF that(1)] separatedD(3) [OF assms(1,2), of q] that(2) by auto
    have two: "p = q \<or> r_start p + r_len p < r_start q \<or> r_start q + r_len q < r_start p" if "p \<in> cut r s e" "q \<in> cut r s e" for p q
      using piece [OF that(1)] piece [OF that(2)] assms(4) by auto
    from x y mixed two separatedD(3) [OF assms(1)] show ?thesis by blast
  qed
  ultimately show ?thesis by (simp add: separated_def)
qed

lemma insert_cut:
  assumes "ra_inv a1" "ranges a1 = R - {r}" "separated R" "r \<in> R" "r_start r \<le> s" "s < e" "e \<le> r_start r + r_len r"
  defines "a2 \<equiv> (if s > r_start r then insert_free_range (Rng (r_start r) (s - r_start r)) a1 else a1)"
  defines "a3 \<equiv> (if e < r_start r + r_len r then insert_free_range (Rng e (r_start r + r_len r - e)) a2 else a2)"
  shows "ra_inv a3 \<and> ranges a3 = cut r s e \<union> (R - {r})"
proof -
  note sep = cut_separated [OF assms(3-7)]
  have fresh: "p \<notin> R - {r}" if "p \<in> cut r s e" for p
    using cut_piece [OF assms(5-7) that] separatedD(3) [OF assms(3,4), of p] by auto
  let ?P = "if s > r_start r then {Rng (r_start r) (s - r_start r)} else {}"
  have 2: "ra_inv a2 \<and> ranges a2 = ?P \<union> (R - {r})"
  proof (cases "s > r_start r")
    case True
    then have p: "Rng (r_start r) (s - r_start r) \<in> cut r s e" by (simp add: cut_def)
    then have "separated (insert (Rng (r_start r) (s - r_start r)) (ranges a1))"
      unfolding assms(2) by (intro separated_subset [OF sep]) auto
    with insert_ok [OF assms(1)] fresh [OF p] True show ?thesis by (simp add: a2_def assms(2))
  qed (use assms(1,2) in \<open>simp add: a2_def\<close>)
  show ?thesis
  proof (cases "e < r_start r + r_len r")
    case True
    let ?Q = "Rng e (r_start r + r_len r - e)"
    have q: "?Q \<in> cut r s e" using True by (simp add: cut_def)
    have "separated (insert ?Q (ranges a2))" using 2 q by (intro separated_subset [OF sep]) (auto simp: cut_def)
    moreover have "?Q \<notin> ranges a2" using 2 fresh [OF q] assms(5,6) by (auto split: if_splits)
    ultimately show ?thesis using insert_ok [of a2 ?Q] 2 True by (auto simp: a3_def cut_def)
  qed (use 2 in \<open>simp add: a3_def cut_def\<close>)
qed

subsection \<open>Freeing\<close>

lemma padd_Inr [simp]: "a + b < u64_limit \<Longrightarrow> padd a b = Inr (a + b)"
  by (simp add: padd_def)

definition is_prev :: "rng set \<Rightarrow> nat \<Rightarrow> rng option \<Rightarrow> bool" where
  "is_prev R start prev \<longleftrightarrow>
     (case prev of
        None \<Rightarrow> \<forall>r \<in> R. start \<le> r_start r
      | Some p \<Rightarrow> p \<in> R \<and> r_start p < start \<and> (\<forall>r \<in> R. start \<le> r_start r \<or> r = p \<or> r_start r < r_start p))"

definition is_next :: "rng set \<Rightarrow> nat \<Rightarrow> rng option \<Rightarrow> bool" where
  "is_next R start nxt \<longleftrightarrow>
     (case nxt of
        None \<Rightarrow> \<forall>r \<in> R. r_start r < start
      | Some q \<Rightarrow> q \<in> R \<and> start \<le> r_start q \<and> (\<forall>r \<in> R. r_start r < start \<or> r = q \<or> r_start q < r_start r))"

lemma neighbours:
  assumes "idx_ok a"
  shows "is_prev (ranges a) start (map_option snd (last_opt (bt_before start (free_by_start a))))"
    "is_next (ranges a) start (map_option snd (first_opt (bt_from start (free_by_start a))))"
proof -
  have ok: "bt_ok (free_by_start a)" "\<And>e. e \<in> set (free_by_start a) \<Longrightarrow> fst e = r_start (snd e)"
    using assms by (simp_all add: idx_ok_def)
  have ran: "(\<forall>r \<in> ranges a. P r) \<longleftrightarrow> (\<forall>e \<in> set (free_by_start a). P (snd e))" for P by (simp add: ranges_def)
  have mem: "e \<in> set (free_by_start a) \<Longrightarrow> snd e \<in> ranges a" for e by (simp add: ranges_def)
  show "is_prev (ranges a) start (map_option snd (last_opt (bt_before start (free_by_start a))))"
  proof (cases "last_opt (bt_before start (free_by_start a))")
    case None
    with prev_entry(1) [OF ok(1) None] ok(2) show ?thesis by (auto simp: is_prev_def ran)
  next
    case (Some e)
    with prev_entry(2) [OF ok(1) Some] ok(2) mem show ?thesis unfolding is_prev_def ran by (simp del: split_paired_All) metis
  qed
  show "is_next (ranges a) start (map_option snd (first_opt (bt_from start (free_by_start a))))"
  proof (cases "first_opt (bt_from start (free_by_start a))")
    case None
    with next_entry(1) [OF ok(1) None] ok(2) show ?thesis by (auto simp: is_next_def ran)
  next
    case (Some e)
    with next_entry(2) [OF ok(1) Some] ok(2) mem show ?thesis unfolding is_next_def ran by (simp del: split_paired_All) metis
  qed
qed

text \<open>The ranges that end where the block starts, and those that start where it ends.\<close>

definition ending_at :: "rng set \<Rightarrow> nat \<Rightarrow> rng set" where
  "ending_at R x = {p \<in> R. r_start p + r_len p = x}"

definition starting_at :: "rng set \<Rightarrow> nat \<Rightarrow> rng set" where
  "starting_at R x = {q \<in> R. r_start q = x}"

lemma merge_prev_spec:
  assumes "ra_inv a" "is_prev (ranges a) start prev" "0 < len" "start + len < u64_limit"
  shows "(\<exists>p \<in> ranges a. r_start p < start \<and> start < r_start p + r_len p) \<and>
      merge_prev prev start len a = Inr (Inl FreeingExistingRange, a) \<or>
    (\<forall>p \<in> ranges a. r_start p < start \<longrightarrow> r_start p + r_len p \<le> start) \<and>
    (\<exists>a1 start1 len1. merge_prev prev start len a = Inr (Inr (start1, len1), a1) \<and> ra_inv a1 \<and>
       ranges a1 = ranges a - ending_at (ranges a) start \<and> start1 + len1 = start + len \<and> start1 \<le> start \<and>
       {start1 ..< start} = \<Union> (cells ` ending_at (ranges a) start))"
proof -
  have sep: "separated (ranges a)" using assms(1) by (simp add: ra_inv_def)
  show ?thesis
  proof (cases prev)
    case None
    then have all: "\<forall>r \<in> ranges a. start \<le> r_start r" using assms(2) by (simp add: is_prev_def)
    then have e: "ending_at (ranges a) start = {}" using separatedD(1) [OF sep] by (force simp: ending_at_def)
    have "\<forall>p \<in> ranges a. r_start p < start \<longrightarrow> r_start p + r_len p \<le> start" using all by auto
    moreover have "merge_prev prev start len a = Inr (Inr (start, len), a)" using None by (simp add: merge_prev_def)
    ultimately show ?thesis using e assms(1) by simp
  next
    case (Some p)
    then have p: "p \<in> ranges a" "r_start p < start" "\<forall>r \<in> ranges a. start \<le> r_start r \<or> r = p \<or> r_start r < r_start p"
      using assms(2) by (simp_all add: is_prev_def)
    have lim: "r_start p + r_len p < u64_limit" using separatedD(2) [OF sep p(1)] .
    have others: "r_start r + r_len r < start" if "r \<in> ranges a" "r \<noteq> p" "r_start r < start" for r
    proof -
      have "r_start r < r_start p" using p(3) that by (meson not_less)
      with separatedD(3) [OF sep that(1) p(1)] that(2) p(2) show ?thesis by auto
    qed
    have ends: "ending_at (ranges a) start = (if r_start p + r_len p = start then {p} else {})"
    proof -
      have "r = p" if "r \<in> ranges a" "r_start r + r_len r = start" for r
        using others [of r] that separatedD(1) [OF sep that(1)] by fastforce
      then have "ending_at (ranges a) start \<subseteq> {p}" unfolding ending_at_def by blast
      moreover have "p \<in> ending_at (ranges a) start \<longleftrightarrow> r_start p + r_len p = start" using p(1) by (simp add: ending_at_def)
      ultimately show ?thesis by auto
    qed
    consider "start < r_start p + r_len p" | "r_start p + r_len p = start" | "r_start p + r_len p < start" by linarith
    then show ?thesis
    proof cases
      case 1
      then have "merge_prev prev start len a = Inr (Inl FreeingExistingRange, a)" using Some lim by (simp add: merge_prev_def)
      with 1 p(1,2) show ?thesis by blast
    next
      case 2
      from remove_ok [OF assms(1) p(1)] obtain a1 where a1: "remove_free_range p a = Inr a1" "ra_inv a1" "ranges a1 = ranges a - {p}" .
      have "len + r_len p < u64_limit" using 2 assms(4) by linarith
      then have "merge_prev prev start len a = Inr (Inr (r_start p, len + r_len p), a1)" using Some lim 2 a1(1) by (simp add: merge_prev_def)
      moreover have "\<forall>r \<in> ranges a. r_start r < start \<longrightarrow> r_start r + r_len r \<le> start" using others 2 by force
      moreover have "{r_start p ..< start} = \<Union> (cells ` ending_at (ranges a) start)" using 2 ends by (simp add: cells_def)
      moreover have "ranges a1 = ranges a - ending_at (ranges a) start" using a1(3) ends 2 by simp
      moreover have "r_start p + (len + r_len p) = start + len" "r_start p \<le> start" using 2 p(2) by simp_all
      ultimately show ?thesis using a1(2) by blast
    next
      case 3
      then have "merge_prev prev start len a = Inr (Inr (start, len), a)" using Some lim by (simp add: merge_prev_def)
      moreover have "\<forall>r \<in> ranges a. r_start r < start \<longrightarrow> r_start r + r_len r \<le> start" using others 3 by force
      moreover have "ending_at (ranges a) start = {}" using ends 3 by simp
      ultimately show ?thesis using assms(1) by simp
    qed
  qed
qed

lemma merge_next_spec:
  assumes "ra_inv a" "separated R" "is_next R start nxt" "ranges a \<subseteq> R" "\<forall>q \<in> R. start \<le> r_start q \<longrightarrow> q \<in> ranges a"
    "start \<le> fin" "start1 + len1 = fin" "fin < u64_limit"
  shows "(\<exists>q \<in> R. start \<le> r_start q \<and> r_start q < fin) \<and>
      merge_next nxt fin start1 len1 a = Inr (Inl FreeingExistingRange, a) \<or>
    (\<forall>q \<in> R. start \<le> r_start q \<longrightarrow> fin \<le> r_start q) \<and>
    (\<exists>a1 len2. merge_next nxt fin start1 len1 a = Inr (Inr (start1, len2), a1) \<and> ra_inv a1 \<and>
       ranges a1 = ranges a - starting_at R fin \<and> fin \<le> start1 + len2 \<and> start1 + len2 < u64_limit \<and>
       {fin ..< start1 + len2} = \<Union> (cells ` starting_at R fin))"
proof (cases nxt)
  case None
  then have all: "\<forall>r \<in> R. r_start r < start" using assms(3) by (simp add: is_next_def)
  then have "starting_at R fin = {}" using assms(6) by (auto simp: starting_at_def)
  moreover have "merge_next nxt fin start1 len1 a = Inr (Inr (start1, len1), a)" using None by (simp add: merge_next_def)
  moreover have "\<forall>q \<in> R. start \<le> r_start q \<longrightarrow> fin \<le> r_start q" using all by (meson not_less)
  ultimately show ?thesis using assms(1,7,8) by simp
next
  case (Some q)
  then have q: "q \<in> R" "start \<le> r_start q" "\<forall>r \<in> R. r_start r < start \<or> r = q \<or> r_start q < r_start r"
    using assms(3) by (simp_all add: is_next_def)
  have starts: "starting_at R fin = (if r_start q = fin then {q} else {})" if "fin \<le> r_start q"
  proof -
    have "r = q" if "r \<in> R" "r_start r = fin" for r using q(3) that \<open>fin \<le> r_start q\<close> assms(6) by fastforce
    then have "starting_at R fin \<subseteq> {q}" unfolding starting_at_def by blast
    moreover have "q \<in> starting_at R fin \<longleftrightarrow> r_start q = fin" using q(1) by (simp add: starting_at_def)
    ultimately show ?thesis by auto
  qed
  have others: "\<forall>r \<in> R. start \<le> r_start r \<longrightarrow> fin \<le> r_start r" if "fin \<le> r_start q"
    using q(3) that by (metis leD less_imp_le order_trans)
  consider "r_start q < fin" | "r_start q = fin" | "fin < r_start q" by linarith
  then show ?thesis
  proof cases
    case 1
    then have "merge_next nxt fin start1 len1 a = Inr (Inl FreeingExistingRange, a)" using Some by (simp add: merge_next_def)
    with 1 q(1,2) show ?thesis by blast
  next
    case 2
    from remove_ok [OF assms(1), of q] assms(5) q(1,2) obtain a1 where
      a1: "remove_free_range q a = Inr a1" "ra_inv a1" "ranges a1 = ranges a - {q}" by blast
    have lim: "r_start q + r_len q < u64_limit" using separatedD(2) [OF assms(2) q(1)] .
    then have "len1 + r_len q < u64_limit" using 2 assms(7) by linarith
    then have "merge_next nxt fin start1 len1 a = Inr (Inr (start1, len1 + r_len q), a1)" using Some 2 a1(1) by (simp add: merge_next_def)
    moreover have "{fin ..< start1 + (len1 + r_len q)} = \<Union> (cells ` starting_at R fin)"
      using 2 starts assms(7) by (simp add: cells_def add.assoc [symmetric])
    moreover have "ranges a1 = ranges a - starting_at R fin" using a1(3) starts 2 by simp
    moreover have "fin \<le> start1 + (len1 + r_len q)" "start1 + (len1 + r_len q) < u64_limit" using 2 lim assms(7) by simp_all
    ultimately show ?thesis using a1(2) others 2 by blast
  next
    case 3
    then have "merge_next nxt fin start1 len1 a = Inr (Inr (start1, len1), a)" using Some by (simp add: merge_next_def)
    moreover have "starting_at R fin = {}" using starts 3 by simp
    moreover have "\<forall>r \<in> R. start \<le> r_start r \<longrightarrow> fin \<le> r_start r" using others 3 by simp
    ultimately show ?thesis using assms(1,7,8) by simp
  qed
qed

text \<open>Joining a block with its neighbours keeps the ranges apart.\<close>

lemma joined_separated:
  assumes "separated R" "0 < len" "start1 \<le> start" "start + len \<le> fin2" "fin2 < u64_limit"
    "\<forall>p \<in> R. r_start p < start \<longrightarrow> r_start p + r_len p \<le> start"
    "\<forall>q \<in> R. start \<le> r_start q \<longrightarrow> start + len \<le> r_start q"
    "{start1 ..< start} = \<Union> (cells ` ending_at R start)" "{start + len ..< fin2} = \<Union> (cells ` starting_at R (start + len))"
  defines "S \<equiv> R - ending_at R start - starting_at R (start + len)"
  shows "separated (insert (Rng start1 (fin2 - start1)) S)" "Rng start1 (fin2 - start1) \<notin> S"
    "\<Union> (cells ` insert (Rng start1 (fin2 - start1)) S) = \<Union> (cells ` R) \<union> {start ..< start + len}"
proof -
  have apart: "r_start r + r_len r < start1 \<or> fin2 < r_start r" if r: "r \<in> S" for r
  proof (cases "r_start r < start")
    case True
    then have e: "r_start r + r_len r < start" using assms(6) r by (force simp: S_def ending_at_def)
    show ?thesis
    proof (cases "start1 < start")
      case True
      then obtain p where p: "p \<in> R" "r_start p + r_len p = start" "start1 \<in> cells p"
        using assms(8) by (force simp: ending_at_def)
      then have "p \<noteq> r" using r by (auto simp: S_def ending_at_def)
      moreover have "start1 = r_start p"
      proof (rule ccontr)
        assume "start1 \<noteq> r_start p"
        with p have "r_start p < start1" "r_start p \<in> cells p" by (auto simp: cells_def)
        moreover from p have "cells p \<subseteq> {start1 ..< start}" using assms(8) by (auto simp: ending_at_def)
        ultimately show False by auto
      qed
      ultimately show ?thesis using separatedD(3) [OF assms(1), of r p] r p e by (auto simp: S_def)
    qed (use e assms(3) in auto)
  next
    case False
    then have e: "start + len < r_start r" using assms(7) r by (force simp: S_def starting_at_def)
    show ?thesis
    proof (cases "start + len < fin2")
      case True
      then obtain q where q: "q \<in> R" "r_start q = start + len" "fin2 - 1 \<in> cells q"
        using assms(9) by (force simp: starting_at_def)
      then have "q \<noteq> r" using r by (auto simp: S_def starting_at_def)
      moreover have "fin2 = r_start q + r_len q"
      proof (rule ccontr)
        assume "fin2 \<noteq> r_start q + r_len q"
        with q True have "fin2 \<in> cells q" by (auto simp: cells_def)
        moreover from q have "cells q \<subseteq> {start + len ..< fin2}" using assms(9) by (auto simp: starting_at_def)
        ultimately show False by auto
      qed
      ultimately show ?thesis using separatedD(3) [OF assms(1), of r q] r q e by (auto simp: S_def)
    qed (use e in auto)
  qed
  have S: "separated S" using separated_subset [OF assms(1)] by (simp add: S_def Diff_subset subset_iff)
  have le: "start1 + (fin2 - start1) = fin2" "0 < fin2 - start1" using assms(2-4) by linarith+
  show "separated (insert (Rng start1 (fin2 - start1)) S)"
    unfolding separated_insert using S apart le assms(5) by auto
  show "Rng start1 (fin2 - start1) \<notin> S" using apart [of "Rng start1 (fin2 - start1)"] le by auto
  have "R = S \<union> ending_at R start \<union> starting_at R (start + len)" by (auto simp: S_def ending_at_def starting_at_def)
  then have "\<Union> (cells ` R) = \<Union> (cells ` S) \<union> {start1 ..< start} \<union> {start + len ..< fin2}"
    unfolding assms(8,9) by (metis Union_Un_distrib image_Un)
  moreover have "cells (Rng start1 (fin2 - start1)) = {start1 ..< start} \<union> {start ..< start + len} \<union> {start + len ..< fin2}"
    using assms(2-4) le by (auto simp: cells_def)
  ultimately show "\<Union> (cells ` insert (Rng start1 (fin2 - start1)) S) = \<Union> (cells ` R) \<union> {start ..< start + len}" by auto
qed

lemma overlap_iff:
  assumes "separated R" "0 < len"
  shows "\<Union> (cells ` R) \<inter> {start ..< start + len} \<noteq> {} \<longleftrightarrow>
    (\<exists>p \<in> R. r_start p < start \<and> start < r_start p + r_len p) \<or> (\<exists>q \<in> R. start \<le> r_start q \<and> r_start q < start + len)"
proof -
  have "cells r \<inter> {start ..< start + len} \<noteq> {} \<longleftrightarrow>
      r_start r < start \<and> start < r_start r + r_len r \<or> start \<le> r_start r \<and> r_start r < start + len" if "r \<in> R" for r
  proof -
    have "0 < r_len r" using separatedD(1) [OF assms(1) that] .
    then show ?thesis using assms(2) by (auto simp: cells_def)
  qed
  then show ?thesis by blast
qed

lemma free_spec:
  assumes "ra_inv a" "r_start r + r_len r < u64_limit"
  shows "\<exists>res a'. range_free r a = Inr (res, a') \<and> ra_inv a' \<and>
    (if free_cells a \<inter> cells r = {} then res = Inr () \<and> free_cells a' = free_cells a \<union> cells r
     else res = Inl FreeingExistingRange \<and>
       (ranges a' = ranges a \<or> ranges a' = ranges a - ending_at (ranges a) (r_start r)))"
proof (cases "r_len r = 0")
  case True
  then show ?thesis using assms(1) by (auto simp: range_free_def cells_def)
next
  case False
  let ?R = "ranges a" and ?s = "r_start r" and ?n = "r_len r"
  let ?prev = "map_option snd (last_opt (bt_before ?s (free_by_start a)))"
  let ?next = "map_option snd (first_opt (bt_from ?s (free_by_start a)))"
  have ok: "idx_ok a" and sep: "separated ?R" using assms(1) by (simp_all add: ra_inv_def)
  have c: "cells r = {?s ..< ?s + ?n}" by (simp add: cells_def)
  have pos: "0 < ?n" using False by simp
  have free: "range_free r a = (case merge_prev ?prev ?s ?n a of Inl f \<Rightarrow> Inl f | Inr (Inl e, a1) \<Rightarrow> Inr (Inl e, a1)
      | Inr (Inr (start, len), a1) \<Rightarrow> (case merge_next ?next (?s + ?n) start len a1 of Inl f \<Rightarrow> Inl f
          | Inr (Inl e, a2) \<Rightarrow> Inr (Inl e, a2)
          | Inr (Inr (start', len'), a2) \<Rightarrow> Inr (Inr (), insert_free_range (Rng start' len') a2)))"
    using False assms(2) by (simp add: range_free_def Let_def)
  note over = overlap_iff [OF sep pos, of ?s, folded free_cells_def c]
  from merge_prev_spec [OF assms(1) neighbours(1) [OF ok] pos assms(2)] show ?thesis
  proof (elim disjE conjE exE)
    assume "\<exists>p \<in> ?R. r_start p < ?s \<and> ?s < r_start p + r_len p" "merge_prev ?prev ?s ?n a = Inr (Inl FreeingExistingRange, a)"
    then show ?thesis using over assms(1) by (simp add: free)
  next
    fix a1 start1 len1
    assume pre: "\<forall>p \<in> ?R. r_start p < ?s \<longrightarrow> r_start p + r_len p \<le> ?s"
      "merge_prev ?prev ?s ?n a = Inr (Inr (start1, len1), a1)" "ra_inv a1" "ranges a1 = ?R - ending_at ?R ?s"
      "start1 + len1 = ?s + ?n" "start1 \<le> ?s" "{start1 ..< ?s} = \<Union> (cells ` ending_at ?R ?s)"
    have kept: "\<forall>q \<in> ?R. ?s \<le> r_start q \<longrightarrow> q \<in> ranges a1"
      using separatedD(1) [OF sep] unfolding pre(4) by (fastforce simp: ending_at_def)
    have "ranges a1 \<subseteq> ?R" "?s \<le> ?s + ?n" using pre(4) by auto
    from merge_next_spec [OF pre(3) sep neighbours(2) [OF ok, of ?s] this(1) kept this(2) pre(5) assms(2)] show ?thesis
    proof (elim disjE conjE exE)
      assume "\<exists>q \<in> ?R. ?s \<le> r_start q \<and> r_start q < ?s + ?n"
        "merge_next ?next (?s + ?n) start1 len1 a1 = Inr (Inl FreeingExistingRange, a1)"
      then show ?thesis using over pre(2-4) by (simp add: free)
    next
      fix a2 len2
      assume post: "\<forall>q \<in> ?R. ?s \<le> r_start q \<longrightarrow> ?s + ?n \<le> r_start q"
        "merge_next ?next (?s + ?n) start1 len1 a1 = Inr (Inr (start1, len2), a2)" "ra_inv a2"
        "ranges a2 = ranges a1 - starting_at ?R (?s + ?n)" "?s + ?n \<le> start1 + len2" "start1 + len2 < u64_limit"
        "{?s + ?n ..< start1 + len2} = \<Union> (cells ` starting_at ?R (?s + ?n))"
      note join = joined_separated [OF sep pos pre(6) post(5,6) pre(1) post(1) pre(7) post(7), folded pre(4), folded post(4), unfolded add_diff_cancel_left']
      have "free_cells a \<inter> cells r = {}" using over pre(1) post(1) by (meson not_le)
      then show ?thesis using insert_ok [OF post(3) join(2,1)] join(3) pre(2) post(2) by (simp add: free free_cells_def c)
    qed
  qed
qed

text \<open>C14: Freeing a block (of any length, with an end inside the address space) never
  panics and keeps the indices consistent. A block with no free cell in it is accepted, and
  afterwards exactly its cells are free in addition; a block with a free cell in it is
  refused, and nothing changes unless a free range ends exactly where the block starts, in
  which case that range is lost.\<close>

theorem range_free_exact:
  assumes "ra_inv a" "r_start r + r_len r < u64_limit"
  shows "\<exists>res a'. range_free r a = Inr (res, a') \<and> ra_inv a' \<and>
    (if free_cells a \<inter> cells r = {} then res = Inr () \<and> free_cells a' = free_cells a \<union> cells r
     else res = Inl FreeingExistingRange \<and>
       (ranges a' = ranges a \<or> ranges a' = ranges a - ending_at (ranges a) (r_start r)))"
  using free_spec [OF assms] .

definition example_ranges :: range_allocator where
  "example_ranges = insert_free_range (Rng 20 10) (insert_free_range (Rng 0 10) range_allocator_new)"

lemma example_ranges_inv: "ra_inv example_ranges" "ranges example_ranges = {Rng 0 10, Rng 20 10}"
proof -
  have new: "ra_inv range_allocator_new" "ranges range_allocator_new = {}"
    by (simp_all add: ra_inv_def idx_ok_def separated_def ranges_def range_allocator_new_def bucket_def)
  then have one: "ra_inv (insert_free_range (Rng 0 10) range_allocator_new)"
      "ranges (insert_free_range (Rng 0 10) range_allocator_new) = {Rng 0 10}"
    using insert_ok [of range_allocator_new "Rng 0 10"] by (simp_all add: separated_def)
  then show "ra_inv example_ranges" "ranges example_ranges = {Rng 0 10, Rng 20 10}"
    using insert_ok [OF one(1), of "Rng 20 10"] by (auto simp: example_ranges_def separated_def)
qed

theorem range_free_exact_witness:
  "ra_inv example_ranges \<and> (\<exists>a'. range_free (Rng 10 10) example_ranges = Inr (Inr (), a') \<and> free_cells a' = {0 ..< 30})"
proof -
  have f: "free_cells example_ranges = {0 ..< 10} \<union> {20 ..< 30}"
    by (simp add: free_cells_def example_ranges_inv cells_def)
  have dj: "free_cells example_ranges \<inter> cells (Rng 10 10) = {}" unfolding f by (auto simp: cells_def)
  have "\<exists>res a'. range_free (Rng 10 10) example_ranges = Inr (res, a') \<and> res = Inr () \<and> free_cells a' = free_cells example_ranges \<union> cells (Rng 10 10)"
    using range_free_exact [OF example_ranges_inv(1), of "Rng 10 10"] dj by auto
  moreover have "free_cells example_ranges \<union> cells (Rng 10 10) = {0 ..< 30}" using f by (auto simp: cells_def)
  ultimately show ?thesis using example_ranges_inv(1) by auto
qed


lemma allocate_spec:
  assumes "ra_inv a" "0 < align" "0 < len" "\<And>xs. set (iter xs) = set xs"
  shows "\<exists>res a'. allocate_aligned iter len align a = Inr (res, a') \<and> ra_inv a' \<and>
    (case res of
       None \<Rightarrow> a' = a \<and> \<not> (\<exists>s. align dvd s \<and> {s ..< s + len} \<subseteq> free_cells a)
     | Some r \<Rightarrow> r_len r = len \<and> align dvd r_start r \<and> cells r \<subseteq> free_cells a \<and> free_cells a' = free_cells a - cells r \<and>
         (\<exists>r0 \<in> ranges a. cells r \<subseteq> cells r0 \<and> (\<forall>r' \<in> ranges a. fits len align r' \<longrightarrow> r_len r0 \<le> r_len r')))"
proof -
  have sep: "separated (ranges a)" using assms(1) by (simp add: ra_inv_def)
  show ?thesis
  proof (cases "select_range iter len align a")
    case None
    have "\<not> (\<exists>s. align dvd s \<and> {s ..< s + len} \<subseteq> free_cells a)"
    proof
      assume "\<exists>s. align dvd s \<and> {s ..< s + len} \<subseteq> free_cells a"
      then obtain s where s: "align dvd s" "{s ..< s + len} \<subseteq> \<Union> (cells ` ranges a)" by (auto simp: free_cells_def)
      from block_in_range [OF sep s(2) assms(3)] obtain r where "r \<in> ranges a" "r_start r \<le> s" "s + len \<le> r_start r + r_len r" .
      with s(1) select_range_spec(1) [OF assms(1,2,4) None, of r] show False by (auto simp: fits_def)
    qed
    with None assms show ?thesis by (simp add: allocate_aligned_def)
  next
    case (Some sel)
    obtain r s e f where sel: "sel = (r, s, e, f)" by (cases sel)
    from select_range_spec(2) [OF assms(1,2,4) Some [unfolded sel]] have r: "r \<in> ranges a" "fits len align r"
      "s = next_multiple (r_start r) align" "e = s + len" "f = r_start r + r_len r"
      "\<forall>r' \<in> ranges a. fits len align r' \<longrightarrow> r_len r \<le> r_len r'" by auto
    have s: "r_start r \<le> s" "align dvd s" using next_multiple [OF assms(2), where v = "r_start r"] r(3) by simp_all
    have e: "s < e" "e \<le> r_start r + r_len r"
      using try_alloc(2) [OF assms(2) separatedD(2) [OF sep r(1)] r(2)] r(3,4) assms(3) by simp_all
    from remove_ok [OF assms(1) r(1)] obtain a1 where a1: "remove_free_range r a = Inr a1" "ra_inv a1" "ranges a1 = ranges a - {r}" .
    let ?a2 = "if s > r_start r then insert_free_range (Rng (r_start r) (s - r_start r)) a1 else a1"
    define a3 where "a3 = (if e < f then insert_free_range (Rng e (f - e)) ?a2 else ?a2)"
    have res: "allocate_aligned iter len align a = Inr (Some (Rng s len), a3)"
      using assms(2,3) Some by (simp add: allocate_aligned_def sel a1(1) Let_def a3_def)
    have a3: "ra_inv a3" "ranges a3 = cut r s e \<union> (ranges a - {r})"
      using insert_cut [OF a1(2,3) sep r(1) s(1) e, folded r(5), folded a3_def] by simp_all
    have c: "cells (Rng s len) = {s ..< e}" "{s ..< e} \<subseteq> cells r" using s(1) e r(4) by (auto simp: cells_def)
    have "free_cells a3 = (cells r - {s ..< e}) \<union> (free_cells a - cells r)"
      unfolding free_cells_def a3(2) using cut_cells [of r s e] free_cells_remove [OF sep r(1)] s(1) e by simp
    then have "free_cells a3 = free_cells a - cells (Rng s len)" using c r(1) by (auto simp: free_cells_def)
    moreover have "cells (Rng s len) \<subseteq> free_cells a" using c r(1) by (auto simp: free_cells_def)
    ultimately show ?thesis using res a3(1) s(2) c r(1,6) by (intro exI [of _ "Some (Rng s len)"] exI [of _ a3]) auto
  qed
qed

text \<open>C15: An aligned allocation of \<open>len\<close> cells never panics and keeps the indices
  consistent. It fails exactly when no aligned block of that length is free, and then
  changes nothing; otherwise the block it returns is aligned, was free, and is no longer
  free, everything else is as before, and it was cut out of a shortest free range that had
  room. The order in which a hash set is iterated does not matter.\<close>

theorem range_alloc_exact:
  assumes "ra_inv a" "0 < align" "0 < len" "\<And>xs. set (iter xs) = set xs"
  shows "\<exists>res a'. allocate_aligned iter len align a = Inr (res, a') \<and> ra_inv a' \<and>
    (case res of
       None \<Rightarrow> a' = a \<and> \<not> (\<exists>s. align dvd s \<and> {s ..< s + len} \<subseteq> free_cells a)
     | Some r \<Rightarrow> r_len r = len \<and> align dvd r_start r \<and> cells r \<subseteq> free_cells a \<and> free_cells a' = free_cells a - cells r \<and>
         (\<exists>r0 \<in> ranges a. cells r \<subseteq> cells r0 \<and> (\<forall>r' \<in> ranges a. fits len align r' \<longrightarrow> r_len r0 \<le> r_len r')))"
  using allocate_spec [OF assms] .

theorem range_alloc_exact_witness:
  "ra_inv example_ranges \<and> (\<exists>r a'. allocate_aligned id 4 8 example_ranges = Inr (Some r, a') \<and> 8 dvd r_start r \<and>
     cells r \<subseteq> {0 ..< 10} \<union> {20 ..< 30})"
proof -
  have f: "free_cells example_ranges = {0 ..< 10} \<union> {20 ..< 30}"
    by (simp add: free_cells_def example_ranges_inv cells_def)
  have fit: "8 dvd (0::nat) \<and> {0 ..< 0 + 4} \<subseteq> free_cells example_ranges" using f by auto
  from range_alloc_exact [OF example_ranges_inv(1), of 8 4 id] obtain res a' where
    r: "allocate_aligned id 4 8 example_ranges = Inr (res, a')"
      "case res of None \<Rightarrow> a' = example_ranges \<and> \<not> (\<exists>s. 8 dvd s \<and> {s ..< s + 4} \<subseteq> free_cells example_ranges)
       | Some r \<Rightarrow> r_len r = 4 \<and> 8 dvd r_start r \<and> cells r \<subseteq> free_cells example_ranges \<and> free_cells a' = free_cells example_ranges - cells r \<and>
         (\<exists>r0 \<in> ranges example_ranges. cells r \<subseteq> cells r0 \<and> (\<forall>r' \<in> ranges example_ranges. fits 4 8 r' \<longrightarrow> r_len r0 \<le> r_len r'))" by auto
  show ?thesis
  proof (cases res)
    case None
    with r(2) have "\<not> (\<exists>s. 8 dvd s \<and> {s ..< s + 4} \<subseteq> free_cells example_ranges)" by simp
    with fit show ?thesis by blast
  next
    case (Some x)
    with r f example_ranges_inv(1) show ?thesis by simp
  qed
qed

subsection \<open>The increasing allocator and its users\<close>

text \<open>Users allocate, align the cursor, and free blocks they hold; the second component
  holds the blocks that were allocated and whose release has not been accepted. A refused
  release leaves the block with its holder, for good.\<close>

inductive inc_reachable :: "rng \<Rightarrow> increasing_allocator \<Rightarrow> rng set \<Rightarrow> bool" for whole where
  inc_initial: "increasing_new whole = Inr a \<Longrightarrow> inc_reachable whole a {}"
| inc_allocated: "\<lbrakk> inc_reachable whole a L; increasing_allocate_aligned len align a = Inr (r, a') \<rbrakk> \<Longrightarrow>
     inc_reachable whole a' (L \<union> set_option r)"
| inc_freed: "\<lbrakk> inc_reachable whole a L; r \<in> L; increasing_free r a = (ok, a') \<rbrakk> \<Longrightarrow>
     inc_reachable whole a' (if ok then L - {r} else L)"
| inc_aligned: "\<lbrakk> inc_reachable whole a L; align_current_to align a = Inr (c, a') \<rbrakk> \<Longrightarrow> inc_reachable whole a' L"

definition blocks_in :: "nat \<Rightarrow> nat \<Rightarrow> rng set \<Rightarrow> bool" where
  "blocks_in lo hi L \<longleftrightarrow> (\<forall>r \<in> L. 0 < r_len r \<and> lo \<le> r_start r \<and> r_start r + r_len r \<le> hi) \<and>
     (\<forall>r \<in> L. \<forall>r' \<in> L. r \<noteq> r' \<longrightarrow> r_start r + r_len r \<le> r_start r' \<or> r_start r' + r_len r' \<le> r_start r)"

definition inc_inv :: "rng \<Rightarrow> increasing_allocator \<Rightarrow> rng set \<Rightarrow> bool" where
  "inc_inv whole a L \<longleftrightarrow> inc_start a = r_start whole \<and> inc_end a = r_start whole + r_len whole \<and> inc_end a < u64_limit \<and>
     inc_start a \<le> inc_cursor a \<and> inc_cursor a \<le> inc_end a \<and>
     blocks_in (r_start whole) (inc_cursor a) L"

lemma blocks_inD:
  "blocks_in lo hi L \<Longrightarrow> r \<in> L \<Longrightarrow> 0 < r_len r \<and> lo \<le> r_start r \<and> r_start r + r_len r \<le> hi"
  "blocks_in lo hi L \<Longrightarrow> r \<in> L \<Longrightarrow> r' \<in> L \<Longrightarrow> r \<noteq> r' \<Longrightarrow> r_start r + r_len r \<le> r_start r' \<or> r_start r' + r_len r' \<le> r_start r"
  unfolding blocks_in_def by blast+

lemma blocks_in_add:
  "blocks_in lo hi L \<Longrightarrow> lo \<le> hi \<Longrightarrow> hi \<le> s \<Longrightarrow> 0 < n \<Longrightarrow> blocks_in lo (s + n) (insert (Rng s n) L)"
  unfolding blocks_in_def by force

lemma blocks_in_mono: "blocks_in lo hi L \<Longrightarrow> hi \<le> hi' \<Longrightarrow> blocks_in lo hi' L"
  unfolding blocks_in_def by force

lemma blocks_in_last:
  assumes "blocks_in lo hi L" "r \<in> L" "r_start r + r_len r = hi"
  shows "blocks_in lo (r_start r) (L - {r})"
proof -
  have "r_start x + r_len x \<le> r_start r" if "x \<in> L - {r}" for x
    using blocks_inD(2) [OF assms(1), of x r] blocks_inD(1) [OF assms(1), of x] that assms(2,3) by auto
  then show ?thesis using assms(1) unfolding blocks_in_def by blast
qed

lemma inc_blocks: "inc_inv whole a L \<Longrightarrow> blocks_in (r_start whole) (inc_cursor a) L"
  by (auto simp: inc_inv_def)

lemma inc_alloc_cases:
  assumes "inc_inv whole a L" "0 < align" "0 < len"
  shows "increasing_allocate_aligned len align a =
    (let s = next_multiple (inc_cursor a) align in
     if s + len \<le> inc_end a then Inr (Some (Rng s len), a\<lparr>inc_cursor := s + len\<rparr>) else Inr (None, a))"
  using assms by (auto simp: increasing_allocate_aligned_def align_up_eq inc_inv_def checked_add_def Let_def)

text \<open>Without an alignment the allocator fails only when it has less left than was asked for,
  and a success uses up exactly the length.\<close>

lemma next_multiple_one [simp]: "next_multiple v (Suc 0) = v"
  by (simp add: next_multiple_def)

lemma increasing_allocate_spec:
  assumes "inc_inv whole a L" "0 < len"
  shows "increasing_allocate len a =
    (if len \<le> increasing_free_size a then Inr (Some (Rng (inc_cursor a) len), a\<lparr>inc_cursor := inc_cursor a + len\<rparr>)
     else Inr (None, a))"
  using inc_alloc_cases [OF assms(1) zero_less_one assms(2)] assms(1)
  by (auto simp: increasing_allocate_def increasing_free_size_def inc_inv_def Let_def)

lemma inc_reachable_inv: "inc_reachable whole a L \<Longrightarrow> inc_inv whole a L"
proof (induction rule: inc_reachable.induct)
  case (inc_initial a)
  then show ?case by (cases "r_start whole + r_len whole < u64_limit") (auto simp: increasing_new_def padd_def inc_inv_def blocks_in_def)
next
  case (inc_allocated a L len align r a')
  show ?case
  proof (cases "align = 0 \<or> len = 0")
    case True
    with inc_allocated show ?thesis by (auto simp: increasing_allocate_aligned_def split: if_splits)
  next
    case False
    then have pos: "0 < align" "0 < len" by simp_all
    let ?s = "next_multiple (inc_cursor a) align"
    have le: "inc_cursor a \<le> ?s" using next_multiple(1) [OF pos(1)] .
    have "inc_inv whole (a\<lparr>inc_cursor := ?s + len\<rparr>) (insert (Rng ?s len) L)" if "?s + len \<le> inc_end a"
      using inc_allocated.IH that le pos(2) blocks_in_add [OF inc_blocks [OF inc_allocated.IH] _ le pos(2)] by (simp add: inc_inv_def)
    then show ?thesis
      using inc_allocated.IH inc_allocated.hyps(2) [unfolded inc_alloc_cases [OF inc_allocated.IH pos] Let_def]
      by (cases "?s + len \<le> inc_end a") auto
  qed
next
  case (inc_freed a L r ok a')
  then have inv: "inc_inv whole a L" by blast
  have r: "0 < r_len r" "inc_start a \<le> r_start r" "r_start r + r_len r \<le> inc_cursor a"
    using blocks_inD(1) [OF inc_blocks [OF inv] inc_freed.hyps(2)] inv by (simp_all add: inc_inv_def)
  have free: "increasing_free r a = (if r_start r + r_len r = inc_cursor a then (True, a\<lparr>inc_cursor := r_start r\<rparr>) else (False, a))"
    using inv r by (simp add: increasing_free_def inc_inv_def checked_add_def)
  show ?case
  proof (cases "r_start r + r_len r = inc_cursor a")
    case True
    then have "inc_inv whole (a\<lparr>inc_cursor := r_start r\<rparr>) (L - {r})"
      using inv r blocks_in_last [of "r_start whole" "inc_cursor a" L r] inc_freed.hyps(2) by (simp add: inc_inv_def)
    with inc_freed.hyps(3) [unfolded free] True show ?thesis by auto
  next
    case False
    with inc_freed.hyps(3) [unfolded free] inv show ?thesis by auto
  qed
next
  case (inc_aligned a L align c a')
  then have inv: "inc_inv whole a L" and pos: "0 < align" by (auto simp: align_current_to_def split: if_splits)
  let ?s = "next_multiple (inc_cursor a) align"
  have "inc_cursor a < u64_limit" using inv by (simp add: inc_inv_def)
  then have "align_current_to align a = (if ?s \<le> inc_end a then Inr (Some ?s, a\<lparr>inc_cursor := ?s\<rparr>) else Inr (None, a))"
    using pos inv by (auto simp: align_current_to_def align_up_eq inc_inv_def)
  moreover have "inc_inv whole (a\<lparr>inc_cursor := ?s\<rparr>) L" if "?s \<le> inc_end a"
    using inv that next_multiple(1) [OF pos, of "inc_cursor a"] blocks_in_mono [of "r_start whole" "inc_cursor a" L ?s] by (simp add: inc_inv_def)
  ultimately show ?case using inc_aligned.hyps(2) inv by (cases "?s \<le> inc_end a") auto
qed

text \<open>C37: The blocks that users of an increasing allocator hold are always disjoint and
  inside its range, whatever they free and in whatever order: a release that is not of the
  last block is refused and harms nobody. An allocation succeeds exactly when an aligned
  block of the length fits behind the cursor, and it is the first such block.\<close>

theorem increasing_exact:
  assumes "inc_reachable whole a L" "0 < align" "0 < len"
  shows "(\<forall>r \<in> L. cells r \<subseteq> cells whole) \<and> (\<forall>r \<in> L. \<forall>r' \<in> L. r \<noteq> r' \<longrightarrow> cells r \<inter> cells r' = {}) \<and>
    (\<exists>res a'. increasing_allocate_aligned len align a = Inr (res, a') \<and>
      (case res of
         None \<Rightarrow> \<not> (\<exists>s. align dvd s \<and> inc_cursor a \<le> s \<and> s + len \<le> inc_end a)
       | Some r \<Rightarrow> r_len r = len \<and> align dvd r_start r \<and> inc_cursor a \<le> r_start r \<and> r_start r + len \<le> inc_end a \<and>
           (\<forall>s. align dvd s \<and> inc_cursor a \<le> s \<longrightarrow> r_start r \<le> s)))"
proof -
  have inv: "inc_inv whole a L" using inc_reachable_inv [OF assms(1)] .
  note nm = next_multiple [OF assms(2), where v = "inc_cursor a"]
  have "cells r \<subseteq> cells whole" if "r \<in> L" for r 
    using inv blocks_inD(1) [of "r_start whole" "inc_cursor a" L r] that by (auto simp: inc_inv_def cells_def)
  moreover have "cells r \<inter> cells r' = {}" if "r \<in> L" "r' \<in> L" "r \<noteq> r'" for r r'
  proof -
    from inv that have "r_start r + r_len r \<le> r_start r' \<or> r_start r' + r_len r' \<le> r_start r"
      using blocks_inD(2) [OF inc_blocks] by blast
    then show ?thesis by (auto simp: cells_def)
  qed
  moreover have "\<not> (\<exists>s. align dvd s \<and> inc_cursor a \<le> s \<and> s + len \<le> inc_end a)" if "\<not> next_multiple (inc_cursor a) align + len \<le> inc_end a"
    using nm(3) that by (meson add_le_mono1 order_trans)
  ultimately show ?thesis using nm by (simp add: inc_alloc_cases [OF inv assms(2,3)] Let_def)
qed

theorem increasing_exact_witness:
  "\<exists>res a'. increasing_allocate_aligned 8 8 \<lparr>inc_start = 3, inc_end = 43, inc_cursor = 3\<rparr> = Inr (Some res, a') \<and> 8 dvd r_start res"
proof -
  have "inc_reachable (Rng 3 40) \<lparr>inc_start = 3, inc_end = 43, inc_cursor = 3\<rparr> {}"
    by (rule inc_initial) (simp add: increasing_new_def padd_def)
  from increasing_exact [OF this, of 8 8] obtain res a' where
    r: "increasing_allocate_aligned 8 8 \<lparr>inc_start = 3, inc_end = 43, inc_cursor = 3\<rparr> = Inr (res, a')"
      "case res of None \<Rightarrow> \<not> (\<exists>s::nat. 8 dvd s \<and> 3 \<le> s \<and> s + 8 \<le> 43) | Some r \<Rightarrow> 8 dvd r_start r"
    by (auto split: option.splits)
  show ?thesis
  proof (cases res)
    case None
    then have "\<not> (\<exists>s::nat. 8 dvd s \<and> 3 \<le> s \<and> s + 8 \<le> 43)" using r(2) by simp
    moreover have "8 dvd (8::nat) \<and> 3 \<le> (8::nat) \<and> 8 + 8 \<le> (43::nat)" by simp
    ultimately show ?thesis by blast
  qed (use r in auto)
qed

end
