(* ===== verification/Io_Remap.thy ===== *)
theory Io_Remap
  imports Range_Allocator
begin

text \<open>
  The kernel's remapping of device memory (\<open>mm/remap.rs\<close>): a table of the physical ranges
  in use and an allocator of virtual page ranges. The page table update \<open>kmap\<close> is seen
  through its result, an argument of \<open>ioremap\<close>; the number of bits of a page offset is the
  parameter \<open>bits\<close>.
\<close>

subsection \<open>Requests\<close>

record io_range =
  io_start :: nat
  io_len :: nat

definition io_range_try_new :: "nat \<Rightarrow> nat \<Rightarrow> sys_error + io_range" where
  "io_range_try_new start len =
     (if len = 0 then Inl InvalidArgument
      else case checked_add start len of
          None \<Rightarrow> Inl InvalidArgument
        | Some _ \<Rightarrow> Inr \<lparr>io_start = start, io_len = len\<rparr>)"

definition io_end :: "io_range \<Rightarrow> fault + nat" where
  "io_end r = (case checked_add (io_start r) (io_len r) of None \<Rightarrow> Inl Assert_Panic | Some e \<Rightarrow> Inr e)"

definition io_intersects :: "io_range \<Rightarrow> io_range \<Rightarrow> fault + bool" where
  "io_intersects a b =
     (case io_end b of
        Inl f \<Rightarrow> Inl f
      | Inr b_end \<Rightarrow>
          if io_start a < b_end then map_sum id (\<lambda>a_end. io_start b < a_end) (io_end a) else Inr False)"

definition page_up :: "nat \<Rightarrow> nat \<Rightarrow> fault + nat" where
  "page_up bits addr = map_sum id (\<lambda>x. (x - 1) div 2 ^ bits) (padd addr (2 ^ bits))"

definition page_down :: "nat \<Rightarrow> nat \<Rightarrow> nat" where
  "page_down bits addr = addr div 2 ^ bits"

definition page_offset :: "nat \<Rightarrow> nat \<Rightarrow> nat" where
  "page_offset bits addr = addr mod 2 ^ bits"

definition to_virt_addr :: "nat \<Rightarrow> nat \<Rightarrow> nat" where
  "to_virt_addr bits vpn = vpn * 2 ^ bits mod u64_limit"

definition to_page_range :: "nat \<Rightarrow> io_range \<Rightarrow> fault + rng" where
  "to_page_range bits r =
     (case io_end r of
        Inl f \<Rightarrow> Inl f
      | Inr fin \<Rightarrow>
          map_sum id (\<lambda>up. Rng (page_down bits (io_start r)) (up - page_down bits (io_start r))) (page_up bits fin))"

subsection \<open>The tables\<close>

record io_remap_entry =
  en_req :: io_range
  en_virt :: rng

record sys_remaps =
  rm_ranges :: range_allocator
  io_remapped :: "(nat, io_remap_entry) bt_map"

definition remaps_alloc :: "(rng list \<Rightarrow> rng list) \<Rightarrow> nat \<Rightarrow> sys_remaps \<Rightarrow> fault + rng option \<times> sys_remaps" where
  "remaps_alloc iter npages s = map_sum id (\<lambda>(r, a). (r, s\<lparr>rm_ranges := a\<rparr>)) (range_allocate iter npages (rm_ranges s))"

definition remaps_free :: "nat \<Rightarrow> nat \<Rightarrow> sys_remaps \<Rightarrow> fault + (sys_error + unit) \<times> sys_remaps" where
  "remaps_free start npages s =
     map_sum id (\<lambda>(r, a). (map_sum (\<lambda>_. InvalidArgument) id r, s\<lparr>rm_ranges := a\<rparr>)) (range_free (Rng start npages) (rm_ranges s))"

text \<open>The neighbours at or below, and at or above, the start of the request.\<close>

definition check_neighbour :: "io_range \<Rightarrow> (nat \<times> io_remap_entry) option \<Rightarrow> fault + io_remap_entry option" where
  "check_neighbour req n =
     (case n of
        None \<Rightarrow> Inr None
      | Some (_, en) \<Rightarrow> map_sum id (\<lambda>b. if b then Some en else None) (io_intersects (en_req en) req))"

definition find_io_overlap :: "io_range \<Rightarrow> sys_remaps \<Rightarrow> fault + io_remap_entry option" where
  "find_io_overlap req s =
     (case check_neighbour req (last_opt (bt_upto (io_start req) (io_remapped s))) of
        Inl f \<Rightarrow> Inl f
      | Inr (Some en) \<Rightarrow> Inr (Some en)
      | Inr None \<Rightarrow> check_neighbour req (first_opt (bt_from (io_start req) (io_remapped s))))"

definition remaps_ioremap ::
  "(rng list \<Rightarrow> rng list) \<Rightarrow> nat \<Rightarrow> (sys_error + unit) \<Rightarrow> io_range \<Rightarrow> sys_remaps \<Rightarrow>
   fault + (sys_error + nat \<times> rng) \<times> sys_remaps" where
  "remaps_ioremap iter bits kmap req s =
     (case find_io_overlap req s of
        Inl f \<Rightarrow> Inl f
      | Inr (Some _) \<Rightarrow> Inr (Inl AlreadyMapped, s)
      | Inr None \<Rightarrow>
          (case to_page_range bits req of
             Inl f \<Rightarrow> Inl f
           | Inr phys \<Rightarrow>
               (case remaps_alloc iter (r_len phys) s of
                  Inl f \<Rightarrow> Inl f
                | Inr (None, s1) \<Rightarrow> Inr (Inl OutOfMemory, s1)
                | Inr (Some virt, s1) \<Rightarrow>
                    (case kmap of
                       Inl e \<Rightarrow>
                         (case remaps_free (r_start virt) (r_len virt) s1 of
                            Inl f \<Rightarrow> Inl f
                          | Inr (Inl _, _) \<Rightarrow> Inl Assert_Panic
                          | Inr (Inr _, s2) \<Rightarrow> Inr (Inl e, s2))
                     | Inr _ \<Rightarrow>
                         if bt_get (io_remapped s1) (io_start req) \<noteq> None then Inl Assert_Panic
                         else map_sum id (\<lambda>vaddr. (Inr (vaddr, virt),
                           s1\<lparr>io_remapped := bt_insert (io_start req) \<lparr>en_req = req, en_virt = virt\<rparr> (io_remapped s1)\<rparr>))
                           (padd (to_virt_addr bits (r_start virt)) (page_offset bits (io_start req)))))))"

definition remaps_iounmap :: "io_range \<Rightarrow> sys_remaps \<Rightarrow> fault + (sys_error + unit) \<times> sys_remaps" where
  "remaps_iounmap req s =
     (case bt_get (io_remapped s) (io_start req) of
        None \<Rightarrow> Inr (Inl NotMapped, s)
      | Some en \<Rightarrow>
          if en_req en \<noteq> req then Inr (Inl InvalidArgument, s)
          else
            (case remaps_free (r_start (en_virt en)) (r_len (en_virt en))
                    (s\<lparr>io_remapped := bt_remove (io_start req) (io_remapped s)\<rparr>) of
               Inl f \<Rightarrow> Inl f
             | Inr (Inl _, _) \<Rightarrow> Inl Assert_Panic
             | Inr (Inr _, s') \<Rightarrow> Inr (Inr (), s')))"

text \<open>The public entry points: \<open>ioremap\<close> checks the request first; dropping a mapping
  expects the unmapping to succeed.\<close>

definition ioremap ::
  "(rng list \<Rightarrow> rng list) \<Rightarrow> nat \<Rightarrow> (sys_error + unit) \<Rightarrow> nat \<Rightarrow> nat \<Rightarrow> sys_remaps \<Rightarrow>
   fault + (sys_error + nat \<times> io_range) \<times> sys_remaps" where
  "ioremap iter bits kmap start len s =
     (case io_range_try_new start len of
        Inl e \<Rightarrow> Inr (Inl e, s)
      | Inr req \<Rightarrow> map_sum id (\<lambda>(r, s'). (map_sum id (\<lambda>(vaddr, _). (vaddr, req)) r, s')) (remaps_ioremap iter bits kmap req s))"

definition io_remap_drop :: "io_range \<Rightarrow> sys_remaps \<Rightarrow> fault + sys_remaps" where
  "io_remap_drop req s =
     (case remaps_iounmap req s of
        Inl f \<Rightarrow> Inl f
      | Inr (Inl _, _) \<Rightarrow> Inl Assert_Panic
      | Inr (Inr _, s') \<Rightarrow> Inr s')"

definition sys_remaps_new :: "nat \<Rightarrow> nat \<Rightarrow> fault + sys_remaps" where
  "sys_remaps_new start npages =
     (case remaps_free start npages \<lparr>rm_ranges = range_allocator_new, io_remapped = []\<rparr> of
        Inl f \<Rightarrow> Inl f
      | Inr (Inl _, _) \<Rightarrow> Inl Assert_Panic
      | Inr (Inr _, s) \<Rightarrow> Inr s)"

subsection \<open>Overlap\<close>

definition io_valid :: "io_range \<Rightarrow> bool" where
  "io_valid r \<longleftrightarrow> 0 < io_len r \<and> io_start r + io_len r < u64_limit"

definition io_overlap :: "io_range \<Rightarrow> io_range \<Rightarrow> bool" where
  "io_overlap a b \<longleftrightarrow> io_start a < io_start b + io_len b \<and> io_start b < io_start a + io_len a"

definition entries_ok :: "(nat, io_remap_entry) bt_map \<Rightarrow> bool" where
  "entries_ok m \<longleftrightarrow> bt_ok m \<and> (\<forall>e \<in> set m. fst e = io_start (en_req (snd e)) \<and> io_valid (en_req (snd e))) \<and>
     (\<forall>e \<in> set m. \<forall>e' \<in> set m. e = e' \<or> \<not> io_overlap (en_req (snd e)) (en_req (snd e')))"

lemma io_end_valid [simp]: "io_valid r \<Longrightarrow> io_end r = Inr (io_start r + io_len r)"
  by (simp add: io_end_def io_valid_def checked_add_def)

lemma io_intersects_valid: "io_valid a \<Longrightarrow> io_valid b \<Longrightarrow> io_intersects a b = Inr (io_overlap a b)"
  by (simp add: io_intersects_def io_overlap_def)

lemma entriesD:
  assumes "entries_ok m" "e \<in> set m"
  shows "fst e = io_start (en_req (snd e))" "io_valid (en_req (snd e))"
    "e' \<in> set m \<Longrightarrow> e = e' \<or> \<not> io_overlap (en_req (snd e)) (en_req (snd e'))"
  using assms unfolding entries_ok_def by blast+

lemma check_neighbour_valid:
  assumes "entries_ok m" "io_valid req" "\<And>e. n = Some e \<Longrightarrow> e \<in> set m"
  shows "check_neighbour req n = Inr (case n of None \<Rightarrow> None
    | Some e \<Rightarrow> if io_overlap (en_req (snd e)) req then Some (snd e) else None)"
  using entriesD(2) [OF assms(1)] assms(2,3)
  by (cases n) (auto simp: check_neighbour_def io_intersects_valid case_prod_beta)

text \<open>Among disjoint ranges it is enough to look at the two neighbours.\<close>

lemma neighbours_enough:
  assumes "entries_ok m" "io_valid req" "x \<in> set m" "io_overlap (en_req (snd x)) req"
  shows "(\<exists>e. last_opt (bt_upto (io_start req) m) = Some e \<and> io_overlap (en_req (snd e)) req) \<or>
    (\<exists>e. first_opt (bt_from (io_start req) m) = Some e \<and> io_overlap (en_req (snd e)) req)"
proof -
  have ok: "bt_ok m" using assms(1) by (simp add: entries_ok_def)
  let ?k = "io_start req"
  note x = entriesD(1) [OF assms(1,3)]
  show ?thesis
  proof (cases "fst x \<le> ?k")
    case True
    then have "last_opt (bt_upto ?k m) \<noteq> None" using upto_entry(1) [OF ok, of ?k] assms(3) by (meson not_less)
    then obtain e where e: "last_opt (bt_upto ?k m) = Some e" by blast
    from upto_entry(2) [OF ok e] have p: "e \<in> set m" "fst e \<le> ?k" and all: "\<forall>x \<in> set m. ?k < fst x \<or> x = e \<or> fst x < fst e"
      by blast+
    from bspec [OF all assms(3)] True have px: "x = e \<or> fst x < fst e" by (meson leD)
    have "x = e"
    proof (rule ccontr)
      assume "x \<noteq> e"
      with px have "fst x < fst e" by simp
      with assms(4) p(2) entriesD(1,2) [OF assms(1) p(1)] x have "io_overlap (en_req (snd x)) (en_req (snd e))"
        by (simp add: io_overlap_def io_valid_def)
      with entriesD(3) [OF assms(1,3) p(1)] \<open>x \<noteq> e\<close> show False by blast
    qed
    with e assms(4) show ?thesis by blast
  next
    case False
    then have "first_opt (bt_from ?k m) \<noteq> None" using next_entry(1) [OF ok, of ?k] assms(3) by (meson leI less_le_not_le not_less)
    then obtain e where e: "first_opt (bt_from ?k m) = Some e" by blast
    from next_entry(2) [OF ok e] False assms(3) have p: "e \<in> set m" "?k \<le> fst e" "x = e \<or> fst e < fst x" by auto
    have "io_overlap (en_req (snd e)) req"
      using p assms(4) x entriesD(1,2) [OF assms(1) p(1)] by (auto simp: io_overlap_def io_valid_def)
    with e show ?thesis by blast
  qed
qed

lemma find_io_overlap_spec:
  assumes "entries_ok (io_remapped s)" "io_valid req"
  shows "\<exists>res. find_io_overlap req s = Inr res \<and>
    (case res of None \<Rightarrow> \<forall>e \<in> set (io_remapped s). \<not> io_overlap (en_req (snd e)) req
     | Some en \<Rightarrow> en \<in> snd ` set (io_remapped s) \<and> io_overlap (en_req en) req)"
proof -
  let ?m = "io_remapped s" and ?k = "io_start req"
  have ok: "bt_ok ?m" using assms(1) by (simp add: entries_ok_def)
  have prev: "e \<in> set ?m" if "last_opt (bt_upto ?k ?m) = Some e" for e using upto_entry(2) [OF ok that] by blast
  have nxt: "e \<in> set ?m" if "first_opt (bt_from ?k ?m) = Some e" for e using next_entry(2) [OF ok that] by blast
  note check = check_neighbour_valid [OF assms]
  show ?thesis
    using neighbours_enough [OF assms] prev nxt unfolding find_io_overlap_def
    by (auto simp: check [OF prev] check [OF nxt] split: option.split) (force simp: image_iff)+
qed

subsection \<open>All users of the remap region\<close>

text \<open>Drivers map and drop device ranges, the kernel takes and returns page ranges for
  its own mappings. The ghost component holds the page ranges handed out that way. A
  driver asks only for ranges whose last page ends in the address space.\<close>

record remap_sys =
  rs_remaps :: sys_remaps
  rs_owned :: "rng set"

definition do_free_virt :: "rng \<Rightarrow> remap_sys \<Rightarrow> fault + remap_sys" where
  "do_free_virt r s =
     (case remaps_free (r_start r) (r_len r) (rs_remaps s) of
        Inl f \<Rightarrow> Inl f
      | Inr (Inl _, _) \<Rightarrow> Inl Assert_Panic
      | Inr (Inr _, m) \<Rightarrow> Inr (s\<lparr>rs_remaps := m, rs_owned := rs_owned s - {r}\<rparr>))"

inductive remap_step :: "(rng list \<Rightarrow> rng list) \<Rightarrow> nat \<Rightarrow> remap_sys \<Rightarrow> fault + remap_sys \<Rightarrow> bool" for iter bits where
  map_device: "start + len + 2 ^ bits < u64_limit \<Longrightarrow>
     remap_step iter bits s (map_sum id (\<lambda>(_, m). s\<lparr>rs_remaps := m\<rparr>) (ioremap iter bits kmap start len (rs_remaps s)))"
| drop_device: "e \<in> set (io_remapped (rs_remaps s)) \<Longrightarrow>
     remap_step iter bits s (map_sum id (\<lambda>m. s\<lparr>rs_remaps := m\<rparr>) (io_remap_drop (en_req (snd e)) (rs_remaps s)))"
| take_pages: "remap_step iter bits s
     (map_sum id (\<lambda>(r, m). s\<lparr>rs_remaps := m, rs_owned := rs_owned s \<union> set_option r\<rparr>) (remaps_alloc iter n (rs_remaps s)))"
| return_pages: "r \<in> rs_owned s \<Longrightarrow> remap_step iter bits s (do_free_virt r s)"

inductive remap_reachable :: "(rng list \<Rightarrow> rng list) \<Rightarrow> nat \<Rightarrow> rng \<Rightarrow> remap_sys \<Rightarrow> bool" for iter bits region where
  remap_initial: "sys_remaps_new (r_start region) (r_len region) = Inr m \<Longrightarrow>
     remap_reachable iter bits region \<lparr>rs_remaps = m, rs_owned = {}\<rparr>"
| remap_stepped: "\<lbrakk> remap_reachable iter bits region s; remap_step iter bits s (Inr s') \<rbrakk> \<Longrightarrow>
     remap_reachable iter bits region s'"

text \<open>The page ranges in use, each with its holder: a device range by the start of the
  request, or the kernel.\<close>

definition in_use :: "remap_sys \<Rightarrow> (nat option \<times> rng) set" where
  "in_use s = (\<lambda>e. (Some (fst e), en_virt (snd e))) ` set (io_remapped (rs_remaps s)) \<union> Pair None ` rs_owned s"

definition partitioned :: "nat set \<Rightarrow> (nat option \<times> rng) set \<Rightarrow> nat set \<Rightarrow> bool" where
  "partitioned F T R \<longleftrightarrow>
     (\<forall>x \<in> T. 0 < r_len (snd x) \<and> r_start (snd x) + r_len (snd x) < u64_limit \<and> cells (snd x) \<inter> F = {}) \<and>
     (\<forall>x \<in> T. \<forall>y \<in> T. x = y \<or> cells (snd x) \<inter> cells (snd y) = {}) \<and>
     F \<union> \<Union> ((cells \<circ> snd) ` T) = R"

definition remap_inv :: "rng \<Rightarrow> remap_sys \<Rightarrow> bool" where
  "remap_inv region s \<longleftrightarrow> ra_inv (rm_ranges (rs_remaps s)) \<and> entries_ok (io_remapped (rs_remaps s)) \<and>
     partitioned (free_cells (rm_ranges (rs_remaps s))) (in_use s) (cells region)"

lemma partitionedD:
  assumes "partitioned F T R" "x \<in> T"
  shows "0 < r_len (snd x)" "r_start (snd x) + r_len (snd x) < u64_limit" "cells (snd x) \<inter> F = {}"
    "y \<in> T \<Longrightarrow> x \<noteq> y \<Longrightarrow> cells (snd x) \<inter> cells (snd y) = {}"
  using assms unfolding partitioned_def by blast+

lemma partitioned_take:
  assumes "partitioned F T R" "cells r \<subseteq> F" "0 < r_len r" "r_start r + r_len r < u64_limit"
  shows "partitioned (F - cells r) (insert (h, r) T) R"
proof -
  have "cells r \<inter> cells (snd x) = {}" if "x \<in> T" for x using partitionedD(3) [OF assms(1) that] assms(2) by blast
  moreover have "F - cells r \<union> \<Union> ((cells \<circ> snd) ` insert (h, r) T) = F \<union> \<Union> ((cells \<circ> snd) ` T)"
    using assms(2) by auto
  ultimately show ?thesis using assms unfolding partitioned_def by (simp add: Int_commute) blast
qed

lemma partitioned_give:
  assumes "partitioned F T R" "x \<in> T"
  shows "partitioned (F \<union> cells (snd x)) (T - {x}) R"
proof -
  have "F \<union> cells (snd x) \<union> \<Union> ((cells \<circ> snd) ` (T - {x})) = F \<union> \<Union> ((cells \<circ> snd) ` T)" using assms(2) by auto
  moreover have "cells (snd y) \<inter> (F \<union> cells (snd x)) = {}" if "y \<in> T - {x}" for y
    using partitionedD(3) [OF assms(1), of y] partitionedD(4) [OF assms(1), of y x] assms(2) that by blast
  ultimately show ?thesis using assms(1) unfolding partitioned_def by simp
qed

lemma in_use_insert:
  assumes "bt_ok (io_remapped m)" "\<And>e. e \<in> set (io_remapped m) \<Longrightarrow> fst e \<noteq> k"
  shows "in_use (s\<lparr>rs_remaps := m\<lparr>rm_ranges := a, io_remapped := bt_insert k en (io_remapped m)\<rparr>\<rparr>) =
    insert (Some k, en_virt en) (in_use (s\<lparr>rs_remaps := m\<rparr>))"
proof -
  have "{e \<in> set (io_remapped m). fst e \<noteq> k} = set (io_remapped m)" using assms(2) by blast
  then show ?thesis using assms(1) by (simp add: in_use_def set_bt_insert)
qed

lemma in_use_remove:
  assumes "bt_ok (io_remapped m)" "(k, en) \<in> set (io_remapped m)"
  shows "in_use (s\<lparr>rs_remaps := m\<lparr>io_remapped := bt_remove k (io_remapped m), rm_ranges := a\<rparr>\<rparr>) =
    in_use (s\<lparr>rs_remaps := m\<rparr>) - {(Some k, en_virt en)}"
proof -
  have "fst e \<noteq> k \<longleftrightarrow> (Some (fst e), en_virt (snd e)) \<noteq> (Some k, en_virt en)" if "e \<in> set (io_remapped m)" for e
    using bt_ok_key [OF assms(1), of k en "snd e"] assms(2) that by (cases e) auto
  then show ?thesis by (auto simp: in_use_def)
qed

subsection \<open>The operations on the region\<close>

lemma remaps_alloc_spec:
  assumes "ra_inv (rm_ranges m)" "\<And>xs. set (iter xs) = set xs"
  obtains r a where "remaps_alloc iter n m = Inr (r, m\<lparr>rm_ranges := a\<rparr>)" "ra_inv a"
    "case r of None \<Rightarrow> a = rm_ranges m
     | Some x \<Rightarrow> 0 < r_len x \<and> r_start x + r_len x < u64_limit \<and> cells x \<subseteq> free_cells (rm_ranges m) \<and>
         free_cells a = free_cells (rm_ranges m) - cells x"
proof (cases "n = 0")
  case True
  then show ?thesis using that [of None "rm_ranges m"] assms(1) by (simp add: remaps_alloc_def range_allocate_def allocate_aligned_def)
next
  case False
  from allocate_spec [OF assms(1) _ _ assms(2), of 1 n] False obtain r a where
    r: "range_allocate iter n (rm_ranges m) = Inr (r, a)" "ra_inv a"
      "case r of None \<Rightarrow> a = rm_ranges m \<and> \<not> (\<exists>s. 1 dvd s \<and> {s ..< s + n} \<subseteq> free_cells (rm_ranges m))
       | Some x \<Rightarrow> r_len x = n \<and> 1 dvd r_start x \<and> cells x \<subseteq> free_cells (rm_ranges m) \<and> free_cells a = free_cells (rm_ranges m) - cells x \<and>
           (\<exists>r0 \<in> ranges (rm_ranges m). cells x \<subseteq> cells r0 \<and> (\<forall>r' \<in> ranges (rm_ranges m). fits n 1 r' \<longrightarrow> r_len r0 \<le> r_len r'))"
    by (auto simp: range_allocate_def)
  have lim: "r_start x + r_len x < u64_limit" if "cells x \<subseteq> cells r0" "r0 \<in> ranges (rm_ranges m)" "0 < r_len x" for x r0
  proof -
    have "r_start x + r_len x - 1 \<in> cells x" using that(3) by (simp add: cells_def)
    then have "r_start x + r_len x - 1 < r_start r0 + r_len r0" using that(1) by (auto simp: cells_def)
    with separatedD(2) [OF _ that(2)] assms(1) that(3) show ?thesis by (fastforce simp: ra_inv_def)
  qed
  have "remaps_alloc iter n m = Inr (r, m\<lparr>rm_ranges := a\<rparr>)" using r(1) by (simp add: remaps_alloc_def)
  then show ?thesis
  proof (rule that [OF _ r(2)])
    show "case r of None \<Rightarrow> a = rm_ranges m
     | Some x \<Rightarrow> 0 < r_len x \<and> r_start x + r_len x < u64_limit \<and> cells x \<subseteq> free_cells (rm_ranges m) \<and>
         free_cells a = free_cells (rm_ranges m) - cells x"
      using r(3) lim False by (cases r) auto
  qed
qed

lemma remaps_free_spec:
  assumes "ra_inv (rm_ranges m)" "r_start r + r_len r < u64_limit" "cells r \<inter> free_cells (rm_ranges m) = {}"
  obtains a where "remaps_free (r_start r) (r_len r) m = Inr (Inr (), m\<lparr>rm_ranges := a\<rparr>)" "ra_inv a"
    "free_cells a = free_cells (rm_ranges m) \<union> cells r"
proof -
  from free_spec [OF assms(1,2)] assms(3) obtain a where "range_free r (rm_ranges m) = Inr (Inr (), a)" "ra_inv a"
    "free_cells a = free_cells (rm_ranges m) \<union> cells r" by (auto simp: Int_commute)
  then show ?thesis using that [of a] by (cases r) (simp add: remaps_free_def)
qed

definition remap_keeps :: "rng \<Rightarrow> fault + remap_sys \<Rightarrow> bool" where
  "remap_keeps region res \<longleftrightarrow> (\<exists>s. res = Inr s \<and> remap_inv region s)"

lemma remap_keeps_Inr [simp]: "remap_keeps region (Inr s) \<longleftrightarrow> remap_inv region s"
  by (simp add: remap_keeps_def)

lemma remap_invD:
  assumes "remap_inv region s"
  shows "ra_inv (rm_ranges (rs_remaps s))" "entries_ok (io_remapped (rs_remaps s))" "bt_ok (io_remapped (rs_remaps s))"
    "partitioned (free_cells (rm_ranges (rs_remaps s))) (in_use s) (cells region)"
  using assms by (simp_all add: remap_inv_def entries_ok_def)

lemma keeps_take:
  assumes "remap_inv region s" "\<And>xs. set (iter xs) = set xs"
  shows "remap_keeps region
    (map_sum id (\<lambda>(r, m). s\<lparr>rs_remaps := m, rs_owned := rs_owned s \<union> set_option r\<rparr>) (remaps_alloc iter n (rs_remaps s)))"
proof -
  note inv = remap_invD [OF assms(1)]
  from remaps_alloc_spec [OF inv(1) assms(2), of n] obtain r a where
    r: "remaps_alloc iter n (rs_remaps s) = Inr (r, (rs_remaps s)\<lparr>rm_ranges := a\<rparr>)" "ra_inv a"
    "case r of None \<Rightarrow> a = rm_ranges (rs_remaps s)
     | Some x \<Rightarrow> 0 < r_len x \<and> r_start x + r_len x < u64_limit \<and> cells x \<subseteq> free_cells (rm_ranges (rs_remaps s)) \<and>
         free_cells a = free_cells (rm_ranges (rs_remaps s)) - cells x" .
  show ?thesis
  proof (cases r)
    case None
    with r assms(1) show ?thesis by (simp add: remap_inv_def in_use_def)
  next
    case (Some x)
    have "in_use (s\<lparr>rs_remaps := (rs_remaps s)\<lparr>rm_ranges := a\<rparr>, rs_owned := insert x (rs_owned s)\<rparr>) = insert (None, x) (in_use s)"
      by (simp add: in_use_def)
    with Some r inv partitioned_take [OF inv(4), of x None] show ?thesis by (simp add: remap_inv_def)
  qed
qed

lemma keeps_return:
  assumes "remap_inv region s" "r \<in> rs_owned s"
  shows "remap_keeps region (do_free_virt r s)"
proof -
  note inv = remap_invD [OF assms(1)]
  have use: "(None, r) \<in> in_use s" using assms(2) by (simp add: in_use_def)
  have "r_start r + r_len r < u64_limit" "cells r \<inter> free_cells (rm_ranges (rs_remaps s)) = {}"
    using partitionedD(2,3) [OF inv(4) use] by simp_all
  from remaps_free_spec [OF inv(1) this] obtain a where
    a: "remaps_free (r_start r) (r_len r) (rs_remaps s) = Inr (Inr (), (rs_remaps s)\<lparr>rm_ranges := a\<rparr>)" "ra_inv a"
      "free_cells a = free_cells (rm_ranges (rs_remaps s)) \<union> cells r" .
  have "in_use (s\<lparr>rs_remaps := (rs_remaps s)\<lparr>rm_ranges := a\<rparr>, rs_owned := rs_owned s - {r}\<rparr>) = in_use s - {(None, r)}"
    by (auto simp: in_use_def)
  with a inv partitioned_give [OF inv(4) use] show ?thesis by (simp add: do_free_virt_def remap_inv_def)
qed

lemma entries_remove: "entries_ok m \<Longrightarrow> entries_ok (bt_remove k m)"
  unfolding entries_ok_def by simp

lemma keeps_drop:
  assumes "remap_inv region s" "e \<in> set (io_remapped (rs_remaps s))"
  shows "remap_keeps region (map_sum id (\<lambda>m. s\<lparr>rs_remaps := m\<rparr>) (io_remap_drop (en_req (snd e)) (rs_remaps s)))"
proof -
  note inv = remap_invD [OF assms(1)]
  let ?k = "io_start (en_req (snd e))" and ?r = "en_virt (snd e)" and ?m = "rs_remaps s"
  have mem: "(?k, snd e) \<in> set (io_remapped ?m)" using entriesD(1) [OF inv(2) assms(2)] assms(2) by (metis prod.collapse)
  then have get: "bt_get (io_remapped ?m) ?k = Some (snd e)" using inv(3) by simp
  let ?m1 = "?m\<lparr>io_remapped := bt_remove ?k (io_remapped ?m)\<rparr>"
  have use: "(Some ?k, ?r) \<in> in_use s" 
    unfolding in_use_def using mem by (intro UnI1 image_eqI [where x = "(?k, snd e)"]) simp_all
  have "ra_inv (rm_ranges ?m1)" "r_start ?r + r_len ?r < u64_limit" "cells ?r \<inter> free_cells (rm_ranges ?m1) = {}"
    using inv(1) partitionedD(2,3) [OF inv(4) use] by simp_all
  from remaps_free_spec [OF this] obtain a where
    a: "remaps_free (r_start ?r) (r_len ?r) ?m1 = Inr (Inr (), ?m1\<lparr>rm_ranges := a\<rparr>)" "ra_inv a"
      "free_cells a = free_cells (rm_ranges ?m) \<union> cells ?r" by auto
  have drop: "io_remap_drop (en_req (snd e)) ?m = Inr (?m1\<lparr>rm_ranges := a\<rparr>)"
    using get a(1) by (simp add: io_remap_drop_def remaps_iounmap_def)
  have "in_use (s\<lparr>rs_remaps := ?m1\<lparr>rm_ranges := a\<rparr>\<rparr>) = in_use s - {(Some ?k, ?r)}"
    using in_use_remove [OF inv(3) mem, where s = s and a = a] by simp
  with drop a inv partitioned_give [OF inv(4) use] show ?thesis by (simp add: remap_inv_def entries_remove)
qed

lemma io_overlap_sym: "io_overlap a b \<longleftrightarrow> io_overlap b a"
  by (auto simp: io_overlap_def)

lemma entries_insert:
  assumes "entries_ok m" "io_valid req" "\<forall>e \<in> set m. \<not> io_overlap (en_req (snd e)) req"
  shows "\<And>e. e \<in> set m \<Longrightarrow> fst e \<noteq> io_start req"
    "entries_ok (bt_insert (io_start req) \<lparr>en_req = req, en_virt = v\<rparr> m)"
proof -
  show ne: "fst e \<noteq> io_start req" if "e \<in> set m" for e
    using entriesD(1,2) [OF assms(1) that] bspec [OF assms(3) that] assms(2) by (auto simp: io_overlap_def io_valid_def)
  have ok: "bt_ok m" using assms(1) by (simp add: entries_ok_def)
  have "{e \<in> set m. fst e \<noteq> io_start req} = set m" using ne by blast
  then have set: "set (bt_insert (io_start req) \<lparr>en_req = req, en_virt = v\<rparr> m) = insert (io_start req, \<lparr>en_req = req, en_virt = v\<rparr>) (set m)"
    using ok by (simp add: set_bt_insert)
  have sym: "\<forall>e \<in> set m. \<not> io_overlap req (en_req (snd e))" using assms(3) io_overlap_sym by blast
  show "entries_ok (bt_insert (io_start req) \<lparr>en_req = req, en_virt = v\<rparr> m)"
    using assms ok sym unfolding entries_ok_def set by simp
qed

lemma virt_addr_fits:
  assumes "2 ^ bits < u64_limit"
  shows "to_virt_addr bits vpn + page_offset bits addr < u64_limit"
proof -
  have "bits < 64" using assms power_less_imp_less_exp [of "2 :: nat" bits 64] by simp
  then obtain k where k: "64 = bits + k" by (metis less_imp_add_positive)
  have "vpn * 2 ^ bits mod 2 ^ (bits + k) = (vpn mod 2 ^ k) * 2 ^ bits"
    by (simp only: mult_mod_left power_add mult.commute [of "2 ^ bits" "2 ^ k"])
  then have v: "to_virt_addr bits vpn = (vpn mod 2 ^ k) * 2 ^ bits" unfolding to_virt_addr_def k .
  have "vpn mod 2 ^ k + 1 \<le> 2 ^ k" by (simp add: Suc_leI)
  then have "(vpn mod 2 ^ k + 1) * 2 ^ bits \<le> 2 ^ k * 2 ^ bits" by (rule mult_le_mono1)
  also have "\<dots> = u64_limit" unfolding k by (simp add: power_add)
  finally have "(vpn mod 2 ^ k) * 2 ^ bits + 2 ^ bits \<le> u64_limit" by (simp only: add_mult_distrib mult_1)
  moreover have "addr mod 2 ^ bits < 2 ^ bits" by simp
  ultimately show ?thesis unfolding v page_offset_def by linarith
qed

lemma keeps_map:
  assumes inv0: "remap_inv region s" and iter: "\<And>xs. set (iter xs) = set xs" and room: "start + len + 2 ^ bits < u64_limit"
  shows "remap_keeps region (map_sum id (\<lambda>(_, m). s\<lparr>rs_remaps := m\<rparr>) (ioremap iter bits kmap start len (rs_remaps s)))"
proof (cases "len = 0")
  case True
  then show ?thesis using inv0 by (simp add: ioremap_def io_range_try_new_def)
next
  case False
  note inv = remap_invD [OF inv0]
  let ?m = "rs_remaps s"
  define req where "req = \<lparr>io_start = start, io_len = len\<rparr>"
  have new: "io_range_try_new start len = Inr req" using False room by (simp add: io_range_try_new_def req_def checked_add_def)
  have valid: "io_valid req" using False room by (simp add: io_valid_def req_def)
  have start: "io_start req = start" by (simp add: req_def)
  from find_io_overlap_spec [OF inv(2) valid] obtain found where
    found: "find_io_overlap req ?m = Inr found"
      "case found of None \<Rightarrow> \<forall>e \<in> set (io_remapped ?m). \<not> io_overlap (en_req (snd e)) req
       | Some en \<Rightarrow> en \<in> snd ` set (io_remapped ?m) \<and> io_overlap (en_req en) req" by blast
  obtain phys where phys: "to_page_range bits req = Inr phys"
    using valid room by (simp add: to_page_range_def page_up_def req_def)
  from remaps_alloc_spec [OF inv(1) iter, of "r_len phys"] obtain r a where
    r: "remaps_alloc iter (r_len phys) ?m = Inr (r, ?m\<lparr>rm_ranges := a\<rparr>)" "ra_inv a"
    "case r of None \<Rightarrow> a = rm_ranges ?m
     | Some x \<Rightarrow> 0 < r_len x \<and> r_start x + r_len x < u64_limit \<and> cells x \<subseteq> free_cells (rm_ranges ?m) \<and>
         free_cells a = free_cells (rm_ranges ?m) - cells x" .
  show ?thesis
  proof (cases found)
    case (Some en)
    with found(1) inv0 new show ?thesis by (simp add: ioremap_def remaps_ioremap_def)
  next
    case None
    note none = found(1) [unfolded None]
    have apart: "\<forall>e \<in> set (io_remapped ?m). \<not> io_overlap (en_req (snd e)) req" using found(2) None by simp
    show ?thesis
    proof (cases r)
      case None
      with none phys r inv0 new show ?thesis by (simp add: ioremap_def remaps_ioremap_def)
    next
      case (Some x)
      note x = r(3) [unfolded Some, simplified]
      show ?thesis
      proof (cases kmap)
        case (Inl err)
        have "ra_inv (rm_ranges (?m\<lparr>rm_ranges := a\<rparr>))" "r_start x + r_len x < u64_limit"
          "cells x \<inter> free_cells (rm_ranges (?m\<lparr>rm_ranges := a\<rparr>)) = {}" using r(2) x by auto
        from remaps_free_spec [OF this] obtain a2 where a2:
          "remaps_free (r_start x) (r_len x) (?m\<lparr>rm_ranges := a\<rparr>) = Inr (Inr (), ?m\<lparr>rm_ranges := a2\<rparr>)" "ra_inv a2"
          "free_cells a2 = free_cells a \<union> cells x" by auto
        have "free_cells a2 = free_cells (rm_ranges ?m)" using a2(3) x by blast
        with none phys r(1) Some Inl a2(1,2) inv0 new show ?thesis
          by (simp add: ioremap_def remaps_ioremap_def remap_inv_def in_use_def)
      next
        case (Inr u)
        note fresh = entries_insert [OF inv(2) valid apart]
        let ?m2 = "?m\<lparr>rm_ranges := a, io_remapped := bt_insert start \<lparr>en_req = req, en_virt = x\<rparr> (io_remapped ?m)\<rparr>"
        have "bt_get (io_remapped ?m) start = None" using fresh(1) start by (force simp: bt_get_None)
        moreover have "to_virt_addr bits (r_start x) + page_offset bits start < u64_limit"
          using virt_addr_fits [of bits] room by simp
        ultimately have res: "ioremap iter bits kmap start len ?m = Inr (Inr (to_virt_addr bits (r_start x) + page_offset bits start, req), ?m2)"
          using none phys r(1) Some Inr new start by (simp add: ioremap_def remaps_ioremap_def)
        have "in_use (s\<lparr>rs_remaps := ?m2\<rparr>) = insert (Some start, x) (in_use s)"
          using in_use_insert [OF inv(3), where s = s and a = a and k = start] fresh(1) start by simp
        with res r(2) x fresh(2) start partitioned_take [OF inv(4), of x "Some start"] show ?thesis
          by (simp add: remap_inv_def)
      qed
    qed
  qed
qed

lemma remap_step_keeps:
  "remap_step iter bits s res \<Longrightarrow> remap_inv region s \<Longrightarrow> (\<And>xs. set (iter xs) = set xs) \<Longrightarrow> remap_keeps region res"
  by (induction rule: remap_step.induct) (rule keeps_map keeps_drop keeps_take keeps_return; assumption)+

lemma remap_inv_init:
  assumes "sys_remaps_new (r_start region) (r_len region) = Inr m" "r_start region + r_len region < u64_limit"
  shows "remap_inv region \<lparr>rs_remaps = m, rs_owned = {}\<rparr>"
proof -
  let ?m = "\<lparr>rm_ranges = range_allocator_new, io_remapped = []\<rparr>"
  have new: "ra_inv (rm_ranges ?m)" "free_cells (rm_ranges ?m) = {}"
    by (simp_all add: ra_inv_def idx_ok_def separated_def ranges_def range_allocator_new_def bucket_def free_cells_def)
  from remaps_free_spec [OF new(1) assms(2)] new(2) obtain a where
    "remaps_free (r_start region) (r_len region) ?m = Inr (Inr (), ?m\<lparr>rm_ranges := a\<rparr>)" "ra_inv a" "free_cells a = cells region" by auto
  moreover from this(1) assms(1) have "m = \<lparr>rm_ranges = a, io_remapped = []\<rparr>" by (simp add: sys_remaps_new_def)
  ultimately show ?thesis by (simp add: remap_inv_def entries_ok_def in_use_def partitioned_def)
qed

lemma remap_reachable_inv:
  assumes "remap_reachable iter bits region s" "\<And>xs. set (iter xs) = set xs" "r_start region + r_len region < u64_limit"
  shows "remap_inv region s"
  using assms
proof (induction rule: remap_reachable.induct)
  case (remap_stepped s s')
  then show ?case using remap_step_keeps [OF remap_stepped.hyps(2), of region] by simp
qed (rule remap_inv_init)

subsection \<open>Properties\<close>

text \<open>C13: Whatever drivers and the kernel do with the remap region, and whether or not the
  page table update succeeds, no step panics: none of the internal errors of the remapping
  code and of the allocator below it can occur. Afterwards the windows in use are disjoint
  from each other and from the free pages, and together with these they are the whole
  region: no page is lost.\<close>

theorem remap_safe:
  assumes "remap_reachable iter bits region s" "remap_step iter bits s res"
    "\<And>xs. set (iter xs) = set xs" "r_start region + r_len region < u64_limit"
  shows "\<exists>s'. res = Inr s' \<and>
    (\<forall>x \<in> in_use s'. \<forall>y \<in> in_use s'. x \<noteq> y \<longrightarrow> cells (snd x) \<inter> cells (snd y) = {}) \<and>
    (\<forall>x \<in> in_use s'. cells (snd x) \<inter> free_cells (rm_ranges (rs_remaps s')) = {}) \<and>
    free_cells (rm_ranges (rs_remaps s')) \<union> (\<Union>x \<in> in_use s'. cells (snd x)) = cells region"
proof -
  from remap_step_keeps [OF assms(2) remap_reachable_inv [OF assms(1,3,4)] assms(3)] obtain s' where
    s': "res = Inr s'" "remap_inv region s'" by (auto simp: remap_keeps_def)
  note part = remap_invD(4) [OF s'(2)]
  have "free_cells (rm_ranges (rs_remaps s')) \<union> (\<Union>x \<in> in_use s'. cells (snd x)) = cells region"
    using part by (simp add: partitioned_def)
  with s'(1) partitionedD(3,4) [OF part] show ?thesis by blast
qed

definition example_remaps :: sys_remaps where
  "example_remaps = \<lparr>rm_ranges = insert_free_range (Rng 16 8) range_allocator_new, io_remapped = []\<rparr>"

lemma example_remaps_new: "sys_remaps_new 16 8 = Inr example_remaps"
  by (simp add: sys_remaps_new_def remaps_free_def range_free_def range_allocator_new_def padd_def merge_prev_def
      merge_next_def bt_before_def bt_from_def example_remaps_def)

theorem remap_safe_witness:
  "\<exists>s'. remap_step id 12 \<lparr>rs_remaps = example_remaps, rs_owned = {}\<rparr> (Inr s') \<and>
     free_cells (rm_ranges (rs_remaps s')) \<union> (\<Union>x \<in> in_use s'. cells (snd x)) = cells (Rng 16 8)"
proof -
  have reach: "remap_reachable id 12 (Rng 16 8) \<lparr>rs_remaps = example_remaps, rs_owned = {}\<rparr>"
    using remap_initial [of "Rng 16 8" example_remaps id 12] example_remaps_new by simp
  have step: "remap_step id 12 \<lparr>rs_remaps = example_remaps, rs_owned = {}\<rparr> (map_sum id
    (\<lambda>(_, m). \<lparr>rs_remaps = example_remaps, rs_owned = {}\<rparr>\<lparr>rs_remaps := m\<rparr>) (ioremap id 12 (Inr ()) 4096 100 example_remaps))"
    using map_device [of 4096 100 12 id "\<lparr>rs_remaps = example_remaps, rs_owned = {}\<rparr>"] by simp
  from remap_safe [OF reach step] obtain s' where s': "map_sum id
    (\<lambda>(_, m). \<lparr>rs_remaps = example_remaps, rs_owned = {}\<rparr>\<lparr>rs_remaps := m\<rparr>) (ioremap id 12 (Inr ()) 4096 100 example_remaps) = Inr s'"
    "free_cells (rm_ranges (rs_remaps s')) \<union> (\<Union>x \<in> in_use s'. cells (snd x)) = cells (Rng 16 8)" by auto
  with step show ?thesis by auto
qed

text \<open>C30: Device ranges are exclusive. Looking at two neighbours of a request in the table
  is enough: the check finds an overlap exactly when some mapped device range shares a
  byte with the request.\<close>

theorem ioremap_exclusive:
  assumes "remap_reachable iter bits region s" "\<And>xs. set (iter xs) = set xs" "r_start region + r_len region < u64_limit"
    "0 < len" "start + len < u64_limit"
  shows "\<exists>found. find_io_overlap \<lparr>io_start = start, io_len = len\<rparr> (rs_remaps s) = Inr found \<and>
    (found \<noteq> None \<longleftrightarrow> (\<exists>e \<in> set (io_remapped (rs_remaps s)).
       {io_start (en_req (snd e)) ..< io_start (en_req (snd e)) + io_len (en_req (snd e))} \<inter> {start ..< start + len} \<noteq> {}))"
proof -
  let ?req = "\<lparr>io_start = start, io_len = len\<rparr>" and ?m = "rs_remaps s"
  have ok: "entries_ok (io_remapped ?m)" using remap_invD(2) [OF remap_reachable_inv [OF assms(1-3)]] .
  have valid: "io_valid ?req" using assms(4,5) by (simp add: io_valid_def)
  have bytes: "{io_start r ..< io_start r + io_len r} \<inter> {start ..< start + len} \<noteq> {} \<longleftrightarrow> io_overlap r ?req" if "io_valid r" for r
  proof
    assume "io_overlap r ?req"
    then have "max (io_start r) start \<in> {io_start r ..< io_start r + io_len r} \<inter> {start ..< start + len}"
      using that assms(4) by (auto simp: io_overlap_def io_valid_def)
    then show "{io_start r ..< io_start r + io_len r} \<inter> {start ..< start + len} \<noteq> {}" by blast
  qed (auto simp: io_overlap_def)
  from find_io_overlap_spec [OF ok valid] obtain found where
    found: "find_io_overlap ?req ?m = Inr found"
      "case found of None \<Rightarrow> \<forall>e \<in> set (io_remapped ?m). \<not> io_overlap (en_req (snd e)) ?req
       | Some en \<Rightarrow> en \<in> snd ` set (io_remapped ?m) \<and> io_overlap (en_req en) ?req" by blast
  have "found \<noteq> None \<longleftrightarrow> (\<exists>e \<in> set (io_remapped ?m). io_overlap (en_req (snd e)) ?req)"
    using found(2) by (cases found) auto
  also have "\<dots> \<longleftrightarrow> (\<exists>e \<in> set (io_remapped ?m).
       {io_start (en_req (snd e)) ..< io_start (en_req (snd e)) + io_len (en_req (snd e))} \<inter> {start ..< start + len} \<noteq> {})"
    using bytes entriesD(2) [OF ok] by blast
  finally show ?thesis using found(1) by blast
qed

theorem ioremap_exclusive_witness:
  "\<exists>found. find_io_overlap \<lparr>io_start = 4096, io_len = 8\<rparr> example_remaps = Inr found \<and> found = None"
proof -
  have reach: "remap_reachable id 12 (Rng 16 8) \<lparr>rs_remaps = example_remaps, rs_owned = {}\<rparr>"
    using remap_initial [of "Rng 16 8" example_remaps id 12] example_remaps_new by simp
  from ioremap_exclusive [OF reach, of 8 4096] show ?thesis by (auto simp: example_remaps_def)
qed

end
