(* ===== verification/Id_Alloc.thy ===== *)
theory Id_Alloc
  imports Sys_Error "HOL-Library.Word"
begin

text \<open>
  The crate \<open>idalloc\<close>: three strategies for handing out 64-bit identifiers (a stack of
  released ones, a bitmap of 64-bit words, a counter that never reuses, the last one also
  with reservations) behind one interface, and the type-safe wrapper \<open>IdAllocator\<close>
  that works for every strategy.
\<close>

unbundle bit_operations_syntax

subsection \<open>The wrapper\<close>

text \<open>The wrapper is generic in the strategy's operations and in the two directions of the
  bijection with the type of the identifiers.\<close>

definition id_allocator_alloc :: "('s \<Rightarrow> fault + nat option \<times> 's) \<Rightarrow> (nat \<Rightarrow> 'y) \<Rightarrow> 's \<Rightarrow> fault + 'y option \<times> 's" where
  "id_allocator_alloc alloc forward s = map_sum id (\<lambda>(i, s'). (map_option forward i, s')) (alloc s)"

definition id_allocator_dealloc :: "(nat \<Rightarrow> 's \<Rightarrow> fault + 's) \<Rightarrow> ('y \<Rightarrow> nat) \<Rightarrow> 'y \<Rightarrow> 's \<Rightarrow> fault + 's" where
  "id_allocator_dealloc dealloc backward y s = dealloc (backward y) s"

definition id_allocator_try_reserve :: "(nat \<Rightarrow> 's \<Rightarrow> bool \<times> 's) \<Rightarrow> ('y \<Rightarrow> nat) \<Rightarrow> 'y \<Rightarrow> 's \<Rightarrow> bool \<times> 's" where
  "id_allocator_try_reserve reserve backward y s = reserve (backward y) s"

text \<open>Users of a wrapper: they take identifiers and give back ones that they hold. A panic
  ends the run.\<close>

inductive id_run ::
  "('s \<Rightarrow> fault + nat option \<times> 's) \<Rightarrow> (nat \<Rightarrow> 's \<Rightarrow> fault + 's) \<Rightarrow> (nat \<Rightarrow> 'y) \<Rightarrow> ('y \<Rightarrow> nat) \<Rightarrow> 's \<Rightarrow> 's \<Rightarrow> 'y set \<Rightarrow> bool"
  for alloc dealloc forward backward s0 where
  id_start: "id_run alloc dealloc forward backward s0 s0 {}"
| id_taken: "\<lbrakk> id_run alloc dealloc forward backward s0 s H; id_allocator_alloc alloc forward s = Inr (y, s') \<rbrakk> \<Longrightarrow>
     id_run alloc dealloc forward backward s0 s' (H \<union> set_option y)"
| id_given_back: "\<lbrakk> id_run alloc dealloc forward backward s0 s H; y \<in> H;
     id_allocator_dealloc dealloc backward y s = Inr s' \<rbrakk> \<Longrightarrow>
     id_run alloc dealloc forward backward s0 s' (H - {y})"

subsection \<open>What a strategy promises\<close>

locale id_strategy =
  fixes alloc :: "'s \<Rightarrow> fault + nat option \<times> 's"
    and dealloc :: "nat \<Rightarrow> 's \<Rightarrow> fault + 's"
    and invar :: "'s \<Rightarrow> bool"
    and used :: "'s \<Rightarrow> nat set"
    and exhausted :: "'s \<Rightarrow> bool"
  assumes alloc_id: "invar s \<Longrightarrow> alloc s = Inr (Some i, s') \<Longrightarrow> invar s' \<and> i \<notin> used s \<and> used s' = insert i (used s)"
    and alloc_none: "invar s \<Longrightarrow> alloc s = Inr (None, s') \<Longrightarrow> invar s' \<and> used s' = used s \<and> exhausted s"
    and alloc_fault: "invar s \<Longrightarrow> alloc s = Inl f \<Longrightarrow> exhausted s"
    and dealloc_id: "invar s \<Longrightarrow> i \<in> used s \<Longrightarrow> \<exists>s'. dealloc i s = Inr s' \<and> invar s' \<and> used s' \<subseteq> used s \<and> used s - {i} \<subseteq> used s'"
begin

lemma run_holds:
  assumes "id_run alloc dealloc forward backward s0 s H" "invar s0" "\<And>x. backward (forward x) = x"
  shows "invar s \<and> backward ` H \<subseteq> used s \<and> inj_on backward H"
  using assms
proof (induction rule: id_run.induct)
  case (id_taken s H y s')
  from id_taken.hyps(2) obtain i where i: "alloc s = Inr (i, s')" "y = map_option forward i"
    by (cases "alloc s") (auto simp: id_allocator_alloc_def)
  show ?case
  proof (cases i)
    case None
    with i id_taken alloc_none [of s s'] show ?thesis by simp
  next
    case (Some x)
    have "invar s" and held: "backward ` H \<subseteq> used s" "inj_on backward H" using id_taken by simp_all
    from alloc_id [OF this(1)] i Some have x: "invar s'" "x \<notin> used s" "used s' = insert x (used s)" by simp_all
    then show ?thesis using held i(2) Some id_taken.prems(2) by (auto simp: inj_on_insert)
  qed
next
  case (id_given_back s H y s')
  then have "invar s" and held: "backward ` H \<subseteq> used s" "inj_on backward H" by simp_all
  moreover from this id_given_back.hyps(2) have "backward y \<in> used s" by blast
  ultimately obtain s1 where "dealloc (backward y) s = Inr s1" "invar s1" "used s - {backward y} \<subseteq> used s1"
    using dealloc_id by blast
  moreover have "backward ` (H - {y}) \<subseteq> used s - {backward y}"
    using held id_given_back.hyps(2) by (auto dest: inj_onD)
  ultimately show ?case
    using id_given_back.hyps(3) held(2) by (auto simp: id_allocator_dealloc_def intro: inj_on_subset)
qed simp

text \<open>An identifier that is handed out is not held by anyone; giving back one that is held
  does not fail.\<close>

lemma run_fresh:
  assumes "id_run alloc dealloc forward backward s0 s H" "invar s0" "\<And>x. backward (forward x) = x"
  shows "(\<forall>y s'. id_allocator_alloc alloc forward s = Inr (Some y, s') \<longrightarrow> y \<notin> H) \<and>
    (\<not> exhausted s \<longrightarrow> (\<exists>y s'. id_allocator_alloc alloc forward s = Inr (Some y, s'))) \<and>
    (\<forall>y \<in> H. \<exists>s'. id_allocator_dealloc dealloc backward y s = Inr s')"
proof (intro conjI allI ballI impI)
  have inv: "invar s" "backward ` H \<subseteq> used s" using run_holds [OF assms] by simp_all
  show "y \<notin> H" if "id_allocator_alloc alloc forward s = Inr (Some y, s')" for y s'
  proof -
    from that obtain i where i: "alloc s = Inr (Some i, s')" "y = forward i"
      by (cases "alloc s") (auto simp: id_allocator_alloc_def)
    with alloc_id [OF inv(1)] have "backward y \<notin> used s" using assms(3) by simp
    with inv(2) show ?thesis by blast
  qed
  show "\<exists>y s'. id_allocator_alloc alloc forward s = Inr (Some y, s')" if free: "\<not> exhausted s"
  proof (cases "alloc s")
    case (Inl f)
    with alloc_fault [OF inv(1)] free show ?thesis by blast
  next
    case (Inr p)
    with alloc_none [OF inv(1)] free show ?thesis by (cases p; cases "fst p") (auto simp: id_allocator_alloc_def)
  qed
  show "\<exists>s'. id_allocator_dealloc dealloc backward y s = Inr s'" if "y \<in> H" for y
    using dealloc_id [OF inv(1), of "backward y"] inv(2) that by (auto simp: id_allocator_dealloc_def)
qed

end

subsection \<open>The stack\<close>

record stacked_alloc =
  st_start :: nat
  st_next :: nat
  st_end :: "nat option"
  st_free :: "nat list"

definition stacked_new :: "nat \<Rightarrow> stacked_alloc" where
  "stacked_new n = \<lparr>st_start = n, st_next = n, st_end = None, st_free = []\<rparr>"

definition stacked_new_bounded :: "nat \<Rightarrow> nat \<Rightarrow> fault + stacked_alloc" where
  "stacked_new_bounded start capacity =
     (if start + capacity < u64_limit
      then Inr \<lparr>st_start = start, st_next = start, st_end = Some (start + capacity), st_free = []\<rparr>
      else Inl Overflow_Panic)"

text \<open>The free list is a vector whose last element is the top.\<close>

definition stacked_alloc_id :: "stacked_alloc \<Rightarrow> fault + nat option \<times> stacked_alloc" where
  "stacked_alloc_id s =
     (if st_free s \<noteq> [] then Inr (Some (last (st_free s)), s\<lparr>st_free := butlast (st_free s)\<rparr>)
      else if (case st_end s of None \<Rightarrow> False | Some e \<Rightarrow> st_next s \<ge> e) then Inr (None, s)
      else if st_next s + 1 < u64_limit then Inr (Some (st_next s), s\<lparr>st_next := st_next s + 1\<rparr>)
      else Inl Overflow_Panic)"

definition stacked_dealloc_id :: "nat \<Rightarrow> stacked_alloc \<Rightarrow> fault + stacked_alloc" where
  "stacked_dealloc_id i s =
     (if i < st_start s \<or> i \<ge> st_next s then Inl Assert_Panic
      else if (case st_end s of None \<Rightarrow> False | Some e \<Rightarrow> i \<ge> e) then Inl Assert_Panic
      else Inr (s\<lparr>st_free := st_free s @ [i]\<rparr>))"

definition stacked_inv :: "stacked_alloc \<Rightarrow> bool" where
  "stacked_inv s \<longleftrightarrow> st_start s \<le> st_next s \<and> (\<forall>e. st_end s = Some e \<longrightarrow> st_next s \<le> e) \<and>
     distinct (st_free s) \<and> set (st_free s) \<subseteq> {st_start s ..< st_next s}"

definition stacked_used :: "stacked_alloc \<Rightarrow> nat set" where
  "stacked_used s = {st_start s ..< st_next s} - set (st_free s)"

definition stacked_exhausted :: "stacked_alloc \<Rightarrow> bool" where
  "stacked_exhausted s \<longleftrightarrow> st_free s = [] \<and> (case st_end s of None \<Rightarrow> u64_limit \<le> st_next s + 1 | Some e \<Rightarrow> min e (u64_limit - 1) \<le> st_next s)"

interpretation stacked: id_strategy stacked_alloc_id stacked_dealloc_id stacked_inv stacked_used stacked_exhausted
proof (unfold_locales, goal_cases)
  case (1 s i s')
  show ?case
  proof (cases "st_free s" rule: rev_cases)
    case Nil
    with 1 show ?thesis
      by (auto simp: stacked_alloc_id_def stacked_inv_def stacked_used_def split: if_splits option.splits)
  next
    case (snoc ys y)
    with 1 show ?thesis by (auto simp: stacked_alloc_id_def stacked_inv_def stacked_used_def)
  qed
next
  case (2 s s')
  then show ?case
    by (auto simp: stacked_alloc_id_def stacked_exhausted_def split: if_splits option.splits)
next
  case (3 s f)
  then show ?case by (auto simp: stacked_alloc_id_def stacked_exhausted_def split: if_splits option.splits)
next
  case (4 s i)
  then show ?case by (auto simp: stacked_dealloc_id_def stacked_inv_def stacked_used_def split: option.splits)
qed

subsection \<open>The bitmap\<close>

record bitmap_alloc =
  bm_start :: nat
  bm_capacity :: nat
  bm_words :: "64 word list"
  bm_hint :: nat

definition bitmap_new :: "nat \<Rightarrow> nat \<Rightarrow> bitmap_alloc" where
  "bitmap_new start capacity =
     \<lparr>bm_start = start, bm_capacity = capacity, bm_words = replicate (saturating_add capacity 63 div 64) 0, bm_hint = 0\<rparr>"

definition bm_is_used :: "bitmap_alloc \<Rightarrow> nat \<Rightarrow> bool" where
  "bm_is_used b i =
     (let word = i div 64; bit_no = i mod 64 in
      if word \<ge> length (bm_words b) then True
      else (drop_bit bit_no (bm_words b ! word)) AND 1 = 1)"

definition bm_set_used :: "nat \<Rightarrow> bool \<Rightarrow> bitmap_alloc \<Rightarrow> bitmap_alloc" where
  "bm_set_used i use b =
     (let word = i div 64; bit_no = i mod 64 in
      if word \<ge> length (bm_words b) then b
      else let m = push_bit bit_no 1; w = bm_words b ! word in
        b\<lparr>bm_words := (bm_words b)[word := (if use then w OR m else w AND NOT m)]\<rparr>)"

function find_free_from :: "bitmap_alloc \<Rightarrow> nat \<Rightarrow> nat option" where
  "find_free_from b i =
     (if i < bm_capacity b then if \<not> bm_is_used b i then Some i else find_free_from b (i + 1) else None)"
  by pat_completeness auto
termination
  by (relation "measure (\<lambda>(b, i). bm_capacity b - i)") auto

declare find_free_from.simps [simp del]

definition bitmap_alloc_id :: "bitmap_alloc \<Rightarrow> fault + nat option \<times> bitmap_alloc" where
  "bitmap_alloc_id b =
     (if bm_capacity b = 0 then Inr (None, b)
      else case (case find_free_from b (bm_hint b) of None \<Rightarrow> find_free_from b 0 | Some i \<Rightarrow> Some i) of
          None \<Rightarrow> Inr (None, b)
        | Some i \<Rightarrow>
            if bm_start b + i < u64_limit
            then Inr (Some (bm_start b + i), (bm_set_used i True b)\<lparr>bm_hint := (i + 1) mod bm_capacity b\<rparr>)
            else Inl Overflow_Panic)"

definition bitmap_dealloc_id :: "nat \<Rightarrow> bitmap_alloc \<Rightarrow> fault + bitmap_alloc" where
  "bitmap_dealloc_id i b =
     (if i < bm_start b then Inr b
      else let raw = i - bm_start b in
        if raw \<ge> bm_capacity b then Inr b else Inr ((bm_set_used raw False b)\<lparr>bm_hint := raw\<rparr>))"

text \<open>The bitmap as a set: bit \<open>i mod 64\<close> of word \<open>i div 64\<close> stands for \<open>i\<close>.\<close>

definition bm_bits :: "bitmap_alloc \<Rightarrow> nat set" where
  "bm_bits b = {i. i < bm_capacity b \<and> bit (bm_words b ! (i div 64)) (i mod 64)}"

definition bitmap_inv :: "bitmap_alloc \<Rightarrow> bool" where
  "bitmap_inv b \<longleftrightarrow> bm_capacity b \<le> 64 * length (bm_words b) \<and> bm_start b + bm_capacity b \<le> u64_limit"

definition bitmap_used :: "bitmap_alloc \<Rightarrow> nat set" where
  "bitmap_used b = (+) (bm_start b) ` bm_bits b"

definition bitmap_exhausted :: "bitmap_alloc \<Rightarrow> bool" where
  "bitmap_exhausted b \<longleftrightarrow> {..< bm_capacity b} \<subseteq> bm_bits b"

lemma shift_and_one: "drop_bit n (w :: 64 word) AND 1 = 1 \<longleftrightarrow> bit w n"
  by (simp add: and_one_eq bit_iff_odd_drop_bit odd_iff_mod_2_eq_one)

lemma bm_word: "bitmap_inv b \<Longrightarrow> i < bm_capacity b \<Longrightarrow> i div 64 < length (bm_words b)"
  by (auto simp: bitmap_inv_def less_mult_imp_div_less mult.commute)

lemma bm_is_used_iff: "bitmap_inv b \<Longrightarrow> i < bm_capacity b \<Longrightarrow> bm_is_used b i \<longleftrightarrow> i \<in> bm_bits b"
  using bm_word [of b i] by (simp add: bm_is_used_def shift_and_one bm_bits_def Let_def)

lemma bm_set_used_sel [simp]:
  "bm_capacity (bm_set_used i u b) = bm_capacity b" "bm_start (bm_set_used i u b) = bm_start b"
  "bm_hint (bm_set_used i u b) = bm_hint b" "length (bm_words (bm_set_used i u b)) = length (bm_words b)"
  by (simp_all add: bm_set_used_def Let_def)

lemma bm_bits_hint [simp]: "bm_bits (b\<lparr>bm_hint := h\<rparr>) = bm_bits b"
  by (simp add: bm_bits_def)

lemma div_mod_inj: "(i::nat) div 64 = j div 64 \<Longrightarrow> i mod 64 = j mod 64 \<Longrightarrow> i = j"
  by (metis div_mult_mod_eq)

lemma bm_bits_set:
  assumes "bitmap_inv b" "i < bm_capacity b"
  shows "bm_bits (bm_set_used i u b) = (if u then insert i (bm_bits b) else bm_bits b - {i})"
proof (intro set_eqI)
  fix j
  have i: "i div 64 < length (bm_words b)" using bm_word [OF assms] .
  show "j \<in> bm_bits (bm_set_used i u b) \<longleftrightarrow> j \<in> (if u then insert i (bm_bits b) else bm_bits b - {i})"
  proof (cases "j < bm_capacity b")
    case True
    then have j: "j div 64 < length (bm_words b)" using bm_word [OF assms(1)] by blast
    have "bit (bm_words (bm_set_used i u b) ! (j div 64)) (j mod 64) \<longleftrightarrow>
      (if j = i then u else bit (bm_words b ! (j div 64)) (j mod 64))"
    proof (cases "j div 64 = i div 64")
      case True
      then have "j = i \<longleftrightarrow> j mod 64 = i mod 64" using div_mod_inj by blast
      with True i show ?thesis
        by (simp add: bm_set_used_def Let_def bit_or_iff bit_and_iff bit_not_iff bit_exp_iff)
    next
      case False
      then show ?thesis using i by (auto simp: bm_set_used_def Let_def)
    qed
    with True show ?thesis by (auto simp: bm_bits_def)
  qed (use assms in \<open>auto simp: bm_bits_def\<close>)
qed

lemma find_free_from_spec:
  assumes "bitmap_inv b"
  shows "case find_free_from b i of None \<Rightarrow> \<forall>j. i \<le> j \<and> j < bm_capacity b \<longrightarrow> j \<in> bm_bits b
    | Some k \<Rightarrow> i \<le> k \<and> k < bm_capacity b \<and> k \<notin> bm_bits b \<and> (\<forall>j. i \<le> j \<and> j < k \<longrightarrow> j \<in> bm_bits b)"
  using assms
proof (induction b i rule: find_free_from.induct)
  case (1 b i)
  show ?case
  proof (cases "i < bm_capacity b \<and> i \<in> bm_bits b")
    case True
    then have next_i: "find_free_from b i = find_free_from b (i + 1)"
      using "1.prems" by (simp add: find_free_from.simps [of b i] bm_is_used_iff)
    have split: "i \<le> j \<longleftrightarrow> j = i \<or> i + 1 \<le> j" for j by auto
    have "bm_is_used b i" using True "1.prems" by (simp add: bm_is_used_iff)
    with 1 True show ?thesis unfolding next_i split by (auto split: option.splits)
  next
    case False
    then show ?thesis using "1.prems" by (auto simp: find_free_from.simps [of b i] bm_is_used_iff)
  qed
qed

interpretation bitmap: id_strategy bitmap_alloc_id bitmap_dealloc_id bitmap_inv bitmap_used bitmap_exhausted
proof (unfold_locales, goal_cases)
  case (1 b i b')
  obtain k where k: "(case find_free_from b (bm_hint b) of None \<Rightarrow> find_free_from b 0 | Some i \<Rightarrow> Some i) = Some k"
    "i = bm_start b + k" "b' = (bm_set_used k True b)\<lparr>bm_hint := (k + 1) mod bm_capacity b\<rparr>"
    using 1(2) by (auto simp: bitmap_alloc_id_def split: if_splits option.splits)
  have "k < bm_capacity b \<and> k \<notin> bm_bits b"
    using k(1) find_free_from_spec [OF 1(1), of "bm_hint b"] find_free_from_spec [OF 1(1), of 0] by (auto split: option.splits)
  then show ?case using k(2,3) 1(1) bm_bits_set [OF 1(1), of k True] by (auto simp: bitmap_inv_def bitmap_used_def)
next
  case (2 b b')
  then have "bm_capacity b = 0 \<or> find_free_from b 0 = None" "b' = b"
    by (auto simp: bitmap_alloc_id_def split: if_splits option.splits)
  with 2 find_free_from_spec [OF 2(1), of 0] show ?case by (auto simp: bitmap_exhausted_def)
next
  case (3 b f)
  then obtain k where k: "(case find_free_from b (bm_hint b) of None \<Rightarrow> find_free_from b 0 | Some i \<Rightarrow> Some i) = Some k"
    "\<not> bm_start b + k < u64_limit"
    by (auto simp: bitmap_alloc_id_def split: if_splits option.splits)
  have "k < bm_capacity b"
    using k(1) find_free_from_spec [OF 3(1), of "bm_hint b"] find_free_from_spec [OF 3(1), of 0] by (auto split: option.splits)
  with k(2) 3(1) show ?case by (simp add: bitmap_inv_def)
next
  case (4 b i)
  then obtain k where "i = bm_start b + k" "k < bm_capacity b" by (auto simp: bitmap_used_def bm_bits_def)
  with 4(1) bm_bits_set [OF 4(1), of k False] show ?case
    by (auto simp: bitmap_dealloc_id_def bitmap_inv_def bitmap_used_def Let_def)
qed

subsection \<open>The counter, with and without reservations\<close>

record one_shot_alloc =
  os_next :: nat
  os_end :: nat

definition one_shot_new :: "nat \<Rightarrow> nat \<Rightarrow> fault + one_shot_alloc" where
  "one_shot_new start fin = (if start < fin then Inr \<lparr>os_next = start, os_end = fin\<rparr> else Inl Assert_Panic)"

definition one_shot_alloc_id :: "one_shot_alloc \<Rightarrow> nat option \<times> one_shot_alloc" where
  "one_shot_alloc_id s = (if os_next s < os_end s then (Some (os_next s), s\<lparr>os_next := os_next s + 1\<rparr>) else (None, s))"

definition one_shot_dealloc_id :: "nat \<Rightarrow> one_shot_alloc \<Rightarrow> fault + one_shot_alloc" where
  "one_shot_dealloc_id i s = Inr s"

record one_shot_reserve =
  or_alloc :: one_shot_alloc
  or_reserved :: "nat set"

definition one_shot_reserve_new :: "nat \<Rightarrow> nat \<Rightarrow> fault + one_shot_reserve" where
  "one_shot_reserve_new start fin = map_sum id (\<lambda>a. \<lparr>or_alloc = a, or_reserved = {}\<rparr>) (one_shot_new start fin)"

definition try_reserve :: "nat \<Rightarrow> one_shot_reserve \<Rightarrow> bool \<times> one_shot_reserve" where
  "try_reserve i s =
     (if i < os_next (or_alloc s) then (False, s)
      else if i \<ge> os_end (or_alloc s) then (False, s)
      else (True, s\<lparr>or_reserved := insert i (or_reserved s)\<rparr>))"

function one_shot_reserve_alloc :: "one_shot_reserve \<Rightarrow> nat option \<times> one_shot_reserve" where
  "one_shot_reserve_alloc s =
     (case one_shot_alloc_id (or_alloc s) of
        (None, a) \<Rightarrow> (None, s\<lparr>or_alloc := a\<rparr>)
      | (Some i, a) \<Rightarrow>
          if i \<notin> or_reserved s then (Some i, s\<lparr>or_alloc := a\<rparr>) else one_shot_reserve_alloc (s\<lparr>or_alloc := a\<rparr>))"
  by pat_completeness auto
termination
  by (relation "measure (\<lambda>s. os_end (or_alloc s) - os_next (or_alloc s))") (auto simp: one_shot_alloc_id_def split: if_splits)

declare one_shot_reserve_alloc.simps [simp del]

definition one_shot_reserve_dealloc :: "nat \<Rightarrow> one_shot_reserve \<Rightarrow> fault + one_shot_reserve" where
  "one_shot_reserve_dealloc i s = Inr s"

interpretation one_shot: id_strategy "\<lambda>s. Inr (one_shot_alloc_id s)" one_shot_dealloc_id "\<lambda>s. True"
  "\<lambda>s. {..< os_next s}" "\<lambda>s. os_end s \<le> os_next s"
  by unfold_locales (auto simp: one_shot_alloc_id_def one_shot_dealloc_id_def split: if_splits)

definition or_used :: "one_shot_reserve \<Rightarrow> nat set" where
  "or_used s = {..< os_next (or_alloc s)} \<union> or_reserved s"

definition or_exhausted :: "one_shot_reserve \<Rightarrow> bool" where
  "or_exhausted s \<longleftrightarrow> {..< os_end (or_alloc s)} \<subseteq> or_used s"

lemma one_shot_reserve_alloc_spec:
  "case one_shot_reserve_alloc s of
     (None, s') \<Rightarrow> or_exhausted s \<and> or_used s' = or_used s \<and> os_end (or_alloc s') = os_end (or_alloc s) \<and>
       or_reserved s' = or_reserved s \<and> os_next (or_alloc s) \<le> os_next (or_alloc s')
   | (Some i, s') \<Rightarrow> i \<notin> or_used s \<and> i < os_end (or_alloc s) \<and> or_used s' = insert i (or_used s) \<and>
       os_end (or_alloc s') = os_end (or_alloc s) \<and> or_reserved s' = or_reserved s \<and> os_next (or_alloc s') = Suc i"
proof (induction s rule: one_shot_reserve_alloc.induct)
  case (1 s)
  let ?a = "or_alloc s"
  show ?case
  proof (cases "os_next ?a < os_end ?a \<and> os_next ?a \<in> or_reserved s")
    case True
    let ?s = "s\<lparr>or_alloc := ?a\<lparr>os_next := Suc (os_next ?a)\<rparr>\<rparr>"
    have eq: "one_shot_reserve_alloc s = one_shot_reserve_alloc ?s"
      using True by (simp add: one_shot_reserve_alloc.simps [of s] one_shot_alloc_id_def)
    have used: "or_used ?s = or_used s" using True by (auto simp: or_used_def less_Suc_eq)
    then have full: "or_exhausted ?s = or_exhausted s" by (simp add: or_exhausted_def)
    have "one_shot_alloc_id ?a = (Some (os_next ?a), ?a\<lparr>os_next := os_next ?a + 1\<rparr>)" using True by (simp add: one_shot_alloc_id_def)
    from 1 [OF this [symmetric] refl] True have "case one_shot_reserve_alloc ?s of
     (None, s') \<Rightarrow> or_exhausted s \<and> or_used s' = or_used s \<and> os_end (or_alloc s') = os_end ?a \<and>
       or_reserved s' = or_reserved s \<and> os_next ?a + 1 \<le> os_next (or_alloc s')
   | (Some i, s') \<Rightarrow> i \<notin> or_used s \<and> i < os_end ?a \<and> or_used s' = insert i (or_used s) \<and>
       os_end (or_alloc s') = os_end ?a \<and> or_reserved s' = or_reserved s \<and> os_next (or_alloc s') = Suc i"
      by (simp add: used full cong: prod.case_cong option.case_cong)
    then show ?thesis unfolding eq by (auto split: prod.splits option.splits)
  next
    case False
    then show ?thesis
      by (auto simp: one_shot_reserve_alloc.simps [of s] one_shot_alloc_id_def or_used_def or_exhausted_def)
  qed
qed

interpretation one_shot_res: id_strategy "\<lambda>s. Inr (one_shot_reserve_alloc s)" one_shot_reserve_dealloc "\<lambda>s. True" or_used or_exhausted
proof (unfold_locales, goal_cases)
  case (1 s i s')
  then show ?case using one_shot_reserve_alloc_spec [of s] by simp
next
  case (2 s s')
  then show ?case using one_shot_reserve_alloc_spec [of s] by simp
qed (auto simp: one_shot_reserve_dealloc_def)

text \<open>Runs of the allocator with reservations: the identifiers allocated and those
  reserved so far.\<close>

inductive reserve_run :: "nat \<Rightarrow> nat \<Rightarrow> one_shot_reserve \<Rightarrow> nat set \<Rightarrow> nat set \<Rightarrow> bool" for start fin where
  reserve_start: "one_shot_reserve_new start fin = Inr s \<Longrightarrow> reserve_run start fin s {} {}"
| reserve_alloc: "\<lbrakk> reserve_run start fin s A R; one_shot_reserve_alloc s = (i, s') \<rbrakk> \<Longrightarrow> reserve_run start fin s' (A \<union> set_option i) R"
| reserve_reserve: "\<lbrakk> reserve_run start fin s A R; try_reserve i s = (ok, s') \<rbrakk> \<Longrightarrow>
     reserve_run start fin s' A (if ok then insert i R else R)"
| reserve_dealloc: "\<lbrakk> reserve_run start fin s A R; one_shot_reserve_dealloc i s = Inr s' \<rbrakk> \<Longrightarrow> reserve_run start fin s' A R"

lemma reserve_run_inv:
  "reserve_run start fin s A R \<Longrightarrow> A \<inter> R = {} \<and> or_reserved s = R \<and> os_end (or_alloc s) = fin \<and> start \<le> os_next (or_alloc s) \<and>
     A \<subseteq> {start ..< min fin (os_next (or_alloc s))}"
proof (induction rule: reserve_run.induct)
  case (reserve_start s)
  then show ?case by (auto simp: one_shot_reserve_new_def one_shot_new_def split: if_splits)
next
  case (reserve_alloc s A R i s')
  then show ?case using one_shot_reserve_alloc_spec [of s] by (cases i) (auto simp: or_used_def)
next
  case (reserve_reserve s A R i ok s')
  then show ?case by (auto simp: try_reserve_def split: if_splits)
qed (auto simp: one_shot_reserve_dealloc_def)

subsection \<open>Properties\<close>

text \<open>C35: Identifiers from the bitmap are unique. In every run of users that take
  identifiers and give back ones they hold, a new identifier is held by nobody, an
  identifier is available as long as one of the range is not in use, and giving back never
  fails; bits of 64-bit words and the search hint implement this.\<close>

theorem bitmap_ids_unique:
  fixes forward :: "nat \<Rightarrow> 'y"
  assumes "id_run bitmap_alloc_id bitmap_dealloc_id forward backward (bitmap_new start capacity) s H"
    "\<And>x. backward (forward x) = x" "start + capacity \<le> u64_limit" "capacity + 63 < u64_limit"
  shows "(\<forall>y s'. id_allocator_alloc bitmap_alloc_id forward s = Inr (Some y, s') \<longrightarrow> y \<notin> H) \<and>
    (\<not> {..< bm_capacity s} \<subseteq> bm_bits s \<longrightarrow> (\<exists>y s'. id_allocator_alloc bitmap_alloc_id forward s = Inr (Some y, s'))) \<and>
    (\<forall>y \<in> H. \<exists>s'. id_allocator_dealloc bitmap_dealloc_id backward y s = Inr s')"
proof -
  have "bitmap_inv (bitmap_new start capacity)"
    using assms(3,4) by (simp add: bitmap_inv_def bitmap_new_def saturating_add_def u64_max_def min_def)
  from bitmap.run_fresh [OF assms(1) this assms(2)] show ?thesis unfolding bitmap_exhausted_def .
qed

theorem bitmap_ids_unique_witness:
  "\<exists>s. id_allocator_alloc bitmap_alloc_id id (bitmap_new 10 3) = Inr (Some 10, s) \<and>
     (\<forall>y s'. id_allocator_alloc bitmap_alloc_id id s = Inr (Some y, s') \<longrightarrow> y \<noteq> 10)"
proof -
  define s where "s = (bm_set_used 0 True (bitmap_new 10 3))\<lparr>bm_hint := 1\<rparr>"
  have w: "length (bm_words (bitmap_new 10 3)) = 1" "bm_words (bitmap_new 10 3) ! 0 = 0"
    by (simp_all add: bitmap_new_def saturating_add_def u64_max_def)
  have "find_free_from (bitmap_new 10 3) 0 = Some 0"
    by (subst find_free_from.simps) (simp add: bm_is_used_def w, simp add: bitmap_new_def)
  then have first: "id_allocator_alloc bitmap_alloc_id id (bitmap_new 10 3) = Inr (Some 10, s)"
    by (simp add: id_allocator_alloc_def bitmap_alloc_id_def s_def) (simp add: bitmap_new_def)
  from id_taken [OF id_start first] have "id_run bitmap_alloc_id bitmap_dealloc_id id id (bitmap_new 10 3) s {10}" by simp
  from bitmap_ids_unique [OF this] first show ?thesis by auto
qed

text \<open>The same for the stack of released identifiers, bounded or not: a new identifier
  is held by nobody, one is available until the range (or the 64-bit space) is used up, and
  giving back one that is held never runs into the bounds panic.\<close>

theorem stacked_ids_unique:
  fixes forward :: "nat \<Rightarrow> 'y"
  assumes "id_run stacked_alloc_id stacked_dealloc_id forward backward s0 s H" "\<And>x. backward (forward x) = x"
    "s0 = stacked_new start \<or> stacked_new_bounded start capacity = Inr s0"
  shows "(\<forall>y s'. id_allocator_alloc stacked_alloc_id forward s = Inr (Some y, s') \<longrightarrow> y \<notin> H) \<and>
    (\<not> stacked_exhausted s \<longrightarrow> (\<exists>y s'. id_allocator_alloc stacked_alloc_id forward s = Inr (Some y, s'))) \<and>
    (\<forall>y \<in> H. \<exists>s'. id_allocator_dealloc stacked_dealloc_id backward y s = Inr s')"
proof -
  have "stacked_inv s0" using assms(3)
    by (auto simp: stacked_inv_def stacked_new_def stacked_new_bounded_def split: if_splits)
  from stacked.run_fresh [OF assms(1) this assms(2)] show ?thesis .
qed

theorem stacked_ids_unique_witness:
  "\<exists>s. id_allocator_alloc stacked_alloc_id Suc (stacked_new 0) = Inr (Some 1, s) \<and>
     (\<forall>y s'. id_allocator_alloc stacked_alloc_id Suc s = Inr (Some y, s') \<longrightarrow> y \<noteq> 1)"
proof -
  have first: "id_allocator_alloc stacked_alloc_id Suc (stacked_new 0) = Inr (Some 1, (stacked_new 0)\<lparr>st_next := 1\<rparr>)"
    by (simp add: id_allocator_alloc_def stacked_alloc_id_def stacked_new_def)
  from id_taken [OF id_start first]
  have "id_run stacked_alloc_id stacked_dealloc_id Suc (\<lambda>n. n - 1) (stacked_new 0) ((stacked_new 0)\<lparr>st_next := 1\<rparr>) {1}" by simp
  from stacked_ids_unique [OF this, of 0 0] first show ?thesis by auto
qed

text \<open>C36: The counter with reservations never hands out a reserved identifier, never
  hands out one twice, and stays in its range; a reservation succeeds exactly for the
  identifiers of the range that the counter has not passed, also for one that is reserved
  already. It stops with nothing only when every identifier left is reserved.\<close>

theorem reserve_exact:
  assumes "reserve_run start fin s A R"
  shows "A \<inter> R = {} \<and> A \<subseteq> {start ..< fin} \<and>
    (case one_shot_reserve_alloc s of
       (None, s') \<Rightarrow> {os_next (or_alloc s) ..< fin} \<subseteq> R
     | (Some i, s') \<Rightarrow> i \<notin> A \<and> i \<notin> R \<and> start \<le> i \<and> i < fin) \<and>
    (fst (try_reserve j s) \<longleftrightarrow> os_next (or_alloc s) \<le> j \<and> j < fin) \<and>
    (fst (try_reserve j s) \<longrightarrow> j \<notin> A \<and> fst (try_reserve j (snd (try_reserve j s))))"
proof -
  note inv = reserve_run_inv [OF assms]
  have "case one_shot_reserve_alloc s of (None, s') \<Rightarrow> {os_next (or_alloc s) ..< fin} \<subseteq> R
     | (Some i, s') \<Rightarrow> i \<notin> A \<and> i \<notin> R \<and> start \<le> i \<and> i < fin"
    using one_shot_reserve_alloc_spec [of s] inv
    by (auto simp: or_used_def or_exhausted_def split: prod.splits option.splits)
  moreover have "(fst (try_reserve j s) \<longleftrightarrow> os_next (or_alloc s) \<le> j \<and> j < fin) \<and>
    (fst (try_reserve j s) \<longrightarrow> j \<notin> A \<and> fst (try_reserve j (snd (try_reserve j s))))"
    using inv by (auto simp: try_reserve_def)
  ultimately show ?thesis using inv by auto
qed

theorem reserve_exact_witness:
  "\<exists>s. one_shot_reserve_new 0 4 = Inr s \<and> fst (try_reserve 2 s) \<and> fst (try_reserve 2 (snd (try_reserve 2 s)))"
proof -
  obtain s where s: "one_shot_reserve_new 0 4 = Inr s" "os_next (or_alloc s) = 0" by (simp add: one_shot_reserve_new_def one_shot_new_def)
  from reserve_exact [OF reserve_start [OF s(1)], of 2] s show ?thesis by auto
qed

end
