(* ===== verification/Frame_Alloc.thy ===== *)
theory Frame_Alloc
  imports Sys_Error "HOL-Library.Multiset"
begin

text \<open>
  The physical frame allocator (\<open>src/mm/frame\<close>): per-CPU magazines and transfer batches
  (\<open>magazine.rs\<close>), the global accounting and the locked allocator over a backend
  (\<open>allocator.rs\<close>), and the reference-counted handles (\<open>managed.rs\<close>, \<open>memmap.rs\<close>). Every
  critical section is one definition, and an allocation or release is a sequence of them;
  the sections of concurrent operations interleave. The backend is the interface
  \<open>FrameAllocator\<close> of the source: its two operations are arguments here. Frame numbers and
  counters are natural numbers, with the checked arithmetic of the accounting written out;
  a reference count is assumed not to reach \<open>2\<^sup>6\<^sup>4\<close>.
\<close>

subsection \<open>Batches and magazines\<close>

text \<open>A fixed array of optional frames with the length of its initialised prefix: the
  representation of both \<open>FrameBatch\<close> and \<open>Magazine\<close>.\<close>

record frame_slots =
  fs_frames :: "nat option list"
  fs_len :: nat

definition slots_new :: "nat \<Rightarrow> frame_slots" where
  "slots_new cap = \<lparr>fs_frames = replicate cap None, fs_len = 0\<rparr>"

definition batch_push :: "nat \<Rightarrow> frame_slots \<Rightarrow> fault + frame_slots" where
  "batch_push frame b =
     (if \<not> fs_len b < length (fs_frames b) then Inl Assert_Panic
      else if Some frame \<in> set (take (fs_len b) (fs_frames b)) then Inl Assert_Panic
      else Inr (b\<lparr>fs_frames := (fs_frames b)[fs_len b := Some frame], fs_len := fs_len b + 1\<rparr>))"

definition batch_pop :: "frame_slots \<Rightarrow> fault + nat option \<times> frame_slots" where
  "batch_pop b =
     (if fs_len b = 0 then Inr (None, b)
      else
        let i = fs_len b - 1 in
        if i \<ge> length (fs_frames b) then Inl Index_Panic
        else case fs_frames b ! i of
            None \<Rightarrow> Inl Assert_Panic
          | Some frame \<Rightarrow> Inr (Some frame, b\<lparr>fs_frames := (fs_frames b)[i := None], fs_len := i\<rparr>))"

definition magazine_push :: "nat \<Rightarrow> frame_slots \<Rightarrow> fault + frame_slots" where
  "magazine_push frame m =
     (if \<not> fs_len m < length (fs_frames m) then Inl Assert_Panic
      else if Some frame \<in> set (take (fs_len m) (fs_frames m)) then Inl Assert_Panic
      else Inr (m\<lparr>fs_frames := (fs_frames m)[fs_len m := Some frame], fs_len := fs_len m + 1\<rparr>))"

definition magazine_pop :: "frame_slots \<Rightarrow> fault + nat option \<times> frame_slots" where
  "magazine_pop m =
     (if fs_len m = 0 then Inr (None, m)
      else
        let i = fs_len m - 1 in
        if i \<ge> length (fs_frames m) then Inl Index_Panic
        else case fs_frames m ! i of
            None \<Rightarrow> Inl Assert_Panic
          | Some frame \<Rightarrow> Inr (Some frame, m\<lparr>fs_frames := (fs_frames m)[i := None], fs_len := i\<rparr>))"

lemma magazine_slots: "magazine_push = batch_push" "magazine_pop = batch_pop"
  by (simp_all add: fun_eq_iff magazine_push_def batch_push_def magazine_pop_def batch_pop_def)

lemma batch_pop_shrinks: "batch_pop b = Inr (Some frame, b') \<Longrightarrow> fs_len b' < fs_len b"
  by (auto simp: batch_pop_def Let_def split: if_splits option.splits)

function refill_loop :: "frame_slots \<Rightarrow> frame_slots \<Rightarrow> fault + frame_slots \<times> frame_slots" where
  "refill_loop m b =
     (if fs_len m < length (fs_frames m) then
        (case batch_pop b of
           Inl f \<Rightarrow> Inl f
         | Inr (None, b') \<Rightarrow> Inr (m, b')
         | Inr (Some frame, b') \<Rightarrow>
             (case magazine_push frame m of Inl f \<Rightarrow> Inl f | Inr m' \<Rightarrow> refill_loop m' b'))
      else Inr (m, b))"
  by pat_completeness auto
termination
  by (relation "measure (\<lambda>(m, b). fs_len b)") (auto dest: batch_pop_shrinks)

declare refill_loop.simps [simp del]

definition magazine_refill :: "frame_slots \<Rightarrow> frame_slots \<Rightarrow> fault + frame_slots \<times> frame_slots" where
  "magazine_refill m b =
     (if \<not> fs_len m \<le> length (fs_frames m) then Inl Assert_Panic
      else case refill_loop m b of
          Inl f \<Rightarrow> Inl f
        | Inr (m', b') \<Rightarrow> if \<not> fs_len m' \<le> length (fs_frames m') then Inl Assert_Panic else Inr (m', b'))"

fun drain_loop :: "nat \<Rightarrow> frame_slots \<Rightarrow> frame_slots \<Rightarrow> fault + frame_slots \<times> frame_slots" where
  "drain_loop 0 m d = Inr (m, d)"
| "drain_loop (Suc n) m d =
     (case magazine_pop m of
        Inl f \<Rightarrow> Inl f
      | Inr (None, _) \<Rightarrow> Inl Assert_Panic
      | Inr (Some frame, m') \<Rightarrow> (case batch_push frame d of Inl f \<Rightarrow> Inl f | Inr d' \<Rightarrow> drain_loop n m' d'))"

definition magazine_release :: "nat \<Rightarrow> nat \<Rightarrow> frame_slots \<Rightarrow> fault + frame_slots \<times> frame_slots" where
  "magazine_release batch frame m =
     (if \<not> fs_len m \<le> length (fs_frames m) then Inl Assert_Panic
      else case (if fs_len m = length (fs_frames m) then drain_loop batch m (slots_new batch) else Inr (m, slots_new batch)) of
          Inl f \<Rightarrow> Inl f
        | Inr (m1, d) \<Rightarrow>
            (case magazine_push frame m1 of
               Inl f \<Rightarrow> Inl f
             | Inr m2 \<Rightarrow> if \<not> fs_len m2 \<le> length (fs_frames m2) then Inl Assert_Panic else Inr (m2, d)))"

function take_loop :: "frame_slots \<Rightarrow> frame_slots \<Rightarrow> fault + frame_slots \<times> frame_slots" where
  "take_loop m b =
     (case magazine_pop m of
        Inl f \<Rightarrow> Inl f
      | Inr (None, m') \<Rightarrow> Inr (m', b)
      | Inr (Some frame, m') \<Rightarrow> (case batch_push frame b of Inl f \<Rightarrow> Inl f | Inr b' \<Rightarrow> take_loop m' b'))"
  by pat_completeness auto
termination
  by (relation "measure (\<lambda>(m, b). fs_len m)") (auto simp: magazine_slots dest: batch_pop_shrinks)

declare take_loop.simps [simp del]

definition magazine_take_all :: "frame_slots \<Rightarrow> fault + frame_slots \<times> frame_slots" where
  "magazine_take_all m =
     (case take_loop m (slots_new (length (fs_frames m))) of
        Inl f \<Rightarrow> Inl f
      | Inr (m', b) \<Rightarrow> if fs_len m' \<noteq> 0 then Inl Assert_Panic else Inr (m', b))"

subsection \<open>Accounting\<close>

record accounting =
  ac_total :: nat
  ac_free :: nat

definition accounting_new :: accounting where
  "accounting_new = \<lparr>ac_total = 0, ac_free = 0\<rparr>"

definition add_free_range :: "nat \<Rightarrow> accounting \<Rightarrow> fault + accounting" where
  "add_free_range pages a =
     (case checked_add (ac_total a) pages of
        None \<Rightarrow> Inl Assert_Panic
      | Some tot \<Rightarrow>
          (case checked_add (ac_free a) pages of
             None \<Rightarrow> Inl Assert_Panic
           | Some free \<Rightarrow> Inr (a\<lparr>ac_total := tot, ac_free := free\<rparr>)))"

definition accounting_claim :: "nat \<Rightarrow> accounting \<Rightarrow> fault + accounting" where
  "accounting_claim pages a =
     (if ac_free a < pages then Inl Assert_Panic else Inr (a\<lparr>ac_free := ac_free a - pages\<rparr>))"

definition accounting_release :: "nat \<Rightarrow> accounting \<Rightarrow> fault + accounting" where
  "accounting_release pages a =
     (case checked_add (ac_free a) pages of
        None \<Rightarrow> Inl Assert_Panic
      | Some updated \<Rightarrow> if updated \<le> ac_total a then Inr (a\<lparr>ac_free := updated\<rparr>) else Inl Assert_Panic)"

definition accounting_snapshot :: "accounting \<Rightarrow> fault + nat \<times> nat" where
  "accounting_snapshot a = (if ac_free a \<le> ac_total a then Inr (ac_total a, ac_free a) else Inl Assert_Panic)"

definition saturating_mul :: "nat \<Rightarrow> nat \<Rightarrow> nat" where
  "saturating_mul a b = min (a * b) u64_max"

definition used_pages :: "nat \<times> nat \<Rightarrow> fault + nat" where
  "used_pages stats = (if fst stats < snd stats then Inl Overflow_Panic else Inr (fst stats - snd stats))"

definition used_pages_exceeds_percent :: "nat \<Rightarrow> nat \<times> nat \<Rightarrow> fault + bool" where
  "used_pages_exceeds_percent threshold stats =
     (if \<not> threshold \<le> 100 then Inl Assert_Panic
      else if fst stats = 0 then Inr False
      else map_sum id (\<lambda>used. saturating_mul used 100 > saturating_mul (fst stats) threshold) (used_pages stats))"

subsection \<open>The critical sections of the locked allocator\<close>

datatype alloc_failure = Admission | Unavailable

text \<open>The operations of the backend behind its lock.\<close>

type_synonym 's fa_alloc = "nat \<Rightarrow> 's \<Rightarrow> fault + (alloc_failure + nat) \<times> 's"
type_synonym 's fa_dealloc = "nat \<Rightarrow> nat \<Rightarrow> 's \<Rightarrow> fault + 's"

fun take_batch_loop :: "'s fa_alloc \<Rightarrow> nat \<Rightarrow> frame_slots \<Rightarrow> 's \<Rightarrow> fault + frame_slots \<times> 's" where
  "take_batch_loop alloc 0 b s = Inr (b, s)"
| "take_batch_loop alloc (Suc n) b s =
     (case alloc 1 s of
        Inl f \<Rightarrow> Inl f
      | Inr (Inr frame, s') \<Rightarrow> (case batch_push frame b of Inl f \<Rightarrow> Inl f | Inr b' \<Rightarrow> take_batch_loop alloc n b' s')
      | Inr (Inl Unavailable, s') \<Rightarrow> Inr (b, s')
      | Inr (Inl Admission, s') \<Rightarrow> Inl Assert_Panic)"

definition take_order0_batch :: "'s fa_alloc \<Rightarrow> nat \<Rightarrow> 's \<Rightarrow> fault + frame_slots \<times> 's" where
  "take_order0_batch alloc batch s = take_batch_loop alloc batch (slots_new batch) s"

function return_to_buddy :: "'s fa_dealloc \<Rightarrow> frame_slots \<Rightarrow> 's \<Rightarrow> fault + 's" where
  "return_to_buddy dealloc b s =
     (case batch_pop b of
        Inl f \<Rightarrow> Inl f
      | Inr (None, _) \<Rightarrow> Inr s
      | Inr (Some frame, b') \<Rightarrow> (case dealloc frame 1 s of Inl f \<Rightarrow> Inl f | Inr s' \<Rightarrow> return_to_buddy dealloc b' s'))"
  by pat_completeness auto
termination
  by (relation "measure (\<lambda>(dealloc, b, s). fs_len b)") (auto dest: batch_pop_shrinks)

declare return_to_buddy.simps [simp del]

definition allocation_charge :: "nat \<Rightarrow> nat option" where
  "allocation_charge npages = checked_next_power_of_two npages"

record 's locked =
  lf_backend :: 's
  lf_magazines :: "frame_slots list"
  lf_accounting :: accounting
  lf_rc :: "nat \<Rightarrow> nat"

definition inc_ref :: "nat \<Rightarrow> 's locked \<Rightarrow> 's locked" where
  "inc_ref p s = s\<lparr>lf_rc := (lf_rc s)(p := lf_rc s p + 1)\<rparr>"

definition dec_ref :: "nat \<Rightarrow> 's locked \<Rightarrow> fault + nat \<times> 's locked" where
  "dec_ref p s = (if lf_rc s p = 0 then Inl Assert_Panic else Inr (lf_rc s p, s\<lparr>lf_rc := (lf_rc s)(p := lf_rc s p - 1)\<rparr>))"

text \<open>What an allocation is for: a frame handle or a folio of some pages. The next critical
  section of an operation in progress, with the frames it carries.\<close>

datatype frame_goal = For_Frame | For_Folio nat

fun goal_pages :: "frame_goal \<Rightarrow> nat" where
  "goal_pages For_Frame = 1"
| "goal_pages (For_Folio n) = n"

datatype frame_op =
    Local_Pop frame_goal
  | Take_Batch frame_goal bool
  | Take_Block frame_goal bool
  | Sweep frame_goal nat
  | Sweep_Return frame_goal nat frame_slots
  | Publish frame_goal nat frame_slots
  | Return_Rest frame_goal nat frame_slots
  | Claim frame_goal nat
  | Construct frame_goal nat
  | Release nat nat
  | Give_Local nat
  | Drain frame_slots
  | Give_Block nat nat

datatype op_next = Goto frame_op | Delivered nat nat | Failed | Finished

definition alloc_frames :: "nat \<Rightarrow> fault + frame_op" where
  "alloc_frames npages =
     (if npages = 0 then Inl Assert_Panic
      else Inr (if npages = 1 then Local_Pop (For_Folio 1) else Take_Block (For_Folio npages) False))"

definition alloc_frame :: frame_op where
  "alloc_frame = Local_Pop For_Frame"

definition owned_frame_handle_new :: "nat \<Rightarrow> 's locked \<Rightarrow> fault + 's locked" where
  "owned_frame_handle_new p s = (if lf_rc s p \<noteq> 0 then Inl Assert_Panic else Inr (inc_ref p s))"

definition owned_folio_from_range :: "nat \<Rightarrow> 's locked \<Rightarrow> fault + 's locked" where
  "owned_folio_from_range p s = (if lf_rc s p \<noteq> 1 then Inl Assert_Panic else Inr s)"

definition owned_folio_new :: "nat \<Rightarrow> nat \<Rightarrow> 's locked \<Rightarrow> fault + 's locked" where
  "owned_folio_new p npages s =
     (if \<exists>i < npages. lf_rc s (p + i) \<noteq> 0 then Inl Assert_Panic else Inr (inc_ref p s))"

definition construct :: "frame_goal \<Rightarrow> nat \<Rightarrow> 's locked \<Rightarrow> fault + 's locked" where
  "construct g p s =
     (case g of
        For_Frame \<Rightarrow> owned_frame_handle_new p s
      | For_Folio n \<Rightarrow>
          if n = 1 then (case owned_frame_handle_new p s of Inl f \<Rightarrow> Inl f | Inr s' \<Rightarrow> owned_folio_from_range p s')
          else owned_folio_new p n s)"

text \<open>One critical section of an operation, on the CPU \<open>cpu\<close> it runs on at that moment.\<close>

definition set_magazine :: "nat \<Rightarrow> frame_slots \<Rightarrow> 's locked \<Rightarrow> 's locked" where
  "set_magazine cpu m s = s\<lparr>lf_magazines := (lf_magazines s)[cpu := m]\<rparr>"

fun advance :: "'s fa_alloc \<Rightarrow> 's fa_dealloc \<Rightarrow> nat \<Rightarrow> nat \<Rightarrow> nat \<Rightarrow> frame_op \<Rightarrow> 's locked \<Rightarrow> fault + 's locked \<times> op_next" where
  "advance alloc dealloc batch ncpus cpu (Local_Pop g) s =
     map_sum id (\<lambda>(r, m). (set_magazine cpu m s, case r of None \<Rightarrow> Goto (Take_Batch g False) | Some p \<Rightarrow> Goto (Claim g p)))
       (magazine_pop (lf_magazines s ! cpu))"
| "advance alloc dealloc batch ncpus cpu (Take_Batch g retry) s =
     (case take_order0_batch alloc batch (lf_backend s) of
        Inl f \<Rightarrow> Inl f
      | Inr (b, s') \<Rightarrow>
          if \<not> retry \<and> fs_len b = 0 then Inr (s\<lparr>lf_backend := s'\<rparr>, Goto (Sweep g 0))
          else map_sum id (\<lambda>(r, b'). (s\<lparr>lf_backend := s'\<rparr>, case r of None \<Rightarrow> Failed | Some p \<Rightarrow> Goto (Publish g p b')))
                 (batch_pop b))"
| "advance alloc dealloc batch ncpus cpu (Take_Block g retry) s =
     map_sum id (\<lambda>(r, s'). (s\<lparr>lf_backend := s'\<rparr>,
         case r of Inr p \<Rightarrow> Goto (Claim g p)
         | Inl Admission \<Rightarrow> Failed
         | Inl Unavailable \<Rightarrow> if retry then Failed else Goto (Sweep g 0)))
       (alloc (goal_pages g) (lf_backend s))"
| "advance alloc dealloc batch ncpus cpu (Sweep g i) s =
     (if i < ncpus then
        map_sum id (\<lambda>(m, b). (set_magazine i m s, Goto (Sweep_Return g i b))) (magazine_take_all (lf_magazines s ! i))
      else Inr (s, Goto (if goal_pages g = 1 then Take_Batch g True else Take_Block g True)))"
| "advance alloc dealloc batch ncpus cpu (Sweep_Return g i b) s =
     map_sum id (\<lambda>s'. (s\<lparr>lf_backend := s'\<rparr>, Goto (Sweep g (i + 1)))) (return_to_buddy dealloc b (lf_backend s))"
| "advance alloc dealloc batch ncpus cpu (Publish g p b) s =
     map_sum id (\<lambda>(m, b'). (set_magazine cpu m s, Goto (Return_Rest g p b'))) (magazine_refill (lf_magazines s ! cpu) b)"
| "advance alloc dealloc batch ncpus cpu (Return_Rest g p b) s =
     map_sum id (\<lambda>s'. (s\<lparr>lf_backend := s'\<rparr>, Goto (Claim g p))) (return_to_buddy dealloc b (lf_backend s))"
| "advance alloc dealloc batch ncpus cpu (Claim g p) s =
     (case (if goal_pages g = 1 then Some 1 else allocation_charge (goal_pages g)) of
        None \<Rightarrow> Inr (s, Failed)
      | Some charge \<Rightarrow>
          map_sum id (\<lambda>a. (s\<lparr>lf_accounting := a\<rparr>, Goto (Construct g p))) (accounting_claim charge (lf_accounting s)))"
| "advance alloc dealloc batch ncpus cpu (Construct g p) s =
     map_sum id (\<lambda>s'. (s', Delivered p (goal_pages g))) (construct g p s)"
| "advance alloc dealloc batch ncpus cpu (Release p n) s =
     (case (if n = 1 then Some 1 else allocation_charge n) of
        None \<Rightarrow> Inl Assert_Panic
      | Some charge \<Rightarrow>
          map_sum id (\<lambda>a. (s\<lparr>lf_accounting := a\<rparr>, Goto (if n = 1 then Give_Local p else Give_Block p n)))
            (accounting_release charge (lf_accounting s)))"
| "advance alloc dealloc batch ncpus cpu (Give_Local p) s =
     map_sum id (\<lambda>(m, d). (set_magazine cpu m s, Goto (Drain d))) (magazine_release batch p (lf_magazines s ! cpu))"
| "advance alloc dealloc batch ncpus cpu (Drain b) s =
     map_sum id (\<lambda>s'. (s\<lparr>lf_backend := s'\<rparr>, Finished)) (return_to_buddy dealloc b (lf_backend s))"
| "advance alloc dealloc batch ncpus cpu (Give_Block p n) s =
     map_sum id (\<lambda>s'. (s\<lparr>lf_backend := s'\<rparr>, Finished)) (dealloc p n (lf_backend s))"

text \<open>Dropping a handle: the last reference starts the release of its pages.\<close>

definition handle_drop :: "nat \<Rightarrow> nat \<Rightarrow> 's locked \<Rightarrow> fault + 's locked \<times> op_next" where
  "handle_drop p n s =
     map_sum id (\<lambda>(old, s'). (s', if old = 1 then Goto (Release p n) else Finished)) (dec_ref p s)"

subsection \<open>Interleavings\<close>

record 's frame_sys =
  fy_locked :: "'s locked"
  fy_ops :: "frame_op multiset"
  fy_handles :: "(nat \<times> nat) multiset"

definition proceed :: "frame_op multiset \<Rightarrow> (nat \<times> nat) multiset \<Rightarrow> 's locked \<times> op_next \<Rightarrow> 's frame_sys" where
  "proceed ops hs r =
     \<lparr>fy_locked = fst r,
      fy_ops = (case snd r of Goto next_op \<Rightarrow> add_mset next_op ops | _ \<Rightarrow> ops),
      fy_handles = (case snd r of Delivered p n \<Rightarrow> add_mset (p, n) hs | _ \<Rightarrow> hs)\<rparr>"

inductive frame_step ::
  "'s fa_alloc \<Rightarrow> 's fa_dealloc \<Rightarrow> nat \<Rightarrow> nat \<Rightarrow> 's frame_sys \<Rightarrow> fault + 's frame_sys \<Rightarrow> bool"
  for alloc dealloc batch ncpus where
  frame_request: "frame_step alloc dealloc batch ncpus y (Inr (y\<lparr>fy_ops := add_mset alloc_frame (fy_ops y)\<rparr>))"
| folio_request: "0 < n \<Longrightarrow>
    frame_step alloc dealloc batch ncpus y (map_sum id (\<lambda>start. y\<lparr>fy_ops := add_mset start (fy_ops y)\<rparr>) (alloc_frames n))"
| frame_advance: "a_op \<in># fy_ops y \<Longrightarrow> cpu < ncpus \<Longrightarrow>
    frame_step alloc dealloc batch ncpus y
      (map_sum id (proceed (fy_ops y - {#a_op#}) (fy_handles y)) (advance alloc dealloc batch ncpus cpu a_op (fy_locked y)))"
| frame_clone: "(p, n) \<in># fy_handles y \<Longrightarrow>
    frame_step alloc dealloc batch ncpus y
      (Inr (y\<lparr>fy_locked := inc_ref p (fy_locked y), fy_handles := add_mset (p, n) (fy_handles y)\<rparr>))"
| frame_drop: "(p, n) \<in># fy_handles y \<Longrightarrow>
    frame_step alloc dealloc batch ncpus y
      (map_sum id (proceed (fy_ops y) (fy_handles y - {#(p, n)#})) (handle_drop p n (fy_locked y)))"

inductive frame_reachable ::
  "'s fa_alloc \<Rightarrow> 's fa_dealloc \<Rightarrow> nat \<Rightarrow> nat \<Rightarrow> 's frame_sys \<Rightarrow> 's frame_sys \<Rightarrow> bool"
  for alloc dealloc batch ncpus start where
  frame_start: "frame_reachable alloc dealloc batch ncpus start start"
| frame_stepped: "frame_reachable alloc dealloc batch ncpus start y \<Longrightarrow>
    frame_step alloc dealloc batch ncpus y (Inr y') \<Longrightarrow> frame_reachable alloc dealloc batch ncpus start y'"

subsection \<open>Slots as lists\<close>

definition slots_ok :: "nat \<Rightarrow> frame_slots \<Rightarrow> nat list \<Rightarrow> bool" where
  "slots_ok cap b xs \<longleftrightarrow> length (fs_frames b) = cap \<and> fs_len b = length xs \<and> length xs \<le> cap \<and> take (length xs) (fs_frames b) = map Some xs"

lemma slots_new_ok [simp]: "slots_ok cap (slots_new cap) []"
  by (simp add: slots_ok_def slots_new_def)

lemma slots_len: "slots_ok cap b xs \<Longrightarrow> fs_len b = length xs \<and> length (fs_frames b) = cap \<and> length xs \<le> cap"
  by (simp add: slots_ok_def)

lemma slots_unique: "slots_ok cap b xs \<Longrightarrow> slots_ok cap b ys \<Longrightarrow> xs = ys"
  by (simp add: slots_ok_def)

lemma batch_push_ok:
  assumes "slots_ok cap b xs" "length xs < cap" "p \<notin> set xs"
  shows "\<exists>b'. batch_push p b = Inr b' \<and> slots_ok cap b' (xs @ [p])"
proof -
  have "Some p \<notin> set (take (fs_len b) (fs_frames b))" using assms by (auto simp: slots_ok_def)
  then have "batch_push p b = Inr (b\<lparr>fs_frames := (fs_frames b)[fs_len b := Some p], fs_len := fs_len b + 1\<rparr>)"
    using assms by (simp add: batch_push_def slots_ok_def)
  moreover have "take (length xs + 1) ((fs_frames b)[length xs := Some p]) = map Some (xs @ [p])"
    using assms by (simp add: slots_ok_def take_Suc_conv_app_nth)
  ultimately show ?thesis using assms by (auto simp: slots_ok_def)
qed

lemma batch_pop_ok:
  assumes "slots_ok cap b xs"
  shows "xs = [] \<Longrightarrow> batch_pop b = Inr (None, b)"
    "xs = ys @ [p] \<Longrightarrow> \<exists>b'. batch_pop b = Inr (Some p, b') \<and> slots_ok cap b' ys"
proof -
  show "xs = [] \<Longrightarrow> batch_pop b = Inr (None, b)" using assms by (simp add: slots_ok_def batch_pop_def)
  assume xs: "xs = ys @ [p]"
  then have len: "fs_len b = Suc (length ys)" "length ys < length (fs_frames b)" "length (fs_frames b) = cap"
    using assms by (simp_all add: slots_ok_def)
  have pre: "take (Suc (length ys)) (fs_frames b) = map Some ys @ [Some p]" using assms xs by (simp add: slots_ok_def)
  then have "take (length ys) (fs_frames b) @ [fs_frames b ! length ys] = map Some ys @ [Some p]"
    using len(2) by (simp add: take_Suc_conv_app_nth)
  then have "take (length ys) (fs_frames b) = map Some ys" "fs_frames b ! length ys = Some p" by simp_all
  with len show "\<exists>b'. batch_pop b = Inr (Some p, b') \<and> slots_ok cap b' ys" by (simp add: batch_pop_def Let_def slots_ok_def)
qed

lemma refill_loop_ok:
  assumes "slots_ok cap m xs" "slots_ok bcap b ys" "distinct (xs @ ys)"
  shows "\<exists>m' b' xs' ys'. refill_loop m b = Inr (m', b') \<and> slots_ok cap m' xs' \<and> slots_ok bcap b' ys' \<and> mset (xs' @ ys') = mset (xs @ ys)"
  using assms
proof (induction ys arbitrary: m b xs rule: rev_induct)
  case Nil
  then have "refill_loop m b = Inr (m, b)" by (simp add: refill_loop.simps [of m b] batch_pop_ok(1))
  with Nil show ?case by blast
next
  case (snoc p ys)
  show ?case
  proof (cases "length xs < cap")
    case False
    then have "refill_loop m b = Inr (m, b)" using slots_len [OF snoc.prems(1)] by (simp add: refill_loop.simps [of m b])
    with snoc.prems show ?thesis by blast
  next
    case True
    obtain b' where b': "batch_pop b = Inr (Some p, b')" "slots_ok bcap b' ys" using batch_pop_ok(2) [OF snoc.prems(2) refl] by blast
    obtain m' where m': "batch_push p m = Inr m'" "slots_ok cap m' (xs @ [p])"
      using batch_push_ok [OF snoc.prems(1) True, of p] snoc.prems(3) by auto
    have "refill_loop m b = refill_loop m' b'"
      using True slots_len [OF snoc.prems(1)] b'(1) m'(1) by (simp add: refill_loop.simps [of m b] magazine_slots)
    with snoc.IH [OF m'(2) b'(2)] snoc.prems(3) show ?thesis by auto
  qed
qed

lemma magazine_refill_ok:
  assumes "slots_ok cap m xs" "slots_ok bcap b ys" "distinct (xs @ ys)"
  shows "\<exists>m' b' xs' ys'. magazine_refill m b = Inr (m', b') \<and> slots_ok cap m' xs' \<and> slots_ok bcap b' ys' \<and> mset (xs' @ ys') = mset (xs @ ys)"
proof -
  from refill_loop_ok [OF assms] obtain m' b' xs' ys' where r: "refill_loop m b = Inr (m', b')" "slots_ok cap m' xs'" "slots_ok bcap b' ys'"
    "mset (xs' @ ys') = mset (xs @ ys)" by blast
  with slots_len [OF assms(1)] slots_len [OF r(2)] show ?thesis by (auto simp: magazine_refill_def)
qed

lemma drain_loop_ok:
  assumes "slots_ok cap m xs" "slots_ok bcap d ys" "distinct (xs @ ys)" "n \<le> length xs" "length ys + n \<le> bcap"
  shows "\<exists>m' d' xs' ys'. drain_loop n m d = Inr (m', d') \<and> slots_ok cap m' xs' \<and> slots_ok bcap d' ys' \<and>
    mset (xs' @ ys') = mset (xs @ ys) \<and> length xs' + n = length xs"
  using assms
proof (induction n arbitrary: m d xs ys)
  case 0
  then show ?case by auto
next
  case (Suc n)
  then obtain zs p where xs: "xs = zs @ [p]" by (cases xs rule: rev_cases) auto
  obtain m' where m': "batch_pop m = Inr (Some p, m')" "slots_ok cap m' zs" using batch_pop_ok(2) [OF Suc.prems(1) xs] by blast
  obtain d' where d': "batch_push p d = Inr d'" "slots_ok bcap d' (ys @ [p])"
    using batch_push_ok [OF Suc.prems(2), of p] Suc.prems(3,5) xs by auto
  have "\<exists>m'' d'' xs' ys'. drain_loop n m' d' = Inr (m'', d'') \<and> slots_ok cap m'' xs' \<and> slots_ok bcap d'' ys' \<and>
      mset (xs' @ ys') = mset (zs @ ys @ [p]) \<and> length xs' + n = length zs"
    using Suc.IH [OF m'(2) d'(2)] Suc.prems(3-5) xs by auto
  with m' d' xs show ?case by (auto simp: magazine_slots)
qed

lemma magazine_release_ok:
  assumes "slots_ok cap m xs" "distinct (p # xs)" "0 < batch" "batch \<le> cap"
  shows "\<exists>m' d xs' ys. magazine_release batch p m = Inr (m', d) \<and> slots_ok cap m' xs' \<and> slots_ok batch d ys \<and>
    mset (xs' @ ys) = mset (p # xs)"
proof -
  have "\<exists>m1 d xs1 ys. (if fs_len m = length (fs_frames m) then drain_loop batch m (slots_new batch) else Inr (m, slots_new batch)) = Inr (m1, d) \<and>
      slots_ok cap m1 xs1 \<and> slots_ok batch d ys \<and> mset (xs1 @ ys) = mset xs \<and> length xs1 < cap"
  proof (cases "length xs = cap")
    case True
    with drain_loop_ok [OF assms(1) slots_new_ok, of batch batch] assms slots_len [OF assms(1)] show ?thesis by fastforce
  next
    case False
    with assms(1) slots_len [OF assms(1)] show ?thesis by (intro exI [of _ m] exI [of _ "slots_new batch"] exI [of _ xs] exI [of _ "[]"]) simp
  qed
  then obtain m1 d xs1 ys where d: "(if fs_len m = length (fs_frames m) then drain_loop batch m (slots_new batch) else Inr (m, slots_new batch)) = Inr (m1, d)"
    "slots_ok cap m1 xs1" "slots_ok batch d ys" "mset (xs1 @ ys) = mset xs" "length xs1 < cap" by blast
  have "set (xs1 @ ys) = set xs" using d(4) by (metis set_mset_mset)
  then have "p \<notin> set xs1" using assms(2) by auto
  from batch_push_ok [OF d(2,5) this] obtain m2 where m2: "batch_push p m1 = Inr m2" "slots_ok cap m2 (xs1 @ [p])" by blast
  have "magazine_release batch p m = Inr (m2, d)"
    using d(1) m2(1) slots_len [OF assms(1)] slots_len [OF m2(2)] by (simp add: magazine_release_def magazine_slots)
  with m2(2) d(3,4) show ?thesis by (intro exI [of _ m2] exI [of _ d] exI [of _ "xs1 @ [p]"] exI [of _ ys]) simp
qed

lemma take_loop_ok:
  assumes "slots_ok cap m xs" "slots_ok bcap b ys" "distinct (xs @ ys)" "length xs + length ys \<le> bcap"
  shows "\<exists>m' b' ys'. take_loop m b = Inr (m', b') \<and> slots_ok cap m' [] \<and> slots_ok bcap b' ys' \<and> mset ys' = mset (xs @ ys)"
  using assms
proof (induction xs arbitrary: m b ys rule: rev_induct)
  case Nil
  then have "take_loop m b = Inr (m, b)" by (simp add: take_loop.simps [of m b] magazine_slots batch_pop_ok(1))
  with Nil show ?case by auto
next
  case (snoc p xs)
  obtain m' where m': "batch_pop m = Inr (Some p, m')" "slots_ok cap m' xs" using batch_pop_ok(2) [OF snoc.prems(1) refl] by blast
  obtain b' where b': "batch_push p b = Inr b'" "slots_ok bcap b' (ys @ [p])"
    using batch_push_ok [OF snoc.prems(2), of p] snoc.prems(3,4) by auto
  have "take_loop m b = take_loop m' b'" using m'(1) b'(1) by (simp add: take_loop.simps [of m b] magazine_slots)
  with snoc.IH [OF m'(2) b'(2)] snoc.prems(3,4) show ?case by auto
qed

lemma magazine_take_all_ok:
  assumes "slots_ok cap m xs" "distinct xs"
  shows "\<exists>m' b ys. magazine_take_all m = Inr (m', b) \<and> slots_ok cap m' [] \<and> slots_ok cap b ys \<and> mset ys = mset xs"
proof -
  have c: "length (fs_frames m) = cap" using slots_len [OF assms(1)] by simp
  from take_loop_ok [OF assms(1) slots_new_ok, of cap] assms slots_len [OF assms(1)] obtain m' b ys where
    t: "take_loop m (slots_new cap) = Inr (m', b)" "slots_ok cap m' []" "slots_ok cap b ys" "mset ys = mset xs" by auto
  with slots_len [OF t(2)] show ?thesis by (auto simp: magazine_take_all_def c)
qed

subsection \<open>The interface of the backend\<close>

text \<open>The pages that an allocation of \<open>n\<close> pages takes: the next power of two. The contract
  of a backend: its state invariant, the set of free pages, and which page starts a block of
  which size. An allocation that passes admission fails only when no block of its size is
  free; a release of a block that is not free always succeeds.\<close>

definition block_size :: "nat \<Rightarrow> nat" where
  "block_size n = next_pow2_from 1 n"

definition page_block :: "nat \<Rightarrow> nat \<Rightarrow> nat set" where
  "page_block p n = {p ..< p + block_size n}"

locale frame_backend =
  fixes alloc :: "'s fa_alloc" and dealloc :: "'s fa_dealloc"
    and binv :: "'s \<Rightarrow> bool" and free_pages :: "'s \<Rightarrow> nat set" and is_block :: "'s \<Rightarrow> nat \<Rightarrow> nat \<Rightarrow> bool"
    and max_block :: nat
  assumes finite_pages: "binv s \<Longrightarrow> finite (free_pages s)"
    and single_block: "binv s \<Longrightarrow> p \<in> free_pages s \<Longrightarrow> is_block s p 1"
    and max_block: "0 < max_block" "max_block < 2 ^ 64"
    and alloc_law: "binv s \<Longrightarrow> 0 < n \<Longrightarrow>
      \<exists>r s'. alloc n s = Inr (r, s') \<and> binv s' \<and> is_block s' = is_block s \<and>
        (case r of
           Inl Admission \<Rightarrow> s' = s \<and> max_block < block_size n
         | Inl Unavailable \<Rightarrow> s' = s \<and> block_size n \<le> max_block \<and>
             \<not> (\<exists>p. is_block s p (block_size n) \<and> page_block p n \<subseteq> free_pages s)
         | Inr p \<Rightarrow> block_size n \<le> max_block \<and> is_block s p (block_size n) \<and> page_block p n \<subseteq> free_pages s \<and>
             free_pages s' = free_pages s - page_block p n)"
    and dealloc_law: "binv s \<Longrightarrow> 0 < n \<Longrightarrow> is_block s p (block_size n) \<Longrightarrow> page_block p n \<inter> free_pages s = {} \<Longrightarrow>
      \<exists>s'. dealloc p n s = Inr s' \<and> binv s' \<and> is_block s' = is_block s \<and> free_pages s' = free_pages s \<union> page_block p n"

lemma block_size_1 [simp]: "block_size 1 = 1" "block_size (Suc 0) = 1"
  by (simp_all add: block_size_def next_pow2_from.simps)

lemma block_size_ge: "n \<le> block_size n"
  unfolding block_size_def by (rule next_pow2_from_ge) simp

lemma block_size_pos: "0 < block_size n"
  using next_pow2_from_power [of 0 n] by (auto simp: block_size_def)

lemma page_block_1 [simp]: "page_block p 1 = {p}" "page_block p (Suc 0) = {p}"
  by (auto simp: page_block_def)

lemma finite_page_block [simp]: "finite (page_block p n)" and card_page_block [simp]: "card (page_block p n) = block_size n"
  by (simp_all add: page_block_def)

lemma page_block_first [simp]: "p \<in> page_block p n"
  using block_size_pos by (simp add: page_block_def)

lemma allocation_charge_eq: "block_size n < 2 ^ 64 \<Longrightarrow> allocation_charge n = Some (block_size n)"
  by (simp add: allocation_charge_def checked_next_power_of_two_def block_size_def Let_def)

lemma mset_set_Un_disjoint: "finite A \<Longrightarrow> finite B \<Longrightarrow> A \<inter> B = {} \<Longrightarrow> mset_set (A \<union> B) = mset_set A + mset_set B"
  by (rule mset_set_Union)

lemma mset_set_split: "finite A \<Longrightarrow> B \<subseteq> A \<Longrightarrow> mset_set A = mset_set (A - B) + mset_set B"
  using mset_set_Union [of B "A - B"] by (simp add: finite_subset Un_absorb1 union_commute)

lemma submset_disjoint: "A + B \<subseteq># mset_set U \<Longrightarrow> set_mset A \<inter> set_mset B = {}"
proof (rule ccontr)
  assume sub: "A + B \<subseteq># mset_set U" and "set_mset A \<inter> set_mset B \<noteq> {}"
  then obtain x where "x \<in># A" "x \<in># B" by blast
  then have "2 \<le> count (A + B) x" by (simp add: Suc_le_eq count_greater_zero_iff [symmetric] del: count_greater_zero_iff)
  moreover have "count (A + B) x \<le> 1" using mset_subset_eq_count [OF sub, of x] count_mset_set' [of U x] by (auto split: if_splits)
  ultimately show False by simp
qed

lemma submset_distinct:
  assumes "mset xs \<subseteq># mset_set U"
  shows "distinct xs"
proof -
  have "count (mset_set U) x \<le> 1" for x by (simp add: count_mset_set')
  then have "count (mset xs) x \<le> 1" for x using mset_subset_eq_count [OF assms, of x] order_trans by blast
  then show ?thesis unfolding distinct_count_atmost_1 by (metis count_eq_zero_iff le_antisym less_one not_le set_mset_mset)
qed

lemma submset_left: "A + B \<subseteq># (C :: 'a multiset) \<Longrightarrow> A \<subseteq># C" and submset_right: "A + B \<subseteq># C \<Longrightarrow> B \<subseteq># C"
  by (meson mset_subset_eq_add_left mset_subset_eq_add_right subset_mset.order_trans)+

lemma sum_list_update_mset:
  fixes f :: "'a \<Rightarrow> 'b multiset"
  assumes "i < length xs"
  shows "(\<Sum>x \<leftarrow> xs[i := y]. f x) + f (xs ! i) = (\<Sum>x \<leftarrow> xs. f x) + f y"
  using assms
proof (induction xs arbitrary: i)
  case (Cons x xs)
  show ?case
  proof (cases i)
    case (Suc j)
    with Cons.IH [of j] Cons.prems show ?thesis by (simp add: add.assoc)
  qed (simp add: ac_simps)
qed simp

lemma sum_list_member_mset:
  fixes f :: "'a \<Rightarrow> 'b multiset"
  shows "x \<in> set xs \<Longrightarrow> f x \<subseteq># (\<Sum>x \<leftarrow> xs. f x)"
  by (induction xs) (auto intro: subset_mset.order_trans)

lemma filter_mset_none: "{#x \<in># M. P x#} = {#} \<longleftrightarrow> (\<forall>x \<in># M. \<not> P x)"
  by (induction M) auto

subsection \<open>Where the frames are\<close>

definition slots_list :: "frame_slots \<Rightarrow> nat list" where
  "slots_list b = map the (take (fs_len b) (fs_frames b))"

lemma slots_list_eq: "slots_ok cap b xs \<Longrightarrow> slots_list b = xs"
  by (simp add: slots_list_def slots_ok_def comp_def)

definition slots_wf :: "nat \<Rightarrow> frame_slots \<Rightarrow> bool" where
  "slots_wf cap b \<longleftrightarrow> slots_ok cap b (slots_list b)"

lemma slots_wfI: "slots_ok cap b xs \<Longrightarrow> slots_wf cap b"
  using slots_list_eq by (simp add: slots_wf_def)

fun op_pages :: "frame_op \<Rightarrow> nat multiset" where
  "op_pages (Sweep_Return g i b) = mset (slots_list b)"
| "op_pages (Publish g p b) = add_mset p (mset (slots_list b))"
| "op_pages (Return_Rest g p b) = add_mset p (mset (slots_list b))"
| "op_pages (Claim g p) = mset_set (page_block p (goal_pages g))"
| "op_pages (Construct g p) = mset_set (page_block p (goal_pages g))"
| "op_pages (Release p n) = mset_set (page_block p n)"
| "op_pages (Give_Local p) = {#p#}"
| "op_pages (Drain b) = mset (slots_list b)"
| "op_pages (Give_Block p n) = mset_set (page_block p n)"
| "op_pages _ = {#}"

text \<open>The pages of an operation between its claim and its release are charged.\<close>

fun charged :: "frame_op \<Rightarrow> bool" where
  "charged (Construct g p) = True"
| "charged (Release p n) = True"
| "charged _ = False"

definition op_loose :: "frame_op \<Rightarrow> nat multiset" where
  "op_loose a = (if charged a then {#} else op_pages a)"

definition op_taken :: "frame_op \<Rightarrow> nat multiset" where
  "op_taken a = (if charged a then op_pages a else {#})"

fun op_ok :: "nat \<Rightarrow> nat \<Rightarrow> nat \<Rightarrow> (nat \<Rightarrow> nat \<Rightarrow> bool) \<Rightarrow> frame_op \<Rightarrow> bool" where
  "op_ok cap batch limit blk (Local_Pop g) = (goal_pages g = 1)"
| "op_ok cap batch limit blk (Take_Batch g r) = (goal_pages g = 1)"
| "op_ok cap batch limit blk (Take_Block g r) = (0 < goal_pages g)"
| "op_ok cap batch limit blk (Sweep g i) = (0 < goal_pages g)"
| "op_ok cap batch limit blk (Sweep_Return g i b) = (0 < goal_pages g \<and> slots_wf cap b)"
| "op_ok cap batch limit blk (Publish g p b) = (goal_pages g = 1 \<and> slots_wf batch b)"
| "op_ok cap batch limit blk (Return_Rest g p b) = (goal_pages g = 1 \<and> slots_wf batch b)"
| "op_ok cap batch limit blk (Claim g p) =
     (0 < goal_pages g \<and> block_size (goal_pages g) \<le> limit \<and> blk p (block_size (goal_pages g)))"
| "op_ok cap batch limit blk (Construct g p) =
     (0 < goal_pages g \<and> block_size (goal_pages g) \<le> limit \<and> blk p (block_size (goal_pages g)))"
| "op_ok cap batch limit blk (Release p n) = (0 < n \<and> block_size n \<le> limit \<and> blk p (block_size n))"
| "op_ok cap batch limit blk (Give_Local p) = True"
| "op_ok cap batch limit blk (Drain b) = slots_wf batch b"
| "op_ok cap batch limit blk (Give_Block p n) = (0 < n \<and> block_size n \<le> limit \<and> blk p (block_size n))"

definition handle_pages :: "(nat \<times> nat) multiset \<Rightarrow> nat multiset" where
  "handle_pages hs = (\<Sum>h \<in> set_mset hs. mset_set (page_block (fst h) (snd h)))"

definition local_pages :: "('s \<Rightarrow> nat set) \<Rightarrow> 's locked \<Rightarrow> nat multiset" where
  "local_pages free s = mset_set (free (lf_backend s)) + (\<Sum>m \<leftarrow> lf_magazines s. mset (slots_list m))"

definition loose :: "('s \<Rightarrow> nat set) \<Rightarrow> 's frame_sys \<Rightarrow> nat multiset" where
  "loose free y = local_pages free (fy_locked y) + (\<Sum>a \<in># fy_ops y. op_loose a)"

definition taken :: "'s frame_sys \<Rightarrow> nat multiset" where
  "taken y = (\<Sum>a \<in># fy_ops y. op_taken a) + handle_pages (fy_handles y)"

lemma op_parts: "op_loose a + op_taken a = op_pages a"
  by (simp add: op_loose_def op_taken_def)

context frame_backend
begin

lemma take_batch_loop_ok:
  assumes "binv s" "slots_ok cap b xs" "length xs + n \<le> cap" "set xs \<inter> free_pages s = {}"
  shows "\<exists>b' ys s'. take_batch_loop alloc n b s = Inr (b', s') \<and> binv s' \<and> is_block s' = is_block s \<and> slots_ok cap b' ys \<and>
    mset_set (free_pages s') + mset ys = mset_set (free_pages s) + mset xs"
  using assms
proof (induction n arbitrary: b xs s)
  case 0
  then show ?case by auto
next
  case (Suc n)
  from alloc_law [OF Suc.prems(1), of 1] obtain r s' where a: "alloc 1 s = Inr (r, s')" "binv s'" "is_block s' = is_block s"
    "case r of
       Inl Admission \<Rightarrow> s' = s \<and> max_block < block_size 1
     | Inl Unavailable \<Rightarrow> s' = s \<and> block_size 1 \<le> max_block \<and> \<not> (\<exists>p. is_block s p (block_size 1) \<and> page_block p 1 \<subseteq> free_pages s)
     | Inr p \<Rightarrow> block_size 1 \<le> max_block \<and> is_block s p (block_size 1) \<and> page_block p 1 \<subseteq> free_pages s \<and>
         free_pages s' = free_pages s - page_block p 1" by auto
  show ?case
  proof (cases r)
    case (Inl e)
    with a(4) max_block(1) have "e = Unavailable" "s' = s" by (cases e; simp)+
    with Inl a(1) Suc.prems show ?thesis by auto
  next
    case (Inr p)
    with a(4) have p: "p \<in> free_pages s" "free_pages s' = free_pages s - {p}" by simp_all
    then have "p \<notin> set xs" using Suc.prems(4) by auto
    from batch_push_ok [OF Suc.prems(2) _ this] Suc.prems(3) obtain b' where b': "batch_push p b = Inr b'" "slots_ok cap b' (xs @ [p])" by auto
    have "mset_set (free_pages s) = mset_set (free_pages s') + {#p#}"
      using mset_set_split [OF finite_pages [OF Suc.prems(1)], of "{p}"] p by simp
    with Suc.IH [OF a(2) b'(2)] Suc.prems(3,4) p(2) a(1,3) b'(1) Inr show ?thesis by fastforce
  qed
qed

lemma return_to_buddy_ok:
  assumes "binv s" "slots_ok cap b xs" "\<forall>p \<in> set xs. is_block s p 1" "distinct xs" "set xs \<inter> free_pages s = {}"
  shows "\<exists>s'. return_to_buddy dealloc b s = Inr s' \<and> binv s' \<and> is_block s' = is_block s \<and>
    mset_set (free_pages s') = mset_set (free_pages s) + mset xs"
  using assms
proof (induction xs arbitrary: b s rule: rev_induct)
  case Nil
  then show ?case by (simp add: return_to_buddy.simps [of dealloc b s] batch_pop_ok(1))
next
  case (snoc p xs)
  obtain b' where b': "batch_pop b = Inr (Some p, b')" "slots_ok cap b' xs" using batch_pop_ok(2) [OF snoc.prems(2) refl] by blast
  from dealloc_law [OF snoc.prems(1), of 1 p] snoc.prems(3,5) obtain s1 where s1: "dealloc p 1 s = Inr s1" "binv s1"
    "is_block s1 = is_block s" "free_pages s1 = free_pages s \<union> {p}" by auto
  have "mset_set (free_pages s1) = mset_set (free_pages s) + {#p#}"
    using snoc.prems(5) finite_pages [OF snoc.prems(1)] s1(4) by simp
  with snoc.IH [OF s1(2) b'(2)] snoc.prems(3-5) s1 b'(1) show ?case
    by (auto simp: return_to_buddy.simps [of dealloc b s])
qed

text \<open>Every page is in exactly one place: free in the backend, in a magazine, carried by one
  operation in progress, or under live handles; the free counter counts the pages that are
  not charged; and a reference count is the number of handles on that page.\<close>

definition frame_inv :: "nat \<Rightarrow> nat \<Rightarrow> nat \<Rightarrow> nat set \<Rightarrow> 's frame_sys \<Rightarrow> bool" where
  "frame_inv cap batch ncpus U y \<longleftrightarrow>
     (let s = fy_locked y in
      binv (lf_backend s) \<and> (\<forall>p \<in> U. is_block (lf_backend s) p 1) \<and> finite U \<and> card U < 2 ^ 64 \<and>
      ncpus \<le> length (lf_magazines s) \<and> (\<forall>m \<in> set (lf_magazines s). slots_wf cap m) \<and>
      (\<forall>a \<in># fy_ops y. op_ok cap batch max_block (is_block (lf_backend s)) a) \<and>
      (\<forall>h \<in># fy_handles y. 0 < snd h \<and> block_size (snd h) \<le> max_block \<and> is_block (lf_backend s) (fst h) (block_size (snd h))) \<and>
      loose free_pages y + taken y = mset_set U \<and>
      ac_free (lf_accounting s) = size (loose free_pages y) \<and> ac_total (lf_accounting s) = card U \<and>
      (\<forall>p. lf_rc s p = size {#h \<in># fy_handles y. fst h = p#}))"

lemma frame_invD:
  assumes "frame_inv cap batch ncpus U y"
  shows "binv (lf_backend (fy_locked y))" "p \<in> U \<Longrightarrow> is_block (lf_backend (fy_locked y)) p 1" "finite U" "card U < 2 ^ 64"
    "ncpus \<le> length (lf_magazines (fy_locked y))" "m \<in> set (lf_magazines (fy_locked y)) \<Longrightarrow> slots_wf cap m"
    "a \<in># fy_ops y \<Longrightarrow> op_ok cap batch max_block (is_block (lf_backend (fy_locked y))) a"
    "h \<in># fy_handles y \<Longrightarrow> 0 < snd h \<and> block_size (snd h) \<le> max_block \<and> is_block (lf_backend (fy_locked y)) (fst h) (block_size (snd h))"
    "loose free_pages y + taken y = mset_set U" "ac_free (lf_accounting (fy_locked y)) = size (loose free_pages y)"
    "ac_total (lf_accounting (fy_locked y)) = card U" "lf_rc (fy_locked y) p = size {#h \<in># fy_handles y. fst h = p#}"
  using assms unfolding frame_inv_def Let_def by blast+

text \<open>What a critical section has to show: the pages it moves between the shared state and
  the operation balance, and the counter follows the pages that become charged or loose.\<close>

definition balanced :: "'s locked \<Rightarrow> frame_op \<Rightarrow> 's locked \<Rightarrow> nat multiset \<Rightarrow> nat multiset \<Rightarrow> bool" where
  "balanced s a s' l t \<longleftrightarrow>
     local_pages free_pages s' + l + t = local_pages free_pages s + op_pages a \<and>
     ac_free (lf_accounting s') + size (local_pages free_pages s) + size (op_loose a) =
       ac_free (lf_accounting s) + size (local_pages free_pages s') + size l \<and>
     ac_total (lf_accounting s') = ac_total (lf_accounting s)"

definition sound_locked :: "nat \<Rightarrow> 's locked \<Rightarrow> 's locked \<Rightarrow> bool" where
  "sound_locked cap s s' \<longleftrightarrow> binv (lf_backend s') \<and> is_block (lf_backend s') = is_block (lf_backend s) \<and>
     length (lf_magazines s') = length (lf_magazines s) \<and> (\<forall>m \<in> set (lf_magazines s'). slots_wf cap m)"

lemma proceed_goto:
  assumes inv: "frame_inv cap batch ncpus U y" and a: "a \<in># fy_ops y" and s': "sound_locked cap (fy_locked y) s'"
    and ok: "op_ok cap batch max_block (is_block (lf_backend (fy_locked y))) b" and rc: "lf_rc s' = lf_rc (fy_locked y)"
    and bal: "balanced (fy_locked y) a s' (op_loose b) (op_taken b)"
  shows "frame_inv cap batch ncpus U (proceed (fy_ops y - {#a#}) (fy_handles y) (s', Goto b))"
proof -
  let ?y = "proceed (fy_ops y - {#a#}) (fy_handles y) (s', Goto b)"
  note D = frame_invD [OF inv]
  obtain ops where ops: "fy_ops y = add_mset a ops" using a by (metis mset_add)
  have "(loose free_pages ?y + taken ?y) + (local_pages free_pages (fy_locked y) + op_pages a) =
      (loose free_pages y + taken y) + (local_pages free_pages s' + op_loose b + op_taken b)"
    by (simp add: loose_def taken_def proceed_def ops op_parts [of a, symmetric] ac_simps)
  then have sum: "loose free_pages ?y + taken ?y = mset_set U" using bal D(9) by (simp add: balanced_def)
  have "size (loose free_pages ?y) + size (local_pages free_pages (fy_locked y)) + size (op_loose a) =
      size (loose free_pages y) + size (local_pages free_pages s') + size (op_loose b)"
    by (simp add: loose_def proceed_def ops)
  then have "ac_free (lf_accounting s') = size (loose free_pages ?y)" using bal D(10) by (simp add: balanced_def)
  moreover have "\<forall>c \<in># fy_ops ?y. op_ok cap batch max_block (is_block (lf_backend s')) c"
    using D(7) ok s' by (auto simp: proceed_def ops sound_locked_def)
  ultimately show ?thesis using sum D(2-5,8,11,12) s' rc bal
    unfolding frame_inv_def Let_def by (simp add: proceed_def sound_locked_def balanced_def)
qed

lemma proceed_end:
  assumes inv: "frame_inv cap batch ncpus U y" and a: "a \<in># fy_ops y" and s': "sound_locked cap (fy_locked y) s'"
    and nx: "nx = Failed \<or> nx = Finished" and rc: "lf_rc s' = lf_rc (fy_locked y)"
    and bal: "balanced (fy_locked y) a s' {#} {#}"
  shows "frame_inv cap batch ncpus U (proceed (fy_ops y - {#a#}) (fy_handles y) (s', nx))"
proof -
  define y' where "y' = proceed (fy_ops y - {#a#}) (fy_handles y) (s', nx)"
  note D = frame_invD [OF inv]
  obtain ops where ops: "fy_ops y = add_mset a ops" using a by (metis mset_add)
  have y: "fy_locked y' = s'" "fy_ops y' = ops" "fy_handles y' = fy_handles y" using nx by (auto simp: y'_def proceed_def ops)
  have "(loose free_pages y' + taken y') + (local_pages free_pages (fy_locked y) + op_pages a) =
      (loose free_pages y + taken y) + local_pages free_pages s'"
    by (simp add: loose_def taken_def y ops op_parts [of a, symmetric] ac_simps)
  then have sum: "loose free_pages y' + taken y' = mset_set U" using bal D(9) by (simp add: balanced_def)
  have "size (loose free_pages y') + size (local_pages free_pages (fy_locked y)) + size (op_loose a) =
      size (loose free_pages y) + size (local_pages free_pages s')"
    by (simp add: loose_def y ops)
  then have "ac_free (lf_accounting s') = size (loose free_pages y')" using bal D(10) unfolding balanced_def size_empty by linarith
  moreover have "\<forall>c \<in># ops. op_ok cap batch max_block (is_block (lf_backend s')) c"
    using D(7) s' by (auto simp: ops sound_locked_def)
  ultimately show ?thesis using sum D(2-5,8,11,12) s' rc bal
    unfolding y'_def [symmetric] frame_inv_def Let_def y by (simp add: sound_locked_def balanced_def)
qed

lemma op_submset:
  assumes inv: "frame_inv cap batch ncpus U y" and "a \<in># fy_ops y"
  shows "local_pages free_pages (fy_locked y) + op_pages a \<subseteq># mset_set U"
proof -
  obtain ops where ops: "fy_ops y = add_mset a ops" using assms(2) by (metis mset_add)
  have "loose free_pages y + taken y = (local_pages free_pages (fy_locked y) + op_pages a) +
      ((\<Sum>c \<in># ops. op_loose c) + (\<Sum>c \<in># ops. op_taken c) + handle_pages (fy_handles y))"
    by (simp add: loose_def taken_def ops op_parts [of a, symmetric] ac_simps)
  then show ?thesis using frame_invD(9) [OF inv] by (metis mset_subset_eq_add_left)
qed

lemma backend_apart:
  assumes "local_pages free_pages s + A \<subseteq># mset_set U" "binv (lf_backend s)"
  shows "set_mset A \<inter> free_pages (lf_backend s) = {}" "m \<in> set (lf_magazines s) \<Longrightarrow> set_mset A \<inter> set (slots_list m) = {}"
    "m \<in> set (lf_magazines s) \<Longrightarrow> distinct (slots_list m)" "m \<in> set (lf_magazines s) \<Longrightarrow> set (slots_list m) \<subseteq> U" "set_mset A \<subseteq> U"
proof -
  have fin: "set_mset (mset_set (free_pages (lf_backend s))) = free_pages (lf_backend s)" using finite_pages [OF assms(2)] by simp
  note dis = submset_disjoint [OF assms(1)]
  show "set_mset A \<inter> free_pages (lf_backend s) = {}" using dis fin by (auto simp: local_pages_def)
  show "set_mset A \<subseteq> U" using set_mset_mono [OF submset_right [OF assms(1)]] by (cases "finite U") auto
  assume m: "m \<in> set (lf_magazines s)"
  have sub: "mset (slots_list m) \<subseteq># local_pages free_pages s"
    using sum_list_member_mset [OF m, of "\<lambda>m. mset (slots_list m)"] subset_mset.order_trans unfolding local_pages_def by fastforce
  then have "mset (slots_list m) \<subseteq># mset_set U" using submset_left [OF assms(1)] subset_mset.order_trans by blast
  then show "distinct (slots_list m)" "set (slots_list m) \<subseteq> U"
    using submset_distinct set_mset_mono [of "mset (slots_list m)" "mset_set U"] by (auto, cases "finite U", auto)
  show "set_mset A \<inter> set (slots_list m) = {}" using dis set_mset_mono [OF sub] by auto
qed

lemma set_magazine_pages:
  assumes "cpu < length (lf_magazines s)"
  shows "local_pages free_pages (set_magazine cpu m s) + mset (slots_list (lf_magazines s ! cpu)) =
    local_pages free_pages s + mset (slots_list m)"
proof -
  have "(\<Sum>x \<leftarrow> (lf_magazines s)[cpu := m]. mset (slots_list x)) + mset (slots_list (lf_magazines s ! cpu)) =
      (\<Sum>x \<leftarrow> lf_magazines s. mset (slots_list x)) + mset (slots_list m)"
    using sum_list_update_mset [OF assms, where y = m and f = "\<lambda>x. mset (slots_list x)"] .
  then show ?thesis by (simp add: local_pages_def set_magazine_def add.assoc)
qed

lemma set_magazine_sound:
  assumes "frame_inv cap batch ncpus U y" "slots_wf cap m"
  shows "sound_locked cap (fy_locked y) (set_magazine cpu m (fy_locked y))"
  using frame_invD(1,6) [OF assms(1)] assms(2) by (auto simp: sound_locked_def set_magazine_def dest!: set_update_subset_insert [THEN subsetD])

lemma backend_pages: "local_pages free_pages (s\<lparr>lf_backend := b\<rparr>) + mset_set (free_pages (lf_backend s)) =
    local_pages free_pages s + mset_set (free_pages b)"
  by (simp add: local_pages_def ac_simps)

lemma backend_sound:
  assumes "frame_inv cap batch ncpus U y" "binv b" "is_block b = is_block (lf_backend (fy_locked y))"
  shows "sound_locked cap (fy_locked y) ((fy_locked y)\<lparr>lf_backend := b\<rparr>)"
  using frame_invD(6) [OF assms(1)] assms(2,3) by (simp add: sound_locked_def)

lemma set_magazine_sel [simp]:
  "lf_rc (set_magazine cpu m s) = lf_rc s" "lf_accounting (set_magazine cpu m s) = lf_accounting s"
  "lf_backend (set_magazine cpu m s) = lf_backend s"
  by (simp_all add: set_magazine_def)

lemma balancedI:
  assumes "\<not> charged a" "lf_accounting s' = lf_accounting s" "local_pages free_pages s' + l = local_pages free_pages s + op_pages a"
  shows "balanced s a s' l {#}"
proof -
  have "size (local_pages free_pages s') + size l = size (local_pages free_pages s) + size (op_pages a)"
    using assms(3) by (metis size_union)
  with assms show ?thesis by (simp add: balanced_def op_loose_def)
qed

definition advance_safe :: "nat \<Rightarrow> nat \<Rightarrow> nat \<Rightarrow> nat set \<Rightarrow> 's frame_sys \<Rightarrow> nat \<Rightarrow> frame_op \<Rightarrow> bool" where
  "advance_safe cap batch ncpus U y cpu a \<longleftrightarrow>
     (\<exists>r. advance alloc dealloc batch ncpus cpu a (fy_locked y) = Inr r \<and>
        frame_inv cap batch ncpus U (proceed (fy_ops y - {#a#}) (fy_handles y) r))"

lemma advance_goto:
  assumes inv: "frame_inv cap batch ncpus U y" "a \<in># fy_ops y" and "advance alloc dealloc batch ncpus cpu a (fy_locked y) = Inr (s', Goto b)"
    "sound_locked cap (fy_locked y) s'" "op_ok cap batch max_block (is_block (lf_backend (fy_locked y))) b" "lf_rc s' = lf_rc (fy_locked y)"
    "lf_accounting s' = lf_accounting (fy_locked y)" "\<not> charged a" "\<not> charged b"
    "local_pages free_pages s' + op_pages b = local_pages free_pages (fy_locked y) + op_pages a"
  shows "advance_safe cap batch ncpus U y cpu a"
proof -
  have "balanced (fy_locked y) a s' (op_loose b) (op_taken b)"
    using balancedI [OF assms(8,7), of "op_loose b"] assms(9,10) by (simp add: op_loose_def op_taken_def)
  from proceed_goto [OF inv assms(4-6) this] assms(3) show ?thesis by (auto simp: advance_safe_def)
qed

lemma advance_end:
  assumes inv: "frame_inv cap batch ncpus U y" "a \<in># fy_ops y" and "advance alloc dealloc batch ncpus cpu a (fy_locked y) = Inr (s', nx)"
    "sound_locked cap (fy_locked y) s'" "nx = Failed \<or> nx = Finished" "lf_rc s' = lf_rc (fy_locked y)"
    "lf_accounting s' = lf_accounting (fy_locked y)" "\<not> charged a"
    "local_pages free_pages s' = local_pages free_pages (fy_locked y) + op_pages a"
  shows "advance_safe cap batch ncpus U y cpu a"
proof -
  have "balanced (fy_locked y) a s' {#} {#}" using balancedI [OF assms(8,7), of "{#}"] assms(9) by simp
  from proceed_end [OF inv assms(4-6) this] assms(3) show ?thesis by (auto simp: advance_safe_def)
qed

lemma advance_local_pop:
  assumes inv: "frame_inv cap batch ncpus U y" and a: "Local_Pop g \<in># fy_ops y" and cpu: "cpu < ncpus"
  shows "advance_safe cap batch ncpus U y cpu (Local_Pop g)"
proof -
  let ?s = "fy_locked y" and ?m = "lf_magazines (fy_locked y) ! cpu"
  note D = frame_invD [OF inv]
  have i: "cpu < length (lf_magazines ?s)" using cpu D(5) by simp
  then have mem: "?m \<in> set (lf_magazines ?s)" by simp
  have wf: "slots_ok cap ?m (slots_list ?m)" using D(6) [OF mem] by (simp add: slots_wf_def)
  have g: "goal_pages g = 1" using D(7) [OF a] by simp
  note pages = set_magazine_pages [OF i]
  show ?thesis
  proof (cases "slots_list ?m" rule: rev_cases)
    case Nil
    have st: "advance alloc dealloc batch ncpus cpu (Local_Pop g) ?s = Inr (set_magazine cpu ?m ?s, Goto (Take_Batch g False))"
      using batch_pop_ok(1) [OF wf Nil] by (simp add: magazine_slots)
    show ?thesis by (rule advance_goto [OF inv a st]) (use set_magazine_sound [OF inv D(6) [OF mem]] g pages [of ?m] in simp_all)
  next
    case (snoc xs p)
    from batch_pop_ok(2) [OF wf snoc] obtain m' where m': "batch_pop ?m = Inr (Some p, m')" "slots_ok cap m' xs" by blast
    then have st: "advance alloc dealloc batch ncpus cpu (Local_Pop g) ?s = Inr (set_magazine cpu m' ?s, Goto (Claim g p))"
      by (simp add: magazine_slots)
    have "p \<in> U" using backend_apart(4) [OF op_submset [OF inv a] D(1) mem] snoc by auto
    moreover have "local_pages free_pages (set_magazine cpu m' ?s) + {#p#} = local_pages free_pages ?s"
      using pages [of m'] snoc slots_list_eq [OF m'(2)] by simp
    ultimately show ?thesis
      by (intro advance_goto [OF inv a st]) (use set_magazine_sound [OF inv slots_wfI [OF m'(2)]] g D(2) max_block(1) in simp_all)
  qed
qed

lemma advance_take_batch:
  assumes inv: "frame_inv cap batch ncpus U y" and a: "Take_Batch g retry \<in># fy_ops y"
  shows "advance_safe cap batch ncpus U y cpu (Take_Batch g retry)"
proof -
  let ?s = "fy_locked y"
  note D = frame_invD [OF inv]
  have g: "goal_pages g = 1" using D(7) [OF a] by simp
  from take_batch_loop_ok [OF D(1) slots_new_ok, of batch batch] obtain b ys s' where t:
    "take_order0_batch alloc batch (lf_backend ?s) = Inr (b, s')" "binv s'" "is_block s' = is_block (lf_backend ?s)" "slots_ok batch b ys"
    "mset_set (free_pages s') + mset ys = mset_set (free_pages (lf_backend ?s))" by (auto simp: take_order0_batch_def)
  let ?s' = "?s\<lparr>lf_backend := s'\<rparr>"
  have pages: "local_pages free_pages ?s' + mset ys = local_pages free_pages ?s"
    by (simp add: local_pages_def ac_simps flip: t(5))
  note snd = backend_sound [OF inv t(2,3)]
  show ?thesis
  proof (cases ys rule: rev_cases)
    case Nil
    have st: "advance alloc dealloc batch ncpus cpu (Take_Batch g retry) ?s = Inr (?s', if retry then Failed else Goto (Sweep g 0))"
      using t(1) Nil batch_pop_ok(1) [OF t(4)] slots_len [OF t(4)] by simp
    show ?thesis
    proof (cases retry)
      case True
      with st have "advance alloc dealloc batch ncpus cpu (Take_Batch g retry) ?s = Inr (?s', Failed)" by simp
      then show ?thesis by (rule advance_end [OF inv a]) (use snd pages Nil in simp_all)
    next
      case False
      with st have "advance alloc dealloc batch ncpus cpu (Take_Batch g retry) ?s = Inr (?s', Goto (Sweep g 0))" by simp
      then show ?thesis by (rule advance_goto [OF inv a]) (use snd g pages Nil in simp_all)
    qed
  next
    case (snoc xs p)
    from batch_pop_ok(2) [OF t(4) snoc] obtain b' where b': "batch_pop b = Inr (Some p, b')" "slots_ok batch b' xs" by blast
    have "advance alloc dealloc batch ncpus cpu (Take_Batch g retry) ?s = Inr (?s', Goto (Publish g p b'))"
      using t(1) b'(1) slots_len [OF t(4)] snoc by simp
    then show ?thesis
      by (rule advance_goto [OF inv a]) (use snd g pages snoc slots_list_eq [OF b'(2)] slots_wfI [OF b'(2)] in simp_all)
  qed
qed

lemma advance_take_block:
  assumes inv: "frame_inv cap batch ncpus U y" and a: "Take_Block g retry \<in># fy_ops y"
  shows "advance_safe cap batch ncpus U y cpu (Take_Block g retry)"
proof -
  let ?s = "fy_locked y" and ?n = "goal_pages g" and ?a = "Take_Block g retry"
  note D = frame_invD [OF inv]
  have n: "0 < ?n" using D(7) [OF a] by simp
  from alloc_law [OF D(1) n] obtain r s' where al: "alloc ?n (lf_backend ?s) = Inr (r, s')" "binv s'" "is_block s' = is_block (lf_backend ?s)"
    and r: "case r of
       Inl Admission \<Rightarrow> s' = lf_backend ?s \<and> max_block < block_size ?n
     | Inl Unavailable \<Rightarrow> s' = lf_backend ?s \<and> block_size ?n \<le> max_block \<and>
         \<not> (\<exists>p. is_block (lf_backend ?s) p (block_size ?n) \<and> page_block p ?n \<subseteq> free_pages (lf_backend ?s))
     | Inr p \<Rightarrow> block_size ?n \<le> max_block \<and> is_block (lf_backend ?s) p (block_size ?n) \<and> page_block p ?n \<subseteq> free_pages (lf_backend ?s) \<and>
         free_pages s' = free_pages (lf_backend ?s) - page_block p ?n" by blast
  note snd = backend_sound [OF inv al(2,3)]
  show ?thesis
  proof (cases r)
    case (Inr p)
    with r have p: "block_size ?n \<le> max_block" "is_block (lf_backend ?s) p (block_size ?n)" "page_block p ?n \<subseteq> free_pages (lf_backend ?s)"
      "free_pages s' = free_pages (lf_backend ?s) - page_block p ?n" by simp_all
    have pages: "local_pages free_pages (?s\<lparr>lf_backend := s'\<rparr>) + mset_set (page_block p ?n) = local_pages free_pages ?s"
      using mset_set_split [OF finite_pages [OF D(1)] p(3)] p(4) by (simp add: local_pages_def)
    have "advance alloc dealloc batch ncpus cpu ?a ?s = Inr (?s\<lparr>lf_backend := s'\<rparr>, Goto (Claim g p))" using al(1) Inr by simp
    then show ?thesis by (rule advance_goto [OF inv a]) (use snd n p(1,2) pages in simp_all)
  next
    case (Inl e)
    with r have same: "s' = lf_backend ?s" by (cases e) simp_all
    then have pages: "local_pages free_pages (?s\<lparr>lf_backend := s'\<rparr>) = local_pages free_pages ?s" by simp
    show ?thesis
    proof (cases "e = Unavailable \<and> \<not> retry")
      case True
      then have "advance alloc dealloc batch ncpus cpu ?a ?s = Inr (?s\<lparr>lf_backend := s'\<rparr>, Goto (Sweep g 0))" using al(1) Inl by simp
      then show ?thesis by (rule advance_goto [OF inv a]) (use snd n pages in simp_all)
    next
      case False
      then have "advance alloc dealloc batch ncpus cpu ?a ?s = Inr (?s\<lparr>lf_backend := s'\<rparr>, Failed)" using al(1) Inl by (cases e) auto
      then show ?thesis by (rule advance_end [OF inv a]) (use snd pages in simp_all)
    qed
  qed
qed

lemma returned:
  assumes inv: "frame_inv cap batch ncpus U y" and a: "a \<in># fy_ops y" and sub: "mset (slots_list b) \<subseteq># op_pages a" and wf: "slots_wf c b"
  obtains s' where "return_to_buddy dealloc b (lf_backend (fy_locked y)) = Inr s'"
    "sound_locked cap (fy_locked y) ((fy_locked y)\<lparr>lf_backend := s'\<rparr>)"
    "local_pages free_pages ((fy_locked y)\<lparr>lf_backend := s'\<rparr>) = local_pages free_pages (fy_locked y) + mset (slots_list b)"
proof -
  note D = frame_invD [OF inv]
  have U: "local_pages free_pages (fy_locked y) + mset (slots_list b) \<subseteq># mset_set U"
    using op_submset [OF inv a] sub by (meson subset_mset.add_left_mono subset_mset.order_trans)
  note ap = backend_apart [OF U D(1)]
  have "distinct (slots_list b)" using submset_distinct [OF submset_right [OF U]] .
  moreover have "\<forall>p \<in> set (slots_list b). is_block (lf_backend (fy_locked y)) p 1" using ap(5) D(2) by auto
  ultimately obtain s' where r: "return_to_buddy dealloc b (lf_backend (fy_locked y)) = Inr s'" "binv s'"
    "is_block s' = is_block (lf_backend (fy_locked y))" "mset_set (free_pages s') = mset_set (free_pages (lf_backend (fy_locked y))) + mset (slots_list b)"
    using return_to_buddy_ok [OF D(1), of c b "slots_list b"] wf ap(1) by (auto simp: slots_wf_def)
  have "local_pages free_pages ((fy_locked y)\<lparr>lf_backend := s'\<rparr>) = local_pages free_pages (fy_locked y) + mset (slots_list b)"
    using r(4) by (simp add: local_pages_def)
  with that r(1) backend_sound [OF inv r(2,3)] show ?thesis .
qed

lemma advance_returns:
  assumes inv: "frame_inv cap batch ncpus U y"
  shows "Sweep_Return g i b \<in># fy_ops y \<Longrightarrow> advance_safe cap batch ncpus U y cpu (Sweep_Return g i b)"
    "Return_Rest g p b \<in># fy_ops y \<Longrightarrow> advance_safe cap batch ncpus U y cpu (Return_Rest g p b)"
    "Drain b \<in># fy_ops y \<Longrightarrow> advance_safe cap batch ncpus U y cpu (Drain b)"
proof -
  note D = frame_invD [OF inv]
  show "advance_safe cap batch ncpus U y cpu (Sweep_Return g i b)" if a: "Sweep_Return g i b \<in># fy_ops y"
  proof -
    have ok: "0 < goal_pages g" "slots_wf cap b" using D(7) [OF a] by simp_all
    from returned [OF inv a _ ok(2)] obtain s' where r: "return_to_buddy dealloc b (lf_backend (fy_locked y)) = Inr s'"
      "sound_locked cap (fy_locked y) ((fy_locked y)\<lparr>lf_backend := s'\<rparr>)"
      "local_pages free_pages ((fy_locked y)\<lparr>lf_backend := s'\<rparr>) = local_pages free_pages (fy_locked y) + mset (slots_list b)" by auto
    have "advance alloc dealloc batch ncpus cpu (Sweep_Return g i b) (fy_locked y) = Inr ((fy_locked y)\<lparr>lf_backend := s'\<rparr>, Goto (Sweep g (i + 1)))"
      using r(1) by simp
    then show ?thesis by (rule advance_goto [OF inv a]) (use r(2,3) ok in simp_all)
  qed
  show "advance_safe cap batch ncpus U y cpu (Return_Rest g p b)" if a: "Return_Rest g p b \<in># fy_ops y"
  proof -
    have ok: "goal_pages g = 1" "slots_wf batch b" using D(7) [OF a] by simp_all
    from returned [OF inv a _ ok(2)] obtain s' where r: "return_to_buddy dealloc b (lf_backend (fy_locked y)) = Inr s'"
      "sound_locked cap (fy_locked y) ((fy_locked y)\<lparr>lf_backend := s'\<rparr>)"
      "local_pages free_pages ((fy_locked y)\<lparr>lf_backend := s'\<rparr>) = local_pages free_pages (fy_locked y) + mset (slots_list b)" by auto
    have st: "advance alloc dealloc batch ncpus cpu (Return_Rest g p b) (fy_locked y) = Inr ((fy_locked y)\<lparr>lf_backend := s'\<rparr>, Goto (Claim g p))"
      using r(1) by simp
    have "p \<in> U" using backend_apart(5) [OF op_submset [OF inv a] D(1)] by simp
    then show ?thesis by (intro advance_goto [OF inv a st]) (use r(2,3) ok D(2) max_block(1) in simp_all)
  qed
  show "advance_safe cap batch ncpus U y cpu (Drain b)" if a: "Drain b \<in># fy_ops y"
  proof -
    have ok: "slots_wf batch b" using D(7) [OF a] by simp
    from returned [OF inv a _ ok] obtain s' where r: "return_to_buddy dealloc b (lf_backend (fy_locked y)) = Inr s'"
      "sound_locked cap (fy_locked y) ((fy_locked y)\<lparr>lf_backend := s'\<rparr>)"
      "local_pages free_pages ((fy_locked y)\<lparr>lf_backend := s'\<rparr>) = local_pages free_pages (fy_locked y) + mset (slots_list b)" by auto
    have "advance alloc dealloc batch ncpus cpu (Drain b) (fy_locked y) = Inr ((fy_locked y)\<lparr>lf_backend := s'\<rparr>, Finished)" using r(1) by simp
    then show ?thesis by (rule advance_end [OF inv a]) (use r(2,3) in simp_all)
  qed
qed

lemma advance_sweep:
  assumes inv: "frame_inv cap batch ncpus U y" and a: "Sweep g i \<in># fy_ops y"
  shows "advance_safe cap batch ncpus U y cpu (Sweep g i)"
proof -
  let ?s = "fy_locked y" and ?m = "lf_magazines (fy_locked y) ! i"
  note D = frame_invD [OF inv]
  have g: "0 < goal_pages g" using D(7) [OF a] by simp
  show ?thesis
  proof (cases "i < ncpus")
    case True
    then have i: "i < length (lf_magazines ?s)" and mem: "?m \<in> set (lf_magazines ?s)" using D(5) by simp_all
    have wf: "slots_ok cap ?m (slots_list ?m)" using D(6) [OF mem] by (simp add: slots_wf_def)
    from magazine_take_all_ok [OF wf backend_apart(3) [OF op_submset [OF inv a] D(1) mem]] obtain m' b ys where
      t: "magazine_take_all ?m = Inr (m', b)" "slots_ok cap m' []" "slots_ok cap b ys" "mset ys = mset (slots_list ?m)" by blast
    have st: "advance alloc dealloc batch ncpus cpu (Sweep g i) ?s = Inr (set_magazine i m' ?s, Goto (Sweep_Return g i b))"
      using True t(1) by simp
    have "local_pages free_pages (set_magazine i m' ?s) + mset (slots_list b) = local_pages free_pages ?s"
      using set_magazine_pages [OF i, of m'] slots_list_eq [OF t(2)] slots_list_eq [OF t(3)] t(4) by simp
    then show ?thesis
      by (intro advance_goto [OF inv a st]) (use set_magazine_sound [OF inv slots_wfI [OF t(2)]] slots_wfI [OF t(3)] g in simp_all)
  next
    case False
    have snd: "sound_locked cap ?s ?s" using D(1,6) by (simp add: sound_locked_def)
    from False have st: "advance alloc dealloc batch ncpus cpu (Sweep g i) ?s =
        Inr (?s, Goto (if goal_pages g = 1 then Take_Batch g True else Take_Block g True))" by simp
    show ?thesis by (rule advance_goto [OF inv a st]) (use snd g in auto)
  qed
qed

lemma advance_publish:
  assumes inv: "frame_inv cap batch ncpus U y" and a: "Publish g p b \<in># fy_ops y" and cpu: "cpu < ncpus"
  shows "advance_safe cap batch ncpus U y cpu (Publish g p b)"
proof -
  let ?s = "fy_locked y" and ?m = "lf_magazines (fy_locked y) ! cpu"
  note D = frame_invD [OF inv]
  have i: "cpu < length (lf_magazines ?s)" and mem: "?m \<in> set (lf_magazines ?s)" using cpu D(5) by simp_all
  have wf: "slots_ok cap ?m (slots_list ?m)" using D(6) [OF mem] by (simp add: slots_wf_def)
  have g: "goal_pages g = 1" and b: "slots_ok batch b (slots_list b)" using D(7) [OF a] by (simp_all add: slots_wf_def)
  note ap = backend_apart [OF op_submset [OF inv a] D(1)]
  have "mset (p # slots_list b) \<subseteq># mset_set U" using submset_right [OF op_submset [OF inv a]] by simp
  then have "distinct (slots_list ?m @ slots_list b)" using submset_distinct ap(2,3) [OF mem] by fastforce
  from magazine_refill_ok [OF wf b this] obtain m' b' xs ys where t: "magazine_refill ?m b = Inr (m', b')" "slots_ok cap m' xs"
    "slots_ok batch b' ys" "mset (xs @ ys) = mset (slots_list ?m @ slots_list b)" by blast
  have st: "advance alloc dealloc batch ncpus cpu (Publish g p b) ?s = Inr (set_magazine cpu m' ?s, Goto (Return_Rest g p b'))"
    using t(1) by simp
  have "local_pages free_pages (set_magazine cpu m' ?s) + mset ys + mset (slots_list ?m) = local_pages free_pages ?s + mset (slots_list b) + mset (slots_list ?m)"
    using set_magazine_pages [OF i, of m'] slots_list_eq [OF t(2)] t(4) by (simp add: ac_simps)
  then have "local_pages free_pages (set_magazine cpu m' ?s) + mset ys = local_pages free_pages ?s + mset (slots_list b)" by simp
  then show ?thesis
    by (intro advance_goto [OF inv a st])
      (use set_magazine_sound [OF inv slots_wfI [OF t(2)]] slots_wfI [OF t(3)] slots_list_eq [OF t(3)] g in simp_all)
qed

lemma advance_give_local:
  assumes inv: "frame_inv cap batch ncpus U y" and a: "Give_Local p \<in># fy_ops y" and cpu: "cpu < ncpus" and "0 < batch" "batch \<le> cap"
  shows "advance_safe cap batch ncpus U y cpu (Give_Local p)"
proof -
  let ?s = "fy_locked y" and ?m = "lf_magazines (fy_locked y) ! cpu"
  note D = frame_invD [OF inv]
  have i: "cpu < length (lf_magazines ?s)" and mem: "?m \<in> set (lf_magazines ?s)" using cpu D(5) by simp_all
  have wf: "slots_ok cap ?m (slots_list ?m)" using D(6) [OF mem] by (simp add: slots_wf_def)
  note ap = backend_apart [OF op_submset [OF inv a] D(1)]
  have "distinct (p # slots_list ?m)" using ap(2,3) [OF mem] by simp
  from magazine_release_ok [OF wf this assms(4,5)] obtain m' d xs ys where t: "magazine_release batch p ?m = Inr (m', d)" "slots_ok cap m' xs"
    "slots_ok batch d ys" "mset (xs @ ys) = mset (p # slots_list ?m)" by blast
  have st: "advance alloc dealloc batch ncpus cpu (Give_Local p) ?s = Inr (set_magazine cpu m' ?s, Goto (Drain d))" using t(1) by simp
  have "local_pages free_pages (set_magazine cpu m' ?s) + mset ys + mset (slots_list ?m) = local_pages free_pages ?s + {#p#} + mset (slots_list ?m)"
    using set_magazine_pages [OF i, of m'] slots_list_eq [OF t(2)] t(4) by (simp add: ac_simps)
  then have "local_pages free_pages (set_magazine cpu m' ?s) + mset ys = local_pages free_pages ?s + {#p#}" by (simp only: add_right_cancel)
  then show ?thesis
    by (intro advance_goto [OF inv a st])
      (use set_magazine_sound [OF inv slots_wfI [OF t(2)]] slots_wfI [OF t(3)] slots_list_eq [OF t(3)] in simp_all)
qed

lemma advance_give_block:
  assumes inv: "frame_inv cap batch ncpus U y" and a: "Give_Block p n \<in># fy_ops y"
  shows "advance_safe cap batch ncpus U y cpu (Give_Block p n)"
proof -
  let ?s = "fy_locked y"
  note D = frame_invD [OF inv]
  have ok: "0 < n" "is_block (lf_backend ?s) p (block_size n)" using D(7) [OF a] by simp_all
  have dis: "page_block p n \<inter> free_pages (lf_backend ?s) = {}" using backend_apart(1) [OF op_submset [OF inv a] D(1)] by simp
  from dealloc_law [OF D(1) ok dis] obtain s' where d: "dealloc p n (lf_backend ?s) = Inr s'" "binv s'" "is_block s' = is_block (lf_backend ?s)"
    "free_pages s' = free_pages (lf_backend ?s) \<union> page_block p n" by blast
  have pages: "local_pages free_pages (?s\<lparr>lf_backend := s'\<rparr>) = local_pages free_pages ?s + mset_set (page_block p n)"
    using mset_set_Un_disjoint [of "free_pages (lf_backend ?s)" "page_block p n"] finite_pages [OF D(1)] dis d(4)
    by (simp add: local_pages_def Int_commute)
  have st: "advance alloc dealloc batch ncpus cpu (Give_Block p n) ?s = Inr (?s\<lparr>lf_backend := s'\<rparr>, Finished)" using d(1) by simp
  show ?thesis by (rule advance_end [OF inv a st]) (use backend_sound [OF inv d(2,3)] pages in simp_all)
qed

lemma accounting_pages: "local_pages free_pages (s\<lparr>lf_accounting := x\<rparr>) = local_pages free_pages s"
  by (simp add: local_pages_def)

lemma accounting_sound:
  assumes "frame_inv cap batch ncpus U y"
  shows "sound_locked cap (fy_locked y) ((fy_locked y)\<lparr>lf_accounting := x\<rparr>)"
  using frame_invD(1,6) [OF assms] by (simp add: sound_locked_def)

lemma advance_claim:
  assumes inv: "frame_inv cap batch ncpus U y" and a: "Claim g p \<in># fy_ops y"
  shows "advance_safe cap batch ncpus U y cpu (Claim g p)"
proof -
  let ?s = "fy_locked y" and ?n = "goal_pages g"
  let ?acc = "(lf_accounting ?s)\<lparr>ac_free := ac_free (lf_accounting ?s) - block_size ?n\<rparr>"
  note D = frame_invD [OF inv]
  have ok: "0 < ?n" "block_size ?n \<le> max_block" "is_block (lf_backend ?s) p (block_size ?n)" using D(7) [OF a] by simp_all
  obtain ops where ops: "fy_ops y = add_mset (Claim g p) ops" using a by (metis mset_add)
  have enough: "block_size ?n \<le> ac_free (lf_accounting ?s)" unfolding D(10) loose_def ops by (simp add: op_loose_def)
  have charge: "(if ?n = 1 then Some 1 else allocation_charge ?n) = Some (block_size ?n)"
    using allocation_charge_eq [of ?n] ok(2) max_block(2) by simp
  have st: "advance alloc dealloc batch ncpus cpu (Claim g p) ?s = Inr (?s\<lparr>lf_accounting := ?acc\<rparr>, Goto (Construct g p))"
    using enough by (simp add: charge accounting_claim_def del: One_nat_def)
  have "balanced ?s (Claim g p) (?s\<lparr>lf_accounting := ?acc\<rparr>) (op_loose (Construct g p)) (op_taken (Construct g p))"
    using enough by (simp add: balanced_def accounting_pages op_loose_def op_taken_def)
  from proceed_goto [OF inv a accounting_sound [OF inv] _ _ this] st ok show ?thesis by (simp add: advance_safe_def)
qed

lemma advance_release:
  assumes inv: "frame_inv cap batch ncpus U y" and a: "Release p n \<in># fy_ops y"
  shows "advance_safe cap batch ncpus U y cpu (Release p n)"
proof -
  let ?s = "fy_locked y" and ?b = "if n = 1 then Give_Local p else Give_Block p n"
  let ?acc = "(lf_accounting ?s)\<lparr>ac_free := ac_free (lf_accounting ?s) + block_size n\<rparr>"
  note D = frame_invD [OF inv]
  have ok: "0 < n" "block_size n \<le> max_block" "is_block (lf_backend ?s) p (block_size n)" using D(7) [OF a] by simp_all
  obtain ops where ops: "fy_ops y = add_mset (Release p n) ops" using a by (metis mset_add)
  have "size (loose free_pages y) + size (taken y) = card U" using D(3,9) by (metis size_mset_set size_union)
  moreover have "block_size n \<le> size (taken y)" unfolding taken_def ops by (simp add: op_taken_def)
  ultimately have room: "ac_free (lf_accounting ?s) + block_size n \<le> card U" unfolding D(10) by linarith
  have charge: "(if n = 1 then Some 1 else allocation_charge n) = Some (block_size n)"
    using allocation_charge_eq [of n] ok(2) max_block(2) by simp
  have st: "advance alloc dealloc batch ncpus cpu (Release p n) ?s = Inr (?s\<lparr>lf_accounting := ?acc\<rparr>, Goto ?b)"
    using room D(4,11) by (simp add: charge accounting_release_def checked_add_def del: One_nat_def)
  have "balanced ?s (Release p n) (?s\<lparr>lf_accounting := ?acc\<rparr>) (op_loose ?b) (op_taken ?b)"
    by (simp add: balanced_def accounting_pages op_loose_def op_taken_def)
  from proceed_goto [OF inv a accounting_sound [OF inv] _ _ this] st ok show ?thesis by (simp add: advance_safe_def)
qed

lemma handle_block_sub: "h \<in># hs \<Longrightarrow> mset_set (page_block (fst h) (snd h)) \<subseteq># handle_pages hs"
  unfolding handle_pages_def
  using sum.remove [of "set_mset hs" h "\<lambda>h. mset_set (page_block (fst h) (snd h))"] by (simp add: mset_subset_eq_add_left)

lemma op_handle_apart:
  assumes inv: "frame_inv cap batch ncpus U y" and "a \<in># fy_ops y" "h \<in># fy_handles y"
  shows "set_mset (op_pages a) \<inter> page_block (fst h) (snd h) = {}"
proof -
  obtain ops where ops: "fy_ops y = add_mset a ops" using assms(2) by (metis mset_add)
  have "loose free_pages y + taken y = (op_pages a + handle_pages (fy_handles y)) +
      (local_pages free_pages (fy_locked y) + (\<Sum>c \<in># ops. op_loose c) + (\<Sum>c \<in># ops. op_taken c))"
    by (simp add: loose_def taken_def ops op_parts [of a, symmetric] ac_simps)
  then have "op_pages a + handle_pages (fy_handles y) \<subseteq># mset_set U" using frame_invD(9) [OF inv] by (metis mset_subset_eq_add_left)
  from submset_disjoint [OF this] set_mset_mono [OF handle_block_sub [OF assms(3)]] show ?thesis by auto
qed

lemma handles_apart:
  assumes inv: "frame_inv cap batch ncpus U y" and "h \<in># fy_handles y" "h' \<in># fy_handles y" "h \<noteq> h'"
  shows "page_block (fst h) (snd h) \<inter> page_block (fst h') (snd h') = {}"
proof -
  let ?f = "\<lambda>h. mset_set (page_block (fst h) (snd h))" and ?H = "set_mset (fy_handles y)"
  have "handle_pages (fy_handles y) = (?f h + ?f h') + (\<Sum>k \<in> ?H - {h} - {h'}. ?f k)"
    unfolding handle_pages_def using assms(2-4) by (simp add: sum.remove [of ?H h] sum.remove [of "?H - {h}" h'] add.assoc)
  moreover have "handle_pages (fy_handles y) \<subseteq># mset_set U"
    using frame_invD(9) [OF inv] unfolding taken_def by (metis add.assoc mset_subset_eq_add_right)
  ultimately have "?f h + ?f h' \<subseteq># mset_set U" using submset_left by metis
  from submset_disjoint [OF this] show ?thesis by simp
qed

lemma handle_inside:
  assumes inv: "frame_inv cap batch ncpus U y" and h: "h \<in># fy_handles y"
  shows "page_block (fst h) (snd h) \<subseteq> U"
proof -
  let ?f = "\<lambda>h. mset_set (page_block (fst h) (snd h))" and ?H = "set_mset (fy_handles y)"
  have "handle_pages (fy_handles y) = ?f h + (\<Sum>k \<in> ?H - {h}. ?f k)"
    unfolding handle_pages_def using h by (simp add: sum.remove [of ?H h])
  moreover have "handle_pages (fy_handles y) \<subseteq># mset_set U"
    using frame_invD(9) [OF inv] unfolding taken_def by (metis add.assoc mset_subset_eq_add_right)
  ultimately have "?f h \<subseteq># mset_set U" using submset_left by metis
  from set_mset_mono [OF this] frame_invD(3) [OF inv] show ?thesis by (simp add: page_block_def)
qed

lemma rc_zero:
  assumes inv: "frame_inv cap batch ncpus U y" and "a \<in># fy_ops y" "q \<in># op_pages a"
  shows "lf_rc (fy_locked y) q = 0"
proof -
  have "fst h \<noteq> q" if "h \<in># fy_handles y" for h
    using op_handle_apart [OF inv assms(2) that] page_block_first [of "fst h" "snd h"] assms(3) by (auto simp del: page_block_first)
  then show ?thesis unfolding frame_invD(12) [OF inv] by (auto simp: filter_mset_none)
qed

lemma construct_ok:
  assumes "\<And>q. q \<in> page_block p (goal_pages g) \<Longrightarrow> lf_rc s q = 0" "0 < goal_pages g"
  shows "construct g p s = Inr (inc_ref p s)"
proof -
  have first: "lf_rc s p = 0" using assms(1) by simp
  show ?thesis
  proof (cases g)
    case For_Frame
    with first show ?thesis by (simp add: construct_def owned_frame_handle_new_def)
  next
    case (For_Folio n)
    have "lf_rc s (p + i) = 0" if "i < n" for i
      using assms(1) [of "p + i"] that block_size_ge [of n] For_Folio by (simp add: page_block_def)
    with For_Folio first show ?thesis
      by (auto simp: construct_def owned_frame_handle_new_def owned_folio_from_range_def owned_folio_new_def inc_ref_def)
  qed
qed

lemma inc_ref_sel [simp]: "lf_backend (inc_ref p s) = lf_backend s" "lf_magazines (inc_ref p s) = lf_magazines s"
  "lf_accounting (inc_ref p s) = lf_accounting s" "lf_rc (inc_ref p s) q = (if q = p then lf_rc s p + 1 else lf_rc s q)"
  "local_pages free_pages (inc_ref p s) = local_pages free_pages s"
  by (simp_all add: inc_ref_def local_pages_def)

lemma advance_construct:
  assumes inv: "frame_inv cap batch ncpus U y" and a: "Construct g p \<in># fy_ops y"
  shows "advance_safe cap batch ncpus U y cpu (Construct g p)"
proof -
  let ?s = "fy_locked y" and ?n = "goal_pages g"
  note D = frame_invD [OF inv]
  have ok: "0 < ?n" "block_size ?n \<le> max_block" "is_block (lf_backend ?s) p (block_size ?n)" using D(7) [OF a] by simp_all
  have "construct g p ?s = Inr (inc_ref p ?s)" using rc_zero [OF inv a] ok(1) by (intro construct_ok) simp_all
  then have st: "advance alloc dealloc batch ncpus cpu (Construct g p) ?s = Inr (inc_ref p ?s, Delivered p ?n)" by simp
  obtain ops where ops: "fy_ops y = add_mset (Construct g p) ops" using a by (metis mset_add)
  have "(p, ?n) \<notin># fy_handles y" using op_handle_apart [OF inv a, of "(p, ?n)"] page_block_first [of p ?n] by (auto simp del: page_block_first)
  then have hp: "handle_pages (add_mset (p, ?n) (fy_handles y)) = mset_set (page_block p ?n) + handle_pages (fy_handles y)"
    by (simp add: handle_pages_def)
  define y' where "y' = proceed (fy_ops y - {#Construct g p#}) (fy_handles y) (inc_ref p ?s, Delivered p ?n)"
  have y: "fy_locked y' = inc_ref p ?s" "fy_ops y' = ops" "fy_handles y' = add_mset (p, ?n) (fy_handles y)"
    by (simp_all add: y'_def proceed_def ops)
  have "loose free_pages y' = loose free_pages y" "taken y' = taken y"
    by (simp_all add: loose_def taken_def y ops hp op_loose_def op_taken_def ac_simps)
  then have "frame_inv cap batch ncpus U y'" using D ok unfolding frame_inv_def Let_def y by (auto simp: ops)
  with st show ?thesis by (simp add: advance_safe_def y'_def)
qed

lemma frame_clone_keeps:
  assumes inv: "frame_inv cap batch ncpus U y" and h: "(p, n) \<in># fy_handles y"
  shows "frame_inv cap batch ncpus U (y\<lparr>fy_locked := inc_ref p (fy_locked y), fy_handles := add_mset (p, n) (fy_handles y)\<rparr>)"
proof -
  note D = frame_invD [OF inv]
  have "handle_pages (add_mset (p, n) (fy_handles y)) = handle_pages (fy_handles y)" using h by (simp add: handle_pages_def insert_absorb)
  then show ?thesis using D h unfolding frame_inv_def Let_def by (auto simp: loose_def taken_def)
qed

lemma frame_drop_keeps:
  assumes inv: "frame_inv cap batch ncpus U y" and h: "(p, n) \<in># fy_handles y"
  shows "\<exists>r. handle_drop p n (fy_locked y) = Inr r \<and> frame_inv cap batch ncpus U (proceed (fy_ops y) (fy_handles y - {#(p, n)#}) r)"
proof -
  let ?s = "fy_locked y"
  note D = frame_invD [OF inv]
  obtain hs where hs: "fy_handles y = add_mset (p, n) hs" using h by (metis mset_add)
  have rc: "lf_rc ?s p = Suc (size {#k \<in># hs. fst k = p#})" using D(12) [of p] by (simp add: hs)
  define s' where "s' = ?s\<lparr>lf_rc := (lf_rc ?s)(p := lf_rc ?s p - 1)\<rparr>"
  define nx where "nx = (if lf_rc ?s p = 1 then Goto (Release p n) else Finished)"
  have st: "handle_drop p n ?s = Inr (s', nx)" using rc by (simp add: handle_drop_def dec_ref_def s'_def nx_def)
  have rc': "lf_rc s' q = size {#k \<in># hs. fst k = q#}" for q using D(12) [of q] rc by (auto simp: s'_def hs)
  have same: "(p, n) \<in># hs" if "lf_rc ?s p \<noteq> 1"
  proof -
    from that rc obtain k where k: "k \<in># hs" "fst k = p" by (auto simp: filter_mset_none)
    have "k = (p, n)"
    proof (rule ccontr)
      assume "k \<noteq> (p, n)"
      from handles_apart [OF inv _ _ this] k hs page_block_first [of p] show False by (auto simp del: page_block_first)
    qed
    with k(1) show ?thesis by simp
  qed
  have gone: "(p, n) \<notin># hs" if "lf_rc ?s p = 1" using that rc by (auto simp: filter_mset_none)
  define y' where "y' = proceed (fy_ops y) (fy_handles y - {#(p, n)#}) (s', nx)"
  have y: "fy_locked y' = s'" "fy_handles y' = hs" "fy_ops y' = (if lf_rc ?s p = 1 then add_mset (Release p n) (fy_ops y) else fy_ops y)"
    by (simp_all add: y'_def proceed_def hs nx_def)
  have loc: "local_pages free_pages s' = local_pages free_pages ?s" by (simp add: s'_def local_pages_def)
  have "loose free_pages y' = loose free_pages y" by (simp add: loose_def y loc op_loose_def)
  moreover have "taken y' = taken y"
    using gone same by (auto simp: taken_def y hs op_taken_def handle_pages_def insert_absorb ac_simps)
  moreover have "0 < n \<and> block_size n \<le> max_block \<and> is_block (lf_backend ?s) p (block_size n)" using D(8) [OF h] by simp
  ultimately have "frame_inv cap batch ncpus U y'" using D rc' unfolding frame_inv_def Let_def y by (auto simp: hs s'_def)
  with st show ?thesis by (auto simp: y'_def)
qed

lemma frame_step_keeps:
  assumes "frame_step alloc dealloc batch ncpus y res" "frame_inv cap batch ncpus U y" "0 < batch" "batch \<le> cap"
  shows "\<exists>y'. res = Inr y' \<and> frame_inv cap batch ncpus U y'"
  using assms(1)
proof cases
  case frame_request
  have "frame_inv cap batch ncpus U (y\<lparr>fy_ops := add_mset alloc_frame (fy_ops y)\<rparr>)"
    using frame_invD [OF assms(2)] unfolding frame_inv_def Let_def by (auto simp: alloc_frame_def loose_def taken_def op_loose_def op_taken_def)
  with frame_request show ?thesis by blast
next
  case (folio_request n)
  let ?b = "if n = 1 then Local_Pop (For_Folio 1) else Take_Block (For_Folio n) False"
  have "frame_inv cap batch ncpus U (y\<lparr>fy_ops := add_mset ?b (fy_ops y)\<rparr>)"
    using frame_invD [OF assms(2)] folio_request(2) unfolding frame_inv_def Let_def by (auto simp: loose_def taken_def op_loose_def op_taken_def)
  with folio_request show ?thesis by (auto simp: alloc_frames_def)
next
  case (frame_advance a cpu)
  note safe = advance_local_pop advance_take_batch advance_take_block advance_sweep advance_returns advance_publish advance_claim
    advance_construct advance_release advance_give_local advance_give_block
  have "advance_safe cap batch ncpus U y cpu a"
    using frame_advance(2,3) assms(3,4) by (cases a) (simp_all add: safe [OF assms(2)])
  with frame_advance(1) show ?thesis by (auto simp: advance_safe_def)
next
  case (frame_clone p n)
  with frame_clone_keeps [OF assms(2)] show ?thesis by auto
next
  case (frame_drop p n)
  with frame_drop_keeps [OF assms(2)] show ?thesis by fastforce
qed

text \<open>The state after boot: every page free in the backend, the magazines of all CPUs empty,
  the accounting seeded with the number of pages, every reference count zero.\<close>

lemma frame_inv_boot:
  assumes "binv s" "card (free_pages s) < 2 ^ 64" "ncpus \<le> nmags" "add_free_range (card (free_pages s)) accounting_new = Inr acc"
  shows "frame_inv cap batch ncpus (free_pages s)
    \<lparr>fy_locked = \<lparr>lf_backend = s, lf_magazines = replicate nmags (slots_new cap), lf_accounting = acc, lf_rc = (\<lambda>p. 0)\<rparr>, fy_ops = {#}, fy_handles = {#}\<rparr>"
proof -
  have acc: "acc = \<lparr>ac_total = card (free_pages s), ac_free = card (free_pages s)\<rparr>"
    using assms(2,4) by (simp add: add_free_range_def accounting_new_def checked_add_def)
  have "(\<Sum>m \<leftarrow> replicate nmags (slots_new cap). mset (slots_list m)) = {#}"
    by (induction nmags) (simp_all add: slots_list_eq [OF slots_new_ok])
  with assms(1-3) show ?thesis using finite_pages [OF assms(1)] single_block [OF assms(1)] slots_wfI [OF slots_new_ok]
    by (simp add: frame_inv_def Let_def acc loose_def taken_def local_pages_def handle_pages_def)
qed

lemma frame_reachable_inv:
  assumes "frame_reachable alloc dealloc batch ncpus start y" "frame_inv cap batch ncpus U start" "0 < batch" "batch \<le> cap"
  shows "frame_inv cap batch ncpus U y"
  using assms(1)
proof induction
  case (frame_stepped y y')
  then show ?case using frame_step_keeps [OF frame_stepped.hyps(2) _ assms(3,4)] by blast
qed (rule assms(2))

end

subsection \<open>Every operation ends\<close>

text \<open>The critical sections of one operation in order, with arbitrary changes to the shared
  state and arbitrary CPUs in between.\<close>

inductive op_trace :: "'s fa_alloc \<Rightarrow> 's fa_dealloc \<Rightarrow> nat \<Rightarrow> nat \<Rightarrow> frame_op \<Rightarrow> nat \<Rightarrow> frame_op \<Rightarrow> bool"
  for alloc dealloc batch ncpus start where
  trace_start: "op_trace alloc dealloc batch ncpus start 0 start"
| trace_goto: "op_trace alloc dealloc batch ncpus start k a \<Longrightarrow> advance alloc dealloc batch ncpus cpu a s = Inr (s', Goto b) \<Longrightarrow>
    op_trace alloc dealloc batch ncpus start (Suc k) b"

fun op_rank :: "nat \<Rightarrow> frame_op \<Rightarrow> nat" where
  "op_rank ncpus (Local_Pop g) = 8 + 2 * ncpus"
| "op_rank ncpus (Take_Batch g retry) = (if retry then 5 else 7 + 2 * ncpus)"
| "op_rank ncpus (Take_Block g retry) = (if retry then 3 else 7 + 2 * ncpus)"
| "op_rank ncpus (Sweep g i) = 6 + 2 * (ncpus - i)"
| "op_rank ncpus (Sweep_Return g i b) = 7 + 2 * (ncpus - Suc i)"
| "op_rank ncpus (Publish g p b) = 4"
| "op_rank ncpus (Return_Rest g p b) = 3"
| "op_rank ncpus (Claim g p) = 2"
| "op_rank ncpus (Construct g p) = 1"
| "op_rank ncpus (Release p n) = 3"
| "op_rank ncpus (Give_Local p) = 2"
| "op_rank ncpus (Drain b) = 1"
| "op_rank ncpus (Give_Block p n) = 1"

lemma advance_rank:
  "advance alloc dealloc batch ncpus cpu a s = Inr (s', Goto b) \<Longrightarrow> op_rank ncpus b < op_rank ncpus a"
proof (cases a)
  case (Sweep g i)
  then show "advance alloc dealloc batch ncpus cpu a s = Inr (s', Goto b) \<Longrightarrow> op_rank ncpus b < op_rank ncpus a"
    by (cases "i < ncpus") (auto simp: map_sum_def split: if_splits sum.splits)
qed (auto simp: map_sum_def split: if_splits sum.splits option.splits alloc_failure.splits prod.splits)

lemma op_trace_rank: "op_trace alloc dealloc batch ncpus start k a \<Longrightarrow> k + op_rank ncpus a \<le> op_rank ncpus start"
proof (induction rule: op_trace.induct)
  case (trace_goto k a cpu s s' b)
  with advance_rank [OF trace_goto.hyps(2)] show ?case by simp
qed simp

end
