(* ===== verification/Buddy_Zone.thy ===== *)
theory Buddy_Zone
  imports Sys_Error "HOL-Library.Word"
begin

text \<open>
  One zone of the buddy allocator (crate \<open>buddy-system\<close>, files \<open>bitmap.rs\<close> and
  \<open>zone.rs\<close>): the layout computed by \<open>from_slice\<close>, one bitmap and one list of free blocks
  per order, allocation with splitting and release with merging. A free list is the
  list of the addresses of its blocks; the two template parameters of the source are
  fields. The bitmaps are kept as slices of bytes of their own; that they do not overlap
  the blocks is a property of the layout. The optional statistics are left out.
\<close>

unbundle bit_operations_syntax

subsection \<open>Bit slices\<close>

record bit_slice =
  bs_len :: nat
  bs_bytes :: "8 word list"

definition bs_test :: "bit_slice \<Rightarrow> nat \<Rightarrow> bool option" where
  "bs_test b i =
     (if i \<ge> bs_len b then None else Some ((bs_bytes b ! (i div 8)) AND push_bit (i mod 8) 1 \<noteq> 0))"

definition bs_set :: "bit_slice \<Rightarrow> nat \<Rightarrow> bit_slice option" where
  "bs_set b i =
     (if i \<ge> bs_len b then None
      else Some (b\<lparr>bs_bytes := (bs_bytes b)[i div 8 := (bs_bytes b ! (i div 8)) OR push_bit (i mod 8) 1]\<rparr>))"

definition bs_clear :: "bit_slice \<Rightarrow> nat \<Rightarrow> bit_slice option" where
  "bs_clear b i =
     (if i \<ge> bs_len b then None
      else Some (b\<lparr>bs_bytes := (bs_bytes b)[i div 8 := (bs_bytes b ! (i div 8)) AND NOT (push_bit (i mod 8) 1)]\<rparr>))"

subsection \<open>The zone\<close>

datatype buddy_error = InvalidOrder | UnalignedAddr | InvalidAddr | BuddyOutOfMemory | DoubleFree

record zone =
  z_min :: nat
  z_norder :: nat
  z_nunits :: nat
  z_salloc :: nat
  z_bitmaps :: "bit_slice list"
  z_free :: "nat list list"

definition buddy_block_idx :: "nat \<Rightarrow> nat" where
  "buddy_block_idx i = (if i mod 2 = 0 then i + 1 else i - 1)"

definition block_idx :: "zone \<Rightarrow> nat \<Rightarrow> nat \<Rightarrow> fault + nat" where
  "block_idx z addr order =
     (if addr < z_salloc z then Inl Overflow_Panic
      else Inr ((addr - z_salloc z) div (z_min z * 2 ^ order)))"

definition block_ptr :: "zone \<Rightarrow> nat \<Rightarrow> nat \<Rightarrow> nat" where
  "block_ptr z i order = z_salloc z + i * (z_min z * 2 ^ order)"

definition set_order :: "zone \<Rightarrow> nat \<Rightarrow> bit_slice \<Rightarrow> nat list \<Rightarrow> zone" where
  "set_order z k b fl = z\<lparr>z_bitmaps := (z_bitmaps z)[k := b], z_free := (z_free z)[k := fl]\<rparr>"

definition alloc_block :: "zone \<Rightarrow> nat \<Rightarrow> fault + nat option \<times> zone" where
  "alloc_block z k =
     (if k \<ge> z_norder z then Inl Assert_Panic
      else case z_free z ! k of
          [] \<Rightarrow> Inr (None, z)
        | addr # rest \<Rightarrow>
            (case block_idx z addr k of
               Inl f \<Rightarrow> Inl f
             | Inr i \<Rightarrow>
                 (case bs_clear (z_bitmaps z ! k) i of
                    None \<Rightarrow> Inl Assert_Panic
                  | Some b \<Rightarrow> if addr = 0 then Inl Assert_Panic else Inr (Some addr, set_order z k b rest))))"

text \<open>Splitting a block of order \<open>k\<close> down to \<open>order\<close>: the second half of every split becomes
  free. Both halves must be marked as not free before.\<close>

fun split_block :: "zone \<Rightarrow> nat \<Rightarrow> nat \<Rightarrow> nat \<Rightarrow> fault + zone" where
  "split_block z order 0 i = Inr z"
| "split_block z order (Suc k) i =
     (if Suc k \<le> order then Inr z
      else
        let lower = i * 2; buddy = lower + 1; b = z_bitmaps z ! k in
        if bs_test b lower = Some False \<and> bs_test b buddy = Some False then
          (case bs_set b buddy of
             None \<Rightarrow> Inl Assert_Panic
           | Some b' \<Rightarrow> split_block (set_order z k b' (z_free z ! k @ [block_ptr z buddy k])) order k lower)
        else Inl Assert_Panic)"

function zone_alloc_from :: "zone \<Rightarrow> nat \<Rightarrow> nat \<Rightarrow> fault + (buddy_error + nat) \<times> zone" where
  "zone_alloc_from z order k =
     (if k \<ge> z_norder z then Inr (Inl BuddyOutOfMemory, z)
      else case alloc_block z k of
          Inl f \<Rightarrow> Inl f
        | Inr (None, _) \<Rightarrow> zone_alloc_from z order (k + 1)
        | Inr (Some addr, z1) \<Rightarrow>
            if addr mod z_min z \<noteq> 0 then Inl Assert_Panic
            else (case block_idx z1 addr k of
                    Inl f \<Rightarrow> Inl f
                  | Inr i \<Rightarrow> map_sum id (\<lambda>z2. (Inr addr, z2)) (split_block z1 order k i)))"
  by pat_completeness auto
termination
  by (relation "measure (\<lambda>(z, order, k). z_norder z - k)") auto

declare zone_alloc_from.simps [simp del]

definition zone_alloc :: "zone \<Rightarrow> nat \<Rightarrow> fault + (buddy_error + nat) \<times> zone" where
  "zone_alloc z order = (if order \<ge> z_norder z then Inr (Inl InvalidOrder, z) else zone_alloc_from z order order)"

definition zone_contains :: "zone \<Rightarrow> nat \<Rightarrow> bool" where
  "zone_contains z addr \<longleftrightarrow> addr \<ge> z_salloc z \<and> addr < z_salloc z + z_nunits z * z_min z"

text \<open>Merging upwards while the buddy exists and is free.\<close>

function merge_block :: "zone \<Rightarrow> nat \<Rightarrow> nat \<Rightarrow> fault + nat \<times> nat \<times> zone" where
  "merge_block z k i =
     (if k + 1 \<ge> z_norder z then Inr (k, i, z)
      else
        let buddy = buddy_block_idx i; b = z_bitmaps z ! k in
        if buddy \<ge> bs_len b then Inr (k, i, z)
        else case bs_test b buddy of
            None \<Rightarrow> Inl Assert_Panic
          | Some False \<Rightarrow> Inr (k, i, z)
          | Some True \<Rightarrow>
              (case bs_clear b buddy of
                 None \<Rightarrow> Inl Assert_Panic
               | Some b' \<Rightarrow>
                   if block_ptr z buddy k \<notin> set (z_free z ! k) then Inl Assert_Panic
                   else merge_block (set_order z k b' (remove1 (block_ptr z buddy k) (z_free z ! k))) (k + 1) (i div 2)))"
  by pat_completeness auto
termination
  by (relation "measure (\<lambda>(z, k, i). z_norder z - k)") (auto simp: set_order_def)

declare merge_block.simps [simp del]

definition zone_dealloc :: "zone \<Rightarrow> nat \<Rightarrow> nat \<Rightarrow> fault + (buddy_error + unit) \<times> zone" where
  "zone_dealloc z addr order =
     (if order \<ge> z_norder z then Inr (Inl InvalidOrder, z)
      else if addr mod z_min z \<noteq> 0 then Inr (Inl UnalignedAddr, z)
      else if addr < z_salloc z then Inr (Inl InvalidAddr, z)
      else if (addr - z_salloc z) mod (z_min z * 2 ^ order) \<noteq> 0 then Inr (Inl UnalignedAddr, z)
      else case block_idx z addr order of
          Inl f \<Rightarrow> Inl f
        | Inr i \<Rightarrow>
            if i \<ge> z_nunits z div 2 ^ order then Inr (Inl InvalidAddr, z)
            else case bs_test (z_bitmaps z ! order) i of
                None \<Rightarrow> Inl Assert_Panic
              | Some True \<Rightarrow> Inr (Inl DoubleFree, z)
              | Some False \<Rightarrow>
                  (case merge_block z order i of
                     Inl f \<Rightarrow> Inl f
                   | Inr (k, j, z1) \<Rightarrow>
                       (case bs_set (z_bitmaps z1 ! k) j of
                          None \<Rightarrow> Inl Assert_Panic
                        | Some b \<Rightarrow> Inr (Inr (), set_order z1 k b (z_free z1 ! k @ [block_ptr z1 j k])))))"

subsection \<open>Bit slices as sets\<close>

definition bs_ok :: "bit_slice \<Rightarrow> bool" where
  "bs_ok b \<longleftrightarrow> bs_len b \<le> 8 * length (bs_bytes b)"

definition bits_of :: "bit_slice \<Rightarrow> nat set" where
  "bits_of b = {i. i < bs_len b \<and> bit (bs_bytes b ! (i div 8)) (i mod 8)}"

lemma bs_byte: "bs_ok b \<Longrightarrow> i < bs_len b \<Longrightarrow> i div 8 < length (bs_bytes b)"
  by (auto simp: bs_ok_def less_mult_imp_div_less mult.commute)

lemma and_push_bit: "n < 8 \<Longrightarrow> (w :: 8 word) AND push_bit n 1 \<noteq> 0 \<longleftrightarrow> bit w n"
  using bit_eq_iff [of "w AND push_bit n 1" 0] by (auto simp: bit_and_iff bit_exp_iff)

lemma bs_test_iff [simp]: "bs_test b i = (if i < bs_len b then Some (i \<in> bits_of b) else None)"
  using and_push_bit [of "i mod 8" "bs_bytes b ! (i div 8)"] by (simp add: bs_test_def bits_of_def)

lemma div_mod_8: "(i::nat) div 8 = j div 8 \<Longrightarrow> i mod 8 = j mod 8 \<Longrightarrow> i = j"
  by (metis div_mult_mod_eq)

lemma bits_of_upd:
  assumes "bs_ok b" "i < bs_len b" "\<And>n. n < 8 \<Longrightarrow> bit w n = (if n = i mod 8 then v else bit (bs_bytes b ! (i div 8)) n)"
  shows "bits_of (b\<lparr>bs_bytes := (bs_bytes b)[i div 8 := w]\<rparr>) = (if v then insert i (bits_of b) else bits_of b - {i})"
proof (intro set_eqI)
  fix j
  have "bit ((bs_bytes b)[i div 8 := w] ! (j div 8)) (j mod 8) = (if j = i then v else bit (bs_bytes b ! (j div 8)) (j mod 8))"
  proof (cases "j div 8 = i div 8")
    case True
    then have "j = i \<longleftrightarrow> j mod 8 = i mod 8" using div_mod_8 by blast
    with True assms(3) [of "j mod 8"] bs_byte [OF assms(1,2)] show ?thesis by simp
  qed auto
  then show "j \<in> bits_of (b\<lparr>bs_bytes := (bs_bytes b)[i div 8 := w]\<rparr>) \<longleftrightarrow> j \<in> (if v then insert i (bits_of b) else bits_of b - {i})"
    using assms(2) by (auto simp: bits_of_def)
qed

lemma bs_set_spec:
  assumes "bs_ok b" "i < bs_len b"
  obtains b' where "bs_set b i = Some b'" "bs_ok b'" "bs_len b' = bs_len b" "bits_of b' = insert i (bits_of b)"
proof -
  let ?w = "(bs_bytes b ! (i div 8)) OR push_bit (i mod 8) 1"
  have "bit ?w n = (if n = i mod 8 then True else bit (bs_bytes b ! (i div 8)) n)" if "n < 8" for n
    using that by (simp add: bit_or_iff bit_exp_iff)
  from bits_of_upd [OF assms this] show ?thesis using that assms by (simp add: bs_set_def bs_ok_def)
qed

lemma bs_clear_spec:
  assumes "bs_ok b" "i < bs_len b"
  obtains b' where "bs_clear b i = Some b'" "bs_ok b'" "bs_len b' = bs_len b" "bits_of b' = bits_of b - {i}"
proof -
  let ?w = "(bs_bytes b ! (i div 8)) AND NOT (push_bit (i mod 8) 1)"
  have "bit ?w n = (if n = i mod 8 then False else bit (bs_bytes b ! (i div 8)) n)" if "n < 8" for n
    using that by (simp add: bit_and_iff bit_not_iff bit_exp_iff)
  from bits_of_upd [OF assms this] show ?thesis using that assms by (simp add: bs_clear_def bs_ok_def)
qed

subsection \<open>A zone as a set of free blocks\<close>

text \<open>A block is an order and an index; it consists of \<open>2 ^ order\<close> units.\<close>

definition units :: "nat \<times> nat \<Rightarrow> nat set" where
  "units b = {snd b * 2 ^ fst b ..< (snd b + 1) * 2 ^ fst b}"

definition ptr_of :: "zone \<Rightarrow> nat \<times> nat \<Rightarrow> nat" where
  "ptr_of z b = block_ptr z (snd b) (fst b)"

definition zone_rel :: "zone \<Rightarrow> (nat \<times> nat) set \<Rightarrow> bool" where
  "zone_rel z P \<longleftrightarrow> 0 < z_min z \<and> 0 < z_norder z \<and> 0 < z_salloc z \<and> z_salloc z mod z_min z = 0 \<and>
     length (z_bitmaps z) = z_norder z \<and> length (z_free z) = z_norder z \<and>
     (\<forall>k < z_norder z. bs_ok (z_bitmaps z ! k) \<and> bs_len (z_bitmaps z ! k) = z_nunits z div 2 ^ k \<and>
        distinct (z_free z ! k) \<and> set (z_free z ! k) = (\<lambda>i. block_ptr z i k) ` bits_of (z_bitmaps z ! k)) \<and>
     P = {(k, i). k < z_norder z \<and> i \<in> bits_of (z_bitmaps z ! k)}"

lemma zone_relD:
  assumes "zone_rel z P"
  shows "0 < z_min z" "0 < z_norder z" "0 < z_salloc z" "z_salloc z mod z_min z = 0"
    "length (z_bitmaps z) = z_norder z" "length (z_free z) = z_norder z"
    "k < z_norder z \<Longrightarrow> bs_ok (z_bitmaps z ! k)" "k < z_norder z \<Longrightarrow> bs_len (z_bitmaps z ! k) = z_nunits z div 2 ^ k"
    "k < z_norder z \<Longrightarrow> distinct (z_free z ! k)"
    "k < z_norder z \<Longrightarrow> set (z_free z ! k) = (\<lambda>i. block_ptr z i k) ` bits_of (z_bitmaps z ! k)"
    "k < z_norder z \<Longrightarrow> i \<in> bits_of (z_bitmaps z ! k) \<longleftrightarrow> (k, i) \<in> P" "(k, i) \<in> P \<Longrightarrow> k < z_norder z"
  using assms by (auto simp: zone_rel_def)

lemma set_order_sel [simp]:
  "z_min (set_order z k b fl) = z_min z" "z_norder (set_order z k b fl) = z_norder z"
  "z_nunits (set_order z k b fl) = z_nunits z" "z_salloc (set_order z k b fl) = z_salloc z"
  "block_ptr (set_order z k b fl) i l = block_ptr z i l" "block_idx (set_order z k b fl) a l = block_idx z a l"
  "z_bitmaps (set_order z k b fl) = (z_bitmaps z)[k := b]" "z_free (set_order z k b fl) = (z_free z)[k := fl]"
  by (simp_all add: set_order_def block_ptr_def block_idx_def)

lemma block_ptr_inj: "0 < z_min z \<Longrightarrow> block_ptr z i k = block_ptr z j k \<longleftrightarrow> i = j"
  by (simp add: block_ptr_def)

lemma block_ptr_aligned:
  assumes "z_salloc z mod z_min z = 0"
  shows "block_ptr z i k mod z_min z = 0" "\<not> block_ptr z i k < z_salloc z" "(block_ptr z i k - z_salloc z) mod (z_min z * 2 ^ k) = 0"
  using assms by (auto simp: block_ptr_def mod_add_left_eq [symmetric] mult.left_commute [of i])

lemma block_idx_ptr: "0 < z_min z \<Longrightarrow> block_idx z (block_ptr z i k) k = Inr i"
  by (simp add: block_idx_def block_ptr_def)

lemma zone_rel_set_order:
  assumes "zone_rel z P" "k < z_norder z" "bs_ok b" "bs_len b = z_nunits z div 2 ^ k" "distinct fl"
    "set fl = (\<lambda>i. block_ptr z i k) ` bits_of b"
  shows "zone_rel (set_order z k b fl) ({x \<in> P. fst x \<noteq> k} \<union> Pair k ` bits_of b)"
proof -
  have "{(l, i). l < z_norder z \<and> i \<in> bits_of ((z_bitmaps z)[k := b] ! l)} = {x \<in> P. fst x \<noteq> k} \<union> Pair k ` bits_of b"
    using zone_relD(5,11,12) [OF assms(1)] assms(2) by (auto simp: nth_list_update split: if_splits)
  moreover have "bs_ok ((z_bitmaps z)[k := b] ! l) \<and> bs_len ((z_bitmaps z)[k := b] ! l) = z_nunits z div 2 ^ l \<and>
      distinct ((z_free z)[k := fl] ! l) \<and>
      set ((z_free z)[k := fl] ! l) = (\<lambda>i. block_ptr z i l) ` bits_of ((z_bitmaps z)[k := b] ! l)" if "l < z_norder z" for l
    using zone_relD(5-10) [OF assms(1)] assms(2-) that by (cases "l = k") auto
  ultimately show ?thesis
    unfolding zone_rel_def [of "set_order z k b fl"] using zone_relD(1-6) [OF assms(1)] by simp
qed

text \<open>The three ways in which the free blocks change.\<close>

lemma zone_put:
  assumes "zone_rel z P" "k < z_norder z" "i < z_nunits z div 2 ^ k" "(k, i) \<notin> P"
  obtains b where "bs_set (z_bitmaps z ! k) i = Some b"
    "zone_rel (set_order z k b (z_free z ! k @ [block_ptr z i k])) (insert (k, i) P)"
proof -
  note D = zone_relD [OF assms(1)]
  from bs_set_spec [OF D(7) [OF assms(2)], of i] D(8) [OF assms(2)] assms(3) obtain b where
    b: "bs_set (z_bitmaps z ! k) i = Some b" "bs_ok b" "bs_len b = z_nunits z div 2 ^ k" "bits_of b = insert i (bits_of (z_bitmaps z ! k))"
    by metis
  have new: "i \<notin> bits_of (z_bitmaps z ! k)" using D(11) [OF assms(2)] assms(4) by simp
  have "block_ptr z i k \<notin> set (z_free z ! k)" using new by (auto simp: D(10) [OF assms(2)] block_ptr_inj [OF D(1)])
  then have "distinct (z_free z ! k @ [block_ptr z i k])" using D(9) [OF assms(2)] by simp
  moreover have "set (z_free z ! k @ [block_ptr z i k]) = (\<lambda>i. block_ptr z i k) ` bits_of b" using D(10) [OF assms(2)] b(4) by simp
  ultimately have "zone_rel (set_order z k b (z_free z ! k @ [block_ptr z i k])) ({x \<in> P. fst x \<noteq> k} \<union> Pair k ` bits_of b)"
    by (rule zone_rel_set_order [OF assms(1,2) b(2,3)])
  moreover have "{x \<in> P. fst x \<noteq> k} \<union> Pair k ` bits_of b = insert (k, i) P" using b(4) D(11) [OF assms(2)] by auto
  ultimately show ?thesis using that b(1) by simp
qed

lemma zone_drop:
  assumes "zone_rel z P" "(k, i) \<in> P" "distinct fl" "set fl = set (z_free z ! k) - {block_ptr z i k}"
  obtains b where "bs_clear (z_bitmaps z ! k) i = Some b" "zone_rel (set_order z k b fl) (P - {(k, i)})"
proof -
  note D = zone_relD [OF assms(1)]
  have k: "k < z_norder z" using D(12) [OF assms(2)] .
  have i: "i \<in> bits_of (z_bitmaps z ! k)" using D(11) [OF k] assms(2) by simp
  then have "i < bs_len (z_bitmaps z ! k)" by (simp add: bits_of_def)
  from bs_clear_spec [OF D(7) [OF k] this] D(8) [OF k] obtain b where
    b: "bs_clear (z_bitmaps z ! k) i = Some b" "bs_ok b" "bs_len b = z_nunits z div 2 ^ k" "bits_of b = bits_of (z_bitmaps z ! k) - {i}"
    by metis
  have "set fl = (\<lambda>i. block_ptr z i k) ` bits_of b"
    unfolding assms(4) b(4) using D(10) [OF k] block_ptr_inj [OF D(1)] by auto
  then have "zone_rel (set_order z k b fl) ({x \<in> P. fst x \<noteq> k} \<union> Pair k ` bits_of b)"
    by (rule zone_rel_set_order [OF assms(1) k b(2,3) assms(3)])
  moreover have "{x \<in> P. fst x \<noteq> k} \<union> Pair k ` bits_of b = P - {(k, i)}" using b(4) D(11) [OF k] by auto
  ultimately show ?thesis using that b(1) by simp
qed

subsection \<open>Blocks\<close>

lemma in_units: "x \<in> units (k, i) \<longleftrightarrow> x div 2 ^ k = i"
proof -
  have "x div 2 ^ k = i \<longleftrightarrow> i * 2 ^ k \<le> x \<and> x < (i + 1) * 2 ^ k"
    by (metis (no_types, lifting) Suc_eq_plus1 div_less_iff_less_mult less_eq_div_iff_mult_less_eq less_Suc_eq_le order_antisym_conv zero_less_numeral zero_less_power order_refl)
  then show ?thesis by (simp add: units_def)
qed

lemma units_nonempty: "i * 2 ^ k \<in> units (k, i)"
  by (simp add: in_units)

lemma units_nested:
  assumes "x \<in> units (k, i)" "x \<in> units (l, j)" "k \<le> l"
  shows "units (k, i) \<subseteq> units (l, j)"
proof
  fix y assume y: "y \<in> units (k, i)"
  have "n div 2 ^ l = n div 2 ^ k div 2 ^ (l - k)" for n :: nat
    using assms(3) by (simp add: div_mult2_eq [symmetric] power_add [symmetric])
  then show "y \<in> units (l, j)" using assms y by (simp add: in_units)
qed

lemma units_halves: "units (Suc k, i) = units (k, 2 * i) \<union> units (k, 2 * i + 1)"
proof (intro set_eqI)
  fix x :: nat
  have "x div 2 ^ Suc k = x div 2 ^ k div 2" by (simp only: power_Suc2 div_mult2_eq)
  then show "x \<in> units (Suc k, i) \<longleftrightarrow> x \<in> units (k, 2 * i) \<union> units (k, 2 * i + 1)" by (auto simp: in_units)
qed

lemma units_same_order: "i \<noteq> j \<Longrightarrow> units (k, i) \<inter> units (k, j) = {}"
  by (auto simp: in_units)

lemma units_bound: "units (k, i) \<subseteq> {..< n} \<longleftrightarrow> i < n div 2 ^ k"
proof -
  have "units (k, i) \<subseteq> {..< n} \<longleftrightarrow> (i + 1) * 2 ^ k \<le> n"
  proof
    assume sub: "units (k, i) \<subseteq> {..< n}"
    have p: "0 < (2::nat) ^ k" "(i + 1) * 2 ^ k = i * 2 ^ k + 2 ^ k" by simp_all
    then have "(i + 1) * 2 ^ k - 1 \<in> units (k, i)"
      unfolding units_def fst_conv snd_conv atLeastLessThan_iff by linarith
    with sub show "(i + 1) * 2 ^ k \<le> n" by auto
  qed (auto simp: units_def)
  also have "\<dots> \<longleftrightarrow> i + 1 \<le> n div 2 ^ k" by (simp add: less_eq_div_iff_mult_less_eq)
  finally show ?thesis by auto
qed

lemma buddy_halves:
  "units (Suc k, i div 2) = units (k, i) \<union> units (k, buddy_block_idx i)" "units (k, i) \<inter> units (k, buddy_block_idx i) = {}"
  "buddy_block_idx (buddy_block_idx i) = i" "buddy_block_idx i \<noteq> i" "buddy_block_idx i div 2 = i div 2"
proof -
  show ne: "buddy_block_idx i \<noteq> i" unfolding buddy_block_idx_def by presburger
  then show "units (k, i) \<inter> units (k, buddy_block_idx i) = {}" using units_same_order by metis
  show "buddy_block_idx (buddy_block_idx i) = i" unfolding buddy_block_idx_def by presburger
  show "buddy_block_idx i div 2 = i div 2" unfolding buddy_block_idx_def by presburger
  have "i = 2 * (i div 2) \<and> buddy_block_idx i = 2 * (i div 2) + 1 \<or> i = 2 * (i div 2) + 1 \<and> buddy_block_idx i = 2 * (i div 2)"
    unfolding buddy_block_idx_def by presburger
  then show "units (Suc k, i div 2) = units (k, i) \<union> units (k, buddy_block_idx i)"
    unfolding units_halves by (metis Un_commute)
qed

definition free_units :: "(nat \<times> nat) set \<Rightarrow> nat set" where
  "free_units P = \<Union> (units ` P)"

text \<open>Disjoint blocks inside the zone, and free buddies always merged.\<close>

definition blocks_ok :: "nat \<Rightarrow> (nat \<times> nat) set \<Rightarrow> bool" where
  "blocks_ok n P \<longleftrightarrow> (\<forall>b \<in> P. units b \<subseteq> {..< n}) \<and> (\<forall>b \<in> P. \<forall>c \<in> P. b \<noteq> c \<longrightarrow> units b \<inter> units c = {})"

definition merged :: "nat \<Rightarrow> (nat \<times> nat) set \<Rightarrow> bool" where
  "merged n P \<longleftrightarrow> (\<forall>k i. k + 1 < n \<longrightarrow> (k, i) \<in> P \<longrightarrow> (k, buddy_block_idx i) \<notin> P)"

lemma free_units_insert [simp]: "free_units (insert b P) = units b \<union> free_units P" "free_units {} = {}"
  by (simp_all add: free_units_def)

lemma blocks_ok_insert:
  "b \<notin> P \<Longrightarrow> blocks_ok n (insert b P) \<longleftrightarrow> blocks_ok n P \<and> units b \<subseteq> {..< n} \<and> units b \<inter> free_units P = {}"
proof -
  assume new: "b \<notin> P"
  have meet: "units b \<inter> free_units P = {} \<longleftrightarrow> (\<forall>c \<in> P. units b \<inter> units c = {})" unfolding free_units_def by blast
  have ok: "blocks_ok n Q \<longleftrightarrow> (\<forall>b \<in> Q. units b \<subseteq> {..< n}) \<and> pairwise (\<lambda>b c. units b \<inter> units c = {}) Q" for Q
    by (simp add: blocks_ok_def pairwise_def)
  have "(\<forall>y. y \<in> P \<and> y \<noteq> b \<longrightarrow> units b \<inter> units y = {} \<and> units y \<inter> units b = {}) \<longleftrightarrow> (\<forall>c \<in> P. units b \<inter> units c = {})"
    (is "?L \<longleftrightarrow> ?R")
  proof
    assume ?L
    with new show ?R by metis
  next
    assume R: ?R
    show ?L
    proof (intro allI impI)
      fix y assume "y \<in> P \<and> y \<noteq> b"
      then have "units b \<inter> units y = {}" using R by simp
      then show "units b \<inter> units y = {} \<and> units y \<inter> units b = {}" by (simp add: Int_commute)
    qed
  qed
  then show ?thesis unfolding ok meet pairwise_insert ball_simps(7) by argo
qed

lemma blocks_ok_subset: "blocks_ok n P \<Longrightarrow> Q \<subseteq> P \<Longrightarrow> blocks_ok n Q"
  unfolding blocks_ok_def by blast

lemma not_free_block: "units b \<inter> free_units P = {} \<Longrightarrow> b \<notin> P"
  using units_nonempty [of "snd b" "fst b"] by (auto simp: free_units_def)

lemma merged_subset: "merged n P \<Longrightarrow> Q \<subseteq> P \<Longrightarrow> merged n Q"
  unfolding merged_def by blast

lemma merged_insert:
  assumes "merged n P" "k + 1 < n \<Longrightarrow> (k, buddy_block_idx i) \<notin> P"
  shows "merged n (insert (k, i) P)"
  unfolding merged_def
proof (intro allI impI)
  fix l j assume l: "l + 1 < n" "(l, j) \<in> insert (k, i) P"
  show "(l, buddy_block_idx j) \<notin> insert (k, i) P"
  proof (cases "(l, j) = (k, i)")
    case True
    with assms(2) l(1) buddy_halves(4) [of i] show ?thesis by simp
  next
    case False
    then have P: "(l, j) \<in> P" using l(2) by auto
    with assms(1) l(1) have "(l, buddy_block_idx j) \<notin> P" unfolding merged_def by blast
    moreover have "(l, buddy_block_idx j) \<noteq> (k, i)" using P assms(2) l(1) buddy_halves(3) [of j] by auto
    ultimately show ?thesis by simp
  qed
qed

text \<open>A fully free block of some order lies in one free block: nothing is left unmerged.\<close>

lemma merged_complete:
  assumes "merged n P" "k < n" "units (k, i) \<subseteq> free_units P" "\<forall>b \<in> P. fst b < n"
  shows "\<exists>b \<in> P. k \<le> fst b \<and> units (k, i) \<subseteq> units b"
  using assms(2,3)
proof (induction k arbitrary: i)
  case 0
  then have "i * 2 ^ 0 \<in> free_units P" using units_nonempty by blast
  then obtain l j where b: "(l, j) \<in> P" "i * 2 ^ 0 \<in> units (l, j)" by (auto simp: free_units_def)
  with units_nested [OF units_nonempty [of i 0] b(2)] show ?case by (intro bexI [of _ "(l, j)"]) simp_all
next
  case (Suc k)
  from Suc.prems have half: "units (k, 2 * i) \<subseteq> free_units P" "units (k, 2 * i + 1) \<subseteq> free_units P"
    unfolding units_halves by auto
  from Suc.IH [of "2 * i"] Suc.IH [of "2 * i + 1"] Suc.prems(1) half obtain b c where
    b: "b \<in> P" "k \<le> fst b" "units (k, 2 * i) \<subseteq> units b" and c: "c \<in> P" "k \<le> fst c" "units (k, 2 * i + 1) \<subseteq> units c" by auto
  have up: ?case if d: "d \<in> P" "k < fst d" "x \<in> units d" "x \<in> units (Suc k, i)" for d x
  proof -
    have "units (Suc k, i) \<subseteq> units (fst d, snd d)" using units_nested [of x "Suc k" i "fst d" "snd d"] d by simp
    with d show ?thesis by (intro bexI [of _ d]) auto
  qed
  have x: "2 * i * 2 ^ k \<in> units (k, 2 * i)" "(2 * i + 1) * 2 ^ k \<in> units (k, 2 * i + 1)" using units_nonempty by blast+
  show ?case
  proof (cases "k < fst b \<or> k < fst c")
    case True
    with up [of b "2 * i * 2 ^ k"] up [of c "(2 * i + 1) * 2 ^ k"] b c x show ?thesis unfolding units_halves by blast
  next
    case False
    then have "fst b = k" "fst c = k" using b(2) c(2) by simp_all
    then have "b = (k, 2 * i)" "c = (k, 2 * i + 1)"
      using b(3) c(3) x by (metis in_units prod.collapse subsetD)+
    moreover have "buddy_block_idx (2 * i) = 2 * i + 1" by (simp add: buddy_block_idx_def)
    ultimately show ?thesis using assms(1) b(1) c(1) Suc.prems(1) unfolding merged_def by (metis Suc_eq_plus1)
  qed
qed

subsection \<open>Allocation\<close>

definition zone_inv :: "zone \<Rightarrow> (nat \<times> nat) set \<Rightarrow> bool" where
  "zone_inv z P \<longleftrightarrow> zone_rel z P \<and> blocks_ok (z_nunits z) P \<and> merged (z_norder z) P"

text \<open>A block that is not free: it can be added to the free ones.\<close>

definition apart :: "zone \<Rightarrow> (nat \<times> nat) set \<Rightarrow> nat \<times> nat \<Rightarrow> bool" where
  "apart z P b \<longleftrightarrow> fst b < z_norder z \<and> units b \<subseteq> {..< z_nunits z} \<and> units b \<inter> free_units P = {}"

definition zone_same :: "zone \<Rightarrow> zone \<Rightarrow> bool" where
  "zone_same z z' \<longleftrightarrow> z_min z' = z_min z \<and> z_norder z' = z_norder z \<and> z_nunits z' = z_nunits z \<and> z_salloc z' = z_salloc z"

lemma zone_same_simps [simp]:
  "zone_same z z" "zone_same z (set_order z k b fl)" "zone_same (set_order z k b fl) z' \<longleftrightarrow> zone_same z z'"
  by (auto simp: zone_same_def)

lemma apart_new: "apart z P b \<Longrightarrow> b \<notin> P"
  by (simp add: apart_def not_free_block)

lemma apart_halves:
  assumes "apart z P (Suc k, i)"
  shows "apart z (insert (k, i * 2 + 1) P) (k, i * 2)" "apart z P (k, i * 2 + 1)"
  using assms units_same_order [of "i * 2" "i * 2 + 1" k] units_halves [of k i]
  by (auto simp: apart_def mult.commute [of 2 i])

lemma zone_inv_put:
  assumes "zone_inv z P" "apart z P (k, i)" "k + 1 < z_norder z \<Longrightarrow> (k, buddy_block_idx i) \<notin> P"
  obtains b where "bs_set (z_bitmaps z ! k) i = Some b"
    "zone_inv (set_order z k b (z_free z ! k @ [block_ptr z i k])) (insert (k, i) P)"
proof -
  have new: "(k, i) \<notin> P" using apart_new [OF assms(2)] .
  have k: "k < z_norder z" "i < z_nunits z div 2 ^ k" using assms(2) by (simp_all add: apart_def units_bound)
  have rel: "zone_rel z P" and ok: "blocks_ok (z_nunits z) P" and m: "merged (z_norder z) P" using assms(1) by (simp_all add: zone_inv_def)
  from zone_put [OF rel k new] obtain b where b: "bs_set (z_bitmaps z ! k) i = Some b"
    "zone_rel (set_order z k b (z_free z ! k @ [block_ptr z i k])) (insert (k, i) P)" .
  have "blocks_ok (z_nunits z) (insert (k, i) P)" using ok assms(2) by (simp add: blocks_ok_insert [OF new] apart_def)
  with b merged_insert [OF m, of k i] assms(3) show ?thesis using that by (simp add: zone_inv_def)
qed

lemma zone_inv_drop:
  assumes "zone_inv z P" "(k, i) \<in> P" "distinct fl" "set fl = set (z_free z ! k) - {block_ptr z i k}"
  obtains b where "bs_clear (z_bitmaps z ! k) i = Some b" "zone_inv (set_order z k b fl) (P - {(k, i)})"
    "apart z (P - {(k, i)}) (k, i)"
proof -
  have rel: "zone_rel z P" and ok: "blocks_ok (z_nunits z) P" and m: "merged (z_norder z) P" using assms(1) by (simp_all add: zone_inv_def)
  from zone_drop [OF rel assms(2-4)] obtain b where b: "bs_clear (z_bitmaps z ! k) i = Some b"
    "zone_rel (set_order z k b fl) (P - {(k, i)})" .
  have "blocks_ok (z_nunits z) (P - {(k, i)})" "merged (z_norder z) (P - {(k, i)})"
    using ok m by (auto intro: blocks_ok_subset merged_subset)
  moreover have "apart z (P - {(k, i)}) (k, i)"
    using ok assms(2) zone_relD(12) [OF rel assms(2)] blocks_ok_insert [of "(k, i)" "P - {(k, i)}" "z_nunits z"]
    by (simp add: apart_def insert_absorb)
  ultimately show ?thesis using that b by (simp add: zone_inv_def)
qed

lemma split_block_spec:
  assumes "zone_inv z P" "apart z P (k, i)" "order \<le> k"
  shows "\<exists>z' P'. split_block z order k i = Inr z' \<and> zone_inv z' P' \<and> zone_same z z' \<and>
    apart z' P' (order, i * 2 ^ (k - order)) \<and>
    free_units P' \<union> units (order, i * 2 ^ (k - order)) = free_units P \<union> units (k, i)"
  using assms
proof (induction k arbitrary: z P i)
  case 0
  then show ?case by auto
next
  case (Suc k)
  show ?case
  proof (cases "order = Suc k")
    case True
    with Suc.prems show ?thesis by auto
  next
    case False
    then have order: "order \<le> k" using Suc.prems(3) by simp
    let ?l = "i * 2" and ?b = "i * 2 + 1"
    note half = apart_halves [OF Suc.prems(2)]
    have rel: "zone_rel z P" using Suc.prems(1) by (simp add: zone_inv_def)
    have k: "k < z_norder z" using half(2) by (simp add: apart_def)
    have lt: "?l < bs_len (z_bitmaps z ! k)" "?b < bs_len (z_bitmaps z ! k)"
      using half zone_relD(8) [OF rel k] by (simp_all add: apart_def units_bound)
    have none: "(k, ?l) \<notin> P" "(k, ?b) \<notin> P" using apart_new [OF half(1)] apart_new [OF half(2)] by simp_all
    have tests: "bs_test (z_bitmaps z ! k) ?l = Some False" "bs_test (z_bitmaps z ! k) ?b = Some False"
      using lt none zone_relD(11) [OF rel k] by simp_all
    have "buddy_block_idx ?b = ?l" unfolding buddy_block_idx_def by presburger
    then obtain b where b: "bs_set (z_bitmaps z ! k) ?b = Some b"
      "zone_inv (set_order z k b (z_free z ! k @ [block_ptr z ?b k])) (insert (k, ?b) P)"
      using zone_inv_put [OF Suc.prems(1) half(2)] none(1) by metis
    let ?z = "set_order z k b (z_free z ! k @ [block_ptr z ?b k])"
    have step: "split_block z order (Suc k) i = split_block ?z order k ?l"
      using tests b(1) order by (simp add: Let_def del: bs_test_iff)
    have "apart ?z (insert (k, ?b) P) (k, ?l)" using half(1) by (simp add: apart_def)
    from Suc.IH [OF b(2) this order] obtain z' P' where r: "split_block ?z order k ?l = Inr z'" "zone_inv z' P'"
      "zone_same ?z z'" "apart z' P' (order, ?l * 2 ^ (k - order))"
      "free_units P' \<union> units (order, ?l * 2 ^ (k - order)) = free_units (insert (k, ?b) P) \<union> units (k, ?l)" by blast
    have idx: "i * 2 ^ (Suc k - order) = ?l * 2 ^ (k - order)" using order by (simp add: Suc_diff_le)
    have "free_units (insert (k, ?b) P) \<union> units (k, ?l) = free_units P \<union> units (Suc k, i)"
      unfolding units_halves by (auto simp: mult.commute)
    with r show ?thesis unfolding step idx by (intro exI [of _ z'] exI [of _ P']) simp
  qed
qed

text \<open>Taking the first block of a free list.\<close>

lemma alloc_block_spec:
  assumes "zone_inv z P" "k < z_norder z"
  shows "if \<exists>i. (k, i) \<in> P
    then \<exists>i z'. (k, i) \<in> P \<and> alloc_block z k = Inr (Some (block_ptr z i k), z') \<and> zone_same z z' \<and>
      zone_inv z' (P - {(k, i)}) \<and> apart z' (P - {(k, i)}) (k, i)
    else alloc_block z k = Inr (None, z)"
proof -
  have rel: "zone_rel z P" using assms(1) by (simp add: zone_inv_def)
  note D = zone_relD [OF rel]
  have fl: "set (z_free z ! k) = (\<lambda>i. block_ptr z i k) ` {i. (k, i) \<in> P}" using D(10,11) [OF assms(2)] by auto
  show ?thesis
  proof (cases "z_free z ! k")
    case Nil
    then have "\<not> (\<exists>i. (k, i) \<in> P)" using fl by auto
    with Nil assms(2) show ?thesis by (simp add: alloc_block_def)
  next
    case (Cons addr rest)
    then obtain i where i: "(k, i) \<in> P" "addr = block_ptr z i k" using fl by auto
    have "distinct rest" "set rest = set (z_free z ! k) - {block_ptr z i k}" using D(9) [OF assms(2)] Cons i(2) by auto
    from zone_inv_drop [OF assms(1) i(1) this] obtain b where b: "bs_clear (z_bitmaps z ! k) i = Some b"
      "zone_inv (set_order z k b rest) (P - {(k, i)})" "apart z (P - {(k, i)}) (k, i)" .
    have "0 < block_ptr z i k" using D(3) by (simp add: block_ptr_def)
    then have "alloc_block z k = Inr (Some (block_ptr z i k), set_order z k b rest)"
      using assms(2) Cons i(2) b(1) by (simp add: alloc_block_def block_idx_ptr [OF D(1)])
    moreover have "apart (set_order z k b rest) (P - {(k, i)}) (k, i)" using b(3) by (simp add: apart_def)
    ultimately show ?thesis using i(1) b(2) by auto
  qed
qed

lemma zone_alloc_from_spec:
  assumes "zone_inv z P" "order \<le> k"
  shows "\<exists>res z'. zone_alloc_from z order k = Inr (res, z') \<and>
    (case res of
       Inl e \<Rightarrow> e = BuddyOutOfMemory \<and> z' = z \<and> (\<forall>b \<in> P. fst b < k)
     | Inr addr \<Rightarrow> \<exists>i P'. addr = block_ptr z i order \<and> zone_inv z' P' \<and> zone_same z z' \<and> apart z' P' (order, i) \<and>
         free_units P' \<union> units (order, i) = free_units P)"
  using assms
proof (induction z order k rule: zone_alloc_from.induct)
  case (1 z order k)
  have rel: "zone_rel z P" using "1.prems"(1) by (simp add: zone_inv_def)
  note D = zone_relD [OF rel]
  show ?case
  proof (cases "k < z_norder z")
    case False
    then have "\<forall>b \<in> P. fst b < k" using D(12) by fastforce
    with False show ?thesis by (auto simp: zone_alloc_from.simps [of z order k])
  next
    case True
    show ?thesis
    proof (cases "\<exists>i. (k, i) \<in> P")
      case False
      then have none: "alloc_block z k = Inr (None, z)" using alloc_block_spec [OF "1.prems"(1) True] by simp
      then have step: "zone_alloc_from z order k = zone_alloc_from z order (k + 1)" using True by (simp add: zone_alloc_from.simps [of z order k])
      have all: "(\<forall>b \<in> P. fst b < k + 1) \<longleftrightarrow> (\<forall>b \<in> P. fst b < k)" using False by (auto simp: less_Suc_eq)
      have "\<not> z_norder z \<le> k" "order \<le> k + 1" using True "1.prems"(2) by simp_all
      from "1.IH" [OF this(1) none refl refl "1.prems"(1) this(2)] show ?thesis unfolding step all .
    next
      case some: True
      then obtain i z1 where i: "(k, i) \<in> P" "alloc_block z k = Inr (Some (block_ptr z i k), z1)" "zone_same z z1"
        "zone_inv z1 (P - {(k, i)})" "apart z1 (P - {(k, i)}) (k, i)" using alloc_block_spec [OF "1.prems"(1) True] by auto
      from split_block_spec [OF i(4,5) "1.prems"(2)] obtain z2 P2 where s: "split_block z1 order k i = Inr z2" "zone_inv z2 P2"
        "zone_same z1 z2" "apart z2 P2 (order, i * 2 ^ (k - order))"
        "free_units P2 \<union> units (order, i * 2 ^ (k - order)) = free_units (P - {(k, i)}) \<union> units (k, i)" by blast
      have ptr: "block_ptr z i k = block_ptr z (i * 2 ^ (k - order)) order"
        using "1.prems"(2) by (simp add: block_ptr_def power_add [symmetric] ac_simps)
      have "block_idx z1 (block_ptr z i k) k = Inr i"
        using block_idx_ptr [of z1 i k] i(3) D(1) by (simp add: zone_same_def block_ptr_def)
      moreover note block_ptr_aligned(1) [OF D(4)]
      ultimately have "zone_alloc_from z order k = Inr (Inr (block_ptr z i k), z2)"
        using True i(2) s(1) by (simp add: zone_alloc_from.simps [of z order k])
      moreover have "free_units (P - {(k, i)}) \<union> units (k, i) = free_units P" using i(1) by (auto simp: free_units_def)
      moreover have "zone_same z z2" using i(3) s(3) by (simp add: zone_same_def)
      ultimately show ?thesis using s ptr by (intro exI [of _ "Inr (block_ptr z i k)"] exI [of _ z2]) auto
    qed
  qed
qed

lemma zone_alloc_spec:
  assumes "zone_inv z P" "order < z_norder z"
  shows "\<exists>res z'. zone_alloc z order = Inr (res, z') \<and>
    (case res of
       Inl e \<Rightarrow> e = BuddyOutOfMemory \<and> z' = z \<and> \<not> (\<exists>i. units (order, i) \<subseteq> free_units P)
     | Inr addr \<Rightarrow> \<exists>i P'. addr = block_ptr z i order \<and> zone_inv z' P' \<and> zone_same z z' \<and> apart z' P' (order, i) \<and>
         free_units P' \<union> units (order, i) = free_units P)"
proof -
  have all: "\<forall>b \<in> P. fst b < z_norder z" and m: "merged (z_norder z) P"
    using assms(1) zone_relD(12) [of z P] by (auto simp: zone_inv_def)
  have "\<not> (\<exists>i. units (order, i) \<subseteq> free_units P)" if "\<forall>b \<in> P. fst b < order"
    using merged_complete [OF m assms(2) _ all] that by (meson not_le)
  with zone_alloc_from_spec [OF assms(1), of order order] assms(2) show ?thesis
    by (fastforce simp: zone_alloc_def split: sum.splits)
qed

subsection \<open>Release\<close>

lemma merge_block_spec:
  assumes "zone_inv z P" "apart z P (k, i)"
  shows "\<exists>l j z' P'. merge_block z k i = Inr (l, j, z') \<and> zone_inv z' P' \<and> zone_same z z' \<and> apart z' P' (l, j) \<and>
    (l + 1 < z_norder z \<longrightarrow> (l, buddy_block_idx j) \<notin> P') \<and> free_units P' \<union> units (l, j) = free_units P \<union> units (k, i)"
  using assms
proof (induction z k i arbitrary: P rule: merge_block.induct)
  case (1 z k i)
  let ?y = "buddy_block_idx i"
  have k: "k < z_norder z" using "1.prems"(2) by (simp add: apart_def)
  have rel: "zone_rel z P" using "1.prems"(1) by (simp add: zone_inv_def)
  note D = zone_relD [OF rel]
  have stop: ?case if "merge_block z k i = Inr (k, i, z)" "k + 1 < z_norder z \<longrightarrow> (k, ?y) \<notin> P"
    using that "1.prems" by (intro exI [of _ k] exI [of _ i] exI [of _ z] exI [of _ P]) simp
  show ?case
  proof (cases "k + 1 < z_norder z \<and> (k, ?y) \<in> P")
    case False
    have "?y \<notin> bits_of (z_bitmaps z ! k)" if "k + 1 < z_norder z" using False that D(11) [OF k] by simp
    then have "merge_block z k i = Inr (k, i, z)" by (simp add: merge_block.simps [of z k i] Let_def)
    with False stop show ?thesis by blast
  next
    case True
    then have y: "(k, ?y) \<in> P" "\<not> z_norder z \<le> k + 1" by simp_all
    let ?fl = "remove1 (block_ptr z ?y k) (z_free z ! k)"
    have bit: "?y \<in> bits_of (z_bitmaps z ! k)" using y(1) D(11) [OF k] by simp
    then have lt: "?y < bs_len (z_bitmaps z ! k)" by (simp add: bits_of_def)
    have mem: "block_ptr z ?y k \<in> set (z_free z ! k)" using bit D(10) [OF k] by simp
    have "distinct ?fl" "set ?fl = set (z_free z ! k) - {block_ptr z ?y k}" using D(9) [OF k] by simp_all
    from zone_inv_drop [OF "1.prems"(1) y(1) this] obtain b where b: "bs_clear (z_bitmaps z ! k) ?y = Some b"
      "zone_inv (set_order z k b ?fl) (P - {(k, ?y)})" "apart z (P - {(k, ?y)}) (k, ?y)" .
    let ?z = "set_order z k b ?fl"
    have step: "merge_block z k i = merge_block ?z (k + 1) (i div 2)"
      using bit lt mem b(1) y(2) by (simp add: merge_block.simps [of z k i] Let_def)
    have halves: "units (k + 1, i div 2) = units (k, i) \<union> units (k, ?y)" using buddy_halves(1) [of k i] by simp
    have P: "free_units P = free_units (P - {(k, ?y)}) \<union> units (k, ?y)" using y(1) by (auto simp: free_units_def)
    have up: "apart ?z (P - {(k, ?y)}) (k + 1, i div 2)"
      using b(3) "1.prems"(2) y(2) P unfolding apart_def halves by auto
    have "\<not> bs_len (z_bitmaps z ! k) \<le> ?y" "bs_test (z_bitmaps z ! k) ?y = Some True" using lt bit by simp_all
    from "1.IH" [OF y(2) refl refl this(1) this(2) refl b(1) _ b(2) up] mem obtain l j z' P' where r:
      "merge_block ?z (k + 1) (i div 2) = Inr (l, j, z')" "zone_inv z' P'" "zone_same ?z z'" "apart z' P' (l, j)"
      "l + 1 < z_norder z \<longrightarrow> (l, buddy_block_idx j) \<notin> P'"
      "free_units P' \<union> units (l, j) = free_units (P - {(k, ?y)}) \<union> units (k + 1, i div 2)" by auto
    have "free_units (P - {(k, ?y)}) \<union> units (k + 1, i div 2) = free_units P \<union> units (k, i)" unfolding halves P by blast
    with r show ?thesis unfolding step by (intro exI [of _ l] exI [of _ j] exI [of _ z'] exI [of _ P']) simp
  qed
qed

lemma zone_dealloc_spec:
  assumes "zone_inv z P" "apart z P (order, i)"
  shows "\<exists>z' P'. zone_dealloc z (block_ptr z i order) order = Inr (Inr (), z') \<and> zone_inv z' P' \<and> zone_same z z' \<and>
    free_units P' = free_units P \<union> units (order, i)"
proof -
  have k: "order < z_norder z" "i < z_nunits z div 2 ^ order" using assms(2) by (simp_all add: apart_def units_bound)
  have rel: "zone_rel z P" using assms(1) by (simp add: zone_inv_def)
  note D = zone_relD [OF rel]
  from merge_block_spec [OF assms] obtain l j z1 P1 where m: "merge_block z order i = Inr (l, j, z1)" "zone_inv z1 P1"
    "zone_same z z1" "apart z1 P1 (l, j)" "l + 1 < z_norder z \<longrightarrow> (l, buddy_block_idx j) \<notin> P1"
    "free_units P1 \<union> units (l, j) = free_units P \<union> units (order, i)" by blast
  have "l + 1 < z_norder z1 \<Longrightarrow> (l, buddy_block_idx j) \<notin> P1" using m(3,5) by (simp add: zone_same_def)
  from zone_inv_put [OF m(2,4) this] obtain b where b: "bs_set (z_bitmaps z1 ! l) j = Some b"
    "zone_inv (set_order z1 l b (z_free z1 ! l @ [block_ptr z1 j l])) (insert (l, j) P1)" .
  have "i \<notin> bits_of (z_bitmaps z ! order)" using apart_new [OF assms(2)] D(11) [OF k(1)] by simp
  then have test: "bs_test (z_bitmaps z ! order) i = Some False" using D(8) [OF k(1)] k(2) by simp
  have "zone_dealloc z (block_ptr z i order) order = Inr (Inr (), set_order z1 l b (z_free z1 ! l @ [block_ptr z1 j l]))"
    using k block_ptr_aligned [OF D(4)] test m(1) b(1) by (simp add: zone_dealloc_def block_idx_ptr [OF D(1)] del: bs_test_iff)
  moreover have "free_units (insert (l, j) P1) = free_units P \<union> units (order, i)" using m(6) by (auto simp: free_units_def)
  ultimately show ?thesis using b(2) m(3) by (auto simp: zone_same_def)
qed

text \<open>The rejected releases: none of them changes the zone, and the address is rejected exactly
  when it is not the address of a block of that order, or that very block is on a free list.\<close>

lemma zone_dealloc_reject:
  assumes "zone_inv z P"
  shows "order \<ge> z_norder z \<Longrightarrow> zone_dealloc z addr order = Inr (Inl InvalidOrder, z)"
    "order < z_norder z \<Longrightarrow> \<nexists>i. addr = block_ptr z i order \<and> i < z_nunits z div 2 ^ order \<Longrightarrow>
      \<exists>e \<in> {UnalignedAddr, InvalidAddr}. zone_dealloc z addr order = Inr (Inl e, z)"
    "(order, i) \<in> P \<Longrightarrow> zone_dealloc z (block_ptr z i order) order = Inr (Inl DoubleFree, z)"
proof -
  have rel: "zone_rel z P" using assms by (simp add: zone_inv_def)
  note D = zone_relD [OF rel]
  show "order \<ge> z_norder z \<Longrightarrow> zone_dealloc z addr order = Inr (Inl InvalidOrder, z)" by (simp add: zone_dealloc_def)
  show "\<exists>e \<in> {UnalignedAddr, InvalidAddr}. zone_dealloc z addr order = Inr (Inl e, z)"
    if "order < z_norder z" "\<nexists>i. addr = block_ptr z i order \<and> i < z_nunits z div 2 ^ order"
  proof (cases "z_salloc z \<le> addr \<and> (addr - z_salloc z) mod (z_min z * 2 ^ order) = 0")
    case False
    with that(1) show ?thesis by (auto simp: zone_dealloc_def)
  next
    case True
    let ?i = "(addr - z_salloc z) div (z_min z * 2 ^ order)"
    have "?i * (z_min z * 2 ^ order) = addr - z_salloc z" using True div_mult_mod_eq [of "addr - z_salloc z" "z_min z * 2 ^ order"] by simp
    then have "addr = block_ptr z ?i order" unfolding block_ptr_def using True by simp
    with that(2) have "\<not> ?i < z_nunits z div 2 ^ order" by blast
    with that(1) True show ?thesis by (auto simp: zone_dealloc_def block_idx_def)
  qed
  assume P: "(order, i) \<in> P"
  then have k: "order < z_norder z" and bit: "i \<in> bits_of (z_bitmaps z ! order)" using D(11,12) by auto
  have "i < z_nunits z div 2 ^ order" using bit D(8) [OF k] by (simp add: bits_of_def)
  then show "zone_dealloc z (block_ptr z i order) order = Inr (Inl DoubleFree, z)"
    using k bit D(8) [OF k] block_ptr_aligned [OF D(4)] by (simp add: zone_dealloc_def block_idx_ptr [OF D(1)])
qed

end
