(* ===== verification/Buddy_System.thy ===== *)
theory Buddy_System
  imports Buddy_Zone
begin

text \<open>
  The buddy system (crate \<open>buddy-system\<close>: \<open>ZoneNode::from_slice\<close> of \<open>zone.rs\<close>, and
  \<open>system.rs\<close>): the layout of a zone inside the memory it manages, the greedy
  initialisation of its free lists, and the list of zones with allocation and release. The
  size and the alignment of the zone header are fixed by the compiler and are parameters.
  Addresses are natural numbers: the computations of the layout stay below the end of the
  region plus one header, its bitmaps and one block.
\<close>

subsection \<open>The layout of a zone\<close>

definition aligned_align_up :: "nat \<Rightarrow> nat \<Rightarrow> nat" where
  "aligned_align_up al addr = nat ((int addr + int al - 1) AND NOT (int al - 1))"

definition bitmap_bytes :: "nat \<Rightarrow> nat \<Rightarrow> nat" where
  "bitmap_bytes nunits k = (let bits = nunits div 2 ^ k in (bits + 8 - 1) div 8 * 8 div 8)"

record layout =
  ly_bitmaps_start :: nat
  ly_salloc :: nat
  ly_nunits :: nat
  ly_bitmap_offset :: "nat list"

definition zone_layout :: "nat \<Rightarrow> nat \<Rightarrow> nat \<Rightarrow> nat \<Rightarrow> nat \<Rightarrow> nat \<Rightarrow> fault + layout" where
  "zone_layout hdr_size hdr_align min_bytes norder start len =
     (let hdr_start = aligned_align_up hdr_align start in
      if \<not> hdr_start + hdr_size \<le> start + len then Inl Assert_Panic
      else
        let overestimated = len div min_bytes;
            bytes = sum_list (map (bitmap_bytes overestimated) [0 ..< norder]);
            bitmaps_start = hdr_start + hdr_size in
        if \<not> bitmaps_start + bytes \<le> start + len then Inl Assert_Panic
        else
          let salloc = aligned_align_up min_bytes (bitmaps_start + bytes) in
          if \<not> salloc < start + len then Inl Assert_Panic
          else
            let nunits = (start + len - salloc) div min_bytes in
            Inr \<lparr>ly_bitmaps_start = bitmaps_start, ly_salloc = salloc, ly_nunits = nunits,
              ly_bitmap_offset = map (\<lambda>k. (bitmaps_start - start) + sum_list (map (bitmap_bytes nunits) [0 ..< k])) [0 ..< norder]\<rparr>)"

subsection \<open>The free lists of a fresh zone\<close>

text \<open>The bitmap of an order as the slice that \<open>bitmap_for_order\<close> makes over zeroed bytes.\<close>

definition zero_bitmap :: "nat \<Rightarrow> nat \<Rightarrow> bit_slice" where
  "zero_bitmap nunits k = \<lparr>bs_len = nunits div 2 ^ k, bs_bytes = replicate ((nunits div 2 ^ k + 7) div 8) 0\<rparr>"

definition zone_zeroed :: "nat \<Rightarrow> nat \<Rightarrow> nat \<Rightarrow> nat \<Rightarrow> zone" where
  "zone_zeroed min_bytes norder salloc nunits =
     \<lparr>z_min = min_bytes, z_norder = norder, z_nunits = nunits, z_salloc = salloc,
      z_bitmaps = map (zero_bitmap nunits) [0 ..< norder], z_free = replicate norder []\<rparr>"

fun init_blocks :: "zone \<Rightarrow> nat \<Rightarrow> nat \<Rightarrow> nat \<Rightarrow> nat list \<Rightarrow> fault + zone" where
  "init_blocks z k cur start_idx [] = Inr z"
| "init_blocks z k cur start_idx (i # is) =
     (let addr = z_salloc z + (cur + i * 2 ^ k) * z_min z in
      case bs_set (z_bitmaps z ! k) (start_idx + i) of
        None \<Rightarrow> Inl Assert_Panic
      | Some b \<Rightarrow> init_blocks (set_order z k b (z_free z ! k @ [addr])) k cur start_idx is)"

fun init_orders :: "nat \<Rightarrow> zone \<Rightarrow> nat \<Rightarrow> nat \<Rightarrow> fault + zone" where
  "init_orders 0 z rem cur = Inr z"
| "init_orders (Suc k) z rem cur =
     (let nblocks = rem div 2 ^ k in
      if cur mod 2 ^ k \<noteq> 0 then Inl Assert_Panic
      else case init_blocks z k cur (cur div 2 ^ k) [0 ..< nblocks] of
          Inl f \<Rightarrow> Inl f
        | Inr z' \<Rightarrow> init_orders k z' (rem - nblocks * 2 ^ k) (cur + nblocks * 2 ^ k))"

definition from_slice :: "nat \<Rightarrow> nat \<Rightarrow> nat \<Rightarrow> nat \<Rightarrow> nat \<Rightarrow> nat \<Rightarrow> fault + zone" where
  "from_slice hdr_size hdr_align min_bytes norder start len =
     (case zone_layout hdr_size hdr_align min_bytes norder start len of
        Inl f \<Rightarrow> Inl f
      | Inr ly \<Rightarrow> init_orders norder (zone_zeroed min_bytes norder (ly_salloc ly) (ly_nunits ly)) (ly_nunits ly) 0)"

subsection \<open>The list of zones\<close>

definition add_zone_from_slice ::
  "nat \<Rightarrow> nat \<Rightarrow> nat \<Rightarrow> nat \<Rightarrow> nat \<Rightarrow> nat \<Rightarrow> zone list \<Rightarrow> fault + zone list" where
  "add_zone_from_slice hdr_size hdr_align min_bytes norder start len zs =
     map_sum id (\<lambda>z. zs @ [z]) (from_slice hdr_size hdr_align min_bytes norder start len)"

fun system_alloc :: "zone list \<Rightarrow> nat \<Rightarrow> fault + (buddy_error + nat) \<times> zone list" where
  "system_alloc [] order = Inr (Inl BuddyOutOfMemory, [])"
| "system_alloc (z # zs) order =
     (case zone_alloc z order of
        Inl f \<Rightarrow> Inl f
      | Inr (Inr addr, z') \<Rightarrow> Inr (Inr addr, z' # zs)
      | Inr (Inl BuddyOutOfMemory, z') \<Rightarrow> map_sum id (\<lambda>(r, zs'). (r, z' # zs')) (system_alloc zs order)
      | Inr (Inl e, z') \<Rightarrow> Inr (Inl e, z' # zs))"

fun system_dealloc :: "zone list \<Rightarrow> nat \<Rightarrow> nat \<Rightarrow> fault + (buddy_error + unit) \<times> zone list" where
  "system_dealloc [] addr order = Inr (Inl InvalidAddr, [])"
| "system_dealloc (z # zs) addr order =
     (if zone_contains z addr then map_sum id (\<lambda>(r, z'). (r, z' # zs)) (zone_dealloc z addr order)
      else map_sum id (\<lambda>(r, zs'). (r, z # zs')) (system_dealloc zs addr order))"

subsection \<open>The layout fits\<close>

lemma and_not_mask: "(x :: int) AND NOT (2 ^ n - 1) = x div 2 ^ n * 2 ^ n"
proof -
  have "x AND NOT (mask n) = push_bit n (drop_bit n x)"
    by (rule bit_eqI) (auto simp: bit_simps)
  then show ?thesis by (simp add: mask_eq_exp_minus_1 push_bit_eq_mult drop_bit_eq_div)
qed

lemma aligned_align_up:
  "aligned_align_up (2 ^ n) addr = (addr + 2 ^ n - 1) div 2 ^ n * 2 ^ n"
  "addr \<le> aligned_align_up (2 ^ n) addr" "aligned_align_up (2 ^ n) addr < addr + 2 ^ n" "2 ^ n dvd aligned_align_up (2 ^ n) addr"
proof -
  have "int addr + int (2 ^ n) - 1 = int (addr + 2 ^ n - 1)"
    using of_nat_diff [of 1 "addr + 2 ^ n", where 'a = int] by (simp add: Suc_le_eq)
  then have "aligned_align_up (2 ^ n) addr = nat (int (addr + 2 ^ n - 1) AND NOT (2 ^ n - 1))"
    by (simp add: aligned_align_up_def)
  also have "\<dots> = (addr + 2 ^ n - 1) div 2 ^ n * 2 ^ n"
    unfolding and_not_mask by (metis nat_int of_nat_div of_nat_mult of_nat_numeral of_nat_power)
  finally show eq: "aligned_align_up (2 ^ n) addr = (addr + 2 ^ n - 1) div 2 ^ n * 2 ^ n" .
  have "(addr + 2 ^ n - 1) div 2 ^ n * 2 ^ n + (addr + 2 ^ n - 1) mod 2 ^ n = addr + 2 ^ n - 1" by (rule div_mult_mod_eq)
  moreover have "(addr + 2 ^ n - 1) mod 2 ^ n < 2 ^ n" by simp
  moreover have "(0::nat) < 2 ^ n" by simp
  ultimately show "addr \<le> aligned_align_up (2 ^ n) addr" "aligned_align_up (2 ^ n) addr < addr + 2 ^ n"
    unfolding eq by linarith+
  show "2 ^ n dvd aligned_align_up (2 ^ n) addr" unfolding eq by simp
qed

lemma bitmap_bytes_eq: "bitmap_bytes n k = (n div 2 ^ k + 7) div 8"
  by (simp add: bitmap_bytes_def)

lemma bitmap_bytes_mono: "m \<le> n \<Longrightarrow> bitmap_bytes m k \<le> bitmap_bytes n k"
  by (simp add: bitmap_bytes_eq div_le_mono)

lemma sum_list_upt_mono: "j \<le> k \<Longrightarrow> sum_list (map f [0 ..< j]) \<le> sum_list (map (f :: nat \<Rightarrow> nat) [0 ..< k])"
  by (auto simp: interv_sum_list_conv_sum_set_nat intro!: sum_mono2)

lemma zone_layout_spec:
  assumes "zone_layout hdr_size (2 ^ a) (2 ^ m) norder start len = Inr ly"
  shows "start + hdr_size \<le> ly_bitmaps_start ly" "2 ^ m dvd ly_salloc ly"
    "ly_salloc ly + ly_nunits ly * 2 ^ m \<le> start + len" "start + len < ly_salloc ly + (ly_nunits ly + 1) * 2 ^ m"
    "k < norder \<Longrightarrow> ly_bitmaps_start ly \<le> start + ly_bitmap_offset ly ! k"
    "k < norder \<Longrightarrow> start + ly_bitmap_offset ly ! k + bitmap_bytes (ly_nunits ly) k \<le> ly_salloc ly"
    "j < k \<Longrightarrow> k < norder \<Longrightarrow> ly_bitmap_offset ly ! j + bitmap_bytes (ly_nunits ly) j \<le> ly_bitmap_offset ly ! k"
proof -
  define hdr over where "hdr = aligned_align_up (2 ^ a) start" and "over = len div 2 ^ m"
  define bytes where "bytes = sum_list (map (bitmap_bytes over) [0 ..< norder])"
  let ?off = "\<lambda>k. sum_list (map (bitmap_bytes (ly_nunits ly)) [0 ..< k])"
  have ly: "ly_bitmaps_start ly = hdr + hdr_size" "ly_salloc ly = aligned_align_up (2 ^ m) (hdr + hdr_size + bytes)"
    "ly_salloc ly < start + len" "ly_nunits ly = (start + len - ly_salloc ly) div 2 ^ m"
    "ly_bitmap_offset ly = map (\<lambda>k. (hdr + hdr_size - start) + ?off k) [0 ..< norder]"
    using assms by (auto simp: zone_layout_def Let_def hdr_def over_def bytes_def split: if_splits)
  have hdr: "start \<le> hdr" unfolding hdr_def by (rule aligned_align_up(2))
  then show "start + hdr_size \<le> ly_bitmaps_start ly" using ly(1) by simp
  show "2 ^ m dvd ly_salloc ly" unfolding ly(2) by (rule aligned_align_up(4))
  have room: "hdr + hdr_size + bytes \<le> ly_salloc ly" unfolding ly(2) by (rule aligned_align_up(2))
  have "ly_nunits ly * 2 ^ m + (start + len - ly_salloc ly) mod 2 ^ m = start + len - ly_salloc ly" unfolding ly(4) by (rule div_mult_mod_eq)
  moreover have "(start + len - ly_salloc ly) mod 2 ^ m < 2 ^ m" by simp
  ultimately show "ly_salloc ly + ly_nunits ly * 2 ^ m \<le> start + len" "start + len < ly_salloc ly + (ly_nunits ly + 1) * 2 ^ m"
    using ly(3) unfolding distrib_right mult_1 by linarith+
  have off: "start + ly_bitmap_offset ly ! k = ly_bitmaps_start ly + ?off k" if "k < norder" for k using that ly(1,5) hdr by simp
  then show "k < norder \<Longrightarrow> ly_bitmaps_start ly \<le> start + ly_bitmap_offset ly ! k" by simp
  have "ly_nunits ly \<le> over" unfolding ly(4) over_def using room hdr by (intro div_le_mono) simp
  then have "?off norder \<le> bytes" unfolding bytes_def by (intro sum_list_mono bitmap_bytes_mono)
  moreover have step: "?off k + bitmap_bytes (ly_nunits ly) k = ?off (Suc k)" for k by simp
  moreover have "?off (Suc k) \<le> ?off norder" if "k < norder" using that by (intro sum_list_upt_mono) simp
  ultimately show "k < norder \<Longrightarrow> start + ly_bitmap_offset ly ! k + bitmap_bytes (ly_nunits ly) k \<le> ly_salloc ly"
    using off [of k] room ly(1) by simp
  show "ly_bitmap_offset ly ! j + bitmap_bytes (ly_nunits ly) j \<le> ly_bitmap_offset ly ! k" if "j < k" "k < norder"
    using sum_list_upt_mono [of "Suc j" k "bitmap_bytes (ly_nunits ly)"] off [of j] off [of k] that by simp
qed

subsection \<open>The greedy initialisation\<close>

lemma bits_of_zero [simp]: "bits_of (zero_bitmap n k) = {}"
proof -
  have "(n div 2 ^ k + 7) div 8 > i div 8" if "i < n div 2 ^ k" for i using that by (simp add: less_eq_Suc_le)
  then show ?thesis by (auto simp: bits_of_def zero_bitmap_def)
qed

lemma zone_inv_zeroed:
  assumes "0 < min_bytes" "0 < norder" "0 < salloc" "salloc mod min_bytes = 0"
  shows "zone_inv (zone_zeroed min_bytes norder salloc n) {}"
proof -
  have "bs_ok (zero_bitmap n k)" for k by (simp add: bs_ok_def zero_bitmap_def)
  moreover have "bs_len (zero_bitmap n k) = n div 2 ^ k" for k by (simp add: zero_bitmap_def)
  ultimately show ?thesis using assms by (auto simp: zone_inv_def zone_rel_def zone_zeroed_def blocks_ok_def merged_def)
qed

lemma units_next: "{..< cur} \<union> units (k, cur div 2 ^ k) = {..< cur + 2 ^ k}" if "cur mod 2 ^ k = 0"
proof -
  have "cur div 2 ^ k * 2 ^ k = cur" using that by auto
  then show ?thesis unfolding units_def by auto
qed

lemma init_blocks_spec:
  assumes "zone_inv z P" "free_units P = {..< cur + i * 2 ^ k}" "cur mod 2 ^ k = 0" "k < z_norder z"
    "cur + n * 2 ^ k \<le> z_nunits z" "i \<le> n" "k + 1 < z_norder z \<longrightarrow> n \<le> 1 \<and> cur mod 2 ^ (k + 1) = 0"
  shows "\<exists>z' P'. init_blocks z k cur (cur div 2 ^ k) [i ..< n] = Inr z' \<and> zone_inv z' P' \<and> zone_same z z' \<and>
    free_units P' = {..< cur + n * 2 ^ k}"
  using assms
proof (induction "n - i" arbitrary: i z P)
  case 0
  then show ?case by auto
next
  case (Suc d)
  then have lt: "i < n" by simp
  let ?c = "cur + i * 2 ^ k" and ?b = "cur div 2 ^ k + i"
  have aligned: "?c mod 2 ^ k = 0" using Suc.prems(3) by (simp add: mod_add_left_eq [symmetric])
  have idx: "?c div 2 ^ k = ?b" by simp
  have next_units: "{..< ?c} \<union> units (k, ?b) = {..< ?c + 2 ^ k}" using units_next [OF aligned] unfolding idx .
  have begins: "?b * 2 ^ k = ?c" using Suc.prems(3) by (auto simp: distrib_right)
  have low: "x \<notin> units (k, ?b)" if "x < ?c" for x
  proof -
    have "(cur div 2 ^ k + i) * 2 ^ k \<le> x \<longleftrightarrow> ?c \<le> x" unfolding begins ..
    with that show ?thesis by (simp add: units_def)
  qed
  have top: "?c + 2 ^ k \<le> cur + n * 2 ^ k"
    using mult_le_mono1 [of "Suc i" n "2 ^ k"] lt by simp
  have "units (k, ?b) \<subseteq> {..< ?c + 2 ^ k}" using next_units by blast
  also have "\<dots> \<subseteq> {..< z_nunits z}" using top Suc.prems(5) unfolding lessThan_subset_iff by linarith
  finally have inside: "units (k, ?b) \<subseteq> {..< z_nunits z}" .
  have "units (k, ?b) \<inter> free_units P = {}" unfolding Suc.prems(2) using low by blast
  with inside Suc.prems(4) have ap: "apart z P (k, ?b)" unfolding apart_def by simp
  have buddy: "(k, buddy_block_idx ?b) \<notin> P" if "k + 1 < z_norder z"
  proof
    assume "(k, buddy_block_idx ?b) \<in> P"
    then have sub: "units (k, buddy_block_idx ?b) \<subseteq> {..< ?c}" using Suc.prems(2) by (auto simp: free_units_def)
    have "i = 0" "cur mod 2 ^ (k + 1) = 0" using that Suc.prems(7) lt by auto
    then have "even (cur div 2 ^ k)" by (auto simp: mod_0_imp_dvd elim!: dvdE)
    then have "buddy_block_idx ?b = ?b + 1" using \<open>i = 0\<close> by (simp add: buddy_block_idx_def)
    then have "(?b + 1) * 2 ^ k < ?c" using sub units_nonempty [of "?b + 1" k] by auto
    moreover have "(?b + 1) * 2 ^ k = ?c + 2 ^ k" unfolding distrib_right [of ?b] begins by simp
    ultimately show False by simp
  qed
  from zone_inv_put [OF Suc.prems(1) ap buddy] obtain b where b: "bs_set (z_bitmaps z ! k) ?b = Some b"
    "zone_inv (set_order z k b (z_free z ! k @ [block_ptr z ?b k])) (insert (k, ?b) P)" by blast
  let ?z = "set_order z k b (z_free z ! k @ [block_ptr z ?b k])"
  have addr: "z_salloc z + ?c * z_min z = block_ptr z ?b k"
    unfolding block_ptr_def begins [symmetric] by (simp only: mult.assoc mult.commute [of "z_min z"])
  have free: "free_units (insert (k, ?b) P) = {..< cur + Suc i * 2 ^ k}"
    using next_units Suc.prems(2) by (auto simp: free_units_def ac_simps)
  have step: "init_blocks z k cur (cur div 2 ^ k) [i ..< n] = init_blocks ?z k cur (cur div 2 ^ k) [Suc i ..< n]"
    using lt b(1) by (simp add: upt_rec [of i n] addr)
  have d: "d = n - Suc i" "Suc i \<le> n" using Suc.hyps(2) by simp_all
  from Suc.hyps(1) [OF d(1) b(2) free Suc.prems(3) _ _ d(2)] Suc.prems(4,5,7) show ?case unfolding step by simp
qed

lemma init_orders_spec:
  assumes "zone_inv z P" "free_units P = {..< cur}" "cur + rem = z_nunits z" "k \<le> z_norder z"
    "k < z_norder z \<longrightarrow> rem < 2 ^ k" "cur mod 2 ^ k = 0"
  shows "\<exists>z' P'. init_orders k z rem cur = Inr z' \<and> zone_inv z' P' \<and> zone_same z z' \<and> free_units P' = {..< z_nunits z}"
  using assms
proof (induction k arbitrary: z P rem cur)
  case 0
  have "0 < z_norder z" using 0(1) zone_relD(2) by (auto simp: zone_inv_def)
  with 0 show ?case by auto
next
  case (Suc k)
  let ?n = "rem div 2 ^ k"
  have n: "rem - ?n * 2 ^ k = rem mod 2 ^ k" "?n * 2 ^ k \<le> rem" by (simp_all add: minus_div_mult_eq_mod)
  have al: "cur mod 2 ^ k = 0" using Suc.prems(6) by (auto simp: mod_0_imp_dvd)
  have one: "k + 1 < z_norder z \<longrightarrow> ?n \<le> 1 \<and> cur mod 2 ^ (k + 1) = 0"
    using Suc.prems(5,6) by (auto simp: less_mult_imp_div_less less_Suc_eq_le [symmetric])
  have top: "cur + ?n * 2 ^ k \<le> z_nunits z" using n(2) Suc.prems(3) by linarith
  from init_blocks_spec [of z P cur 0 k ?n] Suc.prems(1,2,4) al one top obtain z1 P1 where
    s: "init_blocks z k cur (cur div 2 ^ k) [0 ..< ?n] = Inr z1" "zone_inv z1 P1" "zone_same z z1"
      "free_units P1 = {..< cur + ?n * 2 ^ k}" by auto
  have "(cur + ?n * 2 ^ k) mod 2 ^ k = 0" using al by simp
  moreover have "rem mod 2 ^ k < 2 ^ k" by simp
  moreover have "cur + ?n * 2 ^ k + rem mod 2 ^ k = z_nunits z1" using n Suc.prems(3) s(3) unfolding zone_same_def by linarith
  ultimately have "\<exists>z' P'. init_orders k z1 (rem mod 2 ^ k) (cur + ?n * 2 ^ k) = Inr z' \<and> zone_inv z' P' \<and> zone_same z1 z' \<and>
      free_units P' = {..< z_nunits z1}"
    using Suc.IH [OF s(2,4)] Suc.prems(4) s(3) by (simp add: zone_same_def)
  with s al n show ?case by (auto simp: zone_same_def)
qed

lemma set_order_bytes:
  assumes "bs_set (z_bitmaps z ! k) i = Some b"
  shows "map (length \<circ> bs_bytes) ((z_bitmaps z)[k := b]) = map (length \<circ> bs_bytes) (z_bitmaps z)"
proof -
  have "length (bs_bytes b) = length (bs_bytes (z_bitmaps z ! k))" using assms by (auto simp: bs_set_def split: if_splits)
  then show ?thesis by (cases "k < length (z_bitmaps z)") (simp_all add: map_update list_update_same_conv list_update_beyond)
qed

lemma init_blocks_bytes:
  "init_blocks z k cur idx is = Inr z' \<Longrightarrow> map (length \<circ> bs_bytes) (z_bitmaps z') = map (length \<circ> bs_bytes) (z_bitmaps z)"
  by (induction z k cur idx "is" rule: init_blocks.induct) (auto simp: Let_def set_order_bytes split: option.splits)

lemma init_orders_bytes:
  "init_orders k z rem cur = Inr z' \<Longrightarrow> map (length \<circ> bs_bytes) (z_bitmaps z') = map (length \<circ> bs_bytes) (z_bitmaps z)"
  by (induction k z rem cur rule: init_orders.induct) (auto simp: Let_def init_blocks_bytes split: sum.splits if_splits)

lemma from_slice_spec:
  assumes "zone_layout hdr_size hdr_align (2 ^ m) norder start len = Inr ly" "0 < norder" "0 < ly_salloc ly" "2 ^ m dvd ly_salloc ly"
  shows "\<exists>z P. from_slice hdr_size hdr_align (2 ^ m) norder start len = Inr z \<and> zone_inv z P \<and> free_units P = {..< z_nunits z} \<and>
    z_min z = 2 ^ m \<and> z_norder z = norder \<and> z_salloc z = ly_salloc ly \<and> z_nunits z = ly_nunits ly"
proof -
  let ?z = "zone_zeroed (2 ^ m) norder (ly_salloc ly) (ly_nunits ly)"
  have "zone_inv ?z {}" using assms(2-4) by (intro zone_inv_zeroed) auto
  moreover have "z_min ?z = 2 ^ m" "z_norder ?z = norder" "z_salloc ?z = ly_salloc ly" "z_nunits ?z = ly_nunits ly"
    by (simp_all add: zone_zeroed_def)
  ultimately show ?thesis
    using init_orders_spec [of ?z "{}" 0 "ly_nunits ly" norder] assms(1) by (auto simp: from_slice_def zone_same_def free_units_def)
qed

subsection \<open>Zones by bytes\<close>

text \<open>What the users of the allocator see: the bytes of the free lists, the bytes of a block,
  and whether an address starts a block of some order.\<close>

definition zone_extent :: "zone \<Rightarrow> nat set" where
  "zone_extent z = {z_salloc z ..< z_salloc z + z_nunits z * z_min z}"

definition block_bytes :: "nat \<Rightarrow> nat \<Rightarrow> nat \<Rightarrow> nat set" where
  "block_bytes min_bytes addr order = {addr ..< addr + min_bytes * 2 ^ order}"

definition zone_free_bytes :: "zone \<Rightarrow> nat set" where
  "zone_free_bytes z = (\<Union>k < z_norder z. \<Union>a \<in> set (z_free z ! k). block_bytes (z_min z) a k)"

definition zone_block :: "zone \<Rightarrow> nat \<Rightarrow> nat \<Rightarrow> bool" where
  "zone_block z addr order \<longleftrightarrow> order < z_norder z \<and> (\<exists>i < z_nunits z div 2 ^ order. addr = block_ptr z i order)"

definition zone_ok :: "zone \<Rightarrow> bool" where
  "zone_ok z \<longleftrightarrow> (\<exists>P. zone_inv z P)"

text \<open>The bytes of a set of units that are counted from a base address.\<close>

definition bytes_from :: "nat \<Rightarrow> nat \<Rightarrow> nat set \<Rightarrow> nat set" where
  "bytes_from base d U = {a. base \<le> a \<and> (a - base) div d \<in> U}"

abbreviation bytes_of :: "zone \<Rightarrow> nat set \<Rightarrow> nat set" where
  "bytes_of z \<equiv> bytes_from (z_salloc z) (z_min z)"

lemma div_interval: "0 < d \<Longrightarrow> (x :: nat) div d = i \<longleftrightarrow> i * d \<le> x \<and> x < i * d + d"
proof
  assume "0 < d" "x div d = i"
  then have "x = i * d + x mod d" "x mod d < d" using div_mult_mod_eq [of x d] by simp_all
  then show "i * d \<le> x \<and> x < i * d + d" by linarith
next
  assume "0 < d" "i * d \<le> x \<and> x < i * d + d"
  then show "x div d = i" by (intro div_nat_eqI) (simp_all add: mult.commute add.commute)
qed

lemma bytes_of_units:
  assumes "0 < z_min z"
  shows "bytes_of z (units (k, i)) = block_bytes (z_min z) (block_ptr z i k) k"
proof (intro set_eqI)
  fix a
  define d where "d = z_min z * 2 ^ k"
  have "a \<in> bytes_of z (units (k, i)) \<longleftrightarrow> z_salloc z \<le> a \<and> (a - z_salloc z) div d = i"
    by (simp add: bytes_from_def in_units div_mult2_eq d_def)
  also have "\<dots> \<longleftrightarrow> z_salloc z \<le> a \<and> i * d \<le> a - z_salloc z \<and> a - z_salloc z < i * d + d"
    using div_interval [of d "a - z_salloc z" i] assms by (simp add: d_def)
  also have "\<dots> \<longleftrightarrow> z_salloc z + i * d \<le> a \<and> a < z_salloc z + i * d + d" by linarith
  finally show "a \<in> bytes_of z (units (k, i)) \<longleftrightarrow> a \<in> block_bytes (z_min z) (block_ptr z i k) k"
    unfolding block_bytes_def block_ptr_def atLeastLessThan_iff d_def .
qed

lemma bytes_of_Un: "bytes_from base d (U \<union> V) = bytes_from base d U \<union> bytes_from base d V"
  by (auto simp: bytes_from_def)

lemma bytes_of_Int: "bytes_from base d U \<inter> bytes_from base d V = bytes_from base d (U \<inter> V)"
  by (auto simp: bytes_from_def)

lemma bytes_from_start: "0 < d \<Longrightarrow> base + u * d \<in> bytes_from base d U \<longleftrightarrow> u \<in> U"
  by (simp add: bytes_from_def)

lemma bytes_of_subset:
  assumes "0 < d"
  shows "bytes_from base d U \<subseteq> bytes_from base d V \<longleftrightarrow> U \<subseteq> V"
proof
  assume sub: "bytes_from base d U \<subseteq> bytes_from base d V"
  show "U \<subseteq> V"
  proof
    fix u assume "u \<in> U"
    then have "base + u * d \<in> bytes_from base d U" by (simp add: bytes_from_start [OF assms])
    with sub have "base + u * d \<in> bytes_from base d V" ..
    then show "u \<in> V" by (simp add: bytes_from_start [OF assms])
  qed
qed (auto simp: bytes_from_def)

lemma bytes_of_empty [simp]: "bytes_from base d {} = {}"
  by (simp add: bytes_from_def)

lemma bytes_of_extent: "0 < z_min z \<Longrightarrow> bytes_of z {..< z_nunits z} = zone_extent z"
  unfolding bytes_from_def zone_extent_def lessThan_iff by (auto simp: div_less_iff_less_mult)

lemma zone_free_bytes:
  assumes "zone_inv z P"
  shows "zone_free_bytes z = bytes_of z (free_units P)"
proof -
  have rel: "zone_rel z P" using assms by (simp add: zone_inv_def)
  note D = zone_relD [OF rel]
  have "zone_free_bytes z = (\<Union>(k, i) \<in> P. block_bytes (z_min z) (block_ptr z i k) k)"
  proof -
    have "set (z_free z ! k) = (\<lambda>i. block_ptr z i k) ` {i. (k, i) \<in> P}" if "k < z_norder z" for k
    proof -
      have "bits_of (z_bitmaps z ! k) = {i. (k, i) \<in> P}" using D(11) [OF that] by blast
      with D(10) [OF that] show ?thesis by simp
    qed
    then have "zone_free_bytes z = (\<Union>k < z_norder z. \<Union>i \<in> {i. (k, i) \<in> P}. block_bytes (z_min z) (block_ptr z i k) k)"
      by (simp add: zone_free_bytes_def)
    then show ?thesis using D(12) by blast
  qed
  also have "\<dots> = (\<Union>(k, i) \<in> P. bytes_of z (units (k, i)))" using bytes_of_units [OF D(1)] by auto
  also have "\<dots> = bytes_of z (free_units P)" by (auto simp: bytes_from_def free_units_def)
  finally show ?thesis .
qed

lemma zone_same_bytes:
  assumes "zone_same z z'"
  shows "bytes_of z' = bytes_of z" "zone_extent z' = zone_extent z" "zone_block z' = zone_block z" "block_ptr z' = block_ptr z"
  using assms by (auto simp: zone_same_def bytes_from_def zone_extent_def zone_block_def block_ptr_def fun_eq_iff)

lemma zone_block_bytes:
  assumes "zone_block z a order" "0 < z_min z"
  shows "block_bytes (z_min z) a order \<subseteq> zone_extent z" "a \<in> block_bytes (z_min z) a order"
proof -
  from assms(1) obtain i where i: "i < z_nunits z div 2 ^ order" "a = block_ptr z i order" by (auto simp: zone_block_def)
  then have "units (order, i) \<subseteq> {..< z_nunits z}" by (simp add: units_bound)
  then show "block_bytes (z_min z) a order \<subseteq> zone_extent z"
    unfolding i(2) bytes_of_units [OF assms(2), symmetric] bytes_of_extent [OF assms(2), symmetric] bytes_of_subset [OF assms(2)] .
  show "a \<in> block_bytes (z_min z) a order" using assms(2) by (simp add: block_bytes_def)
qed

lemma zone_ok_min: "zone_ok z \<Longrightarrow> 0 < z_min z"
  by (auto simp: zone_ok_def zone_inv_def dest: zone_relD(1))

lemma zone_free_extent: "zone_ok z \<Longrightarrow> zone_free_bytes z \<subseteq> zone_extent z"
proof -
  assume ok: "zone_ok z"
  then obtain P where P: "zone_inv z P" by (auto simp: zone_ok_def)
  then have "free_units P \<subseteq> {..< z_nunits z}" by (auto simp: zone_inv_def blocks_ok_def free_units_def)
  then show ?thesis
    unfolding zone_free_bytes [OF P] bytes_of_extent [OF zone_ok_min [OF ok], symmetric] bytes_of_subset [OF zone_ok_min [OF ok]] .
qed

lemma zone_alloc_bytes:
  assumes "zone_ok z" "order < z_norder z"
  shows "\<exists>res z'. zone_alloc z order = Inr (res, z') \<and> zone_ok z' \<and> zone_same z z' \<and>
    (case res of
       Inl e \<Rightarrow> e = BuddyOutOfMemory \<and> z' = z \<and>
         \<not> (\<exists>a. zone_block z a order \<and> block_bytes (z_min z) a order \<subseteq> zone_free_bytes z)
     | Inr a \<Rightarrow> zone_block z a order \<and> block_bytes (z_min z) a order \<subseteq> zone_free_bytes z \<and>
         zone_free_bytes z' = zone_free_bytes z - block_bytes (z_min z) a order)"
proof -
  from assms(1) obtain P where P: "zone_inv z P" by (auto simp: zone_ok_def)
  have pos: "0 < z_min z" using zone_ok_min [OF assms(1)] .
  note free = zone_free_bytes [OF P]
  from zone_alloc_spec [OF P assms(2)] obtain res z' where r: "zone_alloc z order = Inr (res, z')"
    "case res of
       Inl e \<Rightarrow> e = BuddyOutOfMemory \<and> z' = z \<and> \<not> (\<exists>i. units (order, i) \<subseteq> free_units P)
     | Inr addr \<Rightarrow> \<exists>i P'. addr = block_ptr z i order \<and> zone_inv z' P' \<and> zone_same z z' \<and> apart z' P' (order, i) \<and>
         free_units P' \<union> units (order, i) = free_units P" by blast
  show ?thesis
  proof (cases res)
    case (Inl e)
    have "\<not> (zone_block z a order \<and> block_bytes (z_min z) a order \<subseteq> zone_free_bytes z)" for a
      using r(2) Inl unfolding free zone_block_def
      by (auto simp: bytes_of_units [OF pos, symmetric] bytes_of_subset [OF pos])
    with r Inl assms(1) show ?thesis by auto
  next
    case (Inr a)
    with r(2) obtain i P' where i: "a = block_ptr z i order" "zone_inv z' P'" "zone_same z z'" "apart z' P' (order, i)"
      "free_units P' \<union> units (order, i) = free_units P" by auto
    have b: "block_bytes (z_min z) a order = bytes_of z (units (order, i))" unfolding i(1) bytes_of_units [OF pos] ..
    have ext: "order < z_norder z" "i < z_nunits z div 2 ^ order" using i(3,4) by (auto simp: apart_def units_bound zone_same_def)
    have dis: "bytes_of z (free_units P') \<inter> bytes_of z (units (order, i)) = {}"
      using i(4) by (auto simp: bytes_of_Int apart_def Int_commute)
    have all: "zone_free_bytes z = bytes_of z (free_units P') \<union> bytes_of z (units (order, i))"
      unfolding free i(5) [symmetric] bytes_of_Un ..
    have "zone_free_bytes z' = zone_free_bytes z - bytes_of z (units (order, i))"
      unfolding all zone_free_bytes [OF i(2)] zone_same_bytes(1) [OF i(3)] using dis by blast
    moreover have "zone_block z a order" using ext i(1) by (auto simp: zone_block_def)
    ultimately show ?thesis using r(1) Inr i(2,3) b all by (auto simp: zone_ok_def)
  qed
qed

lemma zone_dealloc_bytes:
  assumes "zone_ok z" "zone_block z a order" "block_bytes (z_min z) a order \<inter> zone_free_bytes z = {}"
  shows "\<exists>z'. zone_dealloc z a order = Inr (Inr (), z') \<and> zone_ok z' \<and> zone_same z z' \<and>
    zone_free_bytes z' = zone_free_bytes z \<union> block_bytes (z_min z) a order"
proof -
  from assms(1) obtain P where P: "zone_inv z P" by (auto simp: zone_ok_def)
  have pos: "0 < z_min z" using zone_ok_min [OF assms(1)] .
  from assms(2) obtain i where i: "order < z_norder z" "i < z_nunits z div 2 ^ order" "a = block_ptr z i order" by (auto simp: zone_block_def)
  have b: "block_bytes (z_min z) a order = bytes_of z (units (order, i))" unfolding i(3) bytes_of_units [OF pos] ..
  have "bytes_of z (units (order, i) \<inter> free_units P) \<subseteq> bytes_of z {}"
    using assms(3) unfolding b zone_free_bytes [OF P] bytes_of_Int by simp
  then have "units (order, i) \<inter> free_units P = {}" unfolding bytes_of_subset [OF pos] by simp
  then have "apart z P (order, i)" using i by (simp add: apart_def units_bound)
  from zone_dealloc_spec [OF P this] obtain z' P' where d: "zone_dealloc z (block_ptr z i order) order = Inr (Inr (), z')"
    "zone_inv z' P'" "zone_same z z'" "free_units P' = free_units P \<union> units (order, i)" by blast
  have "zone_free_bytes z' = zone_free_bytes z \<union> block_bytes (z_min z) a order"
    unfolding zone_free_bytes [OF d(2)] zone_same_bytes(1) [OF d(3)] d(4) zone_free_bytes [OF P] b bytes_of_Un ..
  with d i(3) show ?thesis by (auto simp: zone_ok_def)
qed

subsection \<open>The system\<close>

definition free_bytes :: "zone list \<Rightarrow> nat set" where
  "free_bytes zs = (\<Union>z \<in> set zs. zone_free_bytes z)"

definition system_block :: "zone list \<Rightarrow> nat \<Rightarrow> nat \<Rightarrow> bool" where
  "system_block zs a order \<longleftrightarrow> (\<exists>z \<in> set zs. zone_block z a order)"

definition system_ok :: "nat \<Rightarrow> nat \<Rightarrow> zone list \<Rightarrow> bool" where
  "system_ok min_bytes norder zs \<longleftrightarrow>
     (\<forall>z \<in> set zs. zone_ok z \<and> z_min z = min_bytes \<and> z_norder z = norder) \<and>
     sorted_wrt (\<lambda>z y. zone_extent z \<inter> zone_extent y = {}) zs"

abbreviation system_same :: "zone list \<Rightarrow> zone list \<Rightarrow> bool" where
  "system_same \<equiv> list_all2 zone_same"

lemma zone_same_refl_list [simp]: "system_same zs zs"
  by (simp add: list_all2_refl)

lemma zone_same_extents: "system_same zs zs' \<Longrightarrow> zone_extent ` set zs' = zone_extent ` set zs"
  by (induction rule: list_all2_induct) (simp_all add: zone_same_bytes(2))

lemma system_same_block:
  assumes "system_same zs zs'"
  shows "system_block zs' a order \<longleftrightarrow> system_block zs a order"
  using assms by (induction rule: list_all2_induct) (simp_all add: system_block_def zone_same_bytes(3))

lemma system_ok_Cons: "system_ok m n (z # zs) \<longleftrightarrow>
    zone_ok z \<and> z_min z = m \<and> z_norder z = n \<and> zone_extent z \<inter> (\<Union>(zone_extent ` set zs)) = {} \<and> system_ok m n zs"
  by (auto simp: system_ok_def)

lemma free_bytes_extents: "system_ok m n zs \<Longrightarrow> free_bytes zs \<subseteq> \<Union>(zone_extent ` set zs)"
  using zone_free_extent by (fastforce simp: free_bytes_def system_ok_def)

lemma free_bytes_Cons [simp]: "free_bytes (z # zs) = zone_free_bytes z \<union> free_bytes zs"
  by (simp add: free_bytes_def)

lemma system_block_Cons: "system_block (z # zs) a order \<longleftrightarrow> zone_block z a order \<or> system_block zs a order"
  by (simp add: system_block_def)

lemma system_block_extents:
  assumes "system_ok m n zs" "system_block zs a order"
  shows "block_bytes m a order \<subseteq> \<Union>(zone_extent ` set zs)" "a \<in> block_bytes m a order"
proof -
  from assms obtain z where z: "z \<in> set zs" "zone_block z a order" "zone_ok z" "z_min z = m" by (auto simp: system_block_def system_ok_def)
  from zone_block_bytes [OF z(2) zone_ok_min [OF z(3)]] z(1,4)
  show "block_bytes m a order \<subseteq> \<Union>(zone_extent ` set zs)" "a \<in> block_bytes m a order" by auto
qed

lemma system_alloc_spec:
  assumes "system_ok m n zs" "order < n"
  shows "\<exists>res zs'. system_alloc zs order = Inr (res, zs') \<and> system_ok m n zs' \<and> system_same zs zs' \<and>
    (case res of
       Inl e \<Rightarrow> e = BuddyOutOfMemory \<and> zs' = zs \<and> \<not> (\<exists>a. system_block zs a order \<and> block_bytes m a order \<subseteq> free_bytes zs)
     | Inr a \<Rightarrow> system_block zs a order \<and> block_bytes m a order \<subseteq> free_bytes zs \<and>
         free_bytes zs' = free_bytes zs - block_bytes m a order)"
  using assms(1)
proof (induction zs)
  case Nil
  then show ?case by (simp add: system_block_def)
next
  case (Cons z zs)
  then have z: "zone_ok z" "z_min z = m" "z_norder z = n" and dis: "zone_extent z \<inter> \<Union>(zone_extent ` set zs) = {}"
    and rest: "system_ok m n zs" by (simp_all add: system_ok_Cons)
  note zfree = zone_free_extent [OF z(1)] and rfree = free_bytes_extents [OF rest]
  from zone_alloc_bytes [OF z(1), of order] z(2,3) assms(2) obtain r z' where a: "zone_alloc z order = Inr (r, z')" "zone_ok z'"
    "zone_same z z'"
    "case r of
       Inl e \<Rightarrow> e = BuddyOutOfMemory \<and> z' = z \<and> \<not> (\<exists>a. zone_block z a order \<and> block_bytes m a order \<subseteq> zone_free_bytes z)
     | Inr a \<Rightarrow> zone_block z a order \<and> block_bytes m a order \<subseteq> zone_free_bytes z \<and>
         zone_free_bytes z' = zone_free_bytes z - block_bytes m a order" by auto
  show ?case
  proof (cases r)
    case (Inr ad)
    with a(4) have b: "zone_block z ad order" "block_bytes m ad order \<subseteq> zone_free_bytes z"
      "zone_free_bytes z' = zone_free_bytes z - block_bytes m ad order" by simp_all
    have ok: "system_ok m n (z' # zs)" using a(2,3) z rest dis zone_same_bytes(2) [OF a(3)] by (simp add: system_ok_Cons zone_same_def)
    have "block_bytes m ad order \<inter> free_bytes zs = {}" using b(2) zfree rfree dis by blast
    then have "free_bytes (z' # zs) = free_bytes (z # zs) - block_bytes m ad order" using b(3) by auto
    with Inr a(1,3) ok b show ?thesis by (intro exI [of _ "Inr ad"] exI [of _ "z' # zs"]) (auto simp: system_block_Cons)
  next
    case (Inl e)
    with a(4) have e: "e = BuddyOutOfMemory" "z' = z"
      and none: "\<And>a. zone_block z a order \<Longrightarrow> \<not> block_bytes m a order \<subseteq> zone_free_bytes z" by auto
    from Cons.IH [OF rest] obtain r1 zs1 where i: "system_alloc zs order = Inr (r1, zs1)" "system_ok m n zs1" "system_same zs zs1"
      "case r1 of
         Inl e \<Rightarrow> e = BuddyOutOfMemory \<and> zs1 = zs \<and> \<not> (\<exists>a. system_block zs a order \<and> block_bytes m a order \<subseteq> free_bytes zs)
       | Inr a \<Rightarrow> system_block zs a order \<and> block_bytes m a order \<subseteq> free_bytes zs \<and>
           free_bytes zs1 = free_bytes zs - block_bytes m a order" by blast
    have step: "system_alloc (z # zs) order = Inr (r1, z # zs1)" using a(1) Inl e i(1) by simp
    have ok: "system_ok m n (z # zs1)" using z dis i(2) zone_same_extents [OF i(3)] by (simp add: system_ok_Cons)
    have same: "system_same (z # zs) (z # zs1)" using i(3) by simp
    show ?thesis
    proof (cases r1)
      case (Inr ad)
      with i(4) have b: "system_block zs ad order" "block_bytes m ad order \<subseteq> free_bytes zs"
        "free_bytes zs1 = free_bytes zs - block_bytes m ad order" by simp_all
      have "block_bytes m ad order \<inter> zone_free_bytes z = {}" using b(2) zfree rfree dis by blast
      then have "free_bytes (z # zs1) = free_bytes (z # zs) - block_bytes m ad order" using b(3) by auto
      with Inr step ok same b show ?thesis by (intro exI [of _ "Inr ad"] exI [of _ "z # zs1"]) (auto simp: system_block_Cons)
    next
      case (Inl e1)
      with i(4) have j: "e1 = BuddyOutOfMemory" "zs1 = zs"
        and rnone: "\<And>a. system_block zs a order \<Longrightarrow> \<not> block_bytes m a order \<subseteq> free_bytes zs" by auto
      have "\<not> block_bytes m ad order \<subseteq> zone_free_bytes z \<union> free_bytes zs" if "zone_block z ad order" for ad
        using none [OF that] zone_block_bytes [OF that zone_ok_min [OF z(1)]] z(2) rfree dis by blast
      moreover have "\<not> block_bytes m ad order \<subseteq> zone_free_bytes z \<union> free_bytes zs" if "system_block zs ad order" for ad
        using rnone [OF that] system_block_extents [OF rest that] zfree dis by blast
      ultimately show ?thesis using Inl step ok same j by (intro exI [of _ r1] exI [of _ "z # zs1"]) (auto simp: system_block_Cons)
    qed
  qed
qed

lemma zone_contains_extent: "zone_contains z a \<longleftrightarrow> a \<in> zone_extent z"
  by (auto simp: zone_contains_def zone_extent_def)

lemma system_dealloc_spec:
  assumes "system_ok m n zs" "system_block zs a order" "block_bytes m a order \<inter> free_bytes zs = {}"
  shows "\<exists>zs'. system_dealloc zs a order = Inr (Inr (), zs') \<and> system_ok m n zs' \<and> system_same zs zs' \<and>
    free_bytes zs' = free_bytes zs \<union> block_bytes m a order"
  using assms
proof (induction zs)
  case Nil
  then show ?case by (simp add: system_block_def)
next
  case (Cons z zs)
  then have z: "zone_ok z" "z_min z = m" "z_norder z = n" and dis: "zone_extent z \<inter> \<Union>(zone_extent ` set zs) = {}"
    and rest: "system_ok m n zs" by (simp_all add: system_ok_Cons)
  show ?case
  proof (cases "zone_block z a order")
    case True
    from zone_dealloc_bytes [OF z(1) True] Cons.prems(3) z(2) obtain z' where d: "zone_dealloc z a order = Inr (Inr (), z')" "zone_ok z'"
      "zone_same z z'" "zone_free_bytes z' = zone_free_bytes z \<union> block_bytes m a order" by auto
    have "zone_contains z a" using zone_block_bytes [OF True zone_ok_min [OF z(1)]] by (auto simp: zone_contains_extent)
    then have "system_dealloc (z # zs) a order = Inr (Inr (), z' # zs)" using d(1) by simp
    moreover have "system_ok m n (z' # zs)" using d(2,3) z rest dis zone_same_bytes(2) [OF d(3)] by (simp add: system_ok_Cons zone_same_def)
    ultimately show ?thesis using d(3,4) by auto
  next
    case False
    then have blk: "system_block zs a order" using Cons.prems(2) by (simp add: system_block_Cons)
    have "\<not> zone_contains z a" using system_block_extents [OF rest blk] dis by (auto simp: zone_contains_extent)
    moreover from Cons.IH [OF rest blk] Cons.prems(3) obtain zs1 where d: "system_dealloc zs a order = Inr (Inr (), zs1)"
      "system_ok m n zs1" "system_same zs zs1" "free_bytes zs1 = free_bytes zs \<union> block_bytes m a order" by auto
    ultimately have "system_dealloc (z # zs) a order = Inr (Inr (), z # zs1)" by simp
    moreover have "system_ok m n (z # zs1)" using z dis d(2) zone_same_extents [OF d(3)] by (simp add: system_ok_Cons)
    ultimately show ?thesis using d(3,4) by auto
  qed
qed

lemma add_zone_spec:
  assumes "system_ok (2 ^ m) n zs" "zone_layout hdr_size (2 ^ al) (2 ^ m) n start len = Inr ly" "0 < n" "0 < hdr_size"
    "{start ..< start + len} \<inter> \<Union>(zone_extent ` set zs) = {}"
  shows "\<exists>z. add_zone_from_slice hdr_size (2 ^ al) (2 ^ m) n start len zs = Inr (zs @ [z]) \<and> system_ok (2 ^ m) n (zs @ [z]) \<and>
    zone_free_bytes z = zone_extent z \<and> zone_extent z \<subseteq> {start ..< start + len} \<and> start \<le> z_salloc z"
proof -
  have "ly_bitmaps_start ly \<le> ly_salloc ly" using zone_layout_spec(5,6) [OF assms(2), of 0] assms(3) by simp
  then have s: "start + hdr_size \<le> ly_salloc ly" using zone_layout_spec(1) [OF assms(2)] by simp
  then have "0 < ly_salloc ly" using assms(4) by simp
  from from_slice_spec [OF assms(2,3) this zone_layout_spec(2) [OF assms(2)]] obtain z P where z:
    "from_slice hdr_size (2 ^ al) (2 ^ m) n start len = Inr z" "zone_inv z P" "free_units P = {..< z_nunits z}"
    "z_min z = 2 ^ m" "z_norder z = n" "z_salloc z = ly_salloc ly" "z_nunits z = ly_nunits ly" by blast
  have free: "zone_free_bytes z = zone_extent z"
    unfolding zone_free_bytes [OF z(2)] z(3) by (rule bytes_of_extent) (simp add: z(4))
  have sub: "zone_extent z \<subseteq> {start ..< start + len}"
    using s zone_layout_spec(3) [OF assms(2)] z(4,6,7) by (auto simp: zone_extent_def)
  have "zone_extent y \<inter> zone_extent z = {}" if "y \<in> set zs" for y
    using that sub assms(5) by blast
  then have "system_ok (2 ^ m) n (zs @ [z])"
    using assms(1) z(2,4,5) by (auto simp: system_ok_def zone_ok_def sorted_wrt_append)
  with z(1,6) free sub s show ?thesis by (simp add: add_zone_from_slice_def)
qed

subsection \<open>Runs\<close>

text \<open>The users of the system: they add regions that overlap no zone, allocate blocks, and
  release blocks they hold with the order they asked for.\<close>

record buddy_state =
  bu_zones :: "zone list"
  bu_held :: "(nat \<times> nat) set"

definition do_alloc :: "nat \<Rightarrow> buddy_state \<Rightarrow> fault + buddy_state" where
  "do_alloc order s =
     map_sum id (\<lambda>(r, zs). \<lparr>bu_zones = zs, bu_held = (case r of Inl _ \<Rightarrow> bu_held s | Inr a \<Rightarrow> insert (a, order) (bu_held s))\<rparr>)
       (system_alloc (bu_zones s) order)"

definition do_dealloc :: "nat \<Rightarrow> nat \<Rightarrow> buddy_state \<Rightarrow> fault + buddy_state" where
  "do_dealloc a order s =
     (case system_dealloc (bu_zones s) a order of
        Inr (Inr _, zs) \<Rightarrow> Inr \<lparr>bu_zones = zs, bu_held = bu_held s - {(a, order)}\<rparr>
      | _ \<Rightarrow> Inl Assert_Panic)"

inductive buddy_step :: "nat \<Rightarrow> nat \<Rightarrow> buddy_state \<Rightarrow> fault + buddy_state \<Rightarrow> bool" for m n where
  buddy_add: "\<lbrakk>0 < hdr_size; zone_layout hdr_size (2 ^ al) (2 ^ m) n start len = Inr ly;
    {start ..< start + len} \<inter> \<Union>(zone_extent ` set (bu_zones s)) = {}\<rbrakk> \<Longrightarrow>
    buddy_step m n s (map_sum id (\<lambda>zs. s\<lparr>bu_zones := zs\<rparr>) (add_zone_from_slice hdr_size (2 ^ al) (2 ^ m) n start len (bu_zones s)))"
| buddy_take: "order < n \<Longrightarrow> buddy_step m n s (do_alloc order s)"
| buddy_give: "(a, order) \<in> bu_held s \<Longrightarrow> buddy_step m n s (do_dealloc a order s)"

inductive buddy_reachable :: "nat \<Rightarrow> nat \<Rightarrow> buddy_state \<Rightarrow> bool" for m n where
  buddy_init: "buddy_reachable m n \<lparr>bu_zones = [], bu_held = {}\<rparr>"
| buddy_stepped: "buddy_reachable m n s \<Longrightarrow> buddy_step m n s (Inr s') \<Longrightarrow> buddy_reachable m n s'"

definition held_block :: "nat \<Rightarrow> nat \<times> nat \<Rightarrow> nat set" where
  "held_block m b = block_bytes (2 ^ m) (fst b) (snd b)"

definition held_bytes :: "nat \<Rightarrow> (nat \<times> nat) set \<Rightarrow> nat set" where
  "held_bytes m H = (\<Union>b \<in> H. held_block m b)"

definition buddy_inv :: "nat \<Rightarrow> nat \<Rightarrow> buddy_state \<Rightarrow> bool" where
  "buddy_inv m n s \<longleftrightarrow> system_ok (2 ^ m) n (bu_zones s) \<and>
     (\<forall>b \<in> bu_held s. system_block (bu_zones s) (fst b) (snd b)) \<and>
     pairwise (\<lambda>b c. held_block m b \<inter> held_block m c = {}) (bu_held s) \<and>
     free_bytes (bu_zones s) \<inter> held_bytes m (bu_held s) = {} \<and>
     free_bytes (bu_zones s) \<union> held_bytes m (bu_held s) = \<Union>(zone_extent ` set (bu_zones s))"

lemma buddy_invD:
  assumes "buddy_inv m n s"
  shows "system_ok (2 ^ m) n (bu_zones s)" "b \<in> bu_held s \<Longrightarrow> system_block (bu_zones s) (fst b) (snd b)"
    "pairwise (\<lambda>b c. held_block m b \<inter> held_block m c = {}) (bu_held s)"
    "free_bytes (bu_zones s) \<inter> held_bytes m (bu_held s) = {}"
    "free_bytes (bu_zones s) \<union> held_bytes m (bu_held s) = \<Union>(zone_extent ` set (bu_zones s))"
  using assms unfolding buddy_inv_def by blast+

lemma held_bytes_insert: "held_bytes m (insert b H) = held_block m b \<union> held_bytes m H"
  by (simp add: held_bytes_def)

lemma held_apart_insert:
  assumes "pairwise (\<lambda>b c. held_block m b \<inter> held_block m c = {}) H" "held_block m x \<inter> held_bytes m H = {}"
  shows "pairwise (\<lambda>b c. held_block m b \<inter> held_block m c = {}) (insert x H)"
proof -
  have "held_block m x \<inter> held_block m y = {}" if "y \<in> H" for y using that assms(2) unfolding held_bytes_def by blast
  then have "held_block m x \<inter> held_block m y = {} \<and> held_block m y \<inter> held_block m x = {}" if "y \<in> H" for y
    using that by (metis Int_commute)
  with assms(1) show ?thesis unfolding pairwise_insert by simp
qed

lemma held_apart_remove:
  assumes "pairwise (\<lambda>b c. held_block m b \<inter> held_block m c = {}) H" "x \<in> H"
  shows "held_block m x \<inter> held_bytes m (H - {x}) = {}" "held_bytes m H = held_block m x \<union> held_bytes m (H - {x})"
proof -
  have "held_block m x \<inter> held_block m y = {}" if "y \<in> H - {x}" for y using that assms unfolding pairwise_def by blast
  then show "held_block m x \<inter> held_bytes m (H - {x}) = {}" unfolding held_bytes_def by blast
  show "held_bytes m H = held_block m x \<union> held_bytes m (H - {x})" using assms(2) unfolding held_bytes_def by blast
qed

lemma partition_give:
  "F \<inter> H = {} \<Longrightarrow> F \<union> H = E \<Longrightarrow> B \<inter> R = {} \<Longrightarrow> H = B \<union> R \<Longrightarrow> (F \<union> B) \<inter> R = {} \<and> (F \<union> B) \<union> R = E"
  by blast

lemma buddy_take_keeps:
  assumes inv: "buddy_inv m n s" and "order < n"
  shows "\<exists>s'. do_alloc order s = Inr s' \<and> buddy_inv m n s'"
proof -
  note D = buddy_invD [OF inv]
  from system_alloc_spec [OF D(1) assms(2)] obtain r zs where a: "system_alloc (bu_zones s) order = Inr (r, zs)"
    "system_ok (2 ^ m) n zs" "system_same (bu_zones s) zs"
    "case r of
       Inl e \<Rightarrow> e = BuddyOutOfMemory \<and> zs = bu_zones s \<and>
         \<not> (\<exists>a. system_block (bu_zones s) a order \<and> block_bytes (2 ^ m) a order \<subseteq> free_bytes (bu_zones s))
     | Inr a \<Rightarrow> system_block (bu_zones s) a order \<and> block_bytes (2 ^ m) a order \<subseteq> free_bytes (bu_zones s) \<and>
         free_bytes zs = free_bytes (bu_zones s) - block_bytes (2 ^ m) a order" by blast
  show ?thesis
  proof (cases r)
    case (Inl e)
    with a inv show ?thesis by (cases s) (simp add: do_alloc_def)
  next
    case (Inr ad)
    let ?b = "(ad, order)"
    from Inr a(4) have b: "system_block (bu_zones s) ad order" "held_block m ?b \<subseteq> free_bytes (bu_zones s)"
      "free_bytes zs = free_bytes (bu_zones s) - held_block m ?b" by (simp_all add: held_block_def)
    let ?s = "\<lparr>bu_zones = zs, bu_held = insert ?b (bu_held s)\<rparr>"
    have "held_block m ?b \<inter> held_bytes m (bu_held s) = {}" using b(2) D(4) by blast
    from held_apart_insert [OF D(3) this] have pair: "pairwise (\<lambda>b c. held_block m b \<inter> held_block m c = {}) (insert ?b (bu_held s))" .
    have "free_bytes zs \<inter> held_bytes m (insert ?b (bu_held s)) = {}"
      "free_bytes zs \<union> held_bytes m (insert ?b (bu_held s)) = \<Union>(zone_extent ` set zs)"
      using b(2,3) D(4,5) unfolding zone_same_extents [OF a(3)] held_bytes_insert by blast+
    with a(2) pair b(1) D(2) have "buddy_inv m n ?s" by (simp add: buddy_inv_def system_same_block [OF a(3)])
    with a(1) Inr show ?thesis by (simp add: do_alloc_def)
  qed
qed

lemma buddy_give_keeps:
  assumes inv: "buddy_inv m n s" and "(a, order) \<in> bu_held s"
  shows "\<exists>s'. do_dealloc a order s = Inr s' \<and> buddy_inv m n s'"
proof -
  note D = buddy_invD [OF inv]
  let ?b = "(a, order)"
  note out = held_apart_remove [OF D(3) assms(2)]
  have blk: "block_bytes (2 ^ m) a order = held_block m ?b" by (simp add: held_block_def)
  have dis: "held_block m ?b \<inter> free_bytes (bu_zones s) = {}" using D(4) out(2) by blast
  have "system_block (bu_zones s) a order" using D(2) [OF assms(2)] by simp
  from system_dealloc_spec [OF D(1) this] dis obtain zs where d: "system_dealloc (bu_zones s) a order = Inr (Inr (), zs)"
    "system_ok (2 ^ m) n zs" "system_same (bu_zones s) zs" "free_bytes zs = free_bytes (bu_zones s) \<union> held_block m ?b"
    unfolding blk by blast
  have "free_bytes zs \<inter> held_bytes m (bu_held s - {?b}) = {} \<and>
    free_bytes zs \<union> held_bytes m (bu_held s - {?b}) = \<Union>(zone_extent ` set zs)"
    using partition_give [OF D(4,5) out] unfolding zone_same_extents [OF d(3)] d(4) .
  moreover have "pairwise (\<lambda>b c. held_block m b \<inter> held_block m c = {}) (bu_held s - {?b})"
    using D(3) by (rule pairwise_subset) blast
  ultimately have "buddy_inv m n \<lparr>bu_zones = zs, bu_held = bu_held s - {?b}\<rparr>"
    using d(2) D(2) by (simp add: buddy_inv_def system_same_block [OF d(3)])
  with d(1) show ?thesis by (simp add: do_dealloc_def)
qed

lemma buddy_add_keeps:
  assumes inv: "buddy_inv m n s" and "0 < n" "0 < hdr_size" "zone_layout hdr_size (2 ^ al) (2 ^ m) n start len = Inr ly"
    "{start ..< start + len} \<inter> \<Union>(zone_extent ` set (bu_zones s)) = {}"
  shows "\<exists>zs. add_zone_from_slice hdr_size (2 ^ al) (2 ^ m) n start len (bu_zones s) = Inr zs \<and> buddy_inv m n (s\<lparr>bu_zones := zs\<rparr>)"
proof -
  note D = buddy_invD [OF inv]
  from add_zone_spec [OF D(1) assms(4,2,3,5)] obtain z where z:
    "add_zone_from_slice hdr_size (2 ^ al) (2 ^ m) n start len (bu_zones s) = Inr (bu_zones s @ [z])"
    "system_ok (2 ^ m) n (bu_zones s @ [z])" "zone_free_bytes z = zone_extent z" "zone_extent z \<subseteq> {start ..< start + len}" by blast
  let ?E = "\<Union>(zone_extent ` set (bu_zones s))"
  have new: "free_bytes (bu_zones s @ [z]) = free_bytes (bu_zones s) \<union> zone_extent z" by (auto simp: free_bytes_def z(3))
  have "zone_extent z \<inter> ?E = {}" using z(4) assms(5) by blast
  then have "(free_bytes (bu_zones s) \<union> zone_extent z) \<inter> held_bytes m (bu_held s) = {}" using D(4,5) by blast
  moreover have "(free_bytes (bu_zones s) \<union> zone_extent z) \<union> held_bytes m (bu_held s) = \<Union>(zone_extent ` set (bu_zones s @ [z]))"
    using D(5) by auto
  moreover have "system_block (bu_zones s @ [z]) (fst b) (snd b)" if "b \<in> bu_held s" for b
    using D(2) [OF that] by (auto simp: system_block_def)
  ultimately have "buddy_inv m n (s\<lparr>bu_zones := bu_zones s @ [z]\<rparr>)" using z(2) D(3) by (simp add: buddy_inv_def new)
  with z(1) show ?thesis by blast
qed

lemma buddy_step_keeps:
  assumes "buddy_step m n s res" "buddy_inv m n s" "0 < n"
  shows "\<exists>s'. res = Inr s' \<and> buddy_inv m n s'"
  using assms(1)
proof cases
  case (buddy_add hdr_size al start len ly)
  with buddy_add_keeps [OF assms(2,3) buddy_add(2-4)] show ?thesis by auto
next
  case (buddy_take order)
  with buddy_take_keeps [OF assms(2)] show ?thesis by simp
next
  case (buddy_give a order)
  with buddy_give_keeps [OF assms(2)] show ?thesis by simp
qed

lemma buddy_reachable_inv: "buddy_reachable m n s \<Longrightarrow> 0 < n \<Longrightarrow> buddy_inv m n s"
proof (induction rule: buddy_reachable.induct)
  case buddy_init
  show ?case by (simp add: buddy_inv_def system_ok_def free_bytes_def held_bytes_def)
next
  case (buddy_stepped s s')
  then show ?case using buddy_step_keeps [OF buddy_stepped.hyps(2)] by simp
qed

text \<open>A zone of five units and two orders, as it comes out of the initialisation, and a
  driver that runs a sequence of requests on a zone and lists the answers.\<close>

definition example_zone :: zone where
  "example_zone = \<lparr>z_min = 16, z_norder = 2, z_nunits = 5, z_salloc = 80,
     z_bitmaps = [\<lparr>bs_len = 5, bs_bytes = [16]\<rparr>, \<lparr>bs_len = 2, bs_bytes = [3]\<rparr>], z_free = [[144], [80, 112]]\<rparr>"

datatype zone_request = Request_Alloc nat | Request_Dealloc nat nat

fun answers :: "zone_request list \<Rightarrow> zone \<Rightarrow> (buddy_error + nat option) list" where
  "answers [] z = []"
| "answers (Request_Alloc order # rs) z =
     (case zone_alloc z order of Inl _ \<Rightarrow> [] | Inr (r, z') \<Rightarrow> map_sum id Some r # answers rs z')"
| "answers (Request_Dealloc a order # rs) z =
     (case zone_dealloc z a order of Inl _ \<Rightarrow> [] | Inr (r, z') \<Rightarrow> map_sum id (\<lambda>_. None) r # answers rs z')"

lemma example_from_slice: "from_slice 8 (2 ^ 3) (2 ^ 4) 2 64 100 = Inr example_zone"
  by code_simp

lemma example_layout: "zone_layout 8 (2 ^ 3) (2 ^ 4) 2 64 100 =
    Inr \<lparr>ly_bitmaps_start = 72, ly_salloc = 80, ly_nunits = 5, ly_bitmap_offset = [8, 9]\<rparr>"
  by code_simp

subsection \<open>Properties\<close>

text \<open>C6: The buddy system is exact. Whatever regions are added and whatever blocks are taken
  and given back, no step panics; the blocks held are disjoint, and free bytes and held
  blocks partition the managed memory: no byte is lost. An allocation fails only when every
  aligned block of that order in every zone meets a block that is held, so no free memory
  is lost by fragments that could be merged; otherwise it returns a block that meets none.\<close>

theorem buddy_exact:
  assumes "buddy_reachable m n s" "order < n"
  shows "pairwise (\<lambda>b c. held_block m b \<inter> held_block m c = {}) (bu_held s) \<and>
    free_bytes (bu_zones s) \<inter> held_bytes m (bu_held s) = {} \<and>
    free_bytes (bu_zones s) \<union> held_bytes m (bu_held s) = \<Union>(zone_extent ` set (bu_zones s)) \<and>
    (\<forall>res. buddy_step m n s res \<longrightarrow> (\<exists>s'. res = Inr s')) \<and>
    (\<exists>r zs. system_alloc (bu_zones s) order = Inr (r, zs) \<and>
      (case r of
         Inl e \<Rightarrow> e = BuddyOutOfMemory \<and>
           (\<forall>a. system_block (bu_zones s) a order \<longrightarrow> held_block m (a, order) \<inter> held_bytes m (bu_held s) \<noteq> {})
       | Inr a \<Rightarrow> system_block (bu_zones s) a order \<and> held_block m (a, order) \<inter> held_bytes m (bu_held s) = {}))"
proof -
  have n: "0 < n" using assms(2) by simp
  have inv: "buddy_inv m n s" using buddy_reachable_inv [OF assms(1) n] .
  note D = buddy_invD [OF inv]
  have "\<exists>s'. res = Inr s'" if "buddy_step m n s res" for res using buddy_step_keeps [OF that inv n] by blast
  moreover have "held_block m (a, order) \<subseteq> free_bytes (bu_zones s) \<longleftrightarrow> held_block m (a, order) \<inter> held_bytes m (bu_held s) = {}"
    if "system_block (bu_zones s) a order" for a
    using system_block_extents(1) [OF D(1) that] D(4,5) by (auto simp: held_block_def)
  ultimately show ?thesis using system_alloc_spec [OF D(1) assms(2)] D(3,4,5)
    by (fastforce simp: held_block_def split: sum.splits)
qed

theorem buddy_exact_witness:
  "\<exists>z zs. buddy_reachable 4 2 \<lparr>bu_zones = [z], bu_held = {(144, 0)}\<rparr> \<and> system_alloc [z] 1 = Inr (Inr 80, zs) \<and>
     held_block 4 (80, 1) \<inter> held_bytes 4 {(144, 0)} = {}"
proof -
  define z where "z = example_zone\<lparr>z_bitmaps := [\<lparr>bs_len = 5, bs_bytes = [0]\<rparr>, \<lparr>bs_len = 2, bs_bytes = [3]\<rparr>], z_free := [[], [80, 112]]\<rparr>"
  let ?s0 = "\<lparr>bu_zones = [], bu_held = {}\<rparr>" and ?s1 = "\<lparr>bu_zones = [example_zone], bu_held = {}\<rparr>"
    and ?s2 = "\<lparr>bu_zones = [z], bu_held = {(144, 0)}\<rparr>"
  have "buddy_step 4 2 ?s0 (Inr ?s1)"
    using buddy_add [of 8 3 4 2 64 100 _ ?s0, OF _ example_layout] example_from_slice by (simp add: add_zone_from_slice_def)
  with buddy_init have r1: "buddy_reachable 4 2 ?s1" by (rule buddy_stepped)
  have "system_alloc [example_zone] 0 = Inr (Inr 144, [z])" unfolding z_def by code_simp
  then have "do_alloc 0 ?s1 = Inr ?s2" by (simp add: do_alloc_def)
  with buddy_take [of 0 2 4 ?s1] have "buddy_step 4 2 ?s1 (Inr ?s2)" by simp
  with r1 have r2: "buddy_reachable 4 2 ?s2" by (rule buddy_stepped)
  have al: "\<exists>zs. system_alloc [z] 1 = Inr (Inr 80, zs)" unfolding z_def
    by (simp add: zone_alloc_def zone_alloc_from.simps alloc_block_def block_idx_def bs_clear_def example_zone_def)
  with buddy_exact [OF r2, of 1] have "held_block 4 (80, 1) \<inter> held_bytes 4 {(144, 0)} = {}" by auto
  with r2 al show ?thesis by blast
qed

text \<open>C33: The layout of a zone fits into its region. Header, bitmaps and blocks follow each
  other without overlap although the bitmaps are sized by two different estimates, at most
  one block is wasted at the end, and the initialisation never panics once the region has
  room for the header: it yields a zone whose free lists and bitmaps agree and cover every
  block.\<close>

theorem from_slice_fits:
  assumes "zone_layout hdr_size (2 ^ al) (2 ^ m) n start len = Inr ly" "0 < n" "0 < hdr_size"
  shows "\<exists>z. from_slice hdr_size (2 ^ al) (2 ^ m) n start len = Inr z \<and> zone_ok z \<and>
    zone_free_bytes z = {ly_salloc ly ..< ly_salloc ly + ly_nunits ly * 2 ^ m} \<and>
    start + hdr_size \<le> ly_bitmaps_start ly \<and>
    (\<forall>k < n. ly_bitmaps_start ly \<le> start + ly_bitmap_offset ly ! k \<and>
       start + ly_bitmap_offset ly ! k + bitmap_bytes (ly_nunits ly) k \<le> ly_salloc ly \<and>
       length (bs_bytes (z_bitmaps z ! k)) = bitmap_bytes (ly_nunits ly) k \<and>
       (\<forall>j < k. ly_bitmap_offset ly ! j + bitmap_bytes (ly_nunits ly) j \<le> ly_bitmap_offset ly ! k)) \<and>
    ly_salloc ly + ly_nunits ly * 2 ^ m \<le> start + len \<and> start + len < ly_salloc ly + (ly_nunits ly + 1) * 2 ^ m"
proof -
  note L = zone_layout_spec [OF assms(1)]
  have "ly_bitmaps_start ly \<le> ly_salloc ly" using L(5,6) [of 0] assms(2) by simp
  then have "0 < ly_salloc ly" using L(1) assms(3) by simp
  from from_slice_spec [OF assms(1,2) this L(2)] obtain z P where z: "from_slice hdr_size (2 ^ al) (2 ^ m) n start len = Inr z"
    "zone_inv z P" "free_units P = {..< z_nunits z}" "z_min z = 2 ^ m" "z_norder z = n" "z_salloc z = ly_salloc ly"
    "z_nunits z = ly_nunits ly" by blast
  have free: "zone_free_bytes z = {ly_salloc ly ..< ly_salloc ly + ly_nunits ly * 2 ^ m}"
    unfolding zone_free_bytes [OF z(2)] z(3) using bytes_of_extent [of z] z(4,6,7) by (simp add: zone_extent_def)
  have "map (length \<circ> bs_bytes) (z_bitmaps z) = map (length \<circ> bs_bytes) (map (zero_bitmap (ly_nunits ly)) [0 ..< n])"
    using z(1) assms(1) init_orders_bytes by (fastforce simp: from_slice_def zone_zeroed_def)
  then have "map (length \<circ> bs_bytes) (z_bitmaps z) ! k = bitmap_bytes (ly_nunits ly) k" if "k < n" for k
    using that by (simp add: zero_bitmap_def bitmap_bytes_eq)
  moreover have "length (z_bitmaps z) = n" using zone_relD(5) [of z P] z(2,5) by (simp add: zone_inv_def)
  ultimately have len: "length (bs_bytes (z_bitmaps z ! k)) = bitmap_bytes (ly_nunits ly) k" if "k < n" for k using that by simp
  have "zone_ok z" using z(2) by (auto simp: zone_ok_def)
  with z(1) free len L(1,3-7) show ?thesis by (intro exI [of _ z]) blast
qed

theorem from_slice_fits_witness:
  "zone_ok example_zone \<and> zone_free_bytes example_zone = {80 ..< 160}"
  using from_slice_fits [OF example_layout] example_from_slice by auto


end
