(* ===== verification/Mem_Zone.thy ===== *)
theory Mem_Zone
  imports Range_Allocator
begin

text \<open>
  The table of physical memory zones that the kernel fills while it boots
  (\<open>src/mm/zone.rs\<close>, and \<open>commit_to_pmm\<close> of \<open>src/device/discovery/open_firmware.rs\<close>). A page
  range (\<open>PhysPageRange\<close> of \<open>src/mm/addr.rs\<close>) is a pair of the first page number and the
  number of pages. The set of available regions and the map of reserved ones that the
  scanner of the device tree has collected come from a library of range maps and are
  arguments. The overlap check of \<open>add_mem_zone\<close> is compiled in with the debug assertions
  only: the parameter \<open>debug\<close>.
\<close>

subsection \<open>Page ranges\<close>

type_synonym page_range = "nat \<times> nat"

definition range_end :: "page_range \<Rightarrow> fault + nat" where
  "range_end r = padd (fst r) (snd r)"

definition range_contains :: "page_range \<Rightarrow> nat \<Rightarrow> fault + bool" where
  "range_contains r pn = (if fst r \<le> pn then map_sum id (\<lambda>fin. pn < fin) (range_end r) else Inr False)"

definition range_intersects :: "page_range \<Rightarrow> page_range \<Rightarrow> fault + bool" where
  "range_intersects r q =
     (case range_end q of
        Inl f \<Rightarrow> Inl f
      | Inr q_end \<Rightarrow> if fst r < q_end then map_sum id (\<lambda>r_end. fst q < r_end) (range_end r) else Inr False)"

subsection \<open>Zones\<close>

record avail_mem_zone =
  az_start :: nat
  az_npages :: nat

datatype rsv_mem_flag = NOMAP | REUSABLE | KVIRT | EARLY_ALLOC | FDT | LEAKED

definition is_mappable :: "rsv_mem_flag set \<Rightarrow> bool" where
  "is_mappable flags \<longleftrightarrow> NOMAP \<notin> flags"

record rsv_mem_zone =
  rz_start :: nat
  rz_npages :: nat
  rz_flags :: "rsv_mem_flag set"

datatype mem_zone = Avail avail_mem_zone | Rsv rsv_mem_zone

definition az_range :: "avail_mem_zone \<Rightarrow> page_range" where
  "az_range z = (az_start z, az_npages z)"

definition rz_range :: "rsv_mem_zone \<Rightarrow> page_range" where
  "rz_range z = (rz_start z, rz_npages z)"

fun mem_zone_range :: "mem_zone \<Rightarrow> page_range" where
  "mem_zone_range (Avail z) = az_range z"
| "mem_zone_range (Rsv z) = rz_range z"

subsection \<open>The table\<close>

record sys_mem_zones =
  mem_zones :: "mem_zone list"
  avail_mem_zones :: "avail_mem_zone list"
  rsv_mem_zones :: "rsv_mem_zone list"

definition sys_mem_zones_new :: sys_mem_zones where
  "sys_mem_zones_new = \<lparr>mem_zones = [], avail_mem_zones = [], rsv_mem_zones = []\<rparr>"

fun check_overlaps :: "mem_zone \<Rightarrow> mem_zone list \<Rightarrow> fault + unit" where
  "check_overlaps z [] = Inr ()"
| "check_overlaps z (e # es) =
     (case range_intersects (mem_zone_range z) (mem_zone_range e) of
        Inl f \<Rightarrow> Inl f
      | Inr b \<Rightarrow> if b then Inl Assert_Panic else check_overlaps z es)"

definition add_mem_zone :: "bool \<Rightarrow> mem_zone \<Rightarrow> sys_mem_zones \<Rightarrow> fault + sys_mem_zones" where
  "add_mem_zone debug z s =
     map_sum id
       (\<lambda>_. let s' = s\<lparr>mem_zones := mem_zones s @ [z]\<rparr> in
         case z of
           Avail a \<Rightarrow> s'\<lparr>avail_mem_zones := avail_mem_zones s @ [a]\<rparr>
         | Rsv r \<Rightarrow> s'\<lparr>rsv_mem_zones := rsv_mem_zones s @ [r]\<rparr>)
       (if debug then check_overlaps z (mem_zones s) else Inr ())"

text \<open>The three parts of \<open>leak\<close>: the search of the available zones, the same change to the
  list of all zones, and the new reserved zone. Finding no zone is an \<open>unwrap\<close> of nothing.\<close>

definition cut_zone :: "nat \<Rightarrow> avail_mem_zone \<Rightarrow> fault + avail_mem_zone" where
  "cut_zone n z =
     (case padd (az_start z) n of
        Inl f \<Rightarrow> Inl f
      | Inr start \<Rightarrow> if az_npages z < n then Inl Overflow_Panic else Inr \<lparr>az_start = start, az_npages = az_npages z - n\<rparr>)"

fun leak_avail :: "nat \<Rightarrow> avail_mem_zone list \<Rightarrow> fault + nat option \<times> avail_mem_zone list" where
  "leak_avail n [] = Inr (None, [])"
| "leak_avail n (z # zs) =
     (if az_npages z \<ge> n then map_sum id (\<lambda>z'. (Some (az_start z), z' # zs)) (cut_zone n z)
      else map_sum id (\<lambda>(p, zs'). (p, z # zs')) (leak_avail n zs))"

fun leak_sync :: "nat \<Rightarrow> nat \<Rightarrow> mem_zone list \<Rightarrow> fault + mem_zone list" where
  "leak_sync sppn n [] = Inr []"
| "leak_sync sppn n (Avail z # zs) =
     (if az_start z = sppn then map_sum id (\<lambda>z'. Avail z' # zs) (cut_zone n z)
      else map_sum id (Cons (Avail z)) (leak_sync sppn n zs))"
| "leak_sync sppn n (Rsv z # zs) = map_sum id (Cons (Rsv z)) (leak_sync sppn n zs)"

definition leak :: "nat \<Rightarrow> sys_mem_zones \<Rightarrow> fault + nat option \<times> sys_mem_zones" where
  "leak n s =
     (case leak_avail n (avail_mem_zones s) of
        Inl f \<Rightarrow> Inl f
      | Inr (None, _) \<Rightarrow> Inl Assert_Panic
      | Inr (Some sppn, avail) \<Rightarrow>
          let leaked = \<lparr>rz_start = sppn, rz_npages = n, rz_flags = {LEAKED}\<rparr> in
          map_sum id
            (\<lambda>zones. (Some sppn, \<lparr>mem_zones = zones @ [Rsv leaked], avail_mem_zones = avail, rsv_mem_zones = rsv_mem_zones s @ [leaked]\<rparr>))
            (leak_sync sppn n (mem_zones s)))"

text \<open>The regions found by the scanner of the device tree, as \<open>(start, end)\<close>.\<close>

fun commit_avail :: "bool \<Rightarrow> (nat \<times> nat) list \<Rightarrow> sys_mem_zones \<Rightarrow> fault + sys_mem_zones" where
  "commit_avail debug [] s = Inr s"
| "commit_avail debug ((sppn, eppn) # rs) s =
     (if eppn < sppn then Inl Overflow_Panic
      else case add_mem_zone debug (Avail \<lparr>az_start = sppn, az_npages = eppn - sppn\<rparr>) s of
          Inl f \<Rightarrow> Inl f
        | Inr s' \<Rightarrow> commit_avail debug rs s')"

fun commit_rsv :: "bool \<Rightarrow> ((nat \<times> nat) \<times> rsv_mem_flag set) list \<Rightarrow> sys_mem_zones \<Rightarrow> fault + sys_mem_zones" where
  "commit_rsv debug [] s = Inr s"
| "commit_rsv debug (((sppn, eppn), flags) # rs) s =
     (if eppn < sppn then Inl Overflow_Panic
      else case add_mem_zone debug (Rsv \<lparr>rz_start = sppn, rz_npages = eppn - sppn, rz_flags = flags\<rparr>) s of
          Inl f \<Rightarrow> Inl f
        | Inr s' \<Rightarrow> commit_rsv debug rs s')"

definition commit_to_pmm ::
  "bool \<Rightarrow> (nat \<times> nat) list \<Rightarrow> ((nat \<times> nat) \<times> rsv_mem_flag set) list \<Rightarrow> sys_mem_zones \<Rightarrow> fault + sys_mem_zones" where
  "commit_to_pmm debug avail rsv s =
     (case commit_avail debug avail s of Inl f \<Rightarrow> Inl f | Inr s' \<Rightarrow> commit_rsv debug rsv s')"

subsection \<open>The invariant\<close>

text \<open>The two lists of one kind follow the list of all zones, and no page is in two zones.\<close>

definition range_pages :: "page_range \<Rightarrow> nat set" where
  "range_pages r = {fst r ..< fst r + snd r}"

definition ranges_apart :: "page_range list \<Rightarrow> bool" where
  "ranges_apart rs \<longleftrightarrow> sorted_wrt (\<lambda>r q. range_pages r \<inter> range_pages q = {}) rs"

definition avails :: "mem_zone list \<Rightarrow> avail_mem_zone list" where
  "avails zs = concat (map (\<lambda>z. case z of Avail a \<Rightarrow> [a] | Rsv _ \<Rightarrow> []) zs)"

definition rsvs :: "mem_zone list \<Rightarrow> rsv_mem_zone list" where
  "rsvs zs = concat (map (\<lambda>z. case z of Avail _ \<Rightarrow> [] | Rsv r \<Rightarrow> [r]) zs)"

definition zones_ok :: "sys_mem_zones \<Rightarrow> bool" where
  "zones_ok s \<longleftrightarrow> avail_mem_zones s = avails (mem_zones s) \<and> rsv_mem_zones s = rsvs (mem_zones s) \<and>
     ranges_apart (map mem_zone_range (mem_zones s))"

definition avail_pages :: "sys_mem_zones \<Rightarrow> nat set" where
  "avail_pages s = (\<Union>z \<in> set (avail_mem_zones s). range_pages (az_range z))"

lemma kinds_simps [simp]:
  "avails [] = []" "avails (Avail a # zs) = a # avails zs" "avails (Rsv r # zs) = avails zs" "avails (xs @ ys) = avails xs @ avails ys"
  "rsvs [] = []" "rsvs (Avail a # zs) = rsvs zs" "rsvs (Rsv r # zs) = r # rsvs zs" "rsvs (xs @ ys) = rsvs xs @ rsvs ys"
  by (simp_all add: avails_def rsvs_def)

lemma set_avails: "a \<in> set (avails zs) \<longleftrightarrow> Avail a \<in> set zs"
  by (induction zs rule: list.induct) (auto simp: avails_def split: mem_zone.splits)

lemma ranges_apart_simps [simp]:
  "ranges_apart []" "ranges_apart (r # rs) \<longleftrightarrow> (\<forall>q \<in> set rs. range_pages r \<inter> range_pages q = {}) \<and> ranges_apart rs"
  "ranges_apart (xs @ ys) \<longleftrightarrow> ranges_apart xs \<and> ranges_apart ys \<and> (\<forall>r \<in> set xs. \<forall>q \<in> set ys. range_pages r \<inter> range_pages q = {})"
  by (auto simp: ranges_apart_def sorted_wrt_append)

lemma ranges_apart_avails: "ranges_apart (map mem_zone_range zs) \<Longrightarrow> ranges_apart (map az_range (avails zs))"
proof (induction zs)
  case (Cons z zs)
  then show ?case by (cases z) (force simp: set_avails)+
qed simp

lemma range_intersects_False: "range_intersects r q = Inr False \<Longrightarrow> range_pages r \<inter> range_pages q = {}"
  by (auto simp: range_intersects_def range_end_def padd_def range_pages_def split: if_splits)

lemma check_overlaps_ok:
  "check_overlaps z es = Inr () \<Longrightarrow> e \<in> set es \<Longrightarrow> range_pages (mem_zone_range z) \<inter> range_pages (mem_zone_range e) = {}"
  by (induction es) (auto split: sum.splits if_splits dest: range_intersects_False)

lemma add_mem_zone_ok:
  assumes "add_mem_zone debug z s = Inr s'" "zones_ok s"
    "\<not> debug \<Longrightarrow> \<forall>e \<in> set (mem_zones s). range_pages (mem_zone_range z) \<inter> range_pages (mem_zone_range e) = {}"
  shows "zones_ok s' \<and> mem_zones s' = mem_zones s @ [z]"
proof -
  have "range_pages (mem_zone_range e) \<inter> range_pages (mem_zone_range z) = {}" if "e \<in> set (mem_zones s)" for e
    using check_overlaps_ok [of z "mem_zones s" e] assms(1,3) that
    by (cases debug; cases "check_overlaps z (mem_zones s)") (auto simp: add_mem_zone_def)
  then show ?thesis using assms(1,2)
    by (cases z; cases debug; cases "check_overlaps z (mem_zones s)") (auto simp: add_mem_zone_def zones_ok_def)
qed

subsection \<open>Filling the table\<close>

text \<open>The zones that \<open>commit_to_pmm\<close> adds, and its requirement when the overlap check is
  not compiled in.\<close>

definition avail_zone :: "nat \<times> nat \<Rightarrow> avail_mem_zone" where
  "avail_zone r = \<lparr>az_start = fst r, az_npages = snd r - fst r\<rparr>"

definition rsv_zone :: "(nat \<times> nat) \<times> rsv_mem_flag set \<Rightarrow> rsv_mem_zone" where
  "rsv_zone r = \<lparr>rz_start = fst (fst r), rz_npages = snd (fst r) - fst (fst r), rz_flags = snd r\<rparr>"

lemma commit_avail_ok:
  assumes "commit_avail debug rs s = Inr s'" "zones_ok s"
    "\<not> debug \<Longrightarrow> ranges_apart (map mem_zone_range (mem_zones s @ map (Avail \<circ> avail_zone) rs))"
  shows "zones_ok s' \<and> mem_zones s' = mem_zones s @ map (Avail \<circ> avail_zone) rs"
  using assms
proof (induction debug rs s rule: commit_avail.induct)
  case (2 debug sppn eppn rs s)
  let ?z = "Avail \<lparr>az_start = sppn, az_npages = eppn - sppn\<rparr>"
  have z: "Avail (avail_zone (sppn, eppn)) = ?z" by (simp add: avail_zone_def)
  from 2(2) obtain s1 where s1: "\<not> eppn < sppn" "add_mem_zone debug ?z s = Inr s1" "commit_avail debug rs s1 = Inr s'"
    by (auto split: if_splits sum.splits)
  from add_mem_zone_ok [OF s1(2) 2(3)] 2(4) have ok: "zones_ok s1" "mem_zones s1 = mem_zones s @ [?z]"
    by (auto simp: z Int_commute)
  with 2(1) [OF s1(1,2) s1(3)] 2(4) show ?case by (auto simp: z)
qed simp

lemma commit_rsv_ok:
  assumes "commit_rsv debug rs s = Inr s'" "zones_ok s"
    "\<not> debug \<Longrightarrow> ranges_apart (map mem_zone_range (mem_zones s @ map (Rsv \<circ> rsv_zone) rs))"
  shows "zones_ok s' \<and> mem_zones s' = mem_zones s @ map (Rsv \<circ> rsv_zone) rs"
  using assms
proof (induction debug rs s rule: commit_rsv.induct)
  case (2 debug sppn eppn flags rs s)
  let ?z = "Rsv \<lparr>rz_start = sppn, rz_npages = eppn - sppn, rz_flags = flags\<rparr>"
  have z: "Rsv (rsv_zone ((sppn, eppn), flags)) = ?z" by (simp add: rsv_zone_def)
  from 2(2) obtain s1 where s1: "\<not> eppn < sppn" "add_mem_zone debug ?z s = Inr s1" "commit_rsv debug rs s1 = Inr s'"
    by (auto split: if_splits sum.splits)
  from add_mem_zone_ok [OF s1(2) 2(3)] 2(4) have ok: "zones_ok s1" "mem_zones s1 = mem_zones s @ [?z]"
    by (auto simp: z Int_commute)
  with 2(1) [OF s1(1,2) s1(3)] 2(4) show ?case by (auto simp: z)
qed simp

lemma avails_maps [simp]: "avails (map (Avail \<circ> f) xs) = map f xs" "avails (map (Rsv \<circ> g) ys) = []"
  by (induction xs; simp) (induction ys; simp)

definition regions_apart :: "(nat \<times> nat) list \<Rightarrow> ((nat \<times> nat) \<times> rsv_mem_flag set) list \<Rightarrow> bool" where
  "regions_apart avail rsv \<longleftrightarrow> ranges_apart (map (az_range \<circ> avail_zone) avail @ map (rz_range \<circ> rsv_zone) rsv)"

lemma commit_to_pmm_ok:
  assumes "commit_to_pmm debug avail rsv sys_mem_zones_new = Inr s" "debug \<or> regions_apart avail rsv"
  shows "zones_ok s \<and> avail_mem_zones s = map avail_zone avail"
proof -
  from assms(1) obtain s1 where s1: "commit_avail debug avail sys_mem_zones_new = Inr s1" "commit_rsv debug rsv s1 = Inr s"
    by (auto simp: commit_to_pmm_def split: sum.splits)
  have new: "zones_ok sys_mem_zones_new" "mem_zones sys_mem_zones_new = []" by (simp_all add: zones_ok_def sys_mem_zones_new_def)
  have maps: "mem_zone_range \<circ> (Avail \<circ> avail_zone) = az_range \<circ> avail_zone" "mem_zone_range \<circ> (Rsv \<circ> rsv_zone) = rz_range \<circ> rsv_zone"
    by (simp_all add: fun_eq_iff)
  from commit_avail_ok [OF s1(1) new(1)] assms(2) have ok: "zones_ok s1" "mem_zones s1 = map (Avail \<circ> avail_zone) avail"
    by (auto simp: new(2) maps regions_apart_def)
  from commit_rsv_ok [OF s1(2) ok(1)] assms(2) have "zones_ok s" "mem_zones s = map (Avail \<circ> avail_zone) avail @ map (Rsv \<circ> rsv_zone) rsv"
    by (auto simp: ok(2) maps regions_apart_def)
  then show ?thesis by (simp add: zones_ok_def)
qed

subsection \<open>Leaking pages\<close>

lemma cut_zone_ok:
  "n \<le> az_npages z \<Longrightarrow> cut_zone n z = Inr z' \<Longrightarrow> z' = \<lparr>az_start = az_start z + n, az_npages = az_npages z - n\<rparr>"
  by (auto simp: cut_zone_def padd_def split: if_splits)

lemma leak_zones:
  assumes "leak_avail n (avails zs) = Inr (Some p, av)" "ranges_apart (map mem_zone_range zs)"
    "\<forall>a \<in> set (avails zs). 0 < az_npages a"
  shows "\<exists>xs z z' ys. zs = xs @ Avail z # ys \<and> az_start z = p \<and> n \<le> az_npages z \<and> cut_zone n z = Inr z' \<and>
    av = avails (xs @ Avail z' # ys) \<and> leak_sync p n zs = Inr (xs @ Avail z' # ys)"
  using assms
proof (induction zs arbitrary: av)
  case (Cons y zs)
  show ?case
  proof (cases y)
    case (Rsv r)
    with Cons obtain xs z z' ys where "zs = xs @ Avail z # ys" "az_start z = p" "n \<le> az_npages z" "cut_zone n z = Inr z'"
      "av = avails (xs @ Avail z' # ys)" "leak_sync p n zs = Inr (xs @ Avail z' # ys)" by auto
    with Rsv show ?thesis by (intro exI [of _ "y # xs"] exI [of _ z] exI [of _ z'] exI [of _ ys]) simp
  next
    case (Avail a)
    show ?thesis
    proof (cases "n \<le> az_npages a")
      case True
      with Avail Cons.prems show ?thesis
        by (intro exI [of _ "[]"] exI [of _ a] exI [of _ "projr (cut_zone n a)"] exI [of _ zs]) (cases "cut_zone n a"; simp)
    next
      case False
      with Avail Cons.prems obtain av' where "leak_avail n (avails zs) = Inr (Some p, av')" "av = a # av'"
        by (cases "leak_avail n (avails zs)") auto
      with Cons.IH [OF this(1)] Cons.prems Avail obtain xs z z' ys where
        z: "zs = xs @ Avail z # ys" "az_start z = p" "n \<le> az_npages z" "cut_zone n z = Inr z'"
          "av = a # avails (xs @ Avail z' # ys)" "leak_sync p n zs = Inr (xs @ Avail z' # ys)" by auto
      have "range_pages (az_range a) \<inter> range_pages (az_range z) = {}" "0 < az_npages z" "0 < az_npages a"
        using Cons.prems(2,3) z(1) Avail by auto
      then have "az_start a \<noteq> p" using z(2) by (auto simp: range_pages_def az_range_def)
      with z Avail show ?thesis by (intro exI [of _ "y # xs"] exI [of _ z] exI [of _ z'] exI [of _ ys]) simp
    qed
  qed
qed simp

lemma leak_ok:
  assumes "leak n s = Inr (res, s')" "zones_ok s" "\<forall>a \<in> set (avail_mem_zones s). 0 < az_npages a"
  shows "\<exists>p. res = Some p \<and> zones_ok s' \<and> {p ..< p + n} \<subseteq> avail_pages s \<and> avail_pages s' = avail_pages s - {p ..< p + n} \<and>
    (\<exists>a \<in> set (avail_mem_zones s). az_start a = p)"
proof -
  from assms(1,2) obtain p av where l: "leak_avail n (avails (mem_zones s)) = Inr (Some p, av)"
    by (auto simp: leak_def zones_ok_def split: sum.splits option.splits)
  from leak_zones [OF l] assms(2,3) obtain xs z z' ys where
    z: "mem_zones s = xs @ Avail z # ys" "az_start z = p" "n \<le> az_npages z" "cut_zone n z = Inr z'"
      "av = avails (xs @ Avail z' # ys)" "leak_sync p n (mem_zones s) = Inr (xs @ Avail z' # ys)"
    by (auto simp: zones_ok_def)
  let ?l = "\<lparr>rz_start = p, rz_npages = n, rz_flags = {LEAKED}\<rparr>"
  have s': "res = Some p" "s' = \<lparr>mem_zones = xs @ Avail z' # ys @ [Rsv ?l], avail_mem_zones = avails (xs @ Avail z' # ys), rsv_mem_zones = rsvs (xs @ ys) @ [?l]\<rparr>"
    using assms(1,2) l z by (simp_all add: leak_def zones_ok_def Let_def)
  have parts: "range_pages (az_range z') = range_pages (az_range z) - {p ..< p + n}" "{p ..< p + n} \<subseteq> range_pages (az_range z)"
    "range_pages (rz_range ?l) = {p ..< p + n}"
    using cut_zone_ok [OF z(3,4)] z(2,3) by (auto simp: range_pages_def az_range_def rz_range_def)
  have apart: "ranges_apart (map mem_zone_range (xs @ Avail z # ys))" using assms(2) z(1) by (simp add: zones_ok_def)
  then have "ranges_apart (map mem_zone_range (xs @ Avail z' # ys @ [Rsv ?l]))" using parts by simp blast
  then have "zones_ok s'" by (simp add: s' zones_ok_def)
  moreover have others: "range_pages (az_range a) \<inter> {p ..< p + n} = {}" if "a \<in> set (avails xs) \<or> a \<in> set (avails ys)" for a
  proof -
    from that apart have "range_pages (az_range a) \<inter> range_pages (az_range z) = {}"
      by (force simp: set_avails)
    then show ?thesis using parts(2) by blast
  qed
  have av: "avail_mem_zones s = avails xs @ z # avails ys" using assms(2) z(1) by (simp add: zones_ok_def)
  have "avail_pages s' = avail_pages s - {p ..< p + n}"
    using others parts(1) by (simp add: avail_pages_def av s') blast
  ultimately show ?thesis using s'(1) parts(2) z(2) by (auto simp: avail_pages_def av)
qed

text \<open>\<open>leak\<close> recognises a zone in the list of all zones by its first page alone. A zone that
  was used up starts where the zone behind it starts: the next request that is served
  from that zone meets the empty one first, whose page count underflows.\<close>

lemma leak_used_up:
  "\<exists>s s'. commit_to_pmm True [(4, 8), (8, 12)] [] sys_mem_zones_new = Inr s \<and> leak 4 s = Inr (Some 4, s') \<and>
     leak_avail 2 (avail_mem_zones s') = Inr (Some 8, [\<lparr>az_start = 8, az_npages = 0\<rparr>, \<lparr>az_start = 10, az_npages = 2\<rparr>]) \<and>
     leak 2 s' = Inl Overflow_Panic"
  by (simp add: commit_to_pmm_def add_mem_zone_def sys_mem_zones_new_def Let_def range_intersects_def range_end_def padd_def
      az_range_def leak_def cut_zone_def)

end
