(* ===== verification/Frame_Buddy.thy ===== *)
theory Frame_Buddy
  imports Frame_Alloc Buddy_System Mem_Zone
begin

text \<open>
  The buddy system as the backend of the frame allocator (\<open>src/mm/frame/buddy.rs\<close>, and
  \<open>pmm_init\<close> of \<open>src/mm/frame/mod.rs\<close>). The blocks of the buddy system are addresses in the
  direct mapping of physical memory; the backend translates between these and page numbers.
  The start of the direct mapping and the page size belong to the architecture and are
  parameters. The contract of the backend is proved for the buddy system, and the safety of
  the whole allocator follows.
\<close>

subsection \<open>The backend\<close>

function trailing_zeros :: "nat \<Rightarrow> nat" where
  "trailing_zeros n = (if n = 0 then 64 else if odd n then 0 else Suc (trailing_zeros (n div 2)))"
  by pat_completeness auto
termination
  by (relation "measure id") auto

declare trailing_zeros.simps [simp del]

definition NORDER :: nat where
  "NORDER = 11"

definition to_hhdm :: "nat \<Rightarrow> nat \<Rightarrow> nat \<Rightarrow> nat" where
  "to_hhdm dm bits ppn = (ppn * 2 ^ bits + dm) div 2 ^ bits"

definition hhdm_to_phys :: "nat \<Rightarrow> nat \<Rightarrow> fault + nat" where
  "hhdm_to_phys dm vaddr = (if vaddr < dm then Inl Overflow_Panic else Inr (vaddr - dm))"

definition buddy_add_range :: "nat \<Rightarrow> nat \<Rightarrow> nat \<Rightarrow> nat \<Rightarrow> nat \<times> nat \<Rightarrow> zone list \<Rightarrow> fault + zone list" where
  "buddy_add_range dm bits hdr_size hdr_align r zs =
     add_zone_from_slice hdr_size hdr_align (2 ^ bits) NORDER (to_hhdm dm bits (fst r) * 2 ^ bits) (snd r * 2 ^ bits) zs"

definition buddy_alloc :: "nat \<Rightarrow> nat \<Rightarrow> zone list fa_alloc" where
  "buddy_alloc dm bits npages zs =
     (case checked_next_power_of_two npages of
        None \<Rightarrow> Inr (Inl Admission, zs)
      | Some block_pages \<Rightarrow>
          let order = trailing_zeros block_pages in
          if order \<ge> NORDER then Inr (Inl Admission, zs)
          else case system_alloc zs order of
              Inl f \<Rightarrow> Inl f
            | Inr (Inl BuddyOutOfMemory, zs') \<Rightarrow> Inr (Inl Unavailable, zs')
            | Inr (Inl e, zs') \<Rightarrow> Inl Assert_Panic
            | Inr (Inr ptr, zs') \<Rightarrow> map_sum id (\<lambda>paddr. (Inr (paddr div 2 ^ bits), zs')) (hhdm_to_phys dm ptr))"

definition buddy_dealloc :: "nat \<Rightarrow> nat \<Rightarrow> zone list fa_dealloc" where
  "buddy_dealloc dm bits ppn npages zs =
     (let vaddr = to_hhdm dm bits ppn * 2 ^ bits in
      case checked_next_power_of_two npages of
        None \<Rightarrow> Inl Overflow_Panic
      | Some block_pages \<Rightarrow>
          (case system_dealloc zs vaddr (trailing_zeros block_pages) of
             Inl f \<Rightarrow> Inl f
           | Inr (Inl e, zs') \<Rightarrow> Inl Assert_Panic
           | Inr (Inr _, zs') \<Rightarrow> Inr zs'))"

fun pmm_init :: "nat \<Rightarrow> nat \<Rightarrow> nat \<Rightarrow> nat \<Rightarrow> (nat \<times> nat) list \<Rightarrow> zone list \<Rightarrow> fault + zone list" where
  "pmm_init dm bits hdr_size hdr_align [] zs = Inr zs"
| "pmm_init dm bits hdr_size hdr_align (r # rs) zs =
     (case buddy_add_range dm bits hdr_size hdr_align r zs of
        Inl f \<Rightarrow> Inl f
      | Inr zs' \<Rightarrow> pmm_init dm bits hdr_size hdr_align rs zs')"

subsection \<open>Pages and bytes\<close>

lemma trailing_zeros_power [simp]: "trailing_zeros (2 ^ k) = k"
  by (induction k) (simp_all add: trailing_zeros.simps [of "Suc 0"] trailing_zeros.simps [of "2 ^ Suc _"] trailing_zeros.simps [of "2 * 2 ^ _"])

lemma block_size_power: "\<exists>k. block_size n = 2 ^ k"
  using next_pow2_from_power [of 0 n] by (simp add: block_size_def)

definition backend_pages :: "nat \<Rightarrow> nat \<Rightarrow> zone list \<Rightarrow> nat set" where
  "backend_pages dm bits zs = {p. dm + p * 2 ^ bits \<in> free_bytes zs}"

definition backend_block :: "nat \<Rightarrow> nat \<Rightarrow> zone list \<Rightarrow> nat \<Rightarrow> nat \<Rightarrow> bool" where
  "backend_block dm bits zs p size_pages \<longleftrightarrow> (\<exists>k. size_pages = 2 ^ k \<and> system_block zs (dm + p * 2 ^ bits) k)"

definition backend_inv :: "nat \<Rightarrow> nat \<Rightarrow> zone list \<Rightarrow> bool" where
  "backend_inv dm bits zs \<longleftrightarrow> 2 ^ bits dvd dm \<and> system_ok (2 ^ bits) NORDER zs \<and> (\<forall>z \<in> set zs. dm \<le> z_salloc z)"

lemma to_hhdm_eq: "2 ^ bits dvd dm \<Longrightarrow> to_hhdm dm bits ppn * 2 ^ bits = dm + ppn * 2 ^ bits"
  by (auto simp: to_hhdm_def algebra_simps elim!: dvdE)

lemma block_bytes_pages: "0 < d \<Longrightarrow> block_bytes d (base + p * d) k = bytes_from base d {p ..< p + 2 ^ k}"
proof (intro set_eqI)
  fix a assume d: "0 < d"
  have "a \<in> bytes_from base d {p ..< p + 2 ^ k} \<longleftrightarrow> base \<le> a \<and> p \<le> (a - base) div d \<and> (a - base) div d < p + 2 ^ k"
    by (simp add: bytes_from_def)
  also have "\<dots> \<longleftrightarrow> base \<le> a \<and> p * d \<le> a - base \<and> a - base < (p + 2 ^ k) * d"
    using d by (simp add: less_eq_div_iff_mult_less_eq div_less_iff_less_mult)
  also have "\<dots> \<longleftrightarrow> base + p * d \<le> a \<and> a < base + p * d + d * 2 ^ k"
    unfolding distrib_right mult.commute [of "2 ^ k" d] by linarith
  finally show "a \<in> block_bytes d (base + p * d) k \<longleftrightarrow> a \<in> bytes_from base d {p ..< p + 2 ^ k}"
    by (simp add: block_bytes_def)
qed

lemma bytes_from_shift:
  assumes "0 < d"
  shows "bytes_from (base + q * d) d U = bytes_from base d ((+) q ` U)"
proof (intro set_eqI)
  fix a
  show "a \<in> bytes_from (base + q * d) d U \<longleftrightarrow> a \<in> bytes_from base d ((+) q ` U)"
  proof (cases "base + q * d \<le> a")
    case True
    then have "a - base = (a - (base + q * d)) + q * d" by simp
    then have "(a - base) div d = q + (a - (base + q * d)) div d" using assms by simp
    with True show ?thesis by (auto simp: bytes_from_def)
  next
    case False
    then have "(a - base) div d < q" if "base \<le> a" using that assms by (auto simp: div_less_iff_less_mult)
    with False show ?thesis by (auto simp: bytes_from_def)
  qed
qed

lemma backend_bytes:
  assumes "backend_inv dm bits zs"
  shows "free_bytes zs = bytes_from dm (2 ^ bits) (backend_pages dm bits zs)"
proof -
  have "\<exists>F. zone_free_bytes z = bytes_from dm (2 ^ bits) F" if z: "z \<in> set zs" for z
  proof -
    from assms z obtain P where P: "zone_inv z P" "z_min z = 2 ^ bits" "dm \<le> z_salloc z" "2 ^ bits dvd dm"
      by (auto simp: backend_inv_def system_ok_def zone_ok_def)
    then have "2 ^ bits dvd z_salloc z - dm" using zone_relD(4) [of z P] by (simp add: zone_inv_def mod_0_imp_dvd)
    then obtain q where "z_salloc z - dm = q * 2 ^ bits" by (metis dvd_div_mult_self)
    then have q: "z_salloc z = dm + q * 2 ^ bits" using P(3) by simp
    show ?thesis unfolding zone_free_bytes [OF P(1)] P(2) q using bytes_from_shift [of "2 ^ bits" dm q] by auto
  qed
  then obtain F where "\<And>z. z \<in> set zs \<Longrightarrow> zone_free_bytes z = bytes_from dm (2 ^ bits) (F z)" by metis
  then have "free_bytes zs = bytes_from dm (2 ^ bits) (\<Union>z \<in> set zs. F z)" by (auto simp: free_bytes_def bytes_from_def)
  moreover from this have "backend_pages dm bits zs = (\<Union>z \<in> set zs. F z)" by (simp add: backend_pages_def bytes_from_start) blast
  ultimately show ?thesis by simp
qed

lemma page_block_bytes:
  assumes "block_size n = 2 ^ k"
  shows "block_bytes (2 ^ bits) (dm + p * 2 ^ bits) k = bytes_from dm (2 ^ bits) (page_block p n)"
  by (simp add: block_bytes_pages page_block_def assms)

lemma system_block_page:
  assumes "backend_inv dm bits zs" "system_block zs a k"
  obtains p where "a = dm + p * 2 ^ bits"
proof -
  from assms obtain z i where z: "zone_ok z" "z_min z = 2 ^ bits" "dm \<le> z_salloc z" "2 ^ bits dvd dm" "a = block_ptr z i k"
    by (auto simp: backend_inv_def system_ok_def system_block_def zone_block_def)
  then have "2 ^ bits dvd z_salloc z" by (auto simp: zone_ok_def zone_inv_def mod_0_imp_dvd dest!: zone_relD(4))
  then have "2 ^ bits dvd a - dm" "dm \<le> a" using z by (simp_all add: block_ptr_def)
  then have "a = dm + (a - dm) div 2 ^ bits * 2 ^ bits" by simp
  with that show ?thesis .
qed

subsection \<open>The contract\<close>

lemma backend_subset: "page_block p n \<subseteq> backend_pages dm bits zs \<longleftrightarrow> block_bytes (2 ^ bits) (dm + p * 2 ^ bits) k \<subseteq> free_bytes zs"
  if "backend_inv dm bits zs" "block_size n = 2 ^ k"
  unfolding backend_bytes [OF that(1)] page_block_bytes [OF that(2)] by (simp add: bytes_of_subset)

lemma backend_block_power: "block_size n = 2 ^ k \<Longrightarrow> backend_block dm bits zs p (block_size n) \<longleftrightarrow> system_block zs (dm + p * 2 ^ bits) k"
  by (auto simp: backend_block_def)

lemma backend_keeps:
  assumes "backend_inv dm bits zs" "system_ok (2 ^ bits) NORDER zs'" "system_same zs zs'"
  shows "backend_inv dm bits zs'" "backend_block dm bits zs' = backend_block dm bits zs"
proof -
  have "\<forall>z \<in> set zs'. \<exists>y \<in> set zs. zone_same y z" using assms(3) by (metis in_set_conv_nth list_all2_conv_all_nth)
  then have "\<forall>z \<in> set zs'. dm \<le> z_salloc z" using assms(1) by (fastforce simp: backend_inv_def zone_same_def)
  then show "backend_inv dm bits zs'" using assms(1,2) by (simp add: backend_inv_def)
  show "backend_block dm bits zs' = backend_block dm bits zs"
    by (simp add: fun_eq_iff backend_block_def system_same_block [OF assms(3)])
qed

lemma order_limit: "block_size n = 2 ^ k \<Longrightarrow> k < NORDER \<longleftrightarrow> block_size n \<le> 2 ^ 10"
proof -
  have "(2::nat) ^ k \<le> 2 ^ 10 \<longleftrightarrow> k \<le> 10" by (rule power_increasing_iff) simp
  then show "block_size n = 2 ^ k \<Longrightarrow> k < NORDER \<longleftrightarrow> block_size n \<le> 2 ^ 10" by (auto simp: NORDER_def)
qed

lemma buddy_alloc_law:
  assumes inv: "backend_inv dm bits zs"
  shows "\<exists>r zs'. buddy_alloc dm bits n zs = Inr (r, zs') \<and> backend_inv dm bits zs' \<and> backend_block dm bits zs' = backend_block dm bits zs \<and>
    (case r of
       Inl Admission \<Rightarrow> zs' = zs \<and> 2 ^ 10 < block_size n
     | Inl Unavailable \<Rightarrow> zs' = zs \<and> block_size n \<le> 2 ^ 10 \<and>
         \<not> (\<exists>p. backend_block dm bits zs p (block_size n) \<and> page_block p n \<subseteq> backend_pages dm bits zs)
     | Inr p \<Rightarrow> block_size n \<le> 2 ^ 10 \<and> backend_block dm bits zs p (block_size n) \<and> page_block p n \<subseteq> backend_pages dm bits zs \<and>
         backend_pages dm bits zs' = backend_pages dm bits zs - page_block p n)"
proof -
  obtain k where k: "block_size n = 2 ^ k" using block_size_power by blast
  show ?thesis
  proof (cases "k < NORDER")
    case False
    then have "2 ^ 10 < block_size n" using order_limit [OF k] by simp
    moreover have "buddy_alloc dm bits n zs = Inr (Inl Admission, zs)"
      using False k by (simp add: buddy_alloc_def checked_next_power_of_two_def block_size_def Let_def)
    ultimately show ?thesis using inv by auto
  next
    case True
    have lim: "block_size n \<le> 2 ^ 10" using order_limit [OF k] True by simp
    then have chk: "checked_next_power_of_two n = Some (2 ^ k)"
      using k by (simp add: checked_next_power_of_two_def block_size_def Let_def)
    have ok: "system_ok (2 ^ bits) NORDER zs" using inv by (simp add: backend_inv_def)
    from system_alloc_spec [OF ok True] obtain r zs' where a: "system_alloc zs k = Inr (r, zs')" "system_ok (2 ^ bits) NORDER zs'"
      "system_same zs zs'"
      "case r of
         Inl e \<Rightarrow> e = BuddyOutOfMemory \<and> zs' = zs \<and> \<not> (\<exists>a. system_block zs a k \<and> block_bytes (2 ^ bits) a k \<subseteq> free_bytes zs)
       | Inr a \<Rightarrow> system_block zs a k \<and> block_bytes (2 ^ bits) a k \<subseteq> free_bytes zs \<and>
           free_bytes zs' = free_bytes zs - block_bytes (2 ^ bits) a k" by blast
    note keep = backend_keeps [OF inv a(2,3)]
    show ?thesis
    proof (cases r)
      case (Inl e)
      with a(4) have "e = BuddyOutOfMemory" "zs' = zs" and none: "\<not> (\<exists>a. system_block zs a k \<and> block_bytes (2 ^ bits) a k \<subseteq> free_bytes zs)" by simp_all
      then have "buddy_alloc dm bits n zs = Inr (Inl Unavailable, zs)" using chk True a(1) Inl by (simp add: buddy_alloc_def Let_def)
      with none lim inv show ?thesis by (auto simp: backend_block_power [OF k] backend_subset [OF inv k])
    next
      case (Inr ad)
      with a(4) have b: "system_block zs ad k" "block_bytes (2 ^ bits) ad k \<subseteq> free_bytes zs"
        "free_bytes zs' = free_bytes zs - block_bytes (2 ^ bits) ad k" by simp_all
      obtain p where p: "ad = dm + p * 2 ^ bits" using system_block_page [OF inv b(1)] .
      have al: "buddy_alloc dm bits n zs = Inr (Inr p, zs')" using chk True a(1) Inr p by (simp add: buddy_alloc_def Let_def hhdm_to_phys_def)
      have "backend_pages dm bits zs' = backend_pages dm bits zs - page_block p n"
        using b(3) unfolding backend_pages_def p page_block_bytes [OF k] by (auto simp: bytes_from_start)
      moreover have "page_block p n \<subseteq> backend_pages dm bits zs" using b(2) p backend_subset [OF inv k] by simp
      moreover have "backend_block dm bits zs p (block_size n)" using b(1) p by (simp add: backend_block_power [OF k])
      ultimately show ?thesis using al lim keep by (intro exI [of _ "Inr p"] exI [of _ zs']) simp
    qed
  qed
qed

lemma buddy_dealloc_law:
  assumes inv: "backend_inv dm bits zs" and "backend_block dm bits zs p (block_size n)" "page_block p n \<inter> backend_pages dm bits zs = {}"
  shows "\<exists>zs'. buddy_dealloc dm bits p n zs = Inr zs' \<and> backend_inv dm bits zs' \<and> backend_block dm bits zs' = backend_block dm bits zs \<and>
    backend_pages dm bits zs' = backend_pages dm bits zs \<union> page_block p n"
proof -
  obtain k where k: "block_size n = 2 ^ k" using block_size_power by blast
  have ok: "system_ok (2 ^ bits) NORDER zs" and dm: "2 ^ bits dvd dm" using inv by (simp_all add: backend_inv_def)
  have blk: "system_block zs (dm + p * 2 ^ bits) k" using assms(2) by (simp add: backend_block_power [OF k])
  have "k < NORDER" using blk ok by (auto simp: system_block_def zone_block_def system_ok_def)
  then have "block_size n \<le> 2 ^ 10" using order_limit [OF k] by simp
  then have chk: "checked_next_power_of_two n = Some (2 ^ k)" using k by (simp add: checked_next_power_of_two_def block_size_def Let_def)
  have "block_bytes (2 ^ bits) (dm + p * 2 ^ bits) k \<inter> free_bytes zs = {}"
    unfolding backend_bytes [OF inv] page_block_bytes [OF k] bytes_of_Int assms(3) by simp
  from system_dealloc_spec [OF ok blk this] obtain zs' where d: "system_dealloc zs (dm + p * 2 ^ bits) k = Inr (Inr (), zs')"
    "system_ok (2 ^ bits) NORDER zs'" "system_same zs zs'" "free_bytes zs' = free_bytes zs \<union> block_bytes (2 ^ bits) (dm + p * 2 ^ bits) k" by blast
  have "buddy_dealloc dm bits p n zs = Inr zs'" using chk d(1) by (simp add: buddy_dealloc_def Let_def to_hhdm_eq [OF dm])
  moreover have "backend_pages dm bits zs' = backend_pages dm bits zs \<union> page_block p n"
    unfolding backend_pages_def d(4) page_block_bytes [OF k] by (auto simp: bytes_from_start)
  ultimately show ?thesis using backend_keeps [OF inv d(2,3)] by blast
qed

lemma backend_finite:
  assumes "backend_inv dm bits zs"
  shows "finite (backend_pages dm bits zs)"
proof (rule inj_on_finite)
  show "inj_on (\<lambda>p. dm + p * 2 ^ bits) (backend_pages dm bits zs)" by (auto simp: inj_on_def)
  show "(\<lambda>p. dm + p * 2 ^ bits) ` backend_pages dm bits zs \<subseteq> free_bytes zs" by (auto simp: backend_pages_def)
  have "free_bytes zs \<subseteq> \<Union>(zone_extent ` set zs)" using free_bytes_extents [of "2 ^ bits" NORDER zs] assms by (simp add: backend_inv_def)
  then show "finite (free_bytes zs)" by (rule finite_subset) (simp add: zone_extent_def)
qed

lemma backend_single:
  assumes "backend_inv dm bits zs" "p \<in> backend_pages dm bits zs"
  shows "backend_block dm bits zs p 1"
proof -
  let ?a = "dm + p * 2 ^ bits"
  from assms obtain z where z: "z \<in> set zs" "?a \<in> zone_free_bytes z" "zone_ok z" "z_min z = 2 ^ bits" "z_norder z = NORDER" "2 ^ bits dvd dm"
    by (auto simp: backend_pages_def free_bytes_def backend_inv_def system_ok_def)
  then have e: "z_salloc z \<le> ?a" "?a < z_salloc z + z_nunits z * 2 ^ bits" using zone_free_extent [OF z(3)] by (auto simp: zone_extent_def)
  have "2 ^ bits dvd z_salloc z" using z(3,4) by (auto simp: zone_ok_def zone_inv_def mod_0_imp_dvd dest!: zone_relD(4))
  then have "2 ^ bits dvd ?a - z_salloc z" using z(6) by simp
  then have u: "?a = z_salloc z + (?a - z_salloc z) div 2 ^ bits * 2 ^ bits" using e(1) by simp
  have "?a - z_salloc z < z_nunits z * 2 ^ bits" using e by linarith
  then have "(?a - z_salloc z) div 2 ^ bits < z_nunits z" by (rule less_mult_imp_div_less)
  then have "zone_block z ?a 0" using u z(4,5) unfolding zone_block_def block_ptr_def by (auto simp: NORDER_def)
  with z(1) show ?thesis by (auto simp: backend_block_def system_block_def intro!: exI [of _ 0])
qed

interpretation buddy: frame_backend "buddy_alloc dm bits" "buddy_dealloc dm bits" "backend_inv dm bits" "backend_pages dm bits"
    "backend_block dm bits" "2 ^ 10" for dm bits
proof unfold_locales
  fix s p n
  show "backend_inv dm bits s \<Longrightarrow> finite (backend_pages dm bits s)" by (rule backend_finite)
  show "backend_inv dm bits s \<Longrightarrow> p \<in> backend_pages dm bits s \<Longrightarrow> backend_block dm bits s p 1" by (rule backend_single)
  show "(0 :: nat) < 2 ^ 10" "(2 :: nat) ^ 10 < 2 ^ 64" by simp_all
qed (use buddy_alloc_law buddy_dealloc_law in blast)+

subsection \<open>Boot\<close>

lemma buddy_add_range_inv:
  assumes inv: "backend_inv dm bits zs" and "buddy_add_range dm bits hdr_size (2 ^ al) r zs = Inr zs'" "0 < hdr_size"
    "{dm + fst r * 2 ^ bits ..< dm + (fst r + snd r) * 2 ^ bits} \<inter> \<Union>(zone_extent ` set zs) = {}"
  shows "backend_inv dm bits zs' \<and>
    \<Union>(zone_extent ` set zs') \<subseteq> \<Union>(zone_extent ` set zs) \<union> {dm + fst r * 2 ^ bits ..< dm + (fst r + snd r) * 2 ^ bits}"
proof -
  have dm: "2 ^ bits dvd dm" and ok: "system_ok (2 ^ bits) NORDER zs" using inv by (simp_all add: backend_inv_def)
  let ?start = "dm + fst r * 2 ^ bits" and ?len = "snd r * 2 ^ bits"
  have range: "{?start ..< ?start + ?len} = {?start ..< dm + (fst r + snd r) * 2 ^ bits}" by (simp add: algebra_simps)
  have add: "add_zone_from_slice hdr_size (2 ^ al) (2 ^ bits) NORDER ?start ?len zs = Inr zs'"
    using assms(2) by (simp add: buddy_add_range_def to_hhdm_eq [OF dm])
  then obtain ly where ly: "zone_layout hdr_size (2 ^ al) (2 ^ bits) NORDER ?start ?len = Inr ly"
    by (auto simp: add_zone_from_slice_def from_slice_def map_sum_def split: sum.splits)
  from add_zone_spec [OF ok ly _ assms(3)] assms(4) obtain z where z: "zs' = zs @ [z]" "system_ok (2 ^ bits) NORDER (zs @ [z])"
    "zone_extent z \<subseteq> {?start ..< ?start + ?len}" "zone_free_bytes z = zone_extent z" "?start \<le> z_salloc z"
    unfolding range using add by (auto simp: NORDER_def)
  have "dm \<le> z_salloc z" using z(5) by simp
  then have "backend_inv dm bits zs'" using inv z(1,2) by (auto simp: backend_inv_def)
  with z(1,3) range show ?thesis by auto
qed

lemma hhdm_ranges_apart:
  fixes dm :: nat
  assumes "{fst r ..< fst r + snd r} \<inter> {fst q ..< fst q + snd q} = {}"
  shows "{dm + fst r * 2 ^ bits ..< dm + (fst r + snd r) * 2 ^ bits} \<inter> {dm + fst q * 2 ^ bits ..< dm + (fst q + snd q) * 2 ^ bits} = {}"
proof -
  have page: "{dm + a * 2 ^ bits ..< dm + (a + n) * 2 ^ bits} = bytes_from dm (2 ^ bits) {a ..< a + n}" for a n
  proof (intro set_eqI)
    fix x
    have "dm + a * 2 ^ bits \<le> x \<and> x < dm + (a + n) * 2 ^ bits \<longleftrightarrow> dm \<le> x \<and> a * 2 ^ bits \<le> x - dm \<and> x - dm < (a + n) * 2 ^ bits" by linarith
    then show "x \<in> {dm + a * 2 ^ bits ..< dm + (a + n) * 2 ^ bits} \<longleftrightarrow> x \<in> bytes_from dm (2 ^ bits) {a ..< a + n}"
      by (simp add: bytes_from_def less_eq_div_iff_mult_less_eq div_less_iff_less_mult)
  qed
  show ?thesis unfolding page bytes_of_Int assms by simp
qed

lemma pmm_init_inv:
  assumes "pmm_init dm bits hdr_size (2 ^ al) rs zs = Inr zs'" "backend_inv dm bits zs" "0 < hdr_size" "ranges_apart rs"
    "\<forall>r \<in> set rs. {dm + fst r * 2 ^ bits ..< dm + (fst r + snd r) * 2 ^ bits} \<inter> \<Union>(zone_extent ` set zs) = {}"
  shows "backend_inv dm bits zs' \<and> \<Union>(zone_extent ` set zs') \<subseteq>
    \<Union>(zone_extent ` set zs) \<union> (\<Union>r \<in> set rs. {dm + fst r * 2 ^ bits ..< dm + (fst r + snd r) * 2 ^ bits})"
  using assms
proof (induction rs arbitrary: zs)
  case (Cons r rs)
  then obtain zs1 where add: "buddy_add_range dm bits hdr_size (2 ^ al) r zs = Inr zs1" "pmm_init dm bits hdr_size (2 ^ al) rs zs1 = Inr zs'"
    by (auto split: sum.splits)
  from buddy_add_range_inv [OF Cons.prems(2) add(1) assms(3)] Cons.prems(5) have
    z: "backend_inv dm bits zs1" "\<Union>(zone_extent ` set zs1) \<subseteq> \<Union>(zone_extent ` set zs) \<union> {dm + fst r * 2 ^ bits ..< dm + (fst r + snd r) * 2 ^ bits}" by simp_all
  have "{dm + fst q * 2 ^ bits ..< dm + (fst q + snd q) * 2 ^ bits} \<inter> \<Union>(zone_extent ` set zs1) = {}" if q: "q \<in> set rs" for q
  proof -
    have "{fst r ..< fst r + snd r} \<inter> {fst q ..< fst q + snd q} = {}" using Cons.prems(4) q by (simp add: range_pages_def)
    then have "{dm + fst r * 2 ^ bits ..< dm + (fst r + snd r) * 2 ^ bits} \<inter> {dm + fst q * 2 ^ bits ..< dm + (fst q + snd q) * 2 ^ bits} = {}"
      by (rule hhdm_ranges_apart)
    moreover have "{dm + fst q * 2 ^ bits ..< dm + (fst q + snd q) * 2 ^ bits} \<inter> \<Union>(zone_extent ` set zs) = {}" using Cons.prems(5) q by simp
    ultimately show ?thesis using z(2) by blast
  qed
  with Cons.IH [OF add(2) z(1) assms(3)] Cons.prems(4) z(2) show ?case by fastforce
qed simp

lemma backend_inv_empty: "2 ^ bits dvd dm \<Longrightarrow> backend_inv dm bits []"
  by (simp add: backend_inv_def system_ok_def)

lemma pmm_init_pages:
  assumes "pmm_init dm bits hdr_size (2 ^ al) rs [] = Inr zs" "2 ^ bits dvd dm" "0 < hdr_size" "ranges_apart rs"
  shows "backend_pages dm bits zs \<subseteq> (\<Union>r \<in> set rs. range_pages r)"
proof
  fix p
  assume "p \<in> backend_pages dm bits zs"
  moreover from pmm_init_inv [OF assms(1) backend_inv_empty [OF assms(2)] assms(3,4)] have
    "system_ok (2 ^ bits) NORDER zs" "\<Union>(zone_extent ` set zs) \<subseteq> (\<Union>r \<in> set rs. {dm + fst r * 2 ^ bits ..< dm + (fst r + snd r) * 2 ^ bits})"
    by (simp_all add: backend_inv_def)
  ultimately have "dm + p * 2 ^ bits \<in> (\<Union>r \<in> set rs. {dm + fst r * 2 ^ bits ..< dm + (fst r + snd r) * 2 ^ bits})"
    using free_bytes_extents [of "2 ^ bits" NORDER zs] unfolding backend_pages_def by blast
  then obtain r where r: "r \<in> set rs" "fst r * 2 ^ bits \<le> p * 2 ^ bits" "p * 2 ^ bits < (fst r + snd r) * 2 ^ bits" by auto
  then have "fst r \<le> p" "p < fst r + snd r" by simp_all
  with r(1) show "p \<in> (\<Union>r \<in> set rs. range_pages r)" by (auto simp: range_pages_def)
qed

definition frame_boot :: "zone list \<Rightarrow> accounting \<Rightarrow> nat \<Rightarrow> nat \<Rightarrow> zone list frame_sys" where
  "frame_boot zs acc nmags cap =
     \<lparr>fy_locked = \<lparr>lf_backend = zs, lf_magazines = replicate nmags (slots_new cap), lf_accounting = acc, lf_rc = (\<lambda>p. 0)\<rparr>,
      fy_ops = {#}, fy_handles = {#}\<rparr>"

lemma frame_boot_inv:
  assumes "pmm_init dm bits hdr_size (2 ^ al) rs [] = Inr zs" "2 ^ bits dvd dm" "0 < hdr_size" "ranges_apart rs" "ncpus \<le> nmags"
    "add_free_range (card (backend_pages dm bits zs)) accounting_new = Inr acc"
  shows "buddy.frame_inv dm bits cap batch ncpus (backend_pages dm bits zs) (frame_boot zs acc nmags cap)"
proof -
  have "backend_inv dm bits zs" using pmm_init_inv [OF assms(1) backend_inv_empty [OF assms(2)] assms(3,4)] by simp
  moreover have "card (backend_pages dm bits zs) < 2 ^ 64"
    using assms(6) by (simp add: add_free_range_def accounting_new_def checked_add_def split: if_splits)
  ultimately show ?thesis using buddy.frame_inv_boot [of dm bits zs ncpus nmags acc cap batch] assms(5,6) by (simp add: frame_boot_def)
qed

subsection \<open>Properties\<close>

text \<open>C2: No frame is lost, handed out twice or counted wrongly. After boot, in every
  interleaving of the critical sections of allocations and releases of frames and folios on
  all CPUs, with handles cloned and dropped, no step panics: no batch or magazine overflows
  or meets a frame twice, the accounting never runs out of its range, no reference count is
  wrong, and the buddy system accepts every release. Every managed page is in exactly one
  place: free in the buddy system, in one magazine, carried by one operation, or under live
  handles; the free counter is the number of pages that are not charged to a handle or an
  operation; and different live handles own disjoint pages.\<close>

theorem frame_safe:
  assumes "pmm_init dm bits hdr_size (2 ^ al) rs [] = Inr zs" "2 ^ bits dvd dm" "0 < hdr_size" "ranges_apart rs" "ncpus \<le> nmags"
    "add_free_range (card (backend_pages dm bits zs)) accounting_new = Inr acc" "0 < batch" "batch \<le> cap"
    "frame_reachable (buddy_alloc dm bits) (buddy_dealloc dm bits) batch ncpus (frame_boot zs acc nmags cap) y"
    "frame_step (buddy_alloc dm bits) (buddy_dealloc dm bits) batch ncpus y res"
  shows "\<exists>y'. res = Inr y' \<and>
    loose (backend_pages dm bits) y' + taken y' = mset_set (backend_pages dm bits zs) \<and>
    accounting_snapshot (lf_accounting (fy_locked y')) =
      Inr (card (backend_pages dm bits zs), size (loose (backend_pages dm bits) y')) \<and>
    (\<forall>h \<in># fy_handles y'. \<forall>h' \<in># fy_handles y'. h \<noteq> h' \<longrightarrow> page_block (fst h) (snd h) \<inter> page_block (fst h') (snd h') = {})"
proof -
  note boot = frame_boot_inv [OF assms(1-6), of cap batch]
  from buddy.frame_step_keeps [OF assms(10) buddy.frame_reachable_inv [OF assms(9) boot assms(7,8)] assms(7,8)] obtain y' where
    y': "res = Inr y'" "buddy.frame_inv dm bits cap batch ncpus (backend_pages dm bits zs) y'" by blast
  note D = buddy.frame_invD [OF y'(2)]
  have "size (loose (backend_pages dm bits) y') + size (taken y') = card (backend_pages dm bits zs)"
    using D(9) by (metis size_mset_set size_union)
  then have "size (loose (backend_pages dm bits) y') \<le> card (backend_pages dm bits zs)" by linarith
  with y'(1) D(9-11) buddy.handles_apart [OF y'(2)] show ?thesis by (auto simp: accounting_snapshot_def)
qed

definition example_backend :: zone where
  "example_backend = \<lparr>z_min = 16, z_norder = 11, z_nunits = 5, z_salloc = 144,
     z_bitmaps = [\<lparr>bs_len = 5, bs_bytes = [16]\<rparr>, \<lparr>bs_len = 2, bs_bytes = [0]\<rparr>, \<lparr>bs_len = 1, bs_bytes = [1]\<rparr>] @ replicate 8 \<lparr>bs_len = 0, bs_bytes = []\<rparr>,
     z_free = [[208], [], [144]] @ replicate 8 []\<rparr>"

lemma example_pmm_init: "pmm_init 64 4 8 (2 ^ 3) [(4, 6)] [] = Inr [example_backend]"
  unfolding example_backend_def by code_simp

lemma example_backend_pages: "backend_pages 64 4 [example_backend] = {5 ..< 10}"
proof -
  have "{..< z_norder example_backend} = {0, 1, 2, 3, 4, 5, 6, 7, 8, 9, 10}" by (auto simp: example_backend_def) presburger
  then have "zone_free_bytes example_backend = {208 ..< 224} \<union> {144 ..< 208}"
    by (simp add: zone_free_bytes_def example_backend_def block_bytes_def nth_append)
  then show ?thesis by (auto simp: backend_pages_def free_bytes_def)
qed

theorem frame_safe_witness:
  "\<exists>acc y'. add_free_range 5 accounting_new = Inr acc \<and>
     frame_step (buddy_alloc 64 4) (buddy_dealloc 64 4) 2 1
       ((frame_boot [example_backend] acc 1 4)\<lparr>fy_ops := {#alloc_frame#}\<rparr>) (Inr y') \<and>
     fy_ops y' = {#Take_Batch For_Frame False#} \<and>
     loose (backend_pages 64 4) y' + taken y' = mset_set {5 ..< 10}"
proof -
  define acc where "acc = \<lparr>ac_total = 5, ac_free = (5 :: nat)\<rparr>"
  have acc: "add_free_range 5 accounting_new = Inr acc" by (simp add: add_free_range_def accounting_new_def checked_add_def acc_def)
  let ?b = "frame_boot [example_backend] acc 1 4" and ?al = "buddy_alloc 64 4" and ?de = "buddy_dealloc 64 4"
  let ?y = "?b\<lparr>fy_ops := {#alloc_frame#}\<rparr>"
  let ?res = "map_sum id (proceed {#} {#}) (advance ?al ?de 2 1 0 alloc_frame (fy_locked ?y)) :: fault + zone list frame_sys"
  have "frame_step ?al ?de 2 1 ?b (Inr ?y)" using frame_request [of ?al ?de 2 1 ?b] by (simp add: frame_boot_def)
  with frame_start have reach: "frame_reachable ?al ?de 2 1 ?b ?y" by (rule frame_stepped)
  have step: "frame_step ?al ?de 2 1 ?y ?res" using frame_advance [of alloc_frame ?y 0 1 ?al ?de 2] by (simp add: frame_boot_def)
  have "add_free_range (card (backend_pages 64 4 [example_backend])) accounting_new = Inr acc" using acc by (simp add: example_backend_pages)
  from frame_safe [OF example_pmm_init _ _ _ _ this _ _ reach step] obtain y' where y': "?res = Inr y'"
    "loose (backend_pages 64 4) y' + taken y' = mset_set {5 ..< 10}" by (auto simp: ranges_apart_def example_backend_pages)
  from y'(1) have "fy_ops y' = {#Take_Batch For_Frame False#}"
    by (auto simp: alloc_frame_def frame_boot_def magazine_pop_def slots_new_def proceed_def)
  with acc step y' show ?thesis by auto
qed

text \<open>C34: An allocation or release of the frame allocator ends after a bounded number of
  critical sections, whatever the other operations do to the shared state in between: a
  miss sweeps the magazines once and retries once.\<close>

theorem frame_op_bounded:
  assumes "op_trace (buddy_alloc dm bits) (buddy_dealloc dm bits) batch ncpus start k a"
    "start = alloc_frame \<or> alloc_frames n = Inr start \<or> start = Release p n"
  shows "k \<le> 7 + 2 * ncpus"
proof -
  have "op_rank ncpus start \<le> 8 + 2 * ncpus"
    using assms(2) by (auto simp: alloc_frame_def alloc_frames_def split: if_splits)
  moreover have "0 < op_rank ncpus a" by (cases a) auto
  ultimately show ?thesis using op_trace_rank [OF assms(1)] by linarith
qed

theorem frame_op_bounded_witness:
  "op_trace (buddy_alloc 64 4) (buddy_dealloc 64 4) 2 1 alloc_frame 1 (Take_Batch For_Frame False) \<and> (1 :: nat) \<le> 7 + 2 * 1"
proof -
  let ?s = "fy_locked (frame_boot [example_backend] \<lparr>ac_total = 5, ac_free = 5\<rparr> 1 4)"
  have "advance (buddy_alloc 64 4) (buddy_dealloc 64 4) 2 1 0 alloc_frame ?s = Inr (set_magazine 0 (slots_new 4) ?s, Goto (Take_Batch For_Frame False))"
    by (simp add: alloc_frame_def frame_boot_def magazine_pop_def slots_new_def)
  with trace_start have t: "op_trace (buddy_alloc 64 4) (buddy_dealloc 64 4) 2 1 alloc_frame (Suc 0) (Take_Batch For_Frame False)"
    by (rule trace_goto)
  with frame_op_bounded [OF t] show ?thesis by simp
qed

end
