(* ===== verification/Memmap.thy ===== *)
theory Memmap
  imports Mem_Zone
begin

text \<open>
  The metadata of all physical frames (\<open>src/mm/frame/memmap.rs\<close>): a radix tree from page
  numbers to \<open>Frame\<close> structures, built once at boot in pages that are taken out of the
  available zones before. The page size and the width of a page number belong to the
  architecture, the size of a section to the build configuration; they are parameters. An
  entry of an indirect level is the page number of the next node, zero for none. Memory
  that is reached through the direct mapping is a store from the first page of a node to its
  contents.
\<close>

subsection \<open>Constants\<close>

record memmap_cfg =
  PAGE_SIZE_BITS :: nat
  MAX_PPN_BITS :: nat
  FRAME_SECTION_SHIFT_MB :: nat

definition FRAME_IN_SECTION_IDX_BITS :: "memmap_cfg \<Rightarrow> nat" where
  "FRAME_IN_SECTION_IDX_BITS c = FRAME_SECTION_SHIFT_MB c + 20 - PAGE_SIZE_BITS c"

text \<open>A page number has eight bytes, a \<open>Frame\<close> sixteen.\<close>

definition BITS_PER_INDIRECT_LEVEL :: "memmap_cfg \<Rightarrow> nat" where
  "BITS_PER_INDIRECT_LEVEL c = PAGE_SIZE_BITS c - 3"

definition NINDIRECT_LEVELS :: "memmap_cfg \<Rightarrow> nat" where
  "NINDIRECT_LEVELS c =
     (let total_indirect_bits = MAX_PPN_BITS c - FRAME_IN_SECTION_IDX_BITS c; b = BITS_PER_INDIRECT_LEVEL c in
      (total_indirect_bits + b - 1) div b * b div b)"

definition ENTRIES_PER_INDIRECT_LEVEL :: "memmap_cfg \<Rightarrow> nat" where
  "ENTRIES_PER_INDIRECT_LEVEL c = 2 ^ PAGE_SIZE_BITS c div 8"

definition NFRAMES_PER_SECTION :: "memmap_cfg \<Rightarrow> nat" where
  "NFRAMES_PER_SECTION c = 2 ^ FRAME_IN_SECTION_IDX_BITS c"

lemma NFRAMES_pos [simp]: "0 < NFRAMES_PER_SECTION c"
  by (simp add: NFRAMES_PER_SECTION_def)

definition MEMSECTION_NPAGES :: "memmap_cfg \<Rightarrow> nat" where
  "MEMSECTION_NPAGES c = NFRAMES_PER_SECTION c * 16 div 2 ^ PAGE_SIZE_BITS c"

text \<open>What the compiler checks: the subtractions do not underflow, the division is not by
  zero, and the static assertions hold. Page numbers are 64-bit values.\<close>

definition cfg_ok :: "memmap_cfg \<Rightarrow> bool" where
  "cfg_ok c \<longleftrightarrow> 3 < PAGE_SIZE_BITS c \<and> PAGE_SIZE_BITS c \<le> FRAME_SECTION_SHIFT_MB c + 20 \<and>
     FRAME_IN_SECTION_IDX_BITS c < MAX_PPN_BITS c \<and> MAX_PPN_BITS c < 64 \<and>
     2 ^ PAGE_SIZE_BITS c dvd NFRAMES_PER_SECTION c * 16"

subsection \<open>The tree\<close>

record frame =
  fr_ppn :: nat
  fr_rc :: nat

datatype node = Level "nat list" | Section "frame list"

record memmap =
  mm_root :: "nat list"
  mm_store :: "nat \<rightharpoonup> node"

text \<open>While the tree is being built, a bump allocator hands out the pages.\<close>

record building = memmap +
  bump_next :: nat
  bump_npages :: nat

definition bump_alloc :: "nat \<Rightarrow> building \<Rightarrow> fault + nat \<times> building" where
  "bump_alloc n m =
     (if bump_npages m < n then Inl Assert_Panic
      else map_sum id (\<lambda>next_ppn. (bump_next m, m\<lparr>bump_next := next_ppn, bump_npages := bump_npages m - n\<rparr>)) (padd (bump_next m) n))"

datatype level_ptr = Root | At nat

text \<open>Reading a page as a level that was never written as one is not a defined read.\<close>

definition read_entry :: "level_ptr \<Rightarrow> nat \<Rightarrow> 'a memmap_scheme \<Rightarrow> fault + nat" where
  "read_entry p i m =
     (case (case p of Root \<Rightarrow> Some (Level (mm_root m)) | At q \<Rightarrow> mm_store m q) of
        Some (Level es) \<Rightarrow> if i < length es then Inr (es ! i) else Inl Index_Panic
      | _ \<Rightarrow> Inl Uninit_Read)"

definition write_entry :: "level_ptr \<Rightarrow> nat \<Rightarrow> nat \<Rightarrow> 'a memmap_scheme \<Rightarrow> 'a memmap_scheme" where
  "write_entry p i v m =
     (case p of
        Root \<Rightarrow> m\<lparr>mm_root := (mm_root m)[i := v]\<rparr>
      | At q \<Rightarrow> (case mm_store m q of
            Some (Level es) \<Rightarrow> m\<lparr>mm_store := (mm_store m)(q \<mapsto> Level (es[i := v]))\<rparr>
          | _ \<Rightarrow> m))"

definition write_node :: "nat \<Rightarrow> node \<Rightarrow> 'a memmap_scheme \<Rightarrow> 'a memmap_scheme" where
  "write_node q nd m = m\<lparr>mm_store := (mm_store m)(q \<mapsto> nd)\<rparr>"

text \<open>The indices of a page number, the lowest level first. Shifts are divisions by powers
  of two, masks are remainders.\<close>

definition indirect_indices_for :: "memmap_cfg \<Rightarrow> nat \<Rightarrow> nat list" where
  "indirect_indices_for c ppn =
     map (\<lambda>i. ppn div 2 ^ (FRAME_IN_SECTION_IDX_BITS c + i * BITS_PER_INDIRECT_LEVEL c) mod 2 ^ BITS_PER_INDIRECT_LEVEL c)
       [0 ..< NINDIRECT_LEVELS c - 1] @
     [ppn div 2 ^ (FRAME_IN_SECTION_IDX_BITS c + (NINDIRECT_LEVELS c - 1) * BITS_PER_INDIRECT_LEVEL c)]"

subsection \<open>The dry run\<close>

definition section_base :: "memmap_cfg \<Rightarrow> nat \<Rightarrow> nat" where
  "section_base c ppn = ppn div NFRAMES_PER_SECTION c * NFRAMES_PER_SECTION c"

definition indirect_keys :: "memmap_cfg \<Rightarrow> nat \<Rightarrow> (nat \<times> nat) list" where
  "indirect_keys c base =
     map (\<lambda>i. (i, base div 2 ^ (FRAME_IN_SECTION_IDX_BITS c + i * BITS_PER_INDIRECT_LEVEL c))) [1 ..< NINDIRECT_LEVELS c]"

function count_sections :: "memmap_cfg \<Rightarrow> nat \<Rightarrow> nat \<Rightarrow> nat set \<times> (nat \<times> nat) set \<Rightarrow> fault + nat set \<times> (nat \<times> nat) set" where
  "count_sections c base fin (sections, indirect) =
     (if base < fin then
        (let keys = (insert base sections, indirect \<union> set (indirect_keys c base)) in
         case padd base (NFRAMES_PER_SECTION c) of
           Inl f \<Rightarrow> Inl f
         | Inr base' \<Rightarrow> count_sections c base' fin keys)
      else Inr (sections, indirect))"
  by pat_completeness auto
termination
  by (relation "measure (\<lambda>(c, base, fin, _). fin - base)") (auto simp: padd_def diff_less_mono2 split: if_splits)

fun count_zones :: "memmap_cfg \<Rightarrow> page_range list \<Rightarrow> nat set \<times> (nat \<times> nat) set \<Rightarrow> fault + nat set \<times> (nat \<times> nat) set" where
  "count_zones c [] keys = Inr keys"
| "count_zones c (r # rs) keys =
     (if snd r = 0 then count_zones c rs keys
      else case range_end r of
          Inl f \<Rightarrow> Inl f
        | Inr end_ppn \<Rightarrow>
            (case count_sections c (section_base c (fst r)) end_ppn keys of
               Inl f \<Rightarrow> Inl f
             | Inr keys' \<Rightarrow> count_zones c rs keys'))"

definition calculate_memmap_npages :: "memmap_cfg \<Rightarrow> page_range list \<Rightarrow> fault + nat" where
  "calculate_memmap_npages c rs =
     (case count_zones c rs ({}, {}) of
        Inl f \<Rightarrow> Inl f
      | Inr (sections, indirect) \<Rightarrow>
          (case checked_mul (card sections) (MEMSECTION_NPAGES c) of
             None \<Rightarrow> Inl Overflow_Panic
           | Some n \<Rightarrow> padd n (card indirect)))"

subsection \<open>Building the tree\<close>

definition next_level :: "memmap_cfg \<Rightarrow> nat \<Rightarrow> level_ptr \<Rightarrow> building \<Rightarrow> fault + nat \<times> building" where
  "next_level c idx p m =
     (case read_entry p idx m of
        Inl f \<Rightarrow> Inl f
      | Inr entry \<Rightarrow>
          if entry = 0 then
            map_sum id
              (\<lambda>(q, m'). (q, write_node q (Level (replicate (ENTRIES_PER_INDIRECT_LEVEL c) 0)) (write_entry p idx q m')))
              (bump_alloc 1 m)
          else Inr (entry, m))"

text \<open>The loop over the indirect levels, from the top to level one.\<close>

fun descend :: "memmap_cfg \<Rightarrow> nat list \<Rightarrow> nat \<Rightarrow> level_ptr \<Rightarrow> building \<Rightarrow> fault + level_ptr \<times> building" where
  "descend c indices 0 p m = Inr (p, m)"
| "descend c indices (Suc i) p m =
     (case next_level c (indices ! Suc i) p m of
        Inl f \<Rightarrow> Inl f
      | Inr (q, m') \<Rightarrow> descend c indices i (At q) m')"

definition init_section :: "memmap_cfg \<Rightarrow> nat \<Rightarrow> building \<Rightarrow> fault + building" where
  "init_section c base m =
     (let indices = indirect_indices_for c base in
      case descend c indices (NINDIRECT_LEVELS c - 1) Root m of
        Inl f \<Rightarrow> Inl f
      | Inr (p, m1) \<Rightarrow>
          (case read_entry p (indices ! 0) m1 of
             Inl f \<Rightarrow> Inl f
           | Inr entry \<Rightarrow>
               if entry = 0 then
                 map_sum id
                   (\<lambda>(q, m2). write_entry p (indices ! 0) q
                      (write_node q (Section (map (\<lambda>i. \<lparr>fr_ppn = base + i, fr_rc = 0\<rparr>) [0 ..< NFRAMES_PER_SECTION c])) m2))
                   (bump_alloc (MEMSECTION_NPAGES c) m1)
               else Inr m1))"

function init_sections :: "memmap_cfg \<Rightarrow> nat \<Rightarrow> nat \<Rightarrow> building \<Rightarrow> fault + building" where
  "init_sections c base fin m =
     (if base < fin then
        (case init_section c base m of
           Inl f \<Rightarrow> Inl f
         | Inr m' \<Rightarrow>
             (case padd base (NFRAMES_PER_SECTION c) of
                Inl f \<Rightarrow> Inl f
              | Inr base' \<Rightarrow> init_sections c base' fin m'))
      else Inr m)"
  by pat_completeness auto
termination
  by (relation "measure (\<lambda>(c, base, fin, _). fin - base)") (auto simp: padd_def diff_less_mono2 split: if_splits)

fun init_zones :: "memmap_cfg \<Rightarrow> page_range list \<Rightarrow> building \<Rightarrow> fault + building" where
  "init_zones c [] m = Inr m"
| "init_zones c (r # rs) m =
     (if snd r = 0 then init_zones c rs m
      else case range_end r of
          Inl f \<Rightarrow> Inl f
        | Inr end_ppn \<Rightarrow>
            (case init_sections c (section_base c (fst r)) end_ppn m of
               Inl f \<Rightarrow> Inl f
             | Inr m' \<Rightarrow> init_zones c rs m'))"

text \<open>The caller passes the allocator of the pages, which takes them out of the zones.\<close>

definition memmap_init ::
  "memmap_cfg \<Rightarrow> (nat \<Rightarrow> sys_mem_zones \<Rightarrow> fault + nat \<times> sys_mem_zones) \<Rightarrow> sys_mem_zones \<Rightarrow> fault + building \<times> sys_mem_zones" where
  "memmap_init c allocator s =
     (case calculate_memmap_npages c (map az_range (avail_mem_zones s)) of
        Inl f \<Rightarrow> Inl f
      | Inr npages \<Rightarrow>
          (case allocator npages s of
             Inl f \<Rightarrow> Inl f
           | Inr (sppn, s') \<Rightarrow>
               map_sum id (\<lambda>m. (m, s'))
                 (init_zones c (map az_range (avail_mem_zones s'))
                    \<lparr>mm_root = replicate (ENTRIES_PER_INDIRECT_LEVEL c) 0, mm_store = Map.empty, bump_next = sppn, bump_npages = npages\<rparr>)))"

definition leak_for_memmap :: "nat \<Rightarrow> sys_mem_zones \<Rightarrow> fault + nat \<times> sys_mem_zones" where
  "leak_for_memmap npages s =
     (case leak npages s of
        Inl f \<Rightarrow> Inl f
      | Inr (None, _) \<Rightarrow> Inl Assert_Panic
      | Inr (Some sppn, s') \<Rightarrow> Inr (sppn, s'))"

subsection \<open>Lookup\<close>

text \<open>The result is a reference: the first page of the section and the index in it.\<close>

fun lookup_section :: "nat list \<Rightarrow> nat \<Rightarrow> nat \<Rightarrow> 'a memmap_scheme \<Rightarrow> fault + nat" where
  "lookup_section indices 0 cur m = (if cur = 0 then Inl Assert_Panic else Inr cur)"
| "lookup_section indices (Suc i) cur m =
     (if cur = 0 then Inl Assert_Panic
      else case read_entry (At cur) (indices ! i) m of
          Inl f \<Rightarrow> Inl f
        | Inr cur' \<Rightarrow> lookup_section indices i cur' m)"

definition get_frame_raw :: "memmap_cfg \<Rightarrow> nat \<Rightarrow> 'a memmap_scheme \<Rightarrow> fault + nat \<times> nat" where
  "get_frame_raw c ppn m =
     (let in_section_idx = ppn mod 2 ^ FRAME_IN_SECTION_IDX_BITS c; indices = indirect_indices_for c ppn in
      case read_entry Root (indices ! (NINDIRECT_LEVELS c - 1)) m of
        Inl f \<Rightarrow> Inl f
      | Inr cur \<Rightarrow>
          (case lookup_section indices (NINDIRECT_LEVELS c - 1) cur m of
             Inl f \<Rightarrow> Inl f
           | Inr q \<Rightarrow>
               (case mm_store m q of
                  Some (Section frames) \<Rightarrow> if in_section_idx < length frames then Inr (q, in_section_idx) else Inl Index_Panic
                | _ \<Rightarrow> Inl Uninit_Read)))"

definition frame_at :: "'a memmap_scheme \<Rightarrow> nat \<times> nat \<Rightarrow> frame option" where
  "frame_at m r =
     (case mm_store m (fst r) of
        Some (Section frames) \<Rightarrow> if snd r < length frames then Some (frames ! snd r) else None
      | _ \<Rightarrow> None)"

text \<open>The sixteen bytes that a reference stands for, as physical addresses.\<close>

definition frame_bytes :: "memmap_cfg \<Rightarrow> nat \<times> nat \<Rightarrow> nat set" where
  "frame_bytes c r =
     {fst r * 2 ^ PAGE_SIZE_BITS c + snd r * 16 ..< fst r * 2 ^ PAGE_SIZE_BITS c + snd r * 16 + 16}"

definition pages_bytes :: "memmap_cfg \<Rightarrow> nat \<Rightarrow> nat \<Rightarrow> nat set" where
  "pages_bytes c p n = {p * 2 ^ PAGE_SIZE_BITS c ..< (p + n) * 2 ^ PAGE_SIZE_BITS c}"

declare count_sections.simps [simp del] init_sections.simps [simp del]

subsection \<open>Sizes and indices\<close>

abbreviation sec_of :: "memmap_cfg \<Rightarrow> nat \<Rightarrow> nat" where
  "sec_of c ppn \<equiv> ppn div NFRAMES_PER_SECTION c"

lemma cfg_facts:
  assumes "cfg_ok c"
  shows "ENTRIES_PER_INDIRECT_LEVEL c = 2 ^ BITS_PER_INDIRECT_LEVEL c" "0 < NINDIRECT_LEVELS c" "0 < MEMSECTION_NPAGES c"
    "MAX_PPN_BITS c \<le> FRAME_IN_SECTION_IDX_BITS c + NINDIRECT_LEVELS c * BITS_PER_INDIRECT_LEVEL c"
    "MEMSECTION_NPAGES c * 2 ^ PAGE_SIZE_BITS c = NFRAMES_PER_SECTION c * 16"
proof -
  let ?b = "BITS_PER_INDIRECT_LEVEL c" and ?t = "MAX_PPN_BITS c - FRAME_IN_SECTION_IDX_BITS c"
  have b: "0 < ?b" "PAGE_SIZE_BITS c = ?b + 3" "0 < ?t" using assms by (simp_all add: cfg_ok_def BITS_PER_INDIRECT_LEVEL_def)
  then show "ENTRIES_PER_INDIRECT_LEVEL c = 2 ^ ?b" by (simp add: ENTRIES_PER_INDIRECT_LEVEL_def power_add)
  have n: "NINDIRECT_LEVELS c = (?t + ?b - 1) div ?b" using b by (simp add: NINDIRECT_LEVELS_def Let_def)
  with b show "0 < NINDIRECT_LEVELS c" by (simp add: div_greater_zero_iff)
  have "?t + ?b - 1 = NINDIRECT_LEVELS c * ?b + (?t + ?b - 1) mod ?b" by (simp add: n)
  moreover have "(?t + ?b - 1) mod ?b < ?b" using b by simp
  ultimately have "?t \<le> NINDIRECT_LEVELS c * ?b" by linarith
  then show "MAX_PPN_BITS c \<le> FRAME_IN_SECTION_IDX_BITS c + NINDIRECT_LEVELS c * ?b" by simp
  show eq: "MEMSECTION_NPAGES c * 2 ^ PAGE_SIZE_BITS c = NFRAMES_PER_SECTION c * 16"
    using assms by (simp add: MEMSECTION_NPAGES_def cfg_ok_def)
  have "0 < NFRAMES_PER_SECTION c * 16" by simp
  then show "0 < MEMSECTION_NPAGES c" by (metis eq gr0I mult_is_0 less_irrefl)
qed

lemma shift_level: "cfg_ok c \<Longrightarrow>
  ppn div 2 ^ (FRAME_IN_SECTION_IDX_BITS c + i * BITS_PER_INDIRECT_LEVEL c) = sec_of c ppn div ENTRIES_PER_INDIRECT_LEVEL c ^ i"
  by (simp add: cfg_facts(1) NFRAMES_PER_SECTION_def power_add div_mult2_eq mult.commute flip: power_mult)

lemma section_top:
  assumes "cfg_ok c" "ppn < 2 ^ MAX_PPN_BITS c"
  shows "sec_of c ppn div ENTRIES_PER_INDIRECT_LEVEL c ^ NINDIRECT_LEVELS c = 0"
proof -
  have "(2::nat) ^ MAX_PPN_BITS c \<le> 2 ^ (FRAME_IN_SECTION_IDX_BITS c + NINDIRECT_LEVELS c * BITS_PER_INDIRECT_LEVEL c)"
    by (rule power_increasing) (simp_all add: cfg_facts(4) [OF assms(1)])
  with assms(2) have "ppn < 2 ^ (FRAME_IN_SECTION_IDX_BITS c + NINDIRECT_LEVELS c * BITS_PER_INDIRECT_LEVEL c)" by linarith
  then show ?thesis using shift_level [OF assms(1), of ppn "NINDIRECT_LEVELS c"] by simp
qed

lemma indirect_index:
  assumes "cfg_ok c" "ppn < 2 ^ MAX_PPN_BITS c" "i < NINDIRECT_LEVELS c"
  shows "indirect_indices_for c ppn ! i = sec_of c ppn div ENTRIES_PER_INDIRECT_LEVEL c ^ i mod ENTRIES_PER_INDIRECT_LEVEL c"
proof (cases "i < NINDIRECT_LEVELS c - 1")
  case True
  then show ?thesis by (simp add: indirect_indices_for_def nth_append shift_level [OF assms(1)] cfg_facts(1) [OF assms(1)])
next
  case False
  with assms(3) have i: "i = NINDIRECT_LEVELS c - 1" "NINDIRECT_LEVELS c = Suc i" by simp_all
  then have idx: "indirect_indices_for c ppn ! i = sec_of c ppn div ENTRIES_PER_INDIRECT_LEVEL c ^ i"
    by (simp add: indirect_indices_for_def nth_append shift_level [OF assms(1)])
  have "sec_of c ppn div ENTRIES_PER_INDIRECT_LEVEL c ^ i div ENTRIES_PER_INDIRECT_LEVEL c = 0"
    using section_top [OF assms(1,2)] unfolding i(2) power_Suc2 div_mult2_eq .
  then have "sec_of c ppn div ENTRIES_PER_INDIRECT_LEVEL c ^ i < ENTRIES_PER_INDIRECT_LEVEL c"
    by (simp add: div_eq_0_iff cfg_facts(1) [OF assms(1)])
  then show ?thesis by (simp add: idx)
qed

subsection \<open>The tree as a map\<close>

text \<open>The nodes of the tree: \<open>(0, s)\<close> is section \<open>s\<close>, \<open>(i, x)\<close> is the indirect level \<open>i\<close> whose
  page numbers begin with \<open>x\<close>, as in the keys of the dry run. The map \<open>A\<close> gives the page at
  which a node was allocated; together with \<open>A\<close> the contents of the store are determined.\<close>

definition loc :: "(nat \<times> nat \<rightharpoonup> nat) \<Rightarrow> nat \<times> nat \<Rightarrow> nat" where
  "loc A k = (case A k of None \<Rightarrow> 0 | Some q \<Rightarrow> q)"

definition children :: "memmap_cfg \<Rightarrow> (nat \<times> nat \<rightharpoonup> nat) \<Rightarrow> nat \<Rightarrow> nat \<Rightarrow> nat list" where
  "children c A i x = map (\<lambda>j. loc A (i - 1, x * ENTRIES_PER_INDIRECT_LEVEL c + j)) [0 ..< ENTRIES_PER_INDIRECT_LEVEL c]"

definition content :: "memmap_cfg \<Rightarrow> (nat \<times> nat \<rightharpoonup> nat) \<Rightarrow> nat \<times> nat \<Rightarrow> node" where
  "content c A k =
     (if fst k = 0 then Section (map (\<lambda>i. \<lparr>fr_ppn = snd k * NFRAMES_PER_SECTION c + i, fr_rc = 0\<rparr>) [0 ..< NFRAMES_PER_SECTION c])
      else Level (children c A (fst k) (snd k)))"

definition node_pages :: "memmap_cfg \<Rightarrow> nat \<times> nat \<Rightarrow> nat" where
  "node_pages c k = (if fst k = 0 then MEMSECTION_NPAGES c else 1)"

definition weight :: "memmap_cfg \<Rightarrow> (nat \<times> nat) set \<Rightarrow> nat" where
  "weight c K = (\<Sum>k \<in> K. node_pages c k)"

definition closed :: "memmap_cfg \<Rightarrow> (nat \<times> nat) set \<Rightarrow> bool" where
  "closed c K \<longleftrightarrow> finite K \<and> (\<forall>i x. (i, x) \<in> K \<longrightarrow> i < NINDIRECT_LEVELS c \<and>
     (Suc i < NINDIRECT_LEVELS c \<longrightarrow> (Suc i, x div ENTRIES_PER_INDIRECT_LEVEL c) \<in> K))"

definition node_at :: "memmap_cfg \<Rightarrow> (nat \<times> nat \<rightharpoonup> nat) \<Rightarrow> building \<Rightarrow> nat \<times> nat \<Rightarrow> nat \<Rightarrow> bool" where
  "node_at c A m k q \<longleftrightarrow> mm_store m q = Some (content c A k) \<and> 0 < q \<and> q + node_pages c k \<le> bump_next m"

definition node_span :: "memmap_cfg \<Rightarrow> nat \<times> nat \<Rightarrow> nat \<Rightarrow> nat set" where
  "node_span c k q = {q ..< q + node_pages c k}"

definition placed :: "memmap_cfg \<Rightarrow> nat \<Rightarrow> (nat \<times> nat \<rightharpoonup> nat) \<Rightarrow> bool" where
  "placed c lo A \<longleftrightarrow> (\<forall>k q. A k = Some q \<longrightarrow> lo \<le> q \<and>
     (\<forall>k' q'. A k' = Some q' \<and> k \<noteq> k' \<longrightarrow> node_span c k q \<inter> node_span c k' q' = {}))"

definition built :: "memmap_cfg \<Rightarrow> nat \<Rightarrow> nat \<Rightarrow> (nat \<times> nat \<rightharpoonup> nat) \<Rightarrow> building \<Rightarrow> bool" where
  "built c lo n A m \<longleftrightarrow> closed c (dom A) \<and> placed c lo A \<and> (\<forall>k q. A k = Some q \<longrightarrow> node_at c A m k q) \<and>
     mm_root m = children c A (NINDIRECT_LEVELS c) 0 \<and>
     bump_next m = lo + weight c (dom A) \<and> bump_npages m + weight c (dom A) = n \<and> 0 < lo \<and> lo + n < u64_limit"

definition points :: "memmap_cfg \<Rightarrow> (nat \<times> nat \<rightharpoonup> nat) \<Rightarrow> nat \<times> nat \<Rightarrow> level_ptr \<Rightarrow> bool" where
  "points c A k p \<longleftrightarrow> (if fst k = NINDIRECT_LEVELS c then p = Root \<and> snd k = 0 else \<exists>q. p = At q \<and> A k = Some q)"

lemma closedD:
  "closed c K \<Longrightarrow> finite K" "closed c K \<Longrightarrow> (i, x) \<in> K \<Longrightarrow> i < NINDIRECT_LEVELS c"
  "closed c K \<Longrightarrow> (i, x) \<in> K \<Longrightarrow> Suc i < NINDIRECT_LEVELS c \<Longrightarrow> (Suc i, x div ENTRIES_PER_INDIRECT_LEVEL c) \<in> K"
  unfolding closed_def by blast+

lemma builtD:
  assumes "built c lo n A m"
  shows "closed c (dom A)" "placed c lo A" "A k = Some q \<Longrightarrow> node_at c A m k q"
    "mm_root m = children c A (NINDIRECT_LEVELS c) 0" "bump_next m = lo + weight c (dom A)"
    "bump_npages m + weight c (dom A) = n" "0 < lo" "lo + n < u64_limit"
  using assms unfolding built_def by blast+

lemma children_upd:
  assumes "0 < i'" "0 < ENTRIES_PER_INDIRECT_LEVEL c"
  shows "children c (A((i, x) \<mapsto> q)) i' x' =
    (if i' = Suc i \<and> x' = x div ENTRIES_PER_INDIRECT_LEVEL c
     then (children c A i' x')[x mod ENTRIES_PER_INDIRECT_LEVEL c := q] else children c A i' x')"
proof (rule nth_equalityI)
  let ?E = "ENTRIES_PER_INDIRECT_LEVEL c"
  fix j
  assume "j < length (children c (A((i, x) \<mapsto> q)) i' x')"
  then have j: "j < ?E" by (simp add: children_def)
  then have "(i' - 1, x' * ?E + j) = (i, x) \<longleftrightarrow> i' = Suc i \<and> x' = x div ?E \<and> j = x mod ?E"
    using assms(1) by auto
  then show "children c (A((i, x) \<mapsto> q)) i' x' ! j = (if i' = Suc i \<and> x' = x div ?E
     then (children c A i' x')[x mod ?E := q] else children c A i' x') ! j"
    using j by (auto simp: children_def loc_def nth_list_update)
qed (simp add: children_def)

lemma read_pointer:
  assumes "built c lo n A m" "points c A k p" "0 < fst k" "j < ENTRIES_PER_INDIRECT_LEVEL c"
  shows "read_entry p j m = Inr (loc A (fst k - 1, snd k * ENTRIES_PER_INDIRECT_LEVEL c + j))"
proof (cases "fst k = NINDIRECT_LEVELS c")
  case True
  with assms(2,4) builtD(4) [OF assms(1)] show ?thesis by (simp add: points_def read_entry_def children_def)
next
  case False
  with assms(2) obtain q where "p = At q" "A k = Some q" by (auto simp: points_def)
  with builtD(3) [OF assms(1), of k q] assms(3,4) show ?thesis by (simp add: node_at_def read_entry_def content_def children_def)
qed

lemma node_pages_pos: "cfg_ok c \<Longrightarrow> 0 < node_pages c k"
  by (simp add: node_pages_def cfg_facts(3))

lemma placed_inj: "cfg_ok c \<Longrightarrow> placed c lo A \<Longrightarrow> A k = Some q \<Longrightarrow> A k' = Some q \<Longrightarrow> k = k'"
  using node_pages_pos [of c k] node_pages_pos [of c k'] unfolding placed_def node_span_def by fastforce

text \<open>A new node is empty: nothing below it can be there already.\<close>

lemma content_new:
  assumes "closed c (dom A)" "(i, x) \<notin> dom A" "0 < i" "i < NINDIRECT_LEVELS c"
  shows "content c A (i, x) = Level (replicate (ENTRIES_PER_INDIRECT_LEVEL c) 0)"
proof -
  have "A (i - 1, x * ENTRIES_PER_INDIRECT_LEVEL c + j) = None" if "j < ENTRIES_PER_INDIRECT_LEVEL c" for j
  proof (rule ccontr)
    assume "A (i - 1, x * ENTRIES_PER_INDIRECT_LEVEL c + j) \<noteq> None"
    then have "(i - 1, x * ENTRIES_PER_INDIRECT_LEVEL c + j) \<in> dom A" by blast
    from closedD(3) [OF assms(1) this] assms(3,4) have
      "(Suc (i - 1), (x * ENTRIES_PER_INDIRECT_LEVEL c + j) div ENTRIES_PER_INDIRECT_LEVEL c) \<in> dom A" by simp
    with that assms(2,3) show False by simp
  qed
  then have "children c A i x = replicate (ENTRIES_PER_INDIRECT_LEVEL c) 0"
    by (intro nth_equalityI) (simp_all add: children_def loc_def)
  with assms(3) show ?thesis by (simp add: content_def)
qed

lemma write_entry_store:
  assumes "built c lo n A m" "points c A k p" "0 < fst k" "mm_root m' = mm_root m" "mm_store m' = mm_store m"
  shows "mm_store (write_entry p j v m') =
      (if fst k = NINDIRECT_LEVELS c then mm_store m else (mm_store m)(the (A k) \<mapsto> Level ((children c A (fst k) (snd k))[j := v])))"
    "mm_root (write_entry p j v m') = (if fst k = NINDIRECT_LEVELS c then (mm_root m)[j := v] else mm_root m)"
    "bump_next (write_entry p j v m') = bump_next m'" "bump_npages (write_entry p j v m') = bump_npages m'"
proof -
  have "mm_store m q = Some (Level (children c A (fst k) (snd k)))" if "A k = Some q" for q
    using builtD(3) [OF assms(1) that] assms(3) by (simp add: node_at_def content_def)
  with assms(2,4,5) show "mm_store (write_entry p j v m') =
      (if fst k = NINDIRECT_LEVELS c then mm_store m else (mm_store m)(the (A k) \<mapsto> Level ((children c A (fst k) (snd k))[j := v])))"
    "mm_root (write_entry p j v m') = (if fst k = NINDIRECT_LEVELS c then (mm_root m)[j := v] else mm_root m)"
    by (auto simp: points_def write_entry_def split: if_splits)
qed (simp_all add: write_entry_def split: level_ptr.splits option.splits node.splits)

lemma closed_insert:
  assumes "closed c (dom A)" "points c A (Suc i, x div ENTRIES_PER_INDIRECT_LEVEL c) p" "i < NINDIRECT_LEVELS c"
  shows "closed c (insert (i, x) (dom A))"
proof -
  have "Suc i < NINDIRECT_LEVELS c \<Longrightarrow> (Suc i, x div ENTRIES_PER_INDIRECT_LEVEL c) \<in> dom A"
    using assms(2) by (auto simp: points_def)
  with assms(1,3) show ?thesis unfolding closed_def by auto
qed

lemma placed_insert:
  assumes "built c lo n A m"
  shows "placed c lo (A(k \<mapsto> bump_next m))"
proof -
  have "q + node_pages c k' \<le> bump_next m" if "A k' = Some q" for k' q
    using builtD(3) [OF assms that] by (simp add: node_at_def)
  then have new: "node_span c k' q \<inter> node_span c k (bump_next m) = {}" if "A k' = Some q" for k' q
    using that unfolding node_span_def by fastforce
  have old: "lo \<le> q" "A k2 = Some q2 \<Longrightarrow> k1 \<noteq> k2 \<Longrightarrow> node_span c k1 q \<inter> node_span c k2 q2 = {}" if "A k1 = Some q" for k1 q k2 q2
    using builtD(2) [OF assms] that unfolding placed_def by blast+
  show ?thesis unfolding placed_def
  proof (intro allI impI conjI)
    fix k1 q1
    assume 1: "(A(k \<mapsto> bump_next m)) k1 = Some q1"
    then show "lo \<le> q1" using old(1) builtD(5) [OF assms] by (cases "k1 = k") auto
    fix k2 q2
    assume 2: "(A(k \<mapsto> bump_next m)) k2 = Some q2 \<and> k1 \<noteq> k2"
    show "node_span c k1 q1 \<inter> node_span c k2 q2 = {}"
    proof (cases "k1 = k")
      case True
      with 1 2 new [of k2 q2] show ?thesis by (cases "k2 = k") (simp_all add: Int_commute)
    next
      case False
      with 1 2 new [of k1 q1] old(2) [of k1 q1 k2 q2] show ?thesis by (cases "k2 = k") simp_all
    qed
  qed
qed

lemma built_add:
  assumes cfg: "cfg_ok c" and b: "built c lo n A m" and new: "(i, x) \<notin> dom A" and i: "i < NINDIRECT_LEVELS c"
    and p: "points c A (Suc i, x div ENTRIES_PER_INDIRECT_LEVEL c) p" and room: "node_pages c (i, x) \<le> bump_npages m"
    and m': "mm_root m' = (if Suc i = NINDIRECT_LEVELS c then (mm_root m)[x mod ENTRIES_PER_INDIRECT_LEVEL c := bump_next m] else mm_root m)"
      "mm_store m' = (if Suc i = NINDIRECT_LEVELS c then mm_store m else (mm_store m)(the (A (Suc i, x div ENTRIES_PER_INDIRECT_LEVEL c)) \<mapsto>
         Level ((children c A (Suc i) (x div ENTRIES_PER_INDIRECT_LEVEL c))[x mod ENTRIES_PER_INDIRECT_LEVEL c := bump_next m])))
         (bump_next m \<mapsto> content c A (i, x))"
      "bump_next m' = bump_next m + node_pages c (i, x)" "bump_npages m' = bump_npages m - node_pages c (i, x)"
  shows "built c lo n (A((i, x) \<mapsto> bump_next m)) m'"
proof -
  let ?E = "ENTRIES_PER_INDIRECT_LEVEL c" and ?q = "bump_next m"
  let ?A = "A((i, x) \<mapsto> ?q)" and ?up = "(Suc i, x div ?E)"
  have E: "0 < ?E" by (simp add: cfg_facts(1) [OF cfg])
  note ch = children_upd [OF _ E, of _ A i x ?q]
  have fin: "finite (dom A)" using builtD(1) [OF b] by (simp add: closed_def)
  then have w: "weight c (insert (i, x) (dom A)) = weight c (dom A) + node_pages c (i, x)" using new by (simp add: weight_def)
  have same: "content c ?A k = content c A k" if "k \<noteq> ?up" for k
    using that ch [of "fst k" "snd k"] by (cases k) (auto simp: content_def)
  have "node_at c ?A m' k q" if k: "?A k = Some q" for k q
  proof (cases "k = (i, x)")
    case True
    with k same [of k] builtD(5,7) [OF b] show ?thesis by (simp add: node_at_def m')
  next
    case False
    with k have k: "A k = Some q" by simp
    from builtD(3) [OF b k] have old: "mm_store m q = Some (content c A k)" "0 < q" "q + node_pages c k \<le> ?q" by (simp_all add: node_at_def)
    with node_pages_pos [OF cfg, of k] have q: "q < ?q" by linarith
    show ?thesis
    proof (cases "k = ?up")
      case True
      from k builtD(1) [OF b] have "Suc i < NINDIRECT_LEVELS c" unfolding True closed_def by blast
      with k q old show ?thesis by (simp add: node_at_def m' True content_def ch)
    next
      case False
      have "the (A ?up) \<noteq> q" if "Suc i \<noteq> NINDIRECT_LEVELS c"
        using p that placed_inj [OF cfg builtD(2) [OF b] k] False by (auto simp: points_def)
      with q old same [OF False] show ?thesis by (auto simp: node_at_def m')
    qed
  qed
  moreover have "mm_root m' = children c ?A (NINDIRECT_LEVELS c) 0"
    using builtD(4) [OF b] p i ch [of "NINDIRECT_LEVELS c" 0] by (auto simp: m' points_def)
  moreover have "closed c (dom ?A)" using closed_insert [OF builtD(1) [OF b] p i] by simp
  ultimately show ?thesis
    using placed_insert [OF b, of "(i, x)"] builtD(5-8) [OF b] room by (simp add: built_def w m')
qed

subsection \<open>Building\<close>

definition sec_key :: "memmap_cfg \<Rightarrow> nat \<Rightarrow> nat \<Rightarrow> nat \<times> nat" where
  "sec_key c s i = (i, s div ENTRIES_PER_INDIRECT_LEVEL c ^ i)"

definition sec_keys :: "memmap_cfg \<Rightarrow> nat \<Rightarrow> (nat \<times> nat) set" where
  "sec_keys c s = sec_key c s ` {..< NINDIRECT_LEVELS c}"

lemma sec_key_up: "fst (sec_key c s i) = i" "snd (sec_key c s i) div ENTRIES_PER_INDIRECT_LEVEL c = snd (sec_key c s (Suc i))"
  by (simp_all add: sec_key_def power_Suc2 div_mult2_eq del: power_Suc)

lemma weight_mono: "finite L \<Longrightarrow> K \<subseteq> L \<Longrightarrow> weight c K \<le> weight c L"
  unfolding weight_def by (rule sum_mono2) auto

lemma weight_insert: "finite K \<Longrightarrow> k \<notin> K \<Longrightarrow> weight c (insert k K) = weight c K + node_pages c k"
  by (simp add: weight_def)

lemma bump_alloc_ok:
  assumes "built c lo n A m" "k \<notin> dom A" "weight c (insert k (dom A)) \<le> n"
  shows "bump_alloc (node_pages c k) m =
      Inr (bump_next m, m\<lparr>bump_next := bump_next m + node_pages c k, bump_npages := bump_npages m - node_pages c k\<rparr>)"
    "node_pages c k \<le> bump_npages m"
  using builtD(5,6,8) [OF assms(1)] weight_insert [OF closedD(1) [OF builtD(1) [OF assms(1)]] assms(2), of c] assms(3)
  by (simp_all add: bump_alloc_def)

lemma read_child:
  assumes "cfg_ok c" "built c lo n A m" "points c A (sec_key c s (Suc i)) p"
  shows "read_entry p (snd (sec_key c s i) mod ENTRIES_PER_INDIRECT_LEVEL c) m = Inr (loc A (sec_key c s i))"
proof -
  have "snd (sec_key c s (Suc i)) * ENTRIES_PER_INDIRECT_LEVEL c + snd (sec_key c s i) mod ENTRIES_PER_INDIRECT_LEVEL c = snd (sec_key c s i)"
    unfolding sec_key_up(2) [symmetric] by (rule div_mult_mod_eq)
  with read_pointer [OF assms(2,3)] show ?thesis
    by (simp add: sec_key_up cfg_facts(1) [OF assms(1)]) (simp add: sec_key_def)
qed

lemma loc_0: "built c lo n A m \<Longrightarrow> loc A k = 0 \<longleftrightarrow> k \<notin> dom A"
  by (auto simp: loc_def node_at_def dest: builtD(3) split: option.splits)

lemma next_level_ok:
  assumes cfg: "cfg_ok c" and b: "built c lo n A m" and p: "points c A (sec_key c s (Suc i)) p" and i: "0 < i" "i < NINDIRECT_LEVELS c"
    and room: "weight c (insert (sec_key c s i) (dom A)) \<le> n"
  shows "\<exists>A' m' q. next_level c (snd (sec_key c s i) mod ENTRIES_PER_INDIRECT_LEVEL c) p m = Inr (q, m') \<and> built c lo n A' m' \<and>
    dom A' = insert (sec_key c s i) (dom A) \<and> points c A' (sec_key c s i) (At q)"
proof (cases "sec_key c s i \<in> dom A")
  case True
  then obtain q where "A (sec_key c s i) = Some q" by blast
  with loc_0 [OF b, of "sec_key c s i"] i b True show ?thesis
    by (intro exI [of _ A] exI [of _ m] exI [of _ q])
      (auto simp: next_level_def read_child [OF cfg b p] loc_def points_def sec_key_up)
next
  case False
  define x where "x = snd (sec_key c s i)"
  let ?E = "ENTRIES_PER_INDIRECT_LEVEL c"
  have k: "sec_key c s i = (i, x)" "sec_key c s (Suc i) = (Suc i, x div ?E)"
    by (simp_all add: x_def sec_key_def power_Suc2 div_mult2_eq del: power_Suc)
  note child = read_child [OF cfg b p, unfolded k(1) snd_conv]
  have np: "node_pages c (sec_key c s i) = 1" using i by (simp add: k node_pages_def)
  note bump = bump_alloc_ok [OF b False room]
  define m1 where "m1 = m\<lparr>bump_next := bump_next m + 1, bump_npages := bump_npages m - 1\<rparr>"
  define m2 where "m2 = write_node (bump_next m) (Level (replicate ?E 0)) (write_entry p (x mod ?E) (bump_next m) m1)"
  have "next_level c (x mod ?E) p m = Inr (bump_next m, m2)"
    using False bump(1) np by (simp add: next_level_def child loc_0 [OF b] k m1_def m2_def)
  moreover have "built c lo n (A(sec_key c s i \<mapsto> bump_next m)) m2"
  proof -
    have m1: "mm_root m1 = mm_root m" "mm_store m1 = mm_store m" by (simp_all add: m1_def)
    note w = write_entry_store [OF b p _ m1, of "x mod ?E" "bump_next m"]
    show ?thesis unfolding k(1)
    proof (rule built_add [OF cfg b _ i(2)])
      show "(i, x) \<notin> dom A" "points c A (Suc i, x div ?E) p" "node_pages c (i, x) \<le> bump_npages m"
        using False p bump(2) by (simp_all add: k)
    qed (use w False np content_new [OF builtD(1) [OF b], of i x] i in \<open>simp_all add: m2_def write_node_def k m1_def\<close>)
  qed
  ultimately show ?thesis using i
    by (intro exI [of _ "A(sec_key c s i \<mapsto> bump_next m)"] exI [of _ m2] exI [of _ "bump_next m"]) (simp add: points_def k)
qed

lemma descend_ok:
  assumes cfg: "cfg_ok c" and b: "built c lo n A m" and p: "points c A (sec_key c s (Suc i)) p" and i: "i < NINDIRECT_LEVELS c"
    and room: "weight c (dom A \<union> sec_key c s ` {1..i}) \<le> n"
    and idx: "\<forall>j < NINDIRECT_LEVELS c. indices ! j = snd (sec_key c s j) mod ENTRIES_PER_INDIRECT_LEVEL c"
  shows "\<exists>A' m' p'. descend c indices i p m = Inr (p', m') \<and> built c lo n A' m' \<and> dom A' = dom A \<union> sec_key c s ` {1..i} \<and>
    points c A' (sec_key c s 1) p'"
  using b p i room
proof (induction i arbitrary: A m p)
  case 0
  then show ?case by (intro exI [of _ A] exI [of _ m] exI [of _ p]) simp
next
  case (Suc i)
  let ?K = "dom A \<union> sec_key c s ` {1..Suc i}"
  have fin: "finite ?K" using closedD(1) [OF builtD(1) [OF Suc.prems(1)]] by simp
  have split: "{1..Suc i} = insert (Suc i) {1..i}" by auto
  have "weight c (insert (sec_key c s (Suc i)) (dom A)) \<le> n"
    using weight_mono [OF fin, of "insert (sec_key c s (Suc i)) (dom A)" c] Suc.prems(4) by fastforce
  from next_level_ok [OF cfg Suc.prems(1,2) _ Suc.prems(3) this] obtain A1 m1 q where
    n: "next_level c (snd (sec_key c s (Suc i)) mod ENTRIES_PER_INDIRECT_LEVEL c) p m = Inr (q, m1)" "built c lo n A1 m1"
      "dom A1 = insert (sec_key c s (Suc i)) (dom A)" "points c A1 (sec_key c s (Suc i)) (At q)" by blast
  have K: "dom A1 \<union> sec_key c s ` {1..i} = ?K" using n(3) split by auto
  from Suc.IH [OF n(2,4)] Suc.prems(3,4) K obtain A' m' p' where
    "descend c indices i (At q) m1 = Inr (p', m')" "built c lo n A' m'" "dom A' = ?K" "points c A' (sec_key c s 1) p'" by auto
  moreover have "indices ! Suc i = snd (sec_key c s (Suc i)) mod ENTRIES_PER_INDIRECT_LEVEL c" using idx Suc.prems(3) by simp
  ultimately show ?case using n(1) by (intro exI [of _ A'] exI [of _ m'] exI [of _ p']) simp
qed

lemma write_commute: "p \<noteq> At q \<Longrightarrow> write_entry p j v (write_node q nd m) = write_node q nd (write_entry p j v m)"
  by (auto simp: write_entry_def write_node_def fun_upd_twist split: level_ptr.splits option.splits node.splits)

lemma points_old:
  assumes "cfg_ok c" "built c lo n A m" "points c A k p"
  shows "p \<noteq> At (bump_next m)"
proof (cases p)
  case (At q)
  with assms(3) have "A k = Some q" by (auto simp: points_def split: if_splits)
  from builtD(3) [OF assms(2) this] node_pages_pos [OF assms(1), of k] At show ?thesis by (simp add: node_at_def)
qed simp

lemma section_frames:
  "content c A (0, x) = Section (map (\<lambda>i. \<lparr>fr_ppn = x * NFRAMES_PER_SECTION c + i, fr_rc = 0\<rparr>) [0 ..< NFRAMES_PER_SECTION c])"
  by (simp add: content_def)

lemma init_section_ok:
  assumes cfg: "cfg_ok c" and b: "built c lo n A m" and base: "base < 2 ^ MAX_PPN_BITS c" "NFRAMES_PER_SECTION c dvd base"
    and room: "weight c (dom A \<union> sec_keys c (sec_of c base)) \<le> n"
  shows "\<exists>A' m'. init_section c base m = Inr m' \<and> built c lo n A' m' \<and> dom A' = dom A \<union> sec_keys c (sec_of c base)"
proof -
  let ?E = "ENTRIES_PER_INDIRECT_LEVEL c" and ?N = "NINDIRECT_LEVELS c" and ?s = "sec_of c base"
  let ?I = "indirect_indices_for c base"
  have idx: "\<forall>j < ?N. ?I ! j = snd (sec_key c ?s j) mod ?E" using indirect_index [OF cfg base(1)] by (simp add: sec_key_def)
  have N: "0 < ?N" using cfg_facts(2) [OF cfg] .
  then have keys: "sec_keys c ?s = insert (sec_key c ?s 0) (sec_key c ?s ` {1..?N - 1})"
    unfolding sec_keys_def image_insert [symmetric] by (intro arg_cong [where f = "image _"]) auto
  have fin: "finite (dom A \<union> sec_keys c ?s)" using closedD(1) [OF builtD(1) [OF b]] by (simp add: sec_keys_def)
  have top: "points c A (sec_key c ?s (Suc (?N - 1))) Root"
    using N section_top [OF cfg base(1)] by (simp add: points_def sec_key_def)
  have "dom A \<union> sec_key c ?s ` {1..?N - 1} \<subseteq> dom A \<union> sec_keys c ?s" using keys by auto
  from weight_mono [OF fin this, of c] room have "weight c (dom A \<union> sec_key c ?s ` {1..?N - 1}) \<le> n" by linarith
  from descend_ok [OF cfg b top _ this idx] N obtain A1 m1 p where
    d: "descend c ?I (?N - 1) Root m = Inr (p, m1)" "built c lo n A1 m1" "dom A1 = dom A \<union> sec_key c ?s ` {1..?N - 1}"
      "points c A1 (sec_key c ?s (Suc 0)) p" by auto
  have all: "insert (sec_key c ?s 0) (dom A1) = dom A \<union> sec_keys c ?s" using d(3) keys by auto
  have i0: "?I ! 0 = ?s mod ?E" "sec_key c ?s 0 = (0, ?s)" "sec_key c ?s (Suc 0) = (Suc 0, ?s div ?E)" using idx N by (simp_all add: sec_key_def)
  note child = read_child [OF cfg d(2,4), unfolded i0(2) snd_conv]
  show ?thesis
  proof (cases "(0, ?s) \<in> dom A1")
    case True
    then have "init_section c base m = Inr m1"
      by (simp add: init_section_def Let_def d(1) [unfolded One_nat_def] i0(1) child loc_0 [OF d(2)])
    with d(2) all True show ?thesis by (auto simp: i0(2) insert_absorb)
  next
    case False
    have base_eq: "?s * NFRAMES_PER_SECTION c = base" using base(2) by simp
    define m2 where "m2 = m1\<lparr>bump_next := bump_next m1 + MEMSECTION_NPAGES c, bump_npages := bump_npages m1 - MEMSECTION_NPAGES c\<rparr>"
    define m3 where "m3 = write_entry p (?s mod ?E) (bump_next m1) (write_node (bump_next m1) (content c A1 (0, ?s)) m2)"
    have np: "node_pages c (0, ?s) = MEMSECTION_NPAGES c" by (simp add: node_pages_def)
    note bump = bump_alloc_ok [OF d(2) False, unfolded np]
    have room1: "weight c (insert (0, ?s) (dom A1)) \<le> n" using room all i0(2) by simp
    have init: "init_section c base m = Inr m3"
      using False bump(1) [OF room1]
      by (simp add: init_section_def Let_def d(1) [unfolded One_nat_def] i0(1) child loc_0 [OF d(2)] m3_def m2_def section_frames base_eq)
    have m2: "mm_root m2 = mm_root m1" "mm_store m2 = mm_store m1" by (simp_all add: m2_def)
    note w = write_entry_store [OF d(2,4) _ m2, of "?s mod ?E" "bump_next m1", unfolded i0(3) fst_conv snd_conv]
    have m3: "m3 = write_node (bump_next m1) (content c A1 (0, ?s)) (write_entry p (?s mod ?E) (bump_next m1) m2)"
      unfolding m3_def by (rule write_commute [OF points_old [OF cfg d(2,4)]])
    have "bump_next m2 = bump_next m1 + MEMSECTION_NPAGES c" "bump_npages m2 = bump_npages m1 - MEMSECTION_NPAGES c" by (simp_all add: m2_def)
    with w have "built c lo n (A1((0, ?s) \<mapsto> bump_next m1)) m3"
    proof (intro built_add [OF cfg d(2) False N])
      show "points c A1 (Suc 0, ?s div ?E) p" "node_pages c (0, ?s) \<le> bump_npages m1"
        using d(4) bump(2) [OF room1] by (simp_all add: i0(3) np)
    qed (simp_all add: m3 write_node_def np)
    with init all show ?thesis by (intro exI [of _ "A1((0, ?s) \<mapsto> bump_next m1)"] exI [of _ m3]) (simp add: i0(2))
  qed
qed

subsection \<open>All zones\<close>

definition keys :: "memmap_cfg \<Rightarrow> nat set \<Rightarrow> (nat \<times> nat) set" where
  "keys c U = (\<Union>s \<in> U. sec_keys c s)"

definition secs :: "memmap_cfg \<Rightarrow> page_range list \<Rightarrow> nat set" where
  "secs c rs = (\<Union>r \<in> set rs. sec_of c ` range_pages r)"

lemma keys_simps [simp]: "keys c {} = {}" "keys c (U \<union> V) = keys c U \<union> keys c V" "keys c (insert s U) = sec_keys c s \<union> keys c U"
  by (auto simp: keys_def)

lemma secs_simps [simp]: "secs c [] = {}" "secs c (r # rs) = sec_of c ` range_pages r \<union> secs c rs"
  by (simp_all add: secs_def)

lemma finite_keys [simp]: "finite U \<Longrightarrow> finite (keys c U)" "finite (secs c rs)"
  by (simp_all add: keys_def sec_keys_def secs_def range_pages_def)

lemma next_section:
  assumes "cfg_ok c" "s * NFRAMES_PER_SECTION c < 2 ^ MAX_PPN_BITS c"
  shows "padd (s * NFRAMES_PER_SECTION c) (NFRAMES_PER_SECTION c) = Inr (Suc s * NFRAMES_PER_SECTION c)"
proof -
  let ?F = "NFRAMES_PER_SECTION c" and ?M = "MAX_PPN_BITS c" and ?S = "FRAME_IN_SECTION_IDX_BITS c"
  have S: "?S < ?M" "?M < 64" using assms(1) by (simp_all add: cfg_ok_def)
  then have M: "(2::nat) ^ ?M = 2 ^ (?M - ?S) * ?F" by (simp add: NFRAMES_PER_SECTION_def flip: power_add)
  with assms(2) have "s < 2 ^ (?M - ?S)" by simp
  then have "Suc s * ?F \<le> 2 ^ ?M" unfolding M by (intro mult_le_mono1) simp
  also have "(2::nat) ^ ?M < u64_limit" using S by (intro power_strict_increasing) simp_all
  finally show ?thesis by (simp add: padd_def add.commute)
qed

definition span :: "memmap_cfg \<Rightarrow> nat \<Rightarrow> nat \<Rightarrow> nat set" where
  "span c s fin = {t. s \<le> t \<and> t * NFRAMES_PER_SECTION c < fin}"

lemma span_step: "s * NFRAMES_PER_SECTION c < fin \<Longrightarrow> span c s fin = insert s (span c (Suc s) fin)"
  by (auto simp: span_def le_less Suc_le_eq)

lemma span_end: "\<not> s * NFRAMES_PER_SECTION c < fin \<Longrightarrow> span c s fin = {}"
  unfolding span_def by (auto simp: not_less) (meson le_trans mult_le_mono1 not_less)

lemma span_range:
  assumes "0 < snd r"
  shows "span c (sec_of c (fst r)) (fst r + snd r) = sec_of c ` range_pages r"
proof (intro set_eqI iffI)
  fix t
  let ?F = "NFRAMES_PER_SECTION c"
  assume t: "t \<in> span c (sec_of c (fst r)) (fst r + snd r)"
  show "t \<in> sec_of c ` range_pages r"
  proof (cases "fst r \<le> t * ?F")
    case True
    with t show ?thesis by (intro image_eqI [of _ _ "t * ?F"]) (simp_all add: span_def range_pages_def)
  next
    case False
    then have "t \<le> sec_of c (fst r)" by (simp add: less_eq_div_iff_mult_less_eq)
    with t assms show ?thesis by (intro image_eqI [of _ _ "fst r"]) (simp_all add: span_def range_pages_def)
  qed
next
  fix t
  assume "t \<in> sec_of c ` range_pages r"
  then obtain p where p: "t = sec_of c p" "fst r \<le> p" "p < fst r + snd r" by (auto simp: range_pages_def)
  moreover have "sec_of c p * NFRAMES_PER_SECTION c \<le> p" by simp
  ultimately have "sec_of c p * NFRAMES_PER_SECTION c < fst r + snd r" by linarith
  with p show "t \<in> span c (sec_of c (fst r)) (fst r + snd r)" by (simp add: span_def div_le_mono)
qed

lemma init_sections_ok:
  assumes "cfg_ok c" "fin \<le> 2 ^ MAX_PPN_BITS c" "built c lo n A m" "weight c (dom A \<union> keys c (span c s fin)) \<le> n"
    "finite (span c s fin)"
  shows "\<exists>A' m'. init_sections c (s * NFRAMES_PER_SECTION c) fin m = Inr m' \<and> built c lo n A' m' \<and>
    dom A' = dom A \<union> keys c (span c s fin)"
  using assms(3-5)
proof (induction "fin - s * NFRAMES_PER_SECTION c" arbitrary: s A m rule: less_induct)
  case less
  let ?F = "NFRAMES_PER_SECTION c"
  show ?case
  proof (cases "s * ?F < fin")
    case True
    note span = span_step [OF True]
    have fin: "finite (dom A \<union> keys c (span c s fin))" using closedD(1) [OF builtD(1) [OF less.prems(1)]] less.prems(3) by simp
    have base: "s * ?F < 2 ^ MAX_PPN_BITS c" using True assms(2) by linarith
    have "dom A \<union> sec_keys c (sec_of c (s * ?F)) \<subseteq> dom A \<union> keys c (span c s fin)" by (auto simp: span)
    from weight_mono [OF fin this, of c] less.prems(2) have "weight c (dom A \<union> sec_keys c (sec_of c (s * ?F))) \<le> n" by linarith
    from init_section_ok [OF assms(1) less.prems(1) base _ this] obtain A1 m1 where
      1: "init_section c (s * ?F) m = Inr m1" "built c lo n A1 m1" "dom A1 = dom A \<union> sec_keys c s" by auto
    have "fin - Suc s * ?F < fin - s * ?F" using True by (simp add: diff_less_mono2)
    from less.hyps [OF this 1(2)] less.prems(2,3) obtain A' m' where
      "init_sections c (Suc s * ?F) fin m1 = Inr m'" "built c lo n A' m'" "dom A' = dom A \<union> keys c (span c s fin)"
      by (auto simp: 1(3) span Un_assoc)
    with 1(1) True next_section [OF assms(1) base] show ?thesis
      by (intro exI [of _ A'] exI [of _ m']) (simp add: init_sections.simps [of c "s * ?F"])
  next
    case False
    then show ?thesis using less.prems(1)
      by (intro exI [of _ A] exI [of _ m]) (simp add: init_sections.simps [of c "s * ?F"] span_end)
  qed
qed

text \<open>Ranges of pages that the architecture can number.\<close>

definition ranges_in :: "memmap_cfg \<Rightarrow> page_range list \<Rightarrow> bool" where
  "ranges_in c rs \<longleftrightarrow> (\<forall>r \<in> set rs. range_pages r \<subseteq> {..< 2 ^ MAX_PPN_BITS c})"

lemma range_end_in:
  assumes "cfg_ok c" "range_pages r \<subseteq> {..< 2 ^ MAX_PPN_BITS c}" "snd r \<noteq> 0"
  shows "fst r + snd r \<le> 2 ^ MAX_PPN_BITS c" "range_end r = Inr (fst r + snd r)"
proof -
  have "fst r + snd r - 1 \<in> range_pages r" using assms(3) by (auto simp: range_pages_def)
  with assms(2,3) show le: "fst r + snd r \<le> 2 ^ MAX_PPN_BITS c" by auto
  also have "(2::nat) ^ MAX_PPN_BITS c < u64_limit" using assms(1) by (intro power_strict_increasing) (simp_all add: cfg_ok_def)
  finally show "range_end r = Inr (fst r + snd r)" by (simp add: range_end_def)
qed

lemma range_empty: "snd r = 0 \<Longrightarrow> range_pages r = {}"
  by (simp add: range_pages_def)

lemma init_zones_ok:
  assumes "cfg_ok c" "ranges_in c rs" "built c lo n A m" "weight c (dom A \<union> keys c (secs c rs)) \<le> n"
  shows "\<exists>A' m'. init_zones c rs m = Inr m' \<and> built c lo n A' m' \<and> dom A' = dom A \<union> keys c (secs c rs)"
  using assms(2-4)
proof (induction rs arbitrary: A m)
  case Nil
  then show ?case by auto
next
  case (Cons r rs)
  have rs: "ranges_in c rs" "range_pages r \<subseteq> {..< 2 ^ MAX_PPN_BITS c}" using Cons.prems(1) by (simp_all add: ranges_in_def)
  show ?case
  proof (cases "snd r = 0")
    case True
    with Cons rs(1) show ?thesis by (simp add: range_empty)
  next
    case False
    note e = range_end_in [OF assms(1) rs(2) False]
    have span: "span c (sec_of c (fst r)) (fst r + snd r) = sec_of c ` range_pages r" using False by (simp add: span_range)
    have fin: "finite (dom A \<union> keys c (secs c (r # rs)))" using closedD(1) [OF builtD(1) [OF Cons.prems(2)]] by (simp add: range_pages_def)
    have "dom A \<union> keys c (sec_of c ` range_pages r) \<subseteq> dom A \<union> keys c (secs c (r # rs))" by auto
    from weight_mono [OF fin this, of c] Cons.prems(3) have "weight c (dom A \<union> keys c (sec_of c ` range_pages r)) \<le> n" by linarith
    from init_sections_ok [OF assms(1) e(1) Cons.prems(2), of "sec_of c (fst r)"] this obtain A1 m1 where
      1: "init_sections c (section_base c (fst r)) (fst r + snd r) m = Inr m1" "built c lo n A1 m1"
        "dom A1 = dom A \<union> keys c (sec_of c ` range_pages r)"
      unfolding span section_base_def by (auto simp: range_pages_def)
    from Cons.IH [OF rs(1) 1(2)] Cons.prems(3) obtain A' m' where
      "init_zones c rs m1 = Inr m'" "built c lo n A' m'" "dom A' = dom A \<union> keys c (secs c (r # rs))"
      by (auto simp: 1(3) Un_assoc)
    with 1(1) e(2) False show ?thesis by (intro exI [of _ A'] exI [of _ m']) simp
  qed
qed

subsection \<open>The dry run counts the nodes\<close>

definition counted :: "memmap_cfg \<Rightarrow> nat set \<Rightarrow> nat set \<times> (nat \<times> nat) set" where
  "counted c U = ((\<lambda>t. t * NFRAMES_PER_SECTION c) ` U, (\<Union>t \<in> U. sec_key c t ` {1 ..< NINDIRECT_LEVELS c}))"

lemma indirect_keys_set: "cfg_ok c \<Longrightarrow> set (indirect_keys c (t * NFRAMES_PER_SECTION c)) = sec_key c t ` {1 ..< NINDIRECT_LEVELS c}"
  by (simp add: indirect_keys_def shift_level sec_key_def)

lemma count_sections_eq:
  assumes "cfg_ok c" "fin \<le> 2 ^ MAX_PPN_BITS c"
  shows "count_sections c (s * NFRAMES_PER_SECTION c) fin (counted c U) = Inr (counted c (U \<union> span c s fin))"
proof (induction "fin - s * NFRAMES_PER_SECTION c" arbitrary: s U rule: less_induct)
  case less
  let ?F = "NFRAMES_PER_SECTION c"
  show ?case
  proof (cases "s * ?F < fin")
    case True
    have base: "s * ?F < 2 ^ MAX_PPN_BITS c" using True assms(2) by linarith
    have "fin - Suc s * ?F < fin - s * ?F" using True by (simp add: diff_less_mono2)
    from less [OF this, of "insert s U"] have
      rec: "count_sections c (Suc s * ?F) fin (counted c (insert s U)) = Inr (counted c (U \<union> span c s fin))"
      by (simp add: span_step [OF True])
    have "counted c (insert s U) = (insert (s * ?F) (fst (counted c U)), snd (counted c U) \<union> set (indirect_keys c (s * ?F)))"
      by (auto simp: counted_def indirect_keys_set [OF assms(1)])
    with rec True next_section [OF assms(1) base] show ?thesis
      by (simp add: count_sections.simps [of c "s * ?F" fin "fst (counted c U)" "snd (counted c U)", simplified] Let_def)
  next
    case False
    then show ?thesis
      by (simp add: count_sections.simps [of c "s * ?F" fin "fst (counted c U)" "snd (counted c U)", simplified] span_end)
  qed
qed

lemma count_zones_eq:
  assumes "cfg_ok c" "ranges_in c rs"
  shows "count_zones c rs (counted c U) = Inr (counted c (U \<union> secs c rs))"
  using assms(2)
proof (induction rs arbitrary: U)
  case (Cons r rs)
  have rs: "ranges_in c rs" "range_pages r \<subseteq> {..< 2 ^ MAX_PPN_BITS c}" using Cons.prems by (simp_all add: ranges_in_def)
  show ?case
  proof (cases "snd r = 0")
    case True
    with Cons.IH [OF rs(1)] show ?thesis by (simp add: range_empty)
  next
    case False
    note e = range_end_in [OF assms(1) rs(2) False]
    with False show ?thesis
      by (simp add: section_base_def count_sections_eq [OF assms(1) e(1)] span_range Cons.IH [OF rs(1)] Un_assoc)
  qed
qed simp

lemma weight_counted:
  assumes "cfg_ok c" "finite U"
  shows "weight c (keys c U) = card (fst (counted c U)) * MEMSECTION_NPAGES c + card (snd (counted c U))"
proof -
  let ?N = "NINDIRECT_LEVELS c" and ?I = "snd (counted c U)"
  have N: "{..< ?N} = insert 0 {1 ..< ?N}" using cfg_facts(2) [OF assms(1)] by auto
  have keys: "keys c U = Pair 0 ` U \<union> ?I"
    unfolding keys_def sec_keys_def N by (auto simp: counted_def sec_key_def)
  have fin: "finite (Pair (0::nat) ` U)" "finite ?I" "Pair 0 ` U \<inter> ?I = {}" using assms(2) by (auto simp: counted_def sec_key_def)
  have "weight c (Pair 0 ` U) = card U * MEMSECTION_NPAGES c"
    unfolding weight_def by (subst sum.reindex) (simp_all add: inj_on_def node_pages_def)
  moreover have "card (fst (counted c U)) = card U" unfolding counted_def fst_conv by (rule card_image) (simp add: inj_on_def NFRAMES_PER_SECTION_def)
  moreover have "weight c ?I = card ?I"
  proof -
    have "node_pages c k = 1" if "k \<in> ?I" for k using that by (auto simp: counted_def sec_key_def node_pages_def)
    then show ?thesis by (simp add: weight_def)
  qed
  moreover have "weight c (keys c U) = weight c (Pair 0 ` U) + weight c ?I"
    unfolding keys weight_def by (rule sum.union_disjoint [OF fin])
  ultimately show ?thesis by simp
qed

lemma calculate_eq:
  assumes "cfg_ok c" "ranges_in c rs"
  shows "calculate_memmap_npages c rs =
    (if weight c (keys c (secs c rs)) < u64_limit then Inr (weight c (keys c (secs c rs))) else Inl Overflow_Panic)"
proof -
  have zero: "counted c {} = ({}, {})" by (simp add: counted_def)
  have "count_zones c rs ({}, {}) = Inr (counted c (secs c rs))" using count_zones_eq [OF assms, of "{}"] unfolding zero by simp
  moreover obtain S I where SI: "counted c (secs c rs) = (S, I)" by fastforce
  moreover note weight_counted [OF assms(1) finite_keys(2), of c rs]
  ultimately show ?thesis by (auto simp: calculate_memmap_npages_def checked_mul_def padd_def)
qed

subsection \<open>Lookup in the tree\<close>

lemma sec_key_closed:
  assumes "closed c K" "sec_key c s i \<in> K" "i + j < NINDIRECT_LEVELS c"
  shows "sec_key c s (i + j) \<in> K"
  using assms(3)
proof (induction j)
  case (Suc j)
  then have "sec_key c s (i + j) \<in> K" by simp
  with closedD(3) [OF assms(1), of "i + j" "snd (sec_key c s (i + j))"] Suc.prems show ?case
    by (simp add: sec_key_def power_Suc2 div_mult2_eq del: power_Suc)
qed (use assms(2) in simp)

lemma lookup_section_ok:
  assumes cfg: "cfg_ok c" and b: "built c lo n A m" and i: "i < NINDIRECT_LEVELS c"
    and idx: "\<forall>j < NINDIRECT_LEVELS c. indices ! j = snd (sec_key c s j) mod ENTRIES_PER_INDIRECT_LEVEL c"
  shows "lookup_section indices i (loc A (sec_key c s i)) m =
    (if sec_key c s 0 \<in> dom A then Inr (loc A (sec_key c s 0)) else Inl Assert_Panic)"
  using i
proof (induction i)
  case 0
  then show ?case by (simp add: loc_0 [OF b])
next
  case (Suc i)
  show ?case
  proof (cases "sec_key c s (Suc i) \<in> dom A")
    case True
    then obtain q where q: "A (sec_key c s (Suc i)) = Some q" by blast
    then have p: "points c A (sec_key c s (Suc i)) (At q)" using Suc.prems by (simp add: points_def sec_key_up)
    have "loc A (sec_key c s (Suc i)) = q" using q by (simp add: loc_def)
    with Suc read_child [OF cfg b p] idx True loc_0 [OF b, of "sec_key c s (Suc i)"] show ?thesis by simp
  next
    case False
    then have "sec_key c s 0 \<notin> dom A" using sec_key_closed [OF builtD(1) [OF b], of s 0 "Suc i"] Suc.prems by auto
    with False loc_0 [OF b, of "sec_key c s (Suc i)"] show ?thesis by simp
  qed
qed

lemma get_frame_raw_eq:
  assumes cfg: "cfg_ok c" and b: "built c lo n A m" and ppn: "ppn < 2 ^ MAX_PPN_BITS c"
  shows "get_frame_raw c ppn m =
    (case A (0, sec_of c ppn) of None \<Rightarrow> Inl Assert_Panic | Some q \<Rightarrow> Inr (q, ppn mod NFRAMES_PER_SECTION c))"
    "A (0, sec_of c ppn) = Some q \<Longrightarrow> frame_at m (q, ppn mod NFRAMES_PER_SECTION c) = Some \<lparr>fr_ppn = ppn, fr_rc = 0\<rparr>"
proof -
  let ?s = "sec_of c ppn" and ?I = "indirect_indices_for c ppn" and ?N = "NINDIRECT_LEVELS c"
  have idx: "\<forall>j < ?N. ?I ! j = snd (sec_key c ?s j) mod ENTRIES_PER_INDIRECT_LEVEL c"
    using indirect_index [OF cfg ppn] by (simp add: sec_key_def)
  have N: "0 < ?N" using cfg_facts(2) [OF cfg] .
  have top: "points c A (sec_key c ?s (Suc (?N - 1))) Root"
    using N section_top [OF cfg ppn] by (simp add: points_def sec_key_def)
  have root: "read_entry Root (?I ! (?N - 1)) m = Inr (loc A (sec_key c ?s (?N - 1)))"
    using read_child [OF cfg b top] idx N by simp
  have k0: "sec_key c ?s 0 = (0, ?s)" by (simp add: sec_key_def)
  have lk: "lookup_section ?I (?N - 1) (loc A (sec_key c ?s (?N - 1))) m =
    (if (0, ?s) \<in> dom A then Inr (loc A (0, ?s)) else Inl Assert_Panic)"
    using lookup_section_ok [OF cfg b _ idx, of "?N - 1"] N unfolding k0 by simp
  have store: "mm_store m q = Some (content c A (0, ?s))" if "A (0, ?s) = Some q" for q
    using builtD(3) [OF b that] by (simp add: node_at_def)
  have mask: "(2::nat) ^ FRAME_IN_SECTION_IDX_BITS c = NFRAMES_PER_SECTION c" by (simp add: NFRAMES_PER_SECTION_def)
  show "get_frame_raw c ppn m =
    (case A (0, ?s) of None \<Rightarrow> Inl Assert_Panic | Some q \<Rightarrow> Inr (q, ppn mod NFRAMES_PER_SECTION c))"
    unfolding get_frame_raw_def Let_def root sum.case lk mask
    by (cases "A (0, ?s)") (auto simp: store loc_def section_frames)
  show "frame_at m (q, ppn mod NFRAMES_PER_SECTION c) = Some \<lparr>fr_ppn = ppn, fr_rc = 0\<rparr>" if "A (0, ?s) = Some q" for q
    using store [OF that] by (simp add: frame_at_def section_frames)
qed

subsection \<open>Boot\<close>

abbreviation avail_ranges :: "sys_mem_zones \<Rightarrow> page_range list" where
  "avail_ranges s \<equiv> map az_range (avail_mem_zones s)"

lemma secs_avail: "secs c (avail_ranges s) = sec_of c ` avail_pages s"
  by (auto simp: secs_def avail_pages_def)

lemma ranges_in_avail: "avail_pages s \<subseteq> {..< 2 ^ MAX_PPN_BITS c} \<Longrightarrow> ranges_in c (avail_ranges s)"
  by (auto simp: ranges_in_def avail_pages_def)

text \<open>What the scanner of the device tree leaves: regions that are not empty, without page
  zero and within the page numbers of the architecture.\<close>

definition regions_ok :: "memmap_cfg \<Rightarrow> (nat \<times> nat) list \<Rightarrow> bool" where
  "regions_ok c avail \<longleftrightarrow> list_all (\<lambda>(sppn, eppn). 0 < sppn \<and> sppn < eppn \<and> eppn \<le> 2 ^ MAX_PPN_BITS c) avail"

lemma boot_zones:
  assumes "commit_to_pmm debug avail rsv sys_mem_zones_new = Inr s" "debug \<or> regions_apart avail rsv" "regions_ok c avail"
  shows "zones_ok s" "\<forall>a \<in> set (avail_mem_zones s). 0 < az_npages a" "avail_pages s \<subseteq> {0 <..< 2 ^ MAX_PPN_BITS c}"
proof -
  from commit_to_pmm_ok [OF assms(1,2)] have ok: "zones_ok s" "avail_mem_zones s = map avail_zone avail" by simp_all
  from ok(1) show "zones_ok s" .
  show "\<forall>a \<in> set (avail_mem_zones s). 0 < az_npages a" "avail_pages s \<subseteq> {0 <..< 2 ^ MAX_PPN_BITS c}"
    using assms(3) by (auto simp: ok(2) regions_ok_def list_all_iff avail_zone_def avail_pages_def range_pages_def az_range_def)
qed

lemma memmap_init_built:
  assumes cfg: "cfg_ok c" and z: "zones_ok s" "\<forall>a \<in> set (avail_mem_zones s). 0 < az_npages a" "avail_pages s \<subseteq> {0 <..< 2 ^ MAX_PPN_BITS c}"
    and n: "calculate_memmap_npages c (avail_ranges s) = Inr n" and l: "leak n s = Inr (Some p, s')"
  shows "\<exists>A m. memmap_init c leak_for_memmap s = Inr (m, s') \<and> built c p n A m \<and> dom A = keys c (sec_of c ` avail_pages s')"
proof -
  have rin: "avail_pages s \<subseteq> {..< 2 ^ MAX_PPN_BITS c}" using z(3) by auto
  from leak_ok [OF l z(1,2)] obtain a where s': "zones_ok s'" "{p ..< p + n} \<subseteq> avail_pages s"
    "avail_pages s' = avail_pages s - {p ..< p + n}" "a \<in> set (avail_mem_zones s)" "az_start a = p" by auto
  have nw: "n = weight c (keys c (sec_of c ` avail_pages s))"
    using n by (simp add: calculate_eq [OF cfg ranges_in_avail [OF rin]] secs_avail split: if_splits)
  have "p \<in> avail_pages s" using s'(4,5) z(2) by (auto simp: avail_pages_def range_pages_def az_range_def)
  with z(3) have p: "0 < p" "p < 2 ^ MAX_PPN_BITS c" by auto
  have "p + n - 1 \<in> avail_pages s" if "n \<noteq> 0" using s'(2) that by auto
  with rin p(2) have "p + n \<le> 2 ^ MAX_PPN_BITS c" by (cases "n = 0") force+
  also have "(2::nat) ^ MAX_PPN_BITS c < u64_limit" using cfg by (intro power_strict_increasing) (simp_all add: cfg_ok_def)
  finally have pn: "p + n < u64_limit" .
  let ?m = "\<lparr>mm_root = replicate (ENTRIES_PER_INDIRECT_LEVEL c) 0, mm_store = Map.empty, bump_next = p, bump_npages = n\<rparr>"
  have "children c Map.empty (NINDIRECT_LEVELS c) 0 = replicate (ENTRIES_PER_INDIRECT_LEVEL c) 0"
    by (intro nth_equalityI) (simp_all add: children_def loc_def)
  with p(1) pn have start: "built c p n Map.empty ?m"
    by (simp add: built_def closed_def placed_def weight_def)
  have "keys c (sec_of c ` avail_pages s') \<subseteq> keys c (sec_of c ` avail_pages s)" using s'(3) by (auto simp: keys_def)
  moreover have "finite (keys c (sec_of c ` avail_pages s))" using finite_keys(1) [OF finite_keys(2) [of c "avail_ranges s"], of c] by (simp add: secs_avail)
  ultimately have "weight c (keys c (sec_of c ` avail_pages s')) \<le> n" unfolding nw by (intro weight_mono)
  moreover have "ranges_in c (avail_ranges s')" using s'(3) rin by (intro ranges_in_avail) blast
  ultimately obtain A m where "init_zones c (avail_ranges s') ?m = Inr m" "built c p n A m" "dom A = keys c (sec_of c ` avail_pages s')"
    using init_zones_ok [OF cfg _ start, of "avail_ranges s'"] by (auto simp: secs_avail)
  then show ?thesis using n l by (auto simp: memmap_init_def leak_for_memmap_def)
qed

lemma section_bytes:
  assumes "cfg_ok c" "i < NFRAMES_PER_SECTION c"
  shows "frame_bytes c (q, i) \<subseteq> pages_bytes c q (MEMSECTION_NPAGES c)"
proof -
  have "i * 16 + 16 \<le> NFRAMES_PER_SECTION c * 16" using assms(2) by simp
  then have "i * 16 + 16 \<le> MEMSECTION_NPAGES c * 2 ^ PAGE_SIZE_BITS c" using cfg_facts(5) [OF assms(1)] by simp
  then show ?thesis by (auto simp: frame_bytes_def pages_bytes_def add_mult_distrib)
qed

lemma pages_bytes_mono: "p \<le> q \<Longrightarrow> q + k \<le> p + n \<Longrightarrow> pages_bytes c q k \<subseteq> pages_bytes c p n"
  unfolding pages_bytes_def using mult_le_mono1 [of p q "2 ^ PAGE_SIZE_BITS c"] mult_le_mono1 [of "q + k" "p + n" "2 ^ PAGE_SIZE_BITS c"] by auto

lemma pages_bytes_disjoint: "{p ..< p + n} \<inter> {q ..< q + k} = {} \<Longrightarrow> pages_bytes c p n \<inter> pages_bytes c q k = {}"
proof -
  assume "{p ..< p + n} \<inter> {q ..< q + k} = {}"
  then have "n = 0 \<or> k = 0 \<or> p + n \<le> q \<or> q + k \<le> p" by auto
  then have "n = 0 \<or> k = 0 \<or> (p + n) * 2 ^ PAGE_SIZE_BITS c \<le> q * 2 ^ PAGE_SIZE_BITS c \<or> (q + k) * 2 ^ PAGE_SIZE_BITS c \<le> p * 2 ^ PAGE_SIZE_BITS c"
    by (meson mult_le_mono1)
  then show ?thesis by (auto simp: pages_bytes_def)
qed

lemma frames_inside:
  assumes "cfg_ok c" "built c p n A m" "A (0, sec_of c ppn) = Some q"
  shows "frame_bytes c (q, ppn mod NFRAMES_PER_SECTION c) \<subseteq> pages_bytes c p n"
proof -
  have "p \<le> q" using builtD(2) [OF assms(2)] assms(3) unfolding placed_def by blast
  moreover have "q + MEMSECTION_NPAGES c \<le> p + n"
    using builtD(3) [OF assms(2,3)] builtD(5,6) [OF assms(2)] by (simp add: node_at_def node_pages_def)
  ultimately show ?thesis using section_bytes [OF assms(1), of "ppn mod NFRAMES_PER_SECTION c" q] pages_bytes_mono [of p q] by (meson NFRAMES_pos mod_less_divisor subset_trans)
qed

lemma frames_apart:
  assumes "cfg_ok c" "built c p n A m" "A (0, sec_of c x) = Some q" "A (0, sec_of c y) = Some r" "x \<noteq> y"
  shows "frame_bytes c (q, x mod NFRAMES_PER_SECTION c) \<inter> frame_bytes c (r, y mod NFRAMES_PER_SECTION c) = {}"
proof (cases "sec_of c x = sec_of c y")
  case True
  with assms(5) have "x mod NFRAMES_PER_SECTION c \<noteq> y mod NFRAMES_PER_SECTION c" by (metis div_mult_mod_eq)
  with True assms(3,4) show ?thesis by (auto simp: frame_bytes_def)
next
  case False
  then have "node_span c (0, sec_of c x) q \<inter> node_span c (0, sec_of c y) r = {}"
    using builtD(2) [OF assms(2)] assms(3,4) unfolding placed_def by blast
  then have "pages_bytes c q (MEMSECTION_NPAGES c) \<inter> pages_bytes c r (MEMSECTION_NPAGES c) = {}"
    by (intro pages_bytes_disjoint) (simp add: node_span_def node_pages_def)
  with section_bytes [OF assms(1), of "x mod NFRAMES_PER_SECTION c" q] section_bytes [OF assms(1), of "y mod NFRAMES_PER_SECTION c" r]
  show ?thesis by (meson NFRAMES_pos disjoint_iff mod_less_divisor subsetD)
qed

lemma section_key: "cfg_ok c \<Longrightarrow> (0, s) \<in> keys c U \<longleftrightarrow> s \<in> U"
  using cfg_facts(2) [of c] by (auto simp: keys_def sec_keys_def sec_key_def image_iff)

text \<open>What a lookup after boot returns.\<close>

lemma boot_lookup:
  assumes "cfg_ok c" "built c p n A m" "dom A = keys c (sec_of c ` avail_pages s')" "ppn < 2 ^ MAX_PPN_BITS c"
  shows "sec_of c ppn \<notin> sec_of c ` avail_pages s' \<Longrightarrow> get_frame_raw c ppn m = Inl Assert_Panic"
    "sec_of c ppn \<in> sec_of c ` avail_pages s' \<Longrightarrow> \<exists>q. A (0, sec_of c ppn) = Some q \<and>
       get_frame_raw c ppn m = Inr (q, ppn mod NFRAMES_PER_SECTION c) \<and>
       frame_at m (q, ppn mod NFRAMES_PER_SECTION c) = Some \<lparr>fr_ppn = ppn, fr_rc = 0\<rparr>"
proof -
  have "(0, sec_of c ppn) \<in> dom A \<longleftrightarrow> sec_of c ppn \<in> sec_of c ` avail_pages s'" using assms(1) by (simp add: assms(3) section_key)
  then show "sec_of c ppn \<notin> sec_of c ` avail_pages s' \<Longrightarrow> get_frame_raw c ppn m = Inl Assert_Panic"
    "sec_of c ppn \<in> sec_of c ` avail_pages s' \<Longrightarrow> \<exists>q. A (0, sec_of c ppn) = Some q \<and>
       get_frame_raw c ppn m = Inr (q, ppn mod NFRAMES_PER_SECTION c) \<and>
       frame_at m (q, ppn mod NFRAMES_PER_SECTION c) = Some \<lparr>fr_ppn = ppn, fr_rc = 0\<rparr>"
    using get_frame_raw_eq [OF assms(1,2,4)] by (auto split: option.splits)
qed

subsection \<open>Properties\<close>

text \<open>C12: The dry run is exact. The pages that it counts for the zones before boot are
  enough: after they are taken out of the zones, the tree is built without a panic, and it
  uses exactly the pages that the dry run counts for the zones that are left, from the
  first taken page on. The counts of distinct sections and of distinct prefixes at every
  indirect level equal the number of allocations of the interleaved walk.\<close>

theorem memmap_dry_run:
  assumes "cfg_ok c" "commit_to_pmm debug avail rsv sys_mem_zones_new = Inr s" "debug \<or> regions_apart avail rsv" "regions_ok c avail"
    "calculate_memmap_npages c (avail_ranges s) = Inr n" "leak n s = Inr (Some p, s')"
  shows "\<exists>m used. memmap_init c leak_for_memmap s = Inr (m, s') \<and> calculate_memmap_npages c (avail_ranges s') = Inr used \<and>
    used \<le> n \<and> bump_npages m = n - used \<and> bump_next m = p + used"
proof -
  note z = boot_zones [OF assms(2-4)]
  from memmap_init_built [OF assms(1) z assms(5,6)] obtain A m where
    m: "memmap_init c leak_for_memmap s = Inr (m, s')" "built c p n A m" "dom A = keys c (sec_of c ` avail_pages s')" by blast
  let ?w = "weight c (dom A)"
  from leak_ok [OF assms(6) z(1,2)] z(3) have "ranges_in c (avail_ranges s')" by (intro ranges_in_avail) auto
  moreover have "?w < u64_limit" using builtD(6,8) [OF m(2)] by linarith
  ultimately have "calculate_memmap_npages c (avail_ranges s') = Inr ?w"
    using calculate_eq [OF assms(1)] by (simp add: secs_avail m(3))
  moreover have "?w \<le> n" "bump_npages m = n - ?w" using builtD(6) [OF m(2)] by linarith+
  ultimately show ?thesis using m(1) builtD(5) [OF m(2)] by blast
qed

text \<open>The configuration of the supported boards, with 256 MB of memory less the first two
  megabytes.\<close>

definition board :: memmap_cfg where
  "board = \<lparr>PAGE_SIZE_BITS = 12, MAX_PPN_BITS = 44, FRAME_SECTION_SHIFT_MB = 7\<rparr>"

lemma board_consts:
  "FRAME_IN_SECTION_IDX_BITS board = 15" "BITS_PER_INDIRECT_LEVEL board = 9" "NINDIRECT_LEVELS board = 4"
  "NFRAMES_PER_SECTION board = 32768" "MEMSECTION_NPAGES board = 128" "cfg_ok board" "MAX_PPN_BITS board = 44"
  by (simp_all add: board_def FRAME_IN_SECTION_IDX_BITS_def BITS_PER_INDIRECT_LEVEL_def NINDIRECT_LEVELS_def NFRAMES_PER_SECTION_def
      MEMSECTION_NPAGES_def cfg_ok_def)

definition board_zones :: "nat \<Rightarrow> (nat \<times> nat) list \<Rightarrow> sys_mem_zones" where
  "board_zones p ls =
     \<lparr>mem_zones = Avail \<lparr>az_start = p, az_npages = 589824 - p\<rparr> # map (\<lambda>(q, n). Rsv \<lparr>rz_start = q, rz_npages = n, rz_flags = {LEAKED}\<rparr>) ls,
      avail_mem_zones = [\<lparr>az_start = p, az_npages = 589824 - p\<rparr>],
      rsv_mem_zones = map (\<lambda>(q, n). \<lparr>rz_start = q, rz_npages = n, rz_flags = {LEAKED}\<rparr>) ls\<rparr>"

lemma board_boot:
  "commit_to_pmm True [(524800, 589824)] [] sys_mem_zones_new = Inr (board_zones 524800 [])"
  "calculate_memmap_npages board (avail_ranges (board_zones 524800 [])) = Inr 259"
  "leak 259 (board_zones 524800 []) = Inr (Some 524800, board_zones 525059 [(524800, 259)])"
  "calculate_memmap_npages board (avail_ranges (board_zones 525059 [(524800, 259)])) = Inr 259"
  "regions_ok board [(524800, 589824)]"
proof -
  note steps = count_sections.simps [of board 524288] count_sections.simps [of board 557056] count_sections.simps [of board 589824]
  note eval_defs = board_consts section_base_def indirect_keys_def upt_conv_Cons padd_def az_range_def board_zones_def checked_mul_def range_end_def
  show "calculate_memmap_npages board (avail_ranges (board_zones 524800 [])) = Inr 259"
    "calculate_memmap_npages board (avail_ranges (board_zones 525059 [(524800, 259)])) = Inr 259"
    by (simp_all add: calculate_memmap_npages_def steps eval_defs)
  show "commit_to_pmm True [(524800, 589824)] [] sys_mem_zones_new = Inr (board_zones 524800 [])"
    "leak 259 (board_zones 524800 []) = Inr (Some 524800, board_zones 525059 [(524800, 259)])"
    by (simp_all add: commit_to_pmm_def add_mem_zone_def sys_mem_zones_new_def board_zones_def leak_def cut_zone_def padd_def Let_def)
  show "regions_ok board [(524800, 589824)]" by (simp add: regions_ok_def board_consts)
qed

theorem memmap_dry_run_witness:
  "\<exists>m. memmap_init board leak_for_memmap (board_zones 524800 []) = Inr (m, board_zones 525059 [(524800, 259)]) \<and>
     bump_npages m = 0 \<and> bump_next m = 525059"
  using memmap_dry_run [OF board_consts(6) board_boot(1) _ board_boot(5) board_boot(2,3)] board_boot(4) by auto

text \<open>C11: The radix tree is the flat table of all frames. After boot, a lookup of a page
  number succeeds exactly when its section has an available page, and then returns the
  structure that carries this page number, with no references; otherwise it panics as it
  should. The structures of different pages do not share a byte, and all of them lie in the
  pages that were taken out of the zones for them.\<close>

theorem memmap_flat:
  assumes "cfg_ok c" "commit_to_pmm debug avail rsv sys_mem_zones_new = Inr s" "debug \<or> regions_apart avail rsv" "regions_ok c avail"
    "calculate_memmap_npages c (avail_ranges s) = Inr n" "leak n s = Inr (Some p, s')" "ppn < 2 ^ MAX_PPN_BITS c"
  shows "\<exists>m. memmap_init c leak_for_memmap s = Inr (m, s') \<and>
    (case get_frame_raw c ppn m of
       Inl f \<Rightarrow> f = Assert_Panic \<and> sec_of c ppn \<notin> sec_of c ` avail_pages s'
     | Inr r \<Rightarrow> sec_of c ppn \<in> sec_of c ` avail_pages s' \<and> frame_at m r = Some \<lparr>fr_ppn = ppn, fr_rc = 0\<rparr> \<and>
         frame_bytes c r \<subseteq> pages_bytes c p n \<and>
         (\<forall>other r'. other < 2 ^ MAX_PPN_BITS c \<and> other \<noteq> ppn \<and> get_frame_raw c other m = Inr r' \<longrightarrow>
            frame_bytes c r \<inter> frame_bytes c r' = {}))"
proof -
  from memmap_init_built [OF assms(1) boot_zones [OF assms(2-4)] assms(5,6)] obtain A m where
    m: "memmap_init c leak_for_memmap s = Inr (m, s')" "built c p n A m" "dom A = keys c (sec_of c ` avail_pages s')" by blast
  note look = boot_lookup [OF assms(1) m(2,3)]
  show ?thesis
  proof (cases "sec_of c ppn \<in> sec_of c ` avail_pages s'")
    case True
    from look(2) [OF assms(7) True] obtain q where q: "A (0, sec_of c ppn) = Some q"
      "get_frame_raw c ppn m = Inr (q, ppn mod NFRAMES_PER_SECTION c)"
      "frame_at m (q, ppn mod NFRAMES_PER_SECTION c) = Some \<lparr>fr_ppn = ppn, fr_rc = 0\<rparr>" by blast
    have apart: "frame_bytes c (q, ppn mod NFRAMES_PER_SECTION c) \<inter> frame_bytes c r' = {}"
      if o: "other < 2 ^ MAX_PPN_BITS c" "other \<noteq> ppn" "get_frame_raw c other m = Inr r'" for other r'
    proof -
      from look [OF o(1)] o(3) obtain q' where "A (0, sec_of c other) = Some q'" "r' = (q', other mod NFRAMES_PER_SECTION c)" by fastforce
      with frames_apart [OF assms(1) m(2) q(1)] o(2) show ?thesis by metis
    qed
    show ?thesis
      using m(1) True frames_inside [OF assms(1) m(2) q(1)] q(3) apart by (intro exI [of _ m]) (simp only: q(2) sum.case, blast)
  next
    case False
    with m(1) look(1) [OF assms(7)] show ?thesis by auto
  qed
qed

theorem memmap_flat_witness:
  "\<exists>m r. memmap_init board leak_for_memmap (board_zones 524800 []) = Inr (m, board_zones 525059 [(524800, 259)]) \<and>
     get_frame_raw board 560000 m = Inr r \<and> frame_at m r = Some \<lparr>fr_ppn = 560000, fr_rc = 0\<rparr>"
proof -
  have "560000 \<in> avail_pages (board_zones 525059 [(524800, 259)])"
    by (simp add: avail_pages_def board_zones_def range_pages_def az_range_def)
  then have sec: "sec_of board 560000 \<in> sec_of board ` avail_pages (board_zones 525059 [(524800, 259)])" by (rule imageI)
  have ppn: "560000 < (2::nat) ^ MAX_PPN_BITS board" by (simp add: board_consts(7))
  show ?thesis
    using memmap_flat [OF board_consts(6) board_boot(1) disjI1 [OF TrueI] board_boot(5) board_boot(2,3) ppn]
    by (elim exE conjE, rename_tac m, rule_tac x = m in exI, case_tac "get_frame_raw board 560000 m") (use sec in simp_all)
qed

end
