(* ===== verification/File_Desc.thy ===== *)
theory File_Desc
  imports Sys_Error
begin

text \<open>
  Opened file descriptions and descriptors (\<open>task/files/opened_description.rs\<close> and
  \<open>task/files/descriptor.rs\<close>). A \<open>ProcFile\<close> is shared by duplicated descriptors and by the
  tables of forked processes; a \<open>FileDesc\<close> is the object behind one slot of a table. Both are
  reference-counted objects, so the state is a heap that maps their identities to their
  contents. Of a \<open>ProcFile\<close> only the word \<open>description_refs\<close> is kept: the number of slots and
  transfers that refer to it, zero before the first, and a terminal value after the last one.
  The loops around \<open>compare_exchange_weak\<close> take effect in one atomic step. What the release of
  the last reference hands over to the file system is recorded in order.
\<close>

subsection \<open>The heap\<close>

datatype fd_flag = CLOSE_ON_EXEC

record file_desc =
  fd_pfile :: nat
  fd_flags :: "fd_flag set"
  fd_published :: bool
  fd_transfer_ref :: bool

record file_heap =
  fh_descs :: "nat \<Rightarrow> file_desc"
  fh_ndescs :: nat
  fh_refs :: "nat \<Rightarrow> nat"
  fh_nfiles :: nat
  fh_released :: "nat list"

definition RETIRED_DESCRIPTION_REFS :: nat where
  "RETIRED_DESCRIPTION_REFS = u64_max"

subsection \<open>Opened descriptions\<close>

definition proc_file_new :: "file_heap \<Rightarrow> nat \<times> file_heap" where
  "proc_file_new h = (fh_nfiles h, h\<lparr>fh_refs := (fh_refs h)(fh_nfiles h := 0), fh_nfiles := fh_nfiles h + 1\<rparr>)"

definition acquire_description_ref :: "nat \<Rightarrow> file_heap \<Rightarrow> fault + file_heap" where
  "acquire_description_ref p h =
     (if fh_refs h p = RETIRED_DESCRIPTION_REFS then Inl Assert_Panic
      else if \<not> fh_refs h p < RETIRED_DESCRIPTION_REFS - 1 then Inl Assert_Panic
      else Inr (h\<lparr>fh_refs := (fh_refs h)(p := fh_refs h p + 1)\<rparr>))"

definition release_description_ref :: "nat \<Rightarrow> file_heap \<Rightarrow> fault + file_heap" where
  "release_description_ref p h =
     (let observed = fh_refs h p in
      if observed = 0 \<or> observed = RETIRED_DESCRIPTION_REFS then Inl Assert_Panic
      else
        let h' = h\<lparr>fh_refs := (fh_refs h)(p := if observed = 1 then RETIRED_DESCRIPTION_REFS else observed - 1)\<rparr> in
        Inr (if observed = 1 then h'\<lparr>fh_released := fh_released h @ [p]\<rparr> else h'))"

definition description_is_live :: "nat \<Rightarrow> file_heap \<Rightarrow> bool" where
  "description_is_live p h \<longleftrightarrow> 1 \<le> fh_refs h p \<and> fh_refs h p < RETIRED_DESCRIPTION_REFS"

subsection \<open>Descriptors\<close>

definition desc_new :: "file_desc \<Rightarrow> file_heap \<Rightarrow> nat \<times> file_heap" where
  "desc_new x h = (fh_ndescs h, h\<lparr>fh_descs := (fh_descs h)(fh_ndescs h := x), fh_ndescs := fh_ndescs h + 1\<rparr>)"

definition desc_update :: "nat \<Rightarrow> (file_desc \<Rightarrow> file_desc) \<Rightarrow> file_heap \<Rightarrow> file_heap" where
  "desc_update d f h = h\<lparr>fh_descs := (fh_descs h)(d := f (fh_descs h d))\<rparr>"

definition new_unpublished :: "nat \<Rightarrow> fd_flag set \<Rightarrow> file_heap \<Rightarrow> nat \<times> file_heap" where
  "new_unpublished p flags = desc_new \<lparr>fd_pfile = p, fd_flags = flags, fd_published = False, fd_transfer_ref = False\<rparr>"

definition from_transfer :: "nat \<Rightarrow> fd_flag set \<Rightarrow> file_heap \<Rightarrow> nat \<times> file_heap" where
  "from_transfer p flags = desc_new \<lparr>fd_pfile = p, fd_flags = flags, fd_published = False, fd_transfer_ref = True\<rparr>"

definition new_opened :: "fd_flag set \<Rightarrow> file_heap \<Rightarrow> nat \<times> file_heap" where
  "new_opened flags h = (let (p, h') = proc_file_new h in new_unpublished p flags h')"

definition publish_to_fd_table :: "nat \<Rightarrow> file_heap \<Rightarrow> fault + file_heap" where
  "publish_to_fd_table d h =
     (let x = fh_descs h d; h' = desc_update d (\<lambda>x. x\<lparr>fd_published := True, fd_transfer_ref := False\<rparr>) h in
      if fd_published x then Inl Assert_Panic
      else if \<not> fd_transfer_ref x then acquire_description_ref (fd_pfile x) h'
      else Inr h')"

definition unpublish_from_fd_table :: "nat \<Rightarrow> file_heap \<Rightarrow> fault + file_heap" where
  "unpublish_from_fd_table d h =
     (if fd_published (fh_descs h d) then Inr (desc_update d (\<lambda>x. x\<lparr>fd_published := False\<rparr>) h) else Inl Assert_Panic)"

definition desc_release_description_ref :: "nat \<Rightarrow> file_heap \<Rightarrow> fault + file_heap" where
  "desc_release_description_ref d h = release_description_ref (fd_pfile (fh_descs h d)) h"

definition desc_drop :: "nat \<Rightarrow> file_heap \<Rightarrow> fault + file_heap" where
  "desc_drop d h =
     (let x = fh_descs h d; h' = desc_update d (\<lambda>x. x\<lparr>fd_transfer_ref := False\<rparr>) h in
      if fd_published x then Inl Assert_Panic
      else if fd_transfer_ref x then release_description_ref (fd_pfile x) h'
      else Inr h')"

definition set_fd_flags :: "nat \<Rightarrow> fd_flag set \<Rightarrow> file_heap \<Rightarrow> file_heap" where
  "set_fd_flags d flags = desc_update d (\<lambda>x. x\<lparr>fd_flags := flags\<rparr>)"

text \<open>A transfer holds a reference of its own. It is captured from a slot, duplicated,
  dropped, or consumed by \<^const>\<open>from_transfer\<close>.\<close>

definition capture_transfer :: "nat \<Rightarrow> file_heap \<Rightarrow> fault + nat \<times> file_heap" where
  "capture_transfer d h =
     (let x = fh_descs h d in
      if \<not> fd_published x then Inl Assert_Panic
      else map_sum id (Pair (fd_pfile x)) (acquire_description_ref (fd_pfile x) h))"

definition transfer_duplicate :: "nat \<Rightarrow> file_heap \<Rightarrow> fault + file_heap" where
  "transfer_duplicate p h = acquire_description_ref p h"

definition transfer_drop :: "nat \<Rightarrow> file_heap \<Rightarrow> fault + file_heap" where
  "transfer_drop p h = release_description_ref p h"

subsection \<open>What the words count\<close>

text \<open>The published descriptors \<open>D\<close>, and the references \<open>T\<close> that are on their way: transfers,
  and slots that were emptied and whose release is still to come.\<close>

definition refs_of :: "file_heap \<Rightarrow> nat set \<Rightarrow> nat multiset \<Rightarrow> nat multiset" where
  "refs_of h D T = image_mset (\<lambda>d. fd_pfile (fh_descs h d)) (mset_set D) + T"

definition word_of :: "nat \<Rightarrow> nat" where
  "word_of n = (if n = 0 then RETIRED_DESCRIPTION_REFS else n)"

definition heap_ok :: "file_heap \<Rightarrow> nat set \<Rightarrow> nat multiset \<Rightarrow> bool" where
  "heap_ok h D T \<longleftrightarrow> D \<subseteq> {..< fh_ndescs h} \<and> (\<forall>d < fh_ndescs h. fd_published (fh_descs h d) \<longleftrightarrow> d \<in> D) \<and>
     set_mset (refs_of h D T) \<subseteq> {..< fh_nfiles h} \<and>
     (\<forall>p < fh_nfiles h. count (refs_of h D T) p < RETIRED_DESCRIPTION_REFS \<and> fh_refs h p = word_of (count (refs_of h D T) p)) \<and>
     distinct (fh_released h) \<and> set (fh_released h) = {..< fh_nfiles h} - set_mset (refs_of h D T)"

lemma heap_okD:
  assumes "heap_ok h D T"
  shows "finite D" "D \<subseteq> {..< fh_ndescs h}" "d < fh_ndescs h \<Longrightarrow> fd_published (fh_descs h d) \<longleftrightarrow> d \<in> D"
    "set_mset (refs_of h D T) \<subseteq> {..< fh_nfiles h}" "p < fh_nfiles h \<Longrightarrow> count (refs_of h D T) p < RETIRED_DESCRIPTION_REFS"
    "p < fh_nfiles h \<Longrightarrow> fh_refs h p = word_of (count (refs_of h D T) p)" "distinct (fh_released h)"
    "set (fh_released h) = {..< fh_nfiles h} - set_mset (refs_of h D T)"
  using assms finite_subset [of D "{..< fh_ndescs h}"] unfolding heap_ok_def by auto

text \<open>Changes of the heap are described by the references before and after.\<close>

definition counts :: "file_heap \<Rightarrow> nat multiset \<Rightarrow> bool" where
  "counts h R \<longleftrightarrow> set_mset R \<subseteq> {..< fh_nfiles h} \<and>
     (\<forall>p < fh_nfiles h. count R p < RETIRED_DESCRIPTION_REFS \<and> fh_refs h p = word_of (count R p)) \<and>
     distinct (fh_released h) \<and> set (fh_released h) = {..< fh_nfiles h} - set_mset R"

lemma heap_ok_iff:
  "heap_ok h D T \<longleftrightarrow> D \<subseteq> {..< fh_ndescs h} \<and> (\<forall>d < fh_ndescs h. fd_published (fh_descs h d) \<longleftrightarrow> d \<in> D) \<and> counts h (refs_of h D T)"
  by (simp add: heap_ok_def counts_def)

lemma retired_ge: "2 < RETIRED_DESCRIPTION_REFS"
  by (simp add: RETIRED_DESCRIPTION_REFS_def u64_max_def)

lemma countsD:
  assumes "counts h R" "p \<in># R"
  shows "0 < count R p" "count R p < RETIRED_DESCRIPTION_REFS" "p < fh_nfiles h" "fh_refs h p = count R p" "p \<notin> set (fh_released h)"
  using assms unfolding counts_def word_of_def by (auto simp: count_greater_zero_iff)

text \<open>One word changes, to what it should be.\<close>

lemma counts_change:
  assumes "counts h R" "\<And>q. q \<noteq> p \<Longrightarrow> count R' q = count R q" "p < fh_nfiles h" "count R' p < RETIRED_DESCRIPTION_REFS"
    "fh_refs h' = (fh_refs h)(p := word_of (count R' p))" "fh_nfiles h' = fh_nfiles h"
    "distinct (fh_released h')" "set (fh_released h') = {..< fh_nfiles h} - set_mset R'"
  shows "counts h' R'"
proof -
  have "q < fh_nfiles h" if "q \<in># R'" for q
  proof (cases "q = p")
    case False
    then have "q \<in># R" using that assms(2) [of q] by (metis count_greater_zero_iff)
    then show ?thesis using assms(1) by (auto simp: counts_def)
  qed (use assms(3) in simp)
  with assms show ?thesis by (auto simp: counts_def)
qed

lemma acquire_counts:
  assumes "counts h R" "p \<in># R" "size R < RETIRED_DESCRIPTION_REFS - 1"
  shows "\<exists>h'. acquire_description_ref p h = Inr h' \<and> counts h' (add_mset p R) \<and> h' = h\<lparr>fh_refs := (fh_refs h)(p := fh_refs h p + 1)\<rparr>"
proof -
  note n = countsD [OF assms(1,2)]
  have "count R p \<le> size R" by (rule count_le_size)
  then have lt: "count R p < RETIRED_DESCRIPTION_REFS - 1" using assms(3) by linarith
  have "insert p (set_mset R) = set_mset R" using assms(2) by auto
  then have "counts (h\<lparr>fh_refs := (fh_refs h)(p := fh_refs h p + 1)\<rparr>) (add_mset p R)"
    using assms(1) n lt by (intro counts_change [OF assms(1), of p]) (auto simp: word_of_def counts_def)
  with lt n show ?thesis by (simp add: acquire_description_ref_def)
qed

lemma release_counts:
  assumes "counts h R" "p \<in># R"
  shows "\<exists>h'. release_description_ref p h = Inr h' \<and> counts h' (R - {#p#}) \<and> fh_descs h' = fh_descs h \<and> fh_ndescs h' = fh_ndescs h \<and>
    fh_nfiles h' = fh_nfiles h \<and> fh_released h' = fh_released h @ (if p \<in># R - {#p#} then [] else [p])"
proof -
  note n = countsD [OF assms]
  have "p \<in># R - {#p#} \<longleftrightarrow> 1 < count R p" by (simp add: in_diff_count)
  then have mem: "p \<in># R - {#p#} \<longleftrightarrow> count R p \<noteq> 1" using n(1) by linarith
  have set: "set_mset (R - {#p#}) = (if count R p = 1 then set_mset R - {p} else set_mset R)"
  proof (intro set_eqI)
    fix q
    show "q \<in># R - {#p#} \<longleftrightarrow> q \<in> (if count R p = 1 then set_mset R - {p} else set_mset R)"
      using mem assms(2) by (cases "q = p") (simp_all add: in_diff_count)
  qed
  define h' where "h' = h\<lparr>fh_refs := (fh_refs h)(p := word_of (count R p - 1)), fh_released := fh_released h @ (if p \<in># R - {#p#} then [] else [p])\<rparr>"
  have ne: "count R p \<noteq> 0" "count R p \<noteq> RETIRED_DESCRIPTION_REFS" using n(1,2) by linarith+
  have "release_description_ref p h = Inr h'"
  proof (cases "count R p = 1")
    case False
    then have "count R p - 1 \<noteq> 0" using n(1) by linarith
    with False ne n(4) show ?thesis by (simp add: release_description_ref_def Let_def word_of_def h'_def mem)
  qed (use ne n(4) in \<open>simp add: release_description_ref_def Let_def word_of_def h'_def mem\<close>)
  moreover have "counts h' (R - {#p#})"
    using n assms by (intro counts_change [OF assms(1), of p]) (auto simp: h'_def mem set counts_def)
  ultimately show ?thesis by (simp add: h'_def)
qed

subsection \<open>Transitions of the heap\<close>

text \<open>Nothing that exists changes its file or its flags.\<close>

definition fd_key :: "file_heap \<Rightarrow> nat \<Rightarrow> nat \<times> fd_flag set" where
  "fd_key h d = (fd_pfile (fh_descs h d), fd_flags (fh_descs h d))"

definition keeps :: "file_heap \<Rightarrow> file_heap \<Rightarrow> bool" where
  "keeps h h' \<longleftrightarrow> (\<forall>d < fh_ndescs h. fd_key h' d = fd_key h d) \<and> fh_ndescs h \<le> fh_ndescs h' \<and> fh_nfiles h \<le> fh_nfiles h'"

lemma keeps_refl [simp]: "keeps h h"
  by (simp add: keeps_def)

lemma keeps_trans: "keeps h h' \<Longrightarrow> keeps h' h'' \<Longrightarrow> keeps h h''"
  by (auto simp: keeps_def)

lemma keepsD: "keeps h h' \<Longrightarrow> d < fh_ndescs h \<Longrightarrow> fd_key h' d = fd_key h d"
  by (simp add: keeps_def)

lemma refs_cong: "(\<And>d. d \<in> D \<Longrightarrow> fd_pfile (fh_descs h' d) = fd_pfile (fh_descs h d)) \<Longrightarrow> refs_of h' D T = refs_of h D T"
  unfolding refs_of_def by (cases "finite D") (auto intro!: image_mset_cong arg_cong2 [where f = "(+)"])

lemma refs_insert: "finite D \<Longrightarrow> d \<notin> D \<Longrightarrow> refs_of h (insert d D) T = add_mset (fd_pfile (fh_descs h d)) (refs_of h D T)"
  by (simp add: refs_of_def)

lemma heap_ok_refs: "heap_ok h D T \<Longrightarrow> d \<in> D \<Longrightarrow> fd_pfile (fh_descs h d) \<in># refs_of h D T"
  using heap_okD(1) by (auto simp: refs_of_def)

lemma heap_counts: "heap_ok h D T \<Longrightarrow> counts h (refs_of h D T)"
  by (simp add: heap_ok_iff)

text \<open>Publishing a descriptor that was just made, for a file with \<open>R\<close> as its references.\<close>

lemma publish_new:
  assumes ok: "heap_ok h D T" and h1: "fh_ndescs h1 = fh_ndescs h" "fh_descs h1 = fh_descs h" "fh_nfiles h \<le> fh_nfiles h1"
    and c: "counts (h1\<lparr>fh_refs := refs\<rparr>) (add_mset p (refs_of h D T'))"
    and a: "\<And>h2. fh_refs h2 = fh_refs h1 \<Longrightarrow> (if tr then Inr h2 else acquire_description_ref p h2) = Inr (h2\<lparr>fh_refs := refs\<rparr>)"
  shows "\<exists>h'. (let (d, h2) = desc_new \<lparr>fd_pfile = p, fd_flags = flags, fd_published = False, fd_transfer_ref = tr\<rparr> h1 in publish_to_fd_table d h2) = Inr h' \<and>
    heap_ok h' (insert (fh_ndescs h) D) T' \<and> keeps h h' \<and> fd_key h' (fh_ndescs h) = (p, flags) \<and>
    fh_ndescs h' = fh_ndescs h + 1 \<and> fh_nfiles h' = fh_nfiles h1 \<and> fh_released h' = fh_released h1"
proof -
  let ?d = "fh_ndescs h"
  define h2 where "h2 = h1\<lparr>fh_ndescs := ?d + 1, fh_descs := (fh_descs h)(?d := \<lparr>fd_pfile = p, fd_flags = flags, fd_published = True, fd_transfer_ref = False\<rparr>)\<rparr>"
  define h' where "h' = h2\<lparr>fh_refs := refs\<rparr>"
  have "?d \<notin> D" using heap_okD(2) [OF ok] by auto
  have "fd_published (fh_descs h d) \<longleftrightarrow> d \<in> D" if "d < ?d" for d using heap_okD(3) [OF ok that] .
  then have pub: "fd_published (fh_descs h' d) \<longleftrightarrow> d \<in> insert ?d D" if "d < ?d + 1" for d
    using that by (cases "d = ?d") (auto simp: h'_def h2_def)
  have "refs_of h' D T' = refs_of h D T'" using \<open>?d \<notin> D\<close> by (intro refs_cong) (auto simp: h'_def h2_def)
  then have R: "refs_of h' (insert ?d D) T' = add_mset p (refs_of h D T')"
    using refs_insert [OF heap_okD(1) [OF ok] \<open>?d \<notin> D\<close>, of h' T'] by (simp add: h'_def h2_def)
  have "counts h' (add_mset p (refs_of h D T'))" using c by (simp add: counts_def h'_def h2_def)
  then have "heap_ok h' (insert ?d D) T'"
    using heap_okD(2) [OF ok] pub unfolding heap_ok_iff R by (auto simp: h'_def h2_def)
  moreover have "(let (d, h2) = desc_new \<lparr>fd_pfile = p, fd_flags = flags, fd_published = False, fd_transfer_ref = tr\<rparr> h1 in publish_to_fd_table d h2) = Inr h'"
    using a [of h2] h1
    by (cases tr) (simp_all add: desc_new_def publish_to_fd_table_def desc_update_def h'_def h2_def)
  ultimately show ?thesis using h1 by (intro exI [of _ h']) (auto simp: keeps_def fd_key_def h'_def h2_def)
qed

lemma publish_opened:
  assumes ok: "heap_ok h D T"
  shows "\<exists>h'. (let (d, h2) = new_opened flags h in publish_to_fd_table d h2) = Inr h' \<and>
    heap_ok h' (insert (fh_ndescs h) D) T \<and> keeps h h' \<and> fd_key h' (fh_ndescs h) = (fh_nfiles h, flags) \<and>
    fh_ndescs h' = fh_ndescs h + 1 \<and> fh_nfiles h' = fh_nfiles h + 1 \<and> fh_released h' = fh_released h"
proof -
  let ?p = "fh_nfiles h" and ?R = "refs_of h D T"
  define h1 where "h1 = snd (proc_file_new h)"
  have c: "counts h ?R" by (rule heap_counts [OF ok])
  have "?p \<notin># ?R" using heap_okD(4) [OF ok] by auto
  then have "count ?R ?p = 0" by (simp add: count_eq_zero_iff)
  then have "counts (h1\<lparr>fh_refs := (fh_refs h)(?p := 1)\<rparr>) (add_mset ?p ?R)"
    using c retired_ge by (auto simp: counts_def h1_def proc_file_new_def word_of_def less_Suc_eq dest: not_in_iff [THEN iffD2])
  then show ?thesis
    using publish_new [OF ok, of h1 "(fh_refs h)(?p := 1)" ?p T False flags] retired_ge
    by (simp add: h1_def proc_file_new_def new_opened_def new_unpublished_def acquire_description_ref_def)
qed

lemma publish_shared:
  assumes ok: "heap_ok h D T" and p: "p \<in># refs_of h D T" and s: "size (refs_of h D T) < RETIRED_DESCRIPTION_REFS - 1"
  shows "\<exists>h'. (let (d, h2) = new_unpublished p flags h in publish_to_fd_table d h2) = Inr h' \<and>
    heap_ok h' (insert (fh_ndescs h) D) T \<and> keeps h h' \<and> fd_key h' (fh_ndescs h) = (p, flags) \<and>
    fh_ndescs h' = fh_ndescs h + 1 \<and> fh_nfiles h' = fh_nfiles h \<and> fh_released h' = fh_released h"
proof -
  obtain h1 where h1: "acquire_description_ref p h = Inr h1" "counts h1 (add_mset p (refs_of h D T))" "h1 = h\<lparr>fh_refs := (fh_refs h)(p := fh_refs h p + 1)\<rparr>"
    using acquire_counts [OF heap_counts [OF ok] p s] by blast
  have a: "acquire_description_ref p h2 = Inr (h2\<lparr>fh_refs := (fh_refs h)(p := fh_refs h p + 1)\<rparr>)" if "fh_refs h2 = fh_refs h" for h2
    using h1(1) that by (auto simp: acquire_description_ref_def split: if_splits)
  show ?thesis using publish_new [OF ok, of h "(fh_refs h)(p := fh_refs h p + 1)" p T False flags] h1 a
    by (simp add: new_unpublished_def)
qed

text \<open>A descriptor that was prepared from a transfer, and its publication, which takes over the
  reference.\<close>

lemma prepare_ok:
  assumes ok: "heap_ok h D T" and x: "\<not> fd_published x"
  shows "heap_ok (snd (desc_new x h)) D T" "keeps h (snd (desc_new x h))"
proof -
  let ?h = "snd (desc_new x h)"
  have old: "fh_descs ?h d = fh_descs h d" if "d < fh_ndescs h" for d using that by (simp add: desc_new_def)
  then have "refs_of ?h D T = refs_of h D T" using heap_okD(2) [OF ok] by (intro refs_cong) auto
  moreover have "fd_published (fh_descs ?h d) \<longleftrightarrow> d \<in> D" if "d < fh_ndescs ?h" for d
    using that x heap_okD(2,3) [OF ok] by (cases "d = fh_ndescs h") (auto simp: desc_new_def)
  ultimately show "heap_ok ?h D T" using heap_counts [OF ok] heap_okD(2) [OF ok]
    unfolding heap_ok_iff by (auto simp: counts_def desc_new_def)
  show "keeps h ?h" by (simp add: keeps_def fd_key_def desc_new_def)
qed

lemma publish_prepared:
  assumes ok: "heap_ok h D T" and d: "d < fh_ndescs h" "fh_descs h d = \<lparr>fd_pfile = p, fd_flags = flags, fd_published = False, fd_transfer_ref = True\<rparr>"
    and p: "p \<in># T"
  shows "\<exists>h'. publish_to_fd_table d h = Inr h' \<and> heap_ok h' (insert d D) (T - {#p#}) \<and> keeps h h' \<and> fd_key h' d = (p, flags) \<and>
    fh_ndescs h' = fh_ndescs h \<and> fh_nfiles h' = fh_nfiles h \<and> fh_released h' = fh_released h \<and> (\<forall>e. e \<noteq> d \<longrightarrow> fh_descs h' e = fh_descs h e)"
proof -
  define h' where "h' = desc_update d (\<lambda>x. x\<lparr>fd_published := True, fd_transfer_ref := False\<rparr>) h"
  have "d \<notin> D" using heap_okD(3) [OF ok d(1)] d(2) by simp
  have "refs_of h' D (T - {#p#}) = refs_of h D (T - {#p#})" by (rule refs_cong) (simp add: h'_def desc_update_def)
  then have "refs_of h' (insert d D) (T - {#p#}) = refs_of h D T"
    using refs_insert [OF heap_okD(1) [OF ok] \<open>d \<notin> D\<close>, of h' "T - {#p#}"] d(2) p by (simp add: h'_def desc_update_def refs_of_def)
  then have "heap_ok h' (insert d D) (T - {#p#})" using heap_counts [OF ok] heap_okD(2,3) [OF ok] d(1)
    unfolding heap_ok_iff by (auto simp: h'_def desc_update_def counts_def)
  moreover have "publish_to_fd_table d h = Inr h'" using d(2) by (simp add: publish_to_fd_table_def h'_def)
  ultimately show ?thesis using d(2) by (auto simp: h'_def desc_update_def keeps_def fd_key_def)
qed

lemma unpublish_ok:
  assumes ok: "heap_ok h D T" and d: "d \<in> D"
  shows "\<exists>h'. unpublish_from_fd_table d h = Inr h' \<and> heap_ok h' (D - {d}) (add_mset (fd_pfile (fh_descs h d)) T) \<and> keeps h h' \<and>
    fh_ndescs h' = fh_ndescs h \<and> fh_nfiles h' = fh_nfiles h \<and> fh_released h' = fh_released h"
proof -
  define h' where "h' = desc_update d (\<lambda>x. x\<lparr>fd_published := False\<rparr>) h"
  have lt: "d < fh_ndescs h" using heap_okD(2) [OF ok] d by auto
  have k: "fd_pfile (fh_descs h' e) = fd_pfile (fh_descs h e)" for e by (simp add: h'_def desc_update_def)
  have "insert d (D - {d}) = D" using d by auto
  then have R: "refs_of h D T = add_mset (fd_pfile (fh_descs h d)) (refs_of h (D - {d}) T)"
    using refs_insert [of "D - {d}" d h T] heap_okD(1) [OF ok] by simp
  have "refs_of h' (D - {d}) (add_mset (fd_pfile (fh_descs h d)) T) = refs_of h (D - {d}) (add_mset (fd_pfile (fh_descs h d)) T)"
    by (rule refs_cong) (rule k)
  then have "refs_of h' (D - {d}) (add_mset (fd_pfile (fh_descs h d)) T) = refs_of h D T"
    unfolding R by (simp add: refs_of_def)
  then have "heap_ok h' (D - {d}) (add_mset (fd_pfile (fh_descs h d)) T)"
    using heap_counts [OF ok] heap_okD(2,3) [OF ok] unfolding heap_ok_iff by (auto simp: h'_def desc_update_def counts_def)
  moreover have "unpublish_from_fd_table d h = Inr h'" using heap_okD(3) [OF ok lt] d by (simp add: unpublish_from_fd_table_def h'_def)
  ultimately show ?thesis by (auto simp: h'_def keeps_def fd_key_def desc_update_def)
qed

lemma heap_ok_cong:
  assumes "heap_ok h D T" "fh_descs h' = fh_descs h" "fh_ndescs h' = fh_ndescs h" "counts h' (refs_of h D T')"
  shows "heap_ok h' D T'"
  using assms refs_cong [of D h' h T'] by (simp add: heap_ok_iff)

lemma acquire_ok:
  assumes ok: "heap_ok h D T" and p: "p \<in># refs_of h D T" and s: "size (refs_of h D T) < RETIRED_DESCRIPTION_REFS - 1"
  shows "\<exists>h'. acquire_description_ref p h = Inr h' \<and> heap_ok h' D (add_mset p T) \<and> keeps h h' \<and>
    fh_ndescs h' = fh_ndescs h \<and> fh_nfiles h' = fh_nfiles h \<and> fh_released h' = fh_released h"
proof -
  obtain h1 where h1: "acquire_description_ref p h = Inr h1" "counts h1 (add_mset p (refs_of h D T))" "h1 = h\<lparr>fh_refs := (fh_refs h)(p := fh_refs h p + 1)\<rparr>"
    using acquire_counts [OF heap_counts [OF ok] p s] by blast
  have "heap_ok h1 D (add_mset p T)" by (rule heap_ok_cong [OF ok]) (use h1 in \<open>simp_all add: refs_of_def\<close>)
  with h1 show ?thesis by (simp add: keeps_def fd_key_def)
qed

lemma release_ok:
  assumes ok: "heap_ok h D T" and p: "p \<in># T"
  shows "\<exists>h'. release_description_ref p h = Inr h' \<and> heap_ok h' D (T - {#p#}) \<and> keeps h h' \<and>
    fh_ndescs h' = fh_ndescs h \<and> fh_nfiles h' = fh_nfiles h \<and>
    fh_released h' = fh_released h @ (if p \<in># refs_of h D (T - {#p#}) then [] else [p])"
proof -
  have R: "refs_of h D T - {#p#} = refs_of h D (T - {#p#})" using p by (simp add: refs_of_def)
  have "p \<in># refs_of h D T" using p by (simp add: refs_of_def)
  then obtain h1 where h1: "release_description_ref p h = Inr h1" "counts h1 (refs_of h D (T - {#p#}))" "fh_descs h1 = fh_descs h" "fh_ndescs h1 = fh_ndescs h"
    "fh_nfiles h1 = fh_nfiles h" "fh_released h1 = fh_released h @ (if p \<in># refs_of h D (T - {#p#}) then [] else [p])"
    using release_counts [OF heap_counts [OF ok], of p] unfolding R by blast
  have "heap_ok h1 D (T - {#p#})" by (rule heap_ok_cong [OF ok]) (use h1 in simp_all)
  with h1 show ?thesis by (simp add: keeps_def fd_key_def)
qed

lemma set_flags_ok: "heap_ok h D T \<Longrightarrow> heap_ok (set_fd_flags d flags h) D T"
  using refs_cong [of D "set_fd_flags d flags h" h T]
  by (auto simp: heap_ok_iff set_fd_flags_def desc_update_def counts_def)

text \<open>A file is live exactly while something refers to it.\<close>

lemma live_iff: "heap_ok h D T \<Longrightarrow> p < fh_nfiles h \<Longrightarrow> description_is_live p h \<longleftrightarrow> p \<in># refs_of h D T"
  using heap_okD(5,6) [of h D T p] count_greater_zero_iff [of "refs_of h D T" p]
  by (auto simp: description_is_live_def word_of_def not_in_iff simp del: count_greater_zero_iff)

text \<open>A descriptor that was prepared and is abandoned gives its reference back.\<close>

lemma drop_prepared:
  assumes ok: "heap_ok h D T" and d: "d < fh_ndescs h" "fh_descs h d = \<lparr>fd_pfile = p, fd_flags = flags, fd_published = False, fd_transfer_ref = True\<rparr>"
    and p: "p \<in># T"
  shows "\<exists>h'. desc_drop d h = Inr h' \<and> heap_ok h' D (T - {#p#}) \<and> keeps h h'"
proof -
  let ?h = "desc_update d (\<lambda>x. x\<lparr>fd_transfer_ref := False\<rparr>) h"
  have "refs_of ?h D T = refs_of h D T" by (rule refs_cong) (simp add: desc_update_def)
  then have "heap_ok ?h D T" using ok by (auto simp: heap_ok_iff desc_update_def counts_def)
  then obtain h' where "release_description_ref p ?h = Inr h'" "heap_ok h' D (T - {#p#})" "keeps ?h h'" using release_ok [OF _ p] by blast
  moreover have "keeps h ?h" by (simp add: keeps_def fd_key_def desc_update_def)
  ultimately show ?thesis using d(2) keeps_trans by (auto simp: desc_drop_def Let_def)
qed

end
