(* ===== verification/Word_Bitmap.thy ===== *)
theory Word_Bitmap
  imports Sys_Error "HOL-Library.Word"
begin

unbundle bit_operations_syntax

text \<open>
  The fixed-size bitmap of \<open>utils/bitmap.rs\<close>: a boxed array of 64-bit words. An index outside
  of the array panics. The searches look at a whole word at a time and finish with the
  processor's count of trailing zeros or ones.
\<close>

subsection \<open>Words\<close>

definition trailing_zero_bits :: "64 word \<Rightarrow> nat" where
  "trailing_zero_bits w = length (takeWhile (\<lambda>i. \<not> bit w i) [0 ..< 64])"

definition trailing_one_bits :: "64 word \<Rightarrow> nat" where
  "trailing_one_bits w = length (takeWhile (\<lambda>i. bit w i) [0 ..< 64])"

subsection \<open>The bitmap\<close>

type_synonym word_bitmap = "64 word list"

definition wb_new :: "nat \<Rightarrow> word_bitmap" where
  "wb_new num_dwords = replicate num_dwords 0"

definition wb_capacity :: "word_bitmap \<Rightarrow> nat" where
  "wb_capacity b = length b * 64"

definition wb_set :: "nat \<Rightarrow> word_bitmap \<Rightarrow> fault + word_bitmap" where
  "wb_set i b =
     (if i div 64 < length b then Inr (b[i div 64 := b ! (i div 64) OR push_bit (i mod 64) 1]) else Inl Index_Panic)"

definition wb_clear :: "nat \<Rightarrow> word_bitmap \<Rightarrow> fault + word_bitmap" where
  "wb_clear i b =
     (if i div 64 < length b then Inr (b[i div 64 := b ! (i div 64) AND NOT (push_bit (i mod 64) 1)]) else Inl Index_Panic)"

definition wb_toggle :: "nat \<Rightarrow> word_bitmap \<Rightarrow> fault + word_bitmap" where
  "wb_toggle i b =
     (if i div 64 < length b then Inr (b[i div 64 := b ! (i div 64) XOR push_bit (i mod 64) 1]) else Inl Index_Panic)"

definition wb_test :: "nat \<Rightarrow> word_bitmap \<Rightarrow> fault + bool" where
  "wb_test i b =
     (if i div 64 < length b then Inr (b ! (i div 64) AND push_bit (i mod 64) 1 \<noteq> 0) else Inl Index_Panic)"

definition wb_set_all :: "word_bitmap \<Rightarrow> word_bitmap" where
  "wb_set_all b = map (\<lambda>_. - 1) b"

definition wb_clear_all :: "word_bitmap \<Rightarrow> word_bitmap" where
  "wb_clear_all b = map (\<lambda>_. 0) b"

definition wb_is_empty :: "word_bitmap \<Rightarrow> bool" where
  "wb_is_empty b \<longleftrightarrow> list_all (\<lambda>w. w = 0) b"

definition wb_is_full :: "word_bitmap \<Rightarrow> bool" where
  "wb_is_full b \<longleftrightarrow> list_all (\<lambda>w. w = - 1) b"

definition wb_count_ones :: "word_bitmap \<Rightarrow> nat" where
  "wb_count_ones b = sum_list (map (\<lambda>w. length (filter (bit w) [0 ..< 64])) b)"

definition wb_count_zeros :: "word_bitmap \<Rightarrow> fault + nat" where
  "wb_count_zeros b = (if wb_capacity b < wb_count_ones b then Inl Overflow_Panic else Inr (wb_capacity b - wb_count_ones b))"

text \<open>The loop over the words that are not full, from word \<open>k\<close> on.\<close>

fun zero_in_words :: "nat \<Rightarrow> word_bitmap \<Rightarrow> nat option" where
  "zero_in_words k [] = None"
| "zero_in_words k (w # ws) = (if w \<noteq> - 1 then Some (k * 64 + trailing_zero_bits (NOT w)) else zero_in_words (Suc k) ws)"

definition wb_find_first_zero :: "word_bitmap \<Rightarrow> nat option" where
  "wb_find_first_zero b = zero_in_words 0 b"

definition wb_find_and_set_first_zero :: "word_bitmap \<Rightarrow> fault + nat option \<times> word_bitmap" where
  "wb_find_and_set_first_zero b =
     (case wb_find_first_zero b of None \<Rightarrow> Inr (None, b) | Some i \<Rightarrow> map_sum id (Pair (Some i)) (wb_set i b))"

fun zero_in_words_ones :: "nat \<Rightarrow> word_bitmap \<Rightarrow> nat option" where
  "zero_in_words_ones k [] = None"
| "zero_in_words_ones k (w # ws) = (if w \<noteq> - 1 then Some (k * 64 + trailing_one_bits w) else zero_in_words_ones (Suc k) ws)"

text \<open>The first word is searched with the bits before the start masked out.\<close>

definition wb_find_first_zero_from :: "nat \<Rightarrow> word_bitmap \<Rightarrow> fault + nat option" where
  "wb_find_first_zero_from start b =
     (if \<not> start < wb_capacity b then Inl Assert_Panic
      else
        let d = start div 64; masked = b ! d OR (push_bit (start mod 64) 1 - 1) in
        if masked \<noteq> - 1 then Inr (Some (d * 64 + trailing_one_bits masked))
        else Inr (zero_in_words_ones (d + 1) (drop (d + 1) b)))"

definition wb_find_and_set_first_zero_from :: "nat \<Rightarrow> word_bitmap \<Rightarrow> fault + nat option \<times> word_bitmap" where
  "wb_find_and_set_first_zero_from start b =
     (case wb_find_first_zero_from start b of
        Inl f \<Rightarrow> Inl f
      | Inr None \<Rightarrow> Inr (None, b)
      | Inr (Some i) \<Rightarrow> map_sum id (Pair (Some i)) (wb_set i b))"

fun one_in_words :: "nat \<Rightarrow> word_bitmap \<Rightarrow> nat option" where
  "one_in_words k [] = None"
| "one_in_words k (w # ws) = (if w \<noteq> 0 then Some (k * 64 + trailing_zero_bits w) else one_in_words (Suc k) ws)"

definition wb_find_first_one :: "word_bitmap \<Rightarrow> nat option" where
  "wb_find_first_one b = one_in_words 0 b"

definition wb_find_and_clear_first_one :: "word_bitmap \<Rightarrow> fault + nat option \<times> word_bitmap" where
  "wb_find_and_clear_first_one b =
     (case wb_find_first_one b of None \<Rightarrow> Inr (None, b) | Some i \<Rightarrow> map_sum id (Pair (Some i)) (wb_clear i b))"

text \<open>The iterator is the index of the next bit.\<close>

definition wb_iter_next :: "nat \<Rightarrow> word_bitmap \<Rightarrow> fault + bool option \<times> nat" where
  "wb_iter_next i b =
     (if wb_capacity b \<le> i then Inr (None, i) else map_sum id (\<lambda>x. (Some x, i + 1)) (wb_test i b))"

subsection \<open>The bitmap as a set\<close>

definition wb_bits :: "word_bitmap \<Rightarrow> nat set" where
  "wb_bits b = {i. i div 64 < length b \<and> bit (b ! (i div 64)) (i mod 64)}"

lemma index_word [simp]: "i div 64 < length (b :: word_bitmap) \<longleftrightarrow> i < length b * 64"
  by (simp add: div_less_iff_less_mult)

lemma wb_bits_in: "wb_bits b \<subseteq> {..< length b * 64}"
  by (auto simp: wb_bits_def)

lemma wb_bits_new [simp]: "wb_bits (wb_new n) = {}" "length (wb_new n) = n"
  by (auto simp: wb_bits_def wb_new_def)

lemma wb_clear_all_simps [simp]: "wb_bits (wb_clear_all b) = {}" "length (wb_clear_all b) = length b"
  by (auto simp: wb_bits_def wb_clear_all_def)

lemma wb_set_all_simps [simp]: "wb_bits (wb_set_all b) = {..< length b * 64}" "length (wb_set_all b) = length b"
  by (auto simp: wb_bits_def wb_set_all_def)

lemma wb_test_eq: "i < length b * 64 \<Longrightarrow> wb_test i b = Inr (i \<in> wb_bits b)"
  by (simp add: wb_test_def wb_bits_def and_exp_eq_0_iff_not_bit)

lemma wb_iter_next_eq:
  "wb_iter_next i b = Inr (if i < wb_capacity b then (Some (i \<in> wb_bits b), i + 1) else (None, i))"
  using wb_test_eq [of i b] by (simp add: wb_iter_next_def wb_capacity_def)

lemma word_index_eq: "(i::nat) div 64 = j div 64 \<Longrightarrow> i mod 64 = j mod 64 \<longleftrightarrow> i = j"
  by (metis div_mult_mod_eq)

text \<open>A write of the word of \<open>i\<close> that differs from the old one in the bit of \<open>i\<close> only.\<close>

lemma wb_bits_update:
  assumes "i < length b * 64" "\<And>n. n < 64 \<Longrightarrow> bit w n \<longleftrightarrow> (if n = i mod 64 then u else bit (b ! (i div 64)) n)"
  shows "wb_bits (b[i div 64 := w]) = (if u then insert i (wb_bits b) else wb_bits b - {i})"
proof (intro set_eqI)
  fix j
  show "j \<in> wb_bits (b[i div 64 := w]) \<longleftrightarrow> j \<in> (if u then insert i (wb_bits b) else wb_bits b - {i})"
  proof (cases "j div 64 = i div 64")
    case True
    then have "j < length b * 64" using assms(1) by (metis index_word)
    then show ?thesis using True assms word_index_eq [OF True] by (auto simp: wb_bits_def)
  next
    case False
    then show ?thesis using assms(1) by (auto simp: wb_bits_def)
  qed
qed

lemma wb_set_ok: "i < length b * 64 \<Longrightarrow> \<exists>b'. wb_set i b = Inr b' \<and> wb_bits b' = insert i (wb_bits b) \<and> length b' = length b"
  using wb_bits_update [of i b "b ! (i div 64) OR push_bit (i mod 64) 1" True]
  by (simp add: wb_set_def bit_simps)

lemma wb_clear_ok: "i < length b * 64 \<Longrightarrow> \<exists>b'. wb_clear i b = Inr b' \<and> wb_bits b' = wb_bits b - {i} \<and> length b' = length b"
  using wb_bits_update [of i b "b ! (i div 64) AND NOT (push_bit (i mod 64) 1)" False]
  by (simp add: wb_clear_def bit_simps)

lemma wb_toggle_ok:
  "i < length b * 64 \<Longrightarrow> \<exists>b'. wb_toggle i b = Inr b' \<and> wb_bits b' = (if i \<in> wb_bits b then wb_bits b - {i} else insert i (wb_bits b)) \<and> length b' = length b"
  using wb_bits_update [of i b "b ! (i div 64) XOR push_bit (i mod 64) 1" "i \<notin> wb_bits b"]
  by (auto simp: wb_toggle_def wb_bits_def bit_simps)

lemma wb_is_empty_iff: "wb_is_empty b \<longleftrightarrow> wb_bits b = {}"
proof
  assume "wb_bits b = {}"
  have "w = 0" if w: "w \<in> set b" for w
  proof (rule bit_eqI)
    fix n
    assume "possible_bit TYPE(64 word) n"
    then have n: "n < 64" by simp
    from w obtain k where k: "k < length b" "w = b ! k" by (metis in_set_conv_nth)
    have "(k * 64 + n) div 64 = k" "(k * 64 + n) mod 64 = n" using n by simp_all
    moreover have "k * 64 + n \<notin> wb_bits b" using \<open>wb_bits b = {}\<close> by simp
    ultimately show "bit w n \<longleftrightarrow> bit 0 n" using k by (simp add: wb_bits_def)
  qed
  then show "wb_is_empty b" by (simp add: wb_is_empty_def list_all_iff)
next
  assume "wb_is_empty b"
  then have "b ! k = 0" if "k < length b" for k using that by (simp add: wb_is_empty_def list_all_iff)
  then show "wb_bits b = {}" unfolding wb_bits_def by auto
qed

subsection \<open>The searches find the first bit\<close>

lemma takeWhile_upt:
  assumes "k < (n::nat)" "P k"
  shows "length (takeWhile (\<lambda>i. \<not> P i) [0 ..< n]) = (LEAST i. P i)" "(LEAST i. P i) < n"
proof -
  let ?l = "LEAST i. P i"
  show l: "?l < n" using Least_le [of P k, OF assms(2)] assms(1) by linarith
  have "[0 ..< n] = [0 ..< ?l] @ ?l # [Suc ?l ..< n]" using l upt_add_eq_append [of 0 ?l "n - ?l"] by (simp add: upt_conv_Cons)
  moreover have "takeWhile (\<lambda>i. \<not> P i) ([0 ..< ?l] @ ?l # [Suc ?l ..< n]) = [0 ..< ?l]"
    using LeastI [of P k, OF assms(2)] by (subst takeWhile_append2) (auto dest: not_less_Least)
  ultimately show "length (takeWhile (\<lambda>i. \<not> P i) [0 ..< n]) = ?l" by simp
qed

lemma trailing_one_bits_spec:
  assumes "w \<noteq> - 1"
  shows "trailing_one_bits w < 64 \<and> \<not> bit w (trailing_one_bits w) \<and> (\<forall>i < trailing_one_bits w. bit w i)"
proof -
  obtain k where "k < 64" "\<not> bit w k" using assms by (auto simp: bit_eq_iff)
  from takeWhile_upt [of k 64 "\<lambda>i. \<not> bit w i", OF this] LeastI [of "\<lambda>i. \<not> bit w i", OF this(2)] show ?thesis
    by (auto simp: trailing_one_bits_def dest: not_less_Least)
qed

lemma trailing_zero_bits_not: "w \<noteq> - 1 \<Longrightarrow> trailing_zero_bits (NOT w) = trailing_one_bits w"
proof -
  have "takeWhile (\<lambda>i. \<not> bit (NOT w) i) [0 ..< 64] = takeWhile (bit w) [0 ..< 64]"
    by (rule takeWhile_cong) (auto simp: bit_simps)
  then show ?thesis by (simp add: trailing_zero_bits_def trailing_one_bits_def)
qed

lemma zero_in_words_eq: "zero_in_words k ws = zero_in_words_ones k ws"
  by (induction k ws rule: zero_in_words.induct) (simp_all add: trailing_zero_bits_not)

text \<open>The first index that is not in a set, at or after a start.\<close>

definition first_free :: "nat set \<Rightarrow> nat \<Rightarrow> nat \<Rightarrow> nat option \<Rightarrow> bool" where
  "first_free U start limit r \<longleftrightarrow>
     (case r of
        None \<Rightarrow> {start ..< limit} \<subseteq> U
      | Some i \<Rightarrow> start \<le> i \<and> i < limit \<and> i \<notin> U \<and> {start ..< i} \<subseteq> U)"

lemma first_free_extend:
  assumes "a \<le> b" "\<And>x. a \<le> x \<Longrightarrow> x < b \<Longrightarrow> x \<in> U" "first_free U b n r"
  shows "first_free U a n r"
proof -
  have "{a ..< m} \<subseteq> U" if "{b ..< m} \<subseteq> U" for m
  proof
    fix x
    assume "x \<in> {a ..< m}"
    then show "x \<in> U" using assms(2) [of x] that by (cases "x < b") auto
  qed
  with assms(1,3) show ?thesis by (auto simp: first_free_def split: option.splits)
qed

lemma word_bits: "k < length b \<Longrightarrow> i < 64 \<Longrightarrow> k * 64 + i \<in> wb_bits b \<longleftrightarrow> bit (b ! k) i"
  by (simp add: wb_bits_def)

lemma word_split: "k * 64 \<le> x \<Longrightarrow> x < k * 64 + 64 \<Longrightarrow> \<exists>i < 64. x = k * 64 + (i :: nat)"
  by (intro exI [of _ "x - k * 64"]) simp

lemma zero_in_words_first:
  assumes "k \<le> length b"
  shows "first_free (wb_bits b) (k * 64) (length b * 64) (zero_in_words_ones k (drop k b))"
  using assms
proof (induction k rule: inc_induct)
  case base
  then show ?case by (simp add: first_free_def)
next
  case (step k)
  let ?w = "b ! k"
  have drop: "drop k b = ?w # drop (Suc k) b" using step(2) by (simp add: Cons_nth_drop_Suc)
  show ?case
  proof (cases "?w = - 1")
    case True
    have "x \<in> wb_bits b" if x: "k * 64 \<le> x" "x < Suc k * 64" for x
      using word_split [of k x] x word_bits [OF step(2)] True by (auto simp: add.commute)
    from first_free_extend [OF _ this step(3)] True show ?thesis unfolding drop by simp
  next
    case False
    from trailing_one_bits_spec [OF this] have
      t: "trailing_one_bits ?w < 64" "\<not> bit ?w (trailing_one_bits ?w)" "\<And>i. i < trailing_one_bits ?w \<Longrightarrow> bit ?w i" by blast+
    have "x \<in> wb_bits b" if x: "k * 64 \<le> x" "x < k * 64 + trailing_one_bits ?w" for x
      using word_split [of k x] x t word_bits [OF step(2)] by auto
    moreover have "k * 64 + trailing_one_bits ?w < length b * 64" using t(1) step(2) by linarith
    ultimately show ?thesis using False t(1,2) word_bits [OF step(2) t(1)] unfolding drop by (auto simp: first_free_def)
  qed
qed

lemma wb_find_first_zero_ok: "first_free (wb_bits b) 0 (length b * 64) (wb_find_first_zero b)"
  using zero_in_words_first [of 0 b] by (simp add: wb_find_first_zero_def zero_in_words_eq)

lemma low_mask: "n < 64 \<Longrightarrow> bit (push_bit m 1 - 1 :: 64 word) n \<longleftrightarrow> n < m" if "m < 64"
  using that by (simp add: bit_mask_iff flip: mask_eq_exp_minus_1)

lemma wb_find_first_zero_from_ok:
  assumes "start < length b * 64"
  shows "\<exists>r. wb_find_first_zero_from start b = Inr r \<and> first_free (wb_bits b) start (length b * 64) r"
proof -
  define d where "d = start div 64"
  define masked where "masked = b ! d OR (push_bit (start mod 64) 1 - 1)"
  have d: "d < length b" "d * 64 \<le> start" "start = d * 64 + start mod 64" using assms by (simp_all add: d_def)
  have bits: "bit masked i \<longleftrightarrow> bit (b ! d) i \<or> i < start mod 64" if "i < 64" for i
    using low_mask [of "start mod 64" i] that by (simp add: masked_def bit_or_iff)
  have find: "wb_find_first_zero_from start b =
    (if masked \<noteq> - 1 then Inr (Some (d * 64 + trailing_one_bits masked)) else Inr (zero_in_words_ones (d + 1) (drop (d + 1) b)))"
    using assms by (simp add: wb_find_first_zero_from_def wb_capacity_def d_def masked_def Let_def)
  show ?thesis
  proof (cases "masked = - 1")
    case True
    have "x \<in> wb_bits b" if x: "start \<le> x" "x < Suc d * 64" for x
    proof -
      from x d(2) word_split [of d x] obtain i where i: "i < 64" "x = d * 64 + i" by (auto simp: add.commute)
      with bits [of i] True x(1) d(3) have "bit (b ! d) i" by auto
      with i word_bits [OF d(1)] show ?thesis by simp
    qed
    moreover have "start \<le> Suc d * 64" using assms by (simp add: d_def)
    ultimately have "first_free (wb_bits b) start (length b * 64) (zero_in_words_ones (Suc d) (drop (Suc d) b))"
      using zero_in_words_first [of "Suc d" b] d(1) by (intro first_free_extend [of start "Suc d * 64"]) simp_all
    with True show ?thesis by (simp add: find)
  next
    case False
    from trailing_one_bits_spec [OF this] have
      t: "trailing_one_bits masked < 64" "\<not> bit masked (trailing_one_bits masked)" "\<And>i. i < trailing_one_bits masked \<Longrightarrow> bit masked i" by blast+
    have ge: "start mod 64 \<le> trailing_one_bits masked" using t(2) bits [OF t(1)] by simp
    have "x \<in> wb_bits b" if x: "start \<le> x" "x < d * 64 + trailing_one_bits masked" for x
    proof -
      from x d(2) t(1) word_split [of d x] obtain i where i: "i < 64" "x = d * 64 + i" by auto
      with bits [of i] t(3) [of i] x d(3) have "bit (b ! d) i" by auto
      with i word_bits [OF d(1)] show ?thesis by simp
    qed
    moreover have "d * 64 + trailing_one_bits masked < length b * 64" using t(1) d(1) by linarith
    ultimately show ?thesis using False ge d(3) t(2) bits [OF t(1)] word_bits [OF d(1) t(1)] by (auto simp: find first_free_def)
  qed
qed

lemma first_free_unique: "first_free U s n r \<Longrightarrow> first_free U s n q \<Longrightarrow> r = q"
  unfolding first_free_def by (cases r; cases q) (auto simp: subset_iff, metis linorder_neqE_nat)

subsection \<open>Counting\<close>

lemma wb_bits_snoc: "wb_bits (b @ [w]) = wb_bits b \<union> (\<lambda>i. length b * 64 + i) ` {i. i < 64 \<and> bit w i}"
proof (intro set_eqI)
  fix x
  show "x \<in> wb_bits (b @ [w]) \<longleftrightarrow> x \<in> wb_bits b \<union> (\<lambda>i. length b * 64 + i) ` {i. i < 64 \<and> bit w i}"
  proof (cases "x < length b * 64")
    case True
    then show ?thesis by (auto simp: wb_bits_def nth_append)
  next
    case False
    then obtain j where j: "x = length b * 64 + j" by (metis le_iff_add not_less)
    have "x \<notin> wb_bits b" using False by (simp add: wb_bits_def)
    moreover have "x \<in> wb_bits (b @ [w]) \<longleftrightarrow> j < 64 \<and> bit w j"
      using word_bits [of "length b" "b @ [w]" j] wb_bits_in [of "b @ [w]"] unfolding j by (auto simp: subset_iff)
    ultimately show ?thesis unfolding j by auto
  qed
qed

lemma wb_count_ones_eq: "wb_count_ones b = card (wb_bits b)"
proof (induction b rule: rev_induct)
  case Nil
  then show ?case by (simp add: wb_count_ones_def wb_bits_def)
next
  case (snoc w b)
  let ?S = "{i. i < 64 \<and> bit w i}"
  have "finite (wb_bits b)" by (rule finite_subset [OF wb_bits_in]) simp
  moreover have "wb_bits b \<inter> (\<lambda>i. length b * 64 + i) ` ?S = {}" using wb_bits_in [of b] by auto
  moreover have "length (filter (bit w) [0 ..< 64]) = card ?S"
    using distinct_card [of "filter (bit w) [0 ..< 64]"] by (simp add: conj_commute)
  moreover have "card ((\<lambda>i. length b * 64 + i) ` ?S) = card ?S" by (rule card_image) simp
  ultimately show ?case using snoc by (simp add: wb_count_ones_def wb_bits_snoc card_Un_disjoint)
qed

lemma wb_count_zeros_ok: "wb_count_zeros b = Inr (card ({..< wb_capacity b} - wb_bits b))"
proof -
  have s: "wb_bits b \<subseteq> {..< wb_capacity b}" using wb_bits_in by (simp add: wb_capacity_def)
  have "card (wb_bits b) \<le> wb_capacity b" using card_mono [OF _ s] by simp
  moreover have "card ({..< wb_capacity b} - wb_bits b) = wb_capacity b - card (wb_bits b)"
    using card_Diff_subset [OF finite_subset [OF s] s] by simp
  ultimately show ?thesis by (simp add: wb_count_zeros_def wb_count_ones_eq)
qed

end
