(* ===== verification/File_Table.thy ===== *)
theory File_Table
  imports File_Desc Word_Bitmap
begin

text \<open>
  The descriptor table of a process (\<open>task/files/table.rs\<close>). The table owns a bitmap of the
  numbers that are taken, a bitmap of those that are only reserved, and a vector of slots. All
  tables are created with \<open>MAX_FD_PER_PROCESS\<close> slots, a constant of the configuration, which is
  the parameter \<open>max_fd\<close> of \<open>table_new\<close>; a ceiling of type \<open>FdAllocCeiling\<close> is a number that is
  at most that. An operation returns a fault where the code panics, and otherwise its result
  with the table and the heap of the descriptors.
\<close>

subsection \<open>State\<close>

record file_table =
  ft_bitmap :: word_bitmap
  ft_reserved :: word_bitmap
  ft_fds :: "nat option list"

type_synonym 'a table_result = "fault + (sys_error + 'a) \<times> file_table \<times> file_heap"

definition fd_new :: "nat \<Rightarrow> nat option" where
  "fd_new fd = (if 2 ^ 31 - 1 \<le> fd then None else Some fd)"

definition ceiling_new :: "nat \<Rightarrow> nat \<Rightarrow> nat option" where
  "ceiling_new max_fd ceiling = (if ceiling \<le> max_fd then Some ceiling else None)"

definition ceiling_contains :: "nat \<Rightarrow> nat \<Rightarrow> bool" where
  "ceiling_contains ceiling fd \<longleftrightarrow> fd < ceiling"

text \<open>Sequencing: a fault ends the operation, as does an assertion that does not hold. \<open>fd_of\<close>
  is \<open>Fd::new(i as u32).unwrap()\<close>.\<close>

definition and_then :: "fault + 'a \<Rightarrow> ('a \<Rightarrow> fault + 'b) \<Rightarrow> fault + 'b" where
  "and_then r k = (case r of Inl f \<Rightarrow> Inl f | Inr x \<Rightarrow> k x)"

definition ensure :: "fault + bool \<Rightarrow> fault + 'a \<Rightarrow> fault + 'a" where
  "ensure c k = and_then c (\<lambda>b. if b then k else Inl Assert_Panic)"

definition fd_of :: "nat \<Rightarrow> fault + nat" where
  "fd_of i = (case fd_new (i mod 2 ^ 32) of None \<Rightarrow> Inl Assert_Panic | Some fd \<Rightarrow> Inr fd)"

definition slot :: "nat \<Rightarrow> file_table \<Rightarrow> fault + nat option" where
  "slot i t = (if i < length (ft_fds t) then Inr (ft_fds t ! i) else Inl Index_Panic)"

definition slot_is_none :: "nat \<Rightarrow> file_table \<Rightarrow> fault + bool" where
  "slot_is_none i t = map_sum id (\<lambda>d. d = None) (slot i t)"

subsection \<open>Allocation of numbers\<close>

definition claim :: "nat \<Rightarrow> file_table \<Rightarrow> fault + (sys_error + nat) \<times> file_table" where
  "claim i t =
     and_then (wb_set i (ft_bitmap t)) (\<lambda>b.
     and_then (fd_of i) (\<lambda>fd.
     ensure (slot_is_none i t) (Inr (Inr fd, t\<lparr>ft_bitmap := b\<rparr>))))"

definition below :: "nat \<Rightarrow> nat option \<Rightarrow> nat option" where
  "below ceiling r = (case r of None \<Rightarrow> None | Some fd \<Rightarrow> if fd < ceiling then Some fd else None)"

definition alloc :: "nat \<Rightarrow> file_table \<Rightarrow> fault + (sys_error + nat) \<times> file_table" where
  "alloc ceiling t =
     (case below ceiling (wb_find_first_zero (ft_bitmap t)) of
        Some fd_idx \<Rightarrow> claim fd_idx t
      | None \<Rightarrow> Inr (Inl NoMoreFd, t))"

definition alloc_ge_than :: "nat \<Rightarrow> nat \<Rightarrow> file_table \<Rightarrow> fault + (sys_error + nat) \<times> file_table" where
  "alloc_ge_than min_fd ceiling t =
     (if \<not> ceiling_contains ceiling min_fd then Inr (Inl InvalidArgument, t)
      else
        and_then (wb_find_first_zero_from min_fd (ft_bitmap t)) (\<lambda>r.
        case below ceiling r of
          Some fd_idx \<Rightarrow> claim fd_idx t
        | None \<Rightarrow> Inr (Inl NoMoreFd, t)))"

definition alloc_at :: "nat \<Rightarrow> nat \<Rightarrow> file_table \<Rightarrow> fault + (sys_error + unit) \<times> file_table" where
  "alloc_at fd ceiling t =
     (if \<not> ceiling_contains ceiling fd then Inr (Inl BadFileDescriptor, t)
      else
        and_then (wb_test fd (ft_bitmap t)) (\<lambda>taken.
        if taken then Inr (Inl NoMoreFd, t)
        else
          and_then (wb_set fd (ft_bitmap t)) (\<lambda>b.
          ensure (slot_is_none fd t) (Inr (Inr (), t\<lparr>ft_bitmap := b\<rparr>)))))"

definition publish_fd_desc :: "nat \<Rightarrow> nat \<Rightarrow> file_table \<Rightarrow> file_heap \<Rightarrow> fault + file_table \<times> file_heap" where
  "publish_fd_desc fd d t h =
     ensure (wb_test fd (ft_bitmap t))
     (ensure (map_sum id Not (wb_test fd (ft_reserved t)))
     (ensure (slot_is_none fd t)
     (and_then (publish_to_fd_table d h) (\<lambda>h'.
      Inr (t\<lparr>ft_fds := (ft_fds t)[fd := Some d]\<rparr>, h')))))"

definition recycle :: "nat \<Rightarrow> file_table \<Rightarrow> file_heap \<Rightarrow> fault + nat \<times> file_table \<times> file_heap" where
  "recycle fd t h =
     and_then (slot fd t) (\<lambda>s.
     case s of
       None \<Rightarrow> Inl Assert_Panic
     | Some d \<Rightarrow>
         and_then (wb_clear fd (ft_bitmap t)) (\<lambda>b.
         and_then (unpublish_from_fd_table d h) (\<lambda>h'.
         Inr (d, t\<lparr>ft_bitmap := b, ft_fds := (ft_fds t)[fd := None]\<rparr>, h'))))"

subsection \<open>Reservations\<close>

definition reserve_fd :: "nat \<Rightarrow> file_table \<Rightarrow> fault + (sys_error + nat) \<times> file_table" where
  "reserve_fd ceiling t =
     and_then (alloc ceiling t) (\<lambda>(r, t').
     case r of
       Inl e \<Rightarrow> Inr (Inl e, t')
     | Inr fd \<Rightarrow>
         ensure (slot_is_none fd t')
         (ensure (map_sum id Not (wb_test fd (ft_reserved t')))
         (and_then (wb_set fd (ft_reserved t')) (\<lambda>b.
          Inr (Inr fd, t'\<lparr>ft_reserved := b\<rparr>)))))"

definition commit_reserved_fd :: "nat \<Rightarrow> nat \<Rightarrow> file_table \<Rightarrow> file_heap \<Rightarrow> fault + file_table \<times> file_heap" where
  "commit_reserved_fd fd d t h =
     (if \<not> fd < length (ft_fds t) then Inl Assert_Panic
      else
        ensure (wb_test fd (ft_bitmap t))
        (ensure (wb_test fd (ft_reserved t))
        (ensure (slot_is_none fd t)
        (and_then (publish_to_fd_table d h) (\<lambda>h'.
         and_then (wb_clear fd (ft_reserved t)) (\<lambda>b.
         Inr (t\<lparr>ft_fds := (ft_fds t)[fd := Some d], ft_reserved := b\<rparr>, h')))))))"

definition rollback_reserved_fd :: "nat \<Rightarrow> file_table \<Rightarrow> fault + file_table" where
  "rollback_reserved_fd fd t =
     (if \<not> fd < length (ft_fds t) then Inl Assert_Panic
      else
        ensure (slot_is_none fd t)
        (and_then (wb_test fd (ft_reserved t)) (\<lambda>reserved.
         if reserved then
           ensure (wb_test fd (ft_bitmap t))
           (and_then (wb_clear fd (ft_reserved t)) (\<lambda>r.
            and_then (wb_clear fd (ft_bitmap t)) (\<lambda>b.
            Inr (t\<lparr>ft_reserved := r, ft_bitmap := b\<rparr>))))
         else Inr t)))"

primrec commit_reserved_fds :: "(nat \<times> nat) list \<Rightarrow> file_table \<Rightarrow> file_heap \<Rightarrow> fault + file_table \<times> file_heap" where
  "commit_reserved_fds [] t h = Inr (t, h)"
| "commit_reserved_fds (e # es) t h =
     and_then (commit_reserved_fd (fst e) (snd e) t h) (\<lambda>(t', h'). commit_reserved_fds es t' h')"

primrec rollback_reserved_fds :: "nat list \<Rightarrow> file_table \<Rightarrow> fault + file_table" where
  "rollback_reserved_fds [] t = Inr t"
| "rollback_reserved_fds (fd # fds) t = and_then (rollback_reserved_fd fd t) (rollback_reserved_fds fds)"

subsection \<open>Operations\<close>

definition table_new :: "nat \<Rightarrow> file_table" where
  "table_new max_fd =
     \<lparr>ft_bitmap = wb_new (max_fd div 64), ft_reserved = wb_new (max_fd div 64), ft_fds = replicate max_fd None\<rparr>"

definition open_fd :: "nat \<Rightarrow> fd_flag set \<Rightarrow> file_table \<Rightarrow> file_heap \<Rightarrow> nat table_result" where
  "open_fd ceiling flags t h =
     and_then (alloc ceiling t) (\<lambda>(r, t').
     case r of
       Inl e \<Rightarrow> Inr (Inl e, t', h)
     | Inr fd \<Rightarrow>
         let (d, h') = new_opened flags h in
         and_then (publish_fd_desc fd d t' h') (\<lambda>s. Inr (Inr fd, s)))"

definition close_fd :: "nat \<Rightarrow> file_table \<Rightarrow> file_heap \<Rightarrow> nat table_result" where
  "close_fd fd t h =
     (if length (ft_fds t) \<le> fd then Inr (Inl BadFileDescriptor, t, h)
      else if ft_fds t ! fd \<noteq> None then and_then (recycle fd t h) (\<lambda>(d, s). Inr (Inr d, s))
      else Inr (Inl BadFileDescriptor, t, h))"

text \<open>The numbers of the slots that are open, among those of a list.\<close>

primrec opened_among :: "nat list \<Rightarrow> file_table \<Rightarrow> fault + nat list" where
  "opened_among [] t = Inr []"
| "opened_among (i # is) t =
     and_then (slot i t) (\<lambda>s.
     if s \<noteq> None then and_then (fd_of i) (\<lambda>fd. and_then (opened_among is t) (\<lambda>fds. Inr (fd # fds)))
     else opened_among is t)"

primrec close_each :: "nat list \<Rightarrow> file_table \<Rightarrow> file_heap \<Rightarrow> fault + nat list \<times> file_table \<times> file_heap" where
  "close_each [] t h = Inr ([], t, h)"
| "close_each (fd # fds) t h =
     and_then (close_fd fd t h) (\<lambda>(r, t', h').
     case r of
       Inl e \<Rightarrow> close_each fds t' h'
     | Inr d \<Rightarrow> and_then (close_each fds t' h') (\<lambda>(ds, s). Inr (d # ds, s)))"

definition close_range :: "nat \<Rightarrow> nat \<Rightarrow> file_table \<Rightarrow> file_heap \<Rightarrow> fault + nat list \<times> file_table \<times> file_heap" where
  "close_range first_fd last_fd t h =
     (if length (ft_fds t) \<le> first_fd then Inr ([], t, h)
      else
        let last_fd = min last_fd (length (ft_fds t) - 1) in
        if last_fd < first_fd then Inr ([], t, h)
        else and_then (opened_among [first_fd ..< last_fd + 1] t) (\<lambda>fds. close_each fds t h))"

primrec descs_among :: "nat list \<Rightarrow> file_table \<Rightarrow> fault + nat list" where
  "descs_among [] t = Inr []"
| "descs_among (i # is) t =
     and_then (slot i t) (\<lambda>s.
     case s of
       Some d \<Rightarrow> and_then (descs_among is t) (\<lambda>ds. Inr (d # ds))
     | None \<Rightarrow> descs_among is t)"

definition set_close_on_exec_range :: "nat \<Rightarrow> nat \<Rightarrow> file_table \<Rightarrow> file_heap \<Rightarrow> fault + file_heap" where
  "set_close_on_exec_range first_fd last_fd t h =
     (if length (ft_fds t) \<le> first_fd then Inr h
      else
        let last_fd = min last_fd (length (ft_fds t) - 1) in
        if last_fd < first_fd then Inr h
        else
          and_then (descs_among [first_fd ..< last_fd + 1] t) (\<lambda>ds.
          Inr (fold (\<lambda>d h. set_fd_flags d (insert CLOSE_ON_EXEC (fd_flags (fh_descs h d))) h) ds h)))"

definition get_fd :: "nat \<Rightarrow> file_table \<Rightarrow> sys_error + nat" where
  "get_fd fd t =
     (if length (ft_fds t) \<le> fd then Inl BadFileDescriptor
      else case ft_fds t ! fd of Some d \<Rightarrow> Inr d | None \<Rightarrow> Inl BadFileDescriptor)"

primrec snapshot_from :: "nat \<Rightarrow> nat option list \<Rightarrow> file_table \<Rightarrow> fault + nat list" where
  "snapshot_from i [] t = Inr []"
| "snapshot_from i (s # ss) t =
     and_then (wb_test i (ft_reserved t)) (\<lambda>reserved.
     and_then (wb_test i (ft_bitmap t)) (\<lambda>taken.
     if taken \<noteq> (s \<noteq> None \<or> reserved) then Inl Assert_Panic
     else if s \<noteq> None \<and> reserved then Inl Assert_Panic
     else if s \<noteq> None then and_then (fd_of i) (\<lambda>fd. and_then (snapshot_from (Suc i) ss t) (\<lambda>fds. Inr (fd # fds)))
     else snapshot_from (Suc i) ss t))"

definition opened_fd_numbers_snapshot :: "file_table \<Rightarrow> fault + nat list" where
  "opened_fd_numbers_snapshot t = snapshot_from 0 (ft_fds t) t"

text \<open>\<open>publish_dup\<close> is the common end of the three kinds of duplication: a new descriptor that
  shares the file of the old one.\<close>

definition publish_dup :: "nat \<Rightarrow> nat \<Rightarrow> fd_flag set \<Rightarrow> file_table \<Rightarrow> file_heap \<Rightarrow> fault + file_table \<times> file_heap" where
  "publish_dup fd d flags t h =
     (let (d', h') = new_unpublished (fd_pfile (fh_descs h d)) flags h in publish_fd_desc fd d' t h')"

definition dup :: "nat \<Rightarrow> nat \<Rightarrow> file_table \<Rightarrow> file_heap \<Rightarrow> nat table_result" where
  "dup old_fd ceiling t h =
     (case get_fd old_fd t of
        Inl e \<Rightarrow> Inr (Inl e, t, h)
      | Inr d \<Rightarrow>
          and_then (alloc ceiling t) (\<lambda>(r, t').
          case r of
            Inl e \<Rightarrow> Inr (Inl e, t', h)
          | Inr fd \<Rightarrow> and_then (publish_dup fd d {} t' h) (\<lambda>s. Inr (Inr fd, s))))"

definition dup_ge_than :: "nat \<Rightarrow> nat \<Rightarrow> bool \<Rightarrow> nat \<Rightarrow> file_table \<Rightarrow> file_heap \<Rightarrow> nat table_result" where
  "dup_ge_than old_fd min_new_fd cloexec ceiling t h =
     (case get_fd old_fd t of
        Inl e \<Rightarrow> Inr (Inl e, t, h)
      | Inr d \<Rightarrow>
          and_then (alloc_ge_than min_new_fd ceiling t) (\<lambda>(r, t').
          case r of
            Inl e \<Rightarrow> Inr (Inl e, t', h)
          | Inr fd \<Rightarrow>
              and_then (publish_dup fd d (if cloexec then {CLOSE_ON_EXEC} else {}) t' h) (\<lambda>s. Inr (Inr fd, s))))"

text \<open>The end of \<open>dup3\<close>, once the target slot was emptied if it was open.\<close>

definition dup3_install :: "nat \<Rightarrow> nat \<Rightarrow> fd_flag set \<Rightarrow> nat \<Rightarrow> nat list \<Rightarrow> file_table \<Rightarrow> file_heap \<Rightarrow> nat list table_result" where
  "dup3_install d new_fd flags ceiling closed t h =
     and_then (alloc_at new_fd ceiling t) (\<lambda>(r, t').
     case r of
       Inl e \<Rightarrow> Inr (Inl e, t', h)
     | Inr _ \<Rightarrow> and_then (publish_dup new_fd d flags t' h) (\<lambda>s. Inr (Inr closed, s)))"

definition dup3 :: "nat \<Rightarrow> nat \<Rightarrow> fd_flag set \<Rightarrow> nat \<Rightarrow> file_table \<Rightarrow> file_heap \<Rightarrow> nat list table_result" where
  "dup3 old_fd new_fd flags ceiling t h =
     (if length (ft_fds t) \<le> new_fd then Inr (Inl BadFileDescriptor, t, h)
      else if old_fd = new_fd then Inr (Inl InvalidArgument, t, h)
      else if \<not> ceiling_contains ceiling new_fd then Inr (Inl BadFileDescriptor, t, h)
      else
        case get_fd old_fd t of
          Inl e \<Rightarrow> Inr (Inl e, t, h)
        | Inr d \<Rightarrow>
            if ft_fds t ! new_fd \<noteq> None then
              and_then (close_fd new_fd t h) (\<lambda>(r, t', h').
              case r of Inl e \<Rightarrow> Inr (Inl e, t', h') | Inr c \<Rightarrow> dup3_install d new_fd flags ceiling [c] t' h')
            else
              and_then (wb_test new_fd (ft_bitmap t)) (\<lambda>taken.
              if taken then Inr (Inl NoMoreFd, t, h) else dup3_install d new_fd flags ceiling [] t h))"

primrec cloexec_each :: "nat list \<Rightarrow> file_table \<Rightarrow> file_heap \<Rightarrow> fault + nat list \<times> file_table \<times> file_heap" where
  "cloexec_each [] t h = Inr ([], t, h)"
| "cloexec_each (i # is) t h =
     and_then (slot i t) (\<lambda>s.
     case s of
       None \<Rightarrow> cloexec_each is t h
     | Some d \<Rightarrow>
         if CLOSE_ON_EXEC \<in> fd_flags (fh_descs h d) then
           and_then (fd_of i) (\<lambda>fd.
           and_then (close_fd fd t h) (\<lambda>(r, t', h').
           case r of
             Inl e \<Rightarrow> Inl Assert_Panic
           | Inr c \<Rightarrow> and_then (cloexec_each is t' h') (\<lambda>(cs, s). Inr (c # cs, s))))
         else cloexec_each is t h)"

definition close_on_exec :: "file_table \<Rightarrow> file_heap \<Rightarrow> fault + nat list \<times> file_table \<times> file_heap" where
  "close_on_exec t h = cloexec_each [0 ..< length (ft_fds t)] t h"

primrec drain_slots :: "nat \<Rightarrow> nat option list \<Rightarrow> file_table \<Rightarrow> file_heap \<Rightarrow> fault + nat list \<times> file_heap" where
  "drain_slots i [] t h = Inr ([], h)"
| "drain_slots i (s # ss) t h =
     (case s of
        None \<Rightarrow> drain_slots (Suc i) ss t h
      | Some d \<Rightarrow>
          ensure (wb_test i (ft_bitmap t))
          (ensure (map_sum id Not (wb_test i (ft_reserved t)))
          (and_then (unpublish_from_fd_table d h) (\<lambda>h'.
           and_then (drain_slots (Suc i) ss t h') (\<lambda>(ds, h''). Inr (d # ds, h''))))))"

definition drain_all_published_fds :: "file_table \<Rightarrow> file_heap \<Rightarrow> fault + nat list \<times> file_table \<times> file_heap" where
  "drain_all_published_fds t h =
     and_then (drain_slots 0 (ft_fds t) t h) (\<lambda>(closed, h').
     Inr (closed,
       \<lparr>ft_bitmap = wb_clear_all (ft_bitmap t), ft_reserved = wb_clear_all (ft_reserved t),
        ft_fds = map (\<lambda>_. None) (ft_fds t)\<rparr>, h'))"

primrec fork_slots :: "nat \<Rightarrow> nat option list \<Rightarrow> word_bitmap \<Rightarrow> file_heap \<Rightarrow> fault + nat option list \<times> word_bitmap \<times> file_heap" where
  "fork_slots i [] b h = Inr ([], b, h)"
| "fork_slots i (s # ss) b h =
     (case s of
        None \<Rightarrow> and_then (fork_slots (Suc i) ss b h) (\<lambda>(xs, r). Inr (None # xs, r))
      | Some d \<Rightarrow>
          let (d', h1) = new_unpublished (fd_pfile (fh_descs h d)) (fd_flags (fh_descs h d)) h in
          and_then (publish_to_fd_table d' h1) (\<lambda>h2.
          and_then (wb_set i b) (\<lambda>b'.
          and_then (fork_slots (Suc i) ss b' h2) (\<lambda>(xs, r). Inr (Some d' # xs, r)))))"

definition table_fork :: "file_table \<Rightarrow> file_heap \<Rightarrow> fault + file_table \<times> file_heap" where
  "table_fork t h =
     and_then (fork_slots 0 (ft_fds t) (wb_new (length (ft_bitmap t))) h) (\<lambda>(fds, b, h').
     Inr (\<lparr>ft_bitmap = b, ft_reserved = wb_new (length (ft_bitmap t)), ft_fds = fds\<rparr>, h'))"

text \<open>What \<open>drop\<close> asserts of a table.\<close>

definition table_drop :: "file_table \<Rightarrow> fault + unit" where
  "table_drop t =
     (if list_all (\<lambda>s. s = None) (ft_fds t) \<and> wb_is_empty (ft_bitmap t) \<and> wb_is_empty (ft_reserved t)
      then Inr () else Inl Assert_Panic)"

lemma and_then_simps [simp]:
  "and_then (Inr x) k = k x" "and_then (Inl f) k = Inl f" "ensure (Inr True) r = r"
  by (simp_all add: and_then_def ensure_def)

subsection \<open>What a table means\<close>

text \<open>The numbers that are open, the descriptors behind them, and the meaning of a table: which
  file a number refers to, and with which flags.\<close>

definition opened :: "file_table \<Rightarrow> nat set" where
  "opened t = {i. i < length (ft_fds t) \<and> ft_fds t ! i \<noteq> None}"

definition slots :: "file_table \<Rightarrow> nat set" where
  "slots t = {d. Some d \<in> set (ft_fds t)}"

definition view :: "file_table \<Rightarrow> file_heap \<Rightarrow> nat \<Rightarrow> (nat \<times> fd_flag set) option" where
  "view t h i = (if i < length (ft_fds t) then map_option (fd_key h) (ft_fds t ! i) else None)"

definition reserved :: "file_table \<Rightarrow> nat set" where
  "reserved t = wb_bits (ft_reserved t)"

definition table_ok :: "nat \<Rightarrow> file_table \<Rightarrow> bool" where
  "table_ok n t \<longleftrightarrow> length (ft_fds t) = n \<and> length (ft_bitmap t) * 64 = n \<and> length (ft_reserved t) * 64 = n \<and> n < 2 ^ 31 \<and>
     wb_bits (ft_bitmap t) = opened t \<union> reserved t \<and> opened t \<inter> reserved t = {} \<and>
     (\<forall>i j d. i < n \<longrightarrow> j < n \<longrightarrow> ft_fds t ! i = Some d \<longrightarrow> ft_fds t ! j = Some d \<longrightarrow> i = j)"

lemma table_okD:
  assumes "table_ok n t"
  shows "length (ft_fds t) = n" "length (ft_bitmap t) * 64 = n" "length (ft_reserved t) * 64 = n" "n < 2 ^ 31"
    "wb_bits (ft_bitmap t) = opened t \<union> reserved t" "opened t \<inter> reserved t = {}" "opened t \<subseteq> {..< n}" "reserved t \<subseteq> {..< n}"
  using assms wb_bits_in [of "ft_reserved t"] unfolding table_ok_def opened_def reserved_def by auto

lemma table_ok_inj: "table_ok n t \<Longrightarrow> i < n \<Longrightarrow> j < n \<Longrightarrow> ft_fds t ! i = Some d \<Longrightarrow> ft_fds t ! j = Some d \<Longrightarrow> i = j"
  unfolding table_ok_def by blast

lemma dom_view: "dom (view t h) = opened t"
  by (auto simp: view_def opened_def dom_def)

lemma slots_iff: "d \<in> slots t \<longleftrightarrow> (\<exists>i < length (ft_fds t). ft_fds t ! i = Some d)"
  by (auto simp: slots_def in_set_conv_nth)

lemma finite_slots: "finite (slots t)"
proof -
  have "slots t \<subseteq> the ` set (ft_fds t)" by (force simp: slots_def)
  then show ?thesis by (rule finite_subset) simp
qed

lemma fd_of_ok: "i < n \<Longrightarrow> n < 2 ^ 31 \<Longrightarrow> fd_of i = Inr i"
  by (simp add: fd_of_def fd_new_def)

lemma slot_ok: "table_ok n t \<Longrightarrow> i < n \<Longrightarrow> slot i t = Inr (ft_fds t ! i)"
  by (simp add: slot_def table_ok_def)

lemma slot_is_none_ok: "table_ok n t \<Longrightarrow> i < n \<Longrightarrow> slot_is_none i t = Inr (i \<notin> opened t)"
  using slot_ok [of n t i] table_okD(1) [of n t] by (simp add: slot_is_none_def opened_def)

text \<open>The descriptors of a table are some of the published ones.\<close>

definition table_in :: "nat \<Rightarrow> file_table \<Rightarrow> file_heap \<Rightarrow> nat set \<Rightarrow> nat multiset \<Rightarrow> bool" where
  "table_in n t h D T \<longleftrightarrow> table_ok n t \<and> heap_ok h D T \<and> slots t \<subseteq> D"

lemma view_keeps:
  assumes "keeps h h'" "slots t \<subseteq> {..< fh_ndescs h}"
  shows "view t h' = view t h"
proof
  fix i
  show "view t h' i = view t h i"
  proof (cases "ft_fds t ! i")
    case (Some d)
    then have "d < fh_ndescs h" if "i < length (ft_fds t)" using assms(2) that slots_iff [of d t] by blast
    with Some show ?thesis using keepsD [OF assms(1), of d] by (simp add: view_def)
  qed (simp add: view_def)
qed

lemma table_in_slots: "table_in n t h D T \<Longrightarrow> slots t \<subseteq> {..< fh_ndescs h}"
  using heap_okD(2) by (fastforce simp: table_in_def)

subsection \<open>Allocation\<close>

text \<open>The number that an allocation chooses, if there is one.\<close>

definition lowest_free :: "nat set \<Rightarrow> nat \<Rightarrow> nat \<Rightarrow> nat option" where
  "lowest_free U start ceiling = find (\<lambda>i. i \<notin> U) [start ..< ceiling]"

lemma lowest_free_Some: "lowest_free U s c = Some i \<longleftrightarrow> s \<le> i \<and> i < c \<and> i \<notin> U \<and> (\<forall>j. s \<le> j \<longrightarrow> j < i \<longrightarrow> j \<in> U)"
proof
  assume "lowest_free U s c = Some i"
  then obtain k where k: "k < c - s" "i = s + k" "i \<notin> U" "\<forall>j < k. s + j \<in> U" by (auto simp: lowest_free_def find_Some_iff)
  have "j \<in> U" if "s \<le> j" "j < i" for j using k(2,4) that by (metis add_less_cancel_left le_iff_add)
  with k show "s \<le> i \<and> i < c \<and> i \<notin> U \<and> (\<forall>j. s \<le> j \<longrightarrow> j < i \<longrightarrow> j \<in> U)" by simp
next
  assume "s \<le> i \<and> i < c \<and> i \<notin> U \<and> (\<forall>j. s \<le> j \<longrightarrow> j < i \<longrightarrow> j \<in> U)"
  then show "lowest_free U s c = Some i"
    unfolding lowest_free_def find_Some_iff by (intro exI [of _ "i - s"]) (auto simp: less_diff_conv2 less_diff_conv add.commute)
qed

lemma lowest_free_None: "lowest_free U s c = None \<longleftrightarrow> {s ..< c} \<subseteq> U"
  by (auto simp: lowest_free_def find_None_iff)

lemma below_first_free:
  assumes "first_free U s n r" "c \<le> n"
  shows "below c r = lowest_free U s c"
proof (cases r)
  case None
  then have "lowest_free U s c = None" using assms by (auto simp: first_free_def lowest_free_None)
  with None show ?thesis by (simp add: below_def)
next
  case (Some i)
  show ?thesis
  proof (cases "i < c")
    case True
    then have "lowest_free U s c = Some i" using assms Some by (auto simp: first_free_def lowest_free_Some)
    with Some True show ?thesis by (simp add: below_def)
  next
    case False
    then have "lowest_free U s c = None" using assms Some by (auto simp: first_free_def lowest_free_None)
    with Some False show ?thesis by (simp add: below_def)
  qed
qed

text \<open>A number was taken, and nothing else happened.\<close>

definition claimed :: "nat \<Rightarrow> file_table \<Rightarrow> file_table \<Rightarrow> bool" where
  "claimed i t t' \<longleftrightarrow> i < length (ft_fds t) \<and> i \<notin> wb_bits (ft_bitmap t) \<and> ft_fds t' = ft_fds t \<and> ft_reserved t' = ft_reserved t \<and>
     length (ft_bitmap t') = length (ft_bitmap t) \<and> wb_bits (ft_bitmap t') = insert i (wb_bits (ft_bitmap t))"

lemma claim_ok:
  assumes ok: "table_ok n t" and i: "i < n" "i \<notin> wb_bits (ft_bitmap t)"
  shows "\<exists>t'. claim i t = Inr (Inr i, t') \<and> claimed i t t'"
proof -
  obtain b where b: "wb_set i (ft_bitmap t) = Inr b" "wb_bits b = insert i (wb_bits (ft_bitmap t))" "length b = length (ft_bitmap t)"
    using wb_set_ok [of i "ft_bitmap t"] i table_okD(2) [OF ok] by auto
  have "i \<notin> opened t" using i table_okD(5) [OF ok] by auto
  then have "claim i t = Inr (Inr i, t\<lparr>ft_bitmap := b\<rparr>)"
    using b i fd_of_ok [OF i(1) table_okD(4) [OF ok]] by (simp add: claim_def slot_is_none_ok [OF ok])
  with b i ok show ?thesis by (auto simp: claimed_def table_ok_def)
qed

lemma claim_lowest:
  assumes "table_ok n t" "c \<le> n" "lowest_free (opened t \<union> reserved t) s c = Some i"
  shows "\<exists>t'. claim i t = Inr (Inr i, t') \<and> claimed i t t'"
  using assms(2,3) table_okD(5) [OF assms(1)] unfolding lowest_free_Some by (intro claim_ok [OF assms(1)]) auto

lemma alloc_ok:
  assumes ok: "table_ok n t" and c: "c \<le> n"
  shows "case lowest_free (opened t \<union> reserved t) 0 c of
      None \<Rightarrow> alloc c t = Inr (Inl NoMoreFd, t)
    | Some i \<Rightarrow> \<exists>t'. alloc c t = Inr (Inr i, t') \<and> claimed i t t'"
proof -
  have "below c (wb_find_first_zero (ft_bitmap t)) = lowest_free (opened t \<union> reserved t) 0 c"
    using below_first_free [OF wb_find_first_zero_ok, of c "ft_bitmap t"] c table_okD(2,5) [OF ok] by simp
  then show ?thesis using claim_lowest [OF ok c]
    by (cases "lowest_free (opened t \<union> reserved t) 0 c") (auto simp: alloc_def)
qed

lemma alloc_ge_than_ok:
  assumes ok: "table_ok n t" and c: "c \<le> n"
  shows "if c \<le> m then alloc_ge_than m c t = Inr (Inl InvalidArgument, t)
    else case lowest_free (opened t \<union> reserved t) m c of
      None \<Rightarrow> alloc_ge_than m c t = Inr (Inl NoMoreFd, t)
    | Some i \<Rightarrow> \<exists>t'. alloc_ge_than m c t = Inr (Inr i, t') \<and> claimed i t t'"
proof (cases "c \<le> m")
  case False
  then have "m < length (ft_bitmap t) * 64" using c table_okD(2) [OF ok] by simp
  then obtain r where r: "wb_find_first_zero_from m (ft_bitmap t) = Inr r" "first_free (wb_bits (ft_bitmap t)) m (length (ft_bitmap t) * 64) r"
    using wb_find_first_zero_from_ok by blast
  have "below c r = lowest_free (opened t \<union> reserved t) m c"
    using below_first_free [OF r(2), of c] c table_okD(2,5) [OF ok] by simp
  then show ?thesis using False r(1) claim_lowest [OF ok c]
    by (cases "lowest_free (opened t \<union> reserved t) m c") (auto simp: alloc_ge_than_def ceiling_contains_def)
qed (simp add: alloc_ge_than_def ceiling_contains_def)

lemma alloc_at_ok:
  assumes ok: "table_ok n t" and c: "c \<le> n" "fd < c"
  shows "if fd \<in> opened t \<union> reserved t then alloc_at fd c t = Inr (Inl NoMoreFd, t)
    else \<exists>t'. alloc_at fd c t = Inr (Inr (), t') \<and> claimed fd t t'"
proof -
  have fd: "fd < length (ft_bitmap t) * 64" "fd < n" using c table_okD(2) [OF ok] by auto
  obtain b where b: "wb_set fd (ft_bitmap t) = Inr b" "wb_bits b = insert fd (wb_bits (ft_bitmap t))" "length b = length (ft_bitmap t)"
    using wb_set_ok fd by blast
  have "fd \<notin> opened t \<union> reserved t \<Longrightarrow> alloc_at fd c t = Inr (Inr (), t\<lparr>ft_bitmap := b\<rparr>) \<and> claimed fd t (t\<lparr>ft_bitmap := b\<rparr>)"
    using b c fd table_okD(1,5) [OF ok] by (simp add: alloc_at_def ceiling_contains_def wb_test_eq slot_is_none_ok [OF ok] claimed_def)
  then show ?thesis using c fd table_okD(5) [OF ok] by (auto simp: alloc_at_def ceiling_contains_def wb_test_eq)
qed

subsection \<open>Filling and emptying slots\<close>

text \<open>What every operation keeps. The descriptors \<open>cs\<close> left the table, and their references are
  still to be released.\<close>

definition pfiles :: "file_heap \<Rightarrow> nat list \<Rightarrow> nat multiset" where
  "pfiles h cs = image_mset (\<lambda>d. fd_pfile (fh_descs h d)) (mset cs)"

definition table_step :: "nat \<Rightarrow> file_table \<Rightarrow> file_heap \<Rightarrow> nat set \<Rightarrow> nat multiset \<Rightarrow> file_table \<Rightarrow> file_heap \<Rightarrow> nat list \<Rightarrow> bool" where
  "table_step n t h D T t' h' cs \<longleftrightarrow>
     table_ok n t' \<and> heap_ok h' (D - slots t \<union> slots t') (T + pfiles h cs) \<and> keeps h h' \<and>
     slots t' \<subseteq> slots t \<union> {fh_ndescs h ..< fh_ndescs h'} \<and> set cs \<subseteq> slots t \<and> fh_released h' = fh_released h"

lemma table_step_refl: "table_in n t h D T \<Longrightarrow> table_step n t h D T t h []"
  by (auto simp: table_step_def table_in_def pfiles_def Un_commute [of _ "slots t"] Un_absorb1)

lemma opened_update: "i < length (ft_fds t) \<Longrightarrow> ft_fds t' = (ft_fds t)[i := s] \<Longrightarrow> opened t' = (if s = None then opened t - {i} else insert i (opened t))"
  by (auto simp: opened_def nth_list_update split: if_splits)

lemma slots_update:
  "i < length (ft_fds t) \<Longrightarrow> ft_fds t' = (ft_fds t)[i := s] \<Longrightarrow>
   x \<in> slots t' \<longleftrightarrow> s = Some x \<or> (\<exists>j < length (ft_fds t). j \<noteq> i \<and> ft_fds t ! j = Some x)"
  unfolding slots_iff by (metis length_list_update nth_list_update)

lemma slots_fill: "i < length (ft_fds t) \<Longrightarrow> i \<notin> opened t \<Longrightarrow> ft_fds t' = (ft_fds t)[i := Some d] \<Longrightarrow> slots t' = insert d (slots t)"
proof (intro set_eqI)
  fix x
  assume i: "i < length (ft_fds t)" "i \<notin> opened t" and t': "ft_fds t' = (ft_fds t)[i := Some d]"
  show "x \<in> slots t' \<longleftrightarrow> x \<in> insert d (slots t)"
    using i slots_update [OF i(1) t', of x] by (auto simp: slots_iff opened_def)
qed

lemma slots_empty:
  assumes ok: "table_ok n t" and i: "i < n" "ft_fds t ! i = Some d" and t': "ft_fds t' = (ft_fds t)[i := None]"
  shows "slots t' = slots t - {d}"
proof -
  have "j = i" if "j < n" "ft_fds t ! j = Some d" for j using table_ok_inj [OF ok that(1) i(1) that(2) i(2)] .
  moreover have "x \<in> slots t' \<longleftrightarrow> (\<exists>j < length (ft_fds t). j \<noteq> i \<and> ft_fds t ! j = Some x)" for x
    using slots_update [of i t t' None x] i(1) table_okD(1) [OF ok] t' by simp
  ultimately show ?thesis using i(2) table_okD(1) [OF ok] unfolding set_eq_iff by (metis Diff_iff option.inject singleton_iff slots_iff)
qed

lemma fill_ok:
  assumes ok: "table_ok n t" and c: "claimed i t t'" and d: "d \<notin> slots t" and p: "publish_to_fd_table d h1 = Inr h'"
  shows "\<exists>t''. publish_fd_desc i d t' h1 = Inr (t'', h') \<and> table_ok n t'' \<and> ft_fds t'' = (ft_fds t)[i := Some d] \<and> reserved t'' = reserved t"
proof -
  define t'' where "t'' = t'\<lparr>ft_fds := (ft_fds t)[i := Some d]\<rparr>"
  note k = table_okD [OF ok]
  have i: "i < n" "i \<notin> opened t" "i \<notin> reserved t" using c k(1,5) by (auto simp: claimed_def)
  have "wb_test i (ft_bitmap t') = Inr True" using wb_test_eq [of i "ft_bitmap t'"] c i k(2) by (simp add: claimed_def)
  moreover have "wb_test i (ft_reserved t') = Inr False" using wb_test_eq [of i "ft_reserved t'"] c i k(3) by (simp add: claimed_def reserved_def)
  moreover have "slot_is_none i t' = Inr True" using c slot_is_none_ok [OF ok i(1)] i(2) by (simp add: claimed_def slot_is_none_def slot_def)
  ultimately have "publish_fd_desc i d t' h1 = Inr (t'', h')" using p c by (simp add: publish_fd_desc_def t''_def claimed_def)
  moreover have o: "opened t'' = insert i (opened t)" using opened_update [of i t t'' "Some d"] i k(1) by (simp add: t''_def)
  moreover have r: "reserved t'' = reserved t" using c by (simp add: reserved_def t''_def claimed_def)
  moreover have "table_ok n t''" unfolding table_ok_def o r
  proof (intro conjI allI impI)
    fix a b x
    assume ab: "a < n" "b < n" "ft_fds t'' ! a = Some x" "ft_fds t'' ! b = Some x"
    have "x \<noteq> d" if "j < n" "j \<noteq> i" "ft_fds t'' ! j = Some x" for j
      using d that k(1) by (auto simp: t''_def slots_iff)
    with ab show "a = b" using table_ok_inj [OF ok ab(1,2)] k(1) by (cases "a = i"; cases "b = i") (auto simp: t''_def)
  qed (use c i k in \<open>auto simp: t''_def claimed_def\<close>)
  ultimately show ?thesis by (auto simp: t''_def)
qed

lemma empty_ok:
  assumes tin: "table_in n t h D T" and i: "i < n" "ft_fds t ! i = Some d"
  shows "\<exists>t' h'. recycle i t h = Inr (d, t', h') \<and> table_step n t h D T t' h' [d] \<and> fh_ndescs h' = fh_ndescs h \<and>
    ft_fds t' = (ft_fds t)[i := None] \<and> reserved t' = reserved t"
proof -
  have ok: "table_ok n t" and hok: "heap_ok h D T" and sub: "slots t \<subseteq> D" using tin by (auto simp: table_in_def)
  note k = table_okD [OF ok]
  have d: "d \<in> slots t" using i k(1) by (auto simp: slots_iff)
  obtain b where b: "wb_clear i (ft_bitmap t) = Inr b" "wb_bits b = wb_bits (ft_bitmap t) - {i}" "length b = length (ft_bitmap t)"
    using wb_clear_ok [of i "ft_bitmap t"] i(1) k(2) by auto
  obtain h' where h': "unpublish_from_fd_table d h = Inr h'" "heap_ok h' (D - {d}) (add_mset (fd_pfile (fh_descs h d)) T)" "keeps h h'"
    "fh_ndescs h' = fh_ndescs h" "fh_released h' = fh_released h"
    using unpublish_ok [OF hok] d sub by blast
  define t' where "t' = t\<lparr>ft_bitmap := b, ft_fds := (ft_fds t)[i := None]\<rparr>"
  have o: "opened t' = opened t - {i}" using opened_update [of i t t' None] i k(1) by (simp add: t'_def)
  have r: "reserved t' = reserved t" by (simp add: reserved_def t'_def)
  have "i \<in> opened t" using i k(1) by (simp add: opened_def)
  then have "i \<notin> reserved t" using k(6) by auto
  have "table_ok n t'" unfolding table_ok_def o r
  proof (intro conjI allI impI)
    fix a b' x
    assume ab: "a < n" "b' < n" "ft_fds t' ! a = Some x" "ft_fds t' ! b' = Some x"
    then show "a = b'" using table_ok_inj [OF ok ab(1,2)] k(1) by (cases "a = i"; cases "b' = i") (auto simp: t'_def)
  qed (use b i k \<open>i \<notin> reserved t\<close> in \<open>auto simp: t'_def\<close>)
  moreover have "slots t' = slots t - {d}" using slots_empty [OF ok i, of t'] by (simp add: t'_def)
  moreover have "D - slots t \<union> (slots t - {d}) = D - {d}" using sub d by auto
  ultimately have "table_step n t h D T t' h' [d]" using h' d by (auto simp: table_step_def pfiles_def)
  moreover have "recycle i t h = Inr (d, t', h')" using b h' i slot_ok [OF ok i(1)] by (simp add: recycle_def t'_def)
  ultimately show ?thesis using h' r by (auto simp: t'_def)
qed

text \<open>A new descriptor in a slot that was claimed.\<close>

lemma filled_step:
  assumes tin: "table_in n t h D T" and t'': "table_ok n t''" "ft_fds t'' = (ft_fds t)[i := Some (fh_ndescs h)]" and i: "i < n" "i \<notin> opened t"
    and h': "heap_ok h' (insert (fh_ndescs h) D) T" "keeps h h'" "fh_ndescs h' = fh_ndescs h + 1" "fh_released h' = fh_released h"
  shows "table_step n t h D T t'' h' []" "view t'' h' = (view t h)(i \<mapsto> fd_key h' (fh_ndescs h))"
proof -
  have len: "length (ft_fds t) = n" using tin by (simp add: table_in_def table_ok_def)
  have s: "slots t'' = insert (fh_ndescs h) (slots t)" using slots_fill [of i t t''] i t''(2) len by simp
  have "D - slots t \<union> slots t'' = insert (fh_ndescs h) D" using s tin by (auto simp: table_in_def)
  then show "table_step n t h D T t'' h' []" using s h' t'' by (auto simp: table_step_def pfiles_def)
  have "view t'' h' = (view t h')(i \<mapsto> fd_key h' (fh_ndescs h))"
    using i len by (auto simp: view_def t''(2) fun_eq_iff)
  then show "view t'' h' = (view t h)(i \<mapsto> fd_key h' (fh_ndescs h))" using view_keeps [OF h'(2) table_in_slots [OF tin]] by simp
qed

subsection \<open>What the operations do\<close>

text \<open>The operations in terms of the meaning of a table \<open>V\<close> and the reserved numbers \<open>R\<close>: the
  error, or the result with the meaning afterwards.\<close>

type_synonym fd_map = "nat \<Rightarrow> (nat \<times> fd_flag set) option"

definition install_at :: "nat option \<Rightarrow> nat \<times> fd_flag set \<Rightarrow> fd_map \<Rightarrow> sys_error + nat \<times> fd_map" where
  "install_at r k V = (case r of None \<Rightarrow> Inl NoMoreFd | Some i \<Rightarrow> Inr (i, V(i \<mapsto> k)))"

definition spec_open :: "nat \<Rightarrow> fd_flag set \<Rightarrow> nat \<Rightarrow> fd_map \<Rightarrow> nat set \<Rightarrow> sys_error + nat \<times> fd_map" where
  "spec_open ceiling flags p V R = install_at (lowest_free (dom V \<union> R) 0 ceiling) (p, flags) V"

definition spec_dup :: "nat \<Rightarrow> nat \<Rightarrow> fd_map \<Rightarrow> nat set \<Rightarrow> sys_error + nat \<times> fd_map" where
  "spec_dup old_fd ceiling V R =
     (case V old_fd of
        None \<Rightarrow> Inl BadFileDescriptor
      | Some k \<Rightarrow> install_at (lowest_free (dom V \<union> R) 0 ceiling) (fst k, {}) V)"

definition spec_dup_ge_than :: "nat \<Rightarrow> nat \<Rightarrow> bool \<Rightarrow> nat \<Rightarrow> fd_map \<Rightarrow> nat set \<Rightarrow> sys_error + nat \<times> fd_map" where
  "spec_dup_ge_than old_fd min_new_fd cloexec ceiling V R =
     (case V old_fd of
        None \<Rightarrow> Inl BadFileDescriptor
      | Some k \<Rightarrow>
          if ceiling \<le> min_new_fd then Inl InvalidArgument
          else install_at (lowest_free (dom V \<union> R) min_new_fd ceiling) (fst k, if cloexec then {CLOSE_ON_EXEC} else {}) V)"

definition spec_close :: "nat \<Rightarrow> fd_map \<Rightarrow> sys_error + nat list \<times> fd_map" where
  "spec_close fd V = (case V fd of None \<Rightarrow> Inl BadFileDescriptor | Some k \<Rightarrow> Inr ([fst k], V(fd := None)))"

definition spec_dup3 :: "nat \<Rightarrow> nat \<Rightarrow> nat \<Rightarrow> fd_flag set \<Rightarrow> nat \<Rightarrow> fd_map \<Rightarrow> nat set \<Rightarrow> sys_error + nat list \<times> fd_map" where
  "spec_dup3 n old_fd new_fd flags ceiling V R =
     (if n \<le> new_fd then Inl BadFileDescriptor
      else if old_fd = new_fd then Inl InvalidArgument
      else if ceiling \<le> new_fd then Inl BadFileDescriptor
      else
        case V old_fd of
          None \<Rightarrow> Inl BadFileDescriptor
        | Some k \<Rightarrow>
            if new_fd \<in> R then Inl NoMoreFd
            else Inr (case V new_fd of None \<Rightarrow> [] | Some q \<Rightarrow> [fst q], V(new_fd \<mapsto> (fst k, flags))))"

text \<open>\<open>implements\<close>: no fault, the error leaves everything alone, and otherwise the result \<open>x\<close>,
  which tells which descriptors \<open>cs x\<close> left the table, and the meaning are as specified.\<close>

definition implements :: "nat \<Rightarrow> file_table \<Rightarrow> file_heap \<Rightarrow> nat set \<Rightarrow> nat multiset \<Rightarrow> ('a \<Rightarrow> nat list) \<Rightarrow>
    ('a \<Rightarrow> 'b) \<Rightarrow> 'a table_result \<Rightarrow> sys_error + 'b \<times> fd_map \<Rightarrow> bool" where
  "implements n t h D T cs out r spec \<longleftrightarrow>
     (case spec of
        Inl e \<Rightarrow> r = Inr (Inl e, t, h)
      | Inr (y, V) \<Rightarrow>
          \<exists>x t' h'. r = Inr (Inr x, t', h') \<and> out x = y \<and> table_step n t h D T t' h' (cs x) \<and> view t' h' = V \<and> reserved t' = reserved t)"

definition files_of :: "file_heap \<Rightarrow> nat list \<Rightarrow> nat list" where
  "files_of h ds = map (\<lambda>d. fd_pfile (fh_descs h d)) ds"

abbreviation room :: "file_heap \<Rightarrow> nat set \<Rightarrow> nat multiset \<Rightarrow> nat \<Rightarrow> bool" where
  "room h D T k \<equiv> size (refs_of h D T) + k < RETIRED_DESCRIPTION_REFS"

lemma view_slot: "table_ok n t \<Longrightarrow> view t h i = (if i < n then map_option (fd_key h) (ft_fds t ! i) else None)"
  by (simp add: view_def table_ok_def)

lemma get_fd_view: "get_fd i t = (case view t h i of None \<Rightarrow> Inl BadFileDescriptor | Some k \<Rightarrow> Inr (the (ft_fds t ! i)))"
  by (auto simp: get_fd_def view_def split: option.split)

lemma open_fd_implements:
  assumes tin: "table_in n t h D T" and c: "c \<le> n"
  shows "implements n t h D T (\<lambda>_. []) id (open_fd c flags t h) (spec_open c flags (fh_nfiles h) (view t h) (reserved t))"
proof -
  have ok: "table_ok n t" and hok: "heap_ok h D T" using tin by (auto simp: table_in_def)
  show ?thesis
  proof (cases "lowest_free (opened t \<union> reserved t) 0 c")
    case None
    with alloc_ok [OF ok c] show ?thesis by (simp add: implements_def open_fd_def spec_open_def install_at_def dom_view)
  next
    case (Some i)
    then have i: "i < n" "i \<notin> opened t" using c unfolding lowest_free_Some by auto
    obtain t1 where t1: "alloc c t = Inr (Inr i, t1)" "claimed i t t1" using alloc_ok [OF ok c] Some by auto
    obtain h2 where h2: "new_opened flags h = (fh_ndescs h, h2)"
      by (simp add: new_opened_def proc_file_new_def new_unpublished_def desc_new_def)
    obtain h' where h': "publish_to_fd_table (fh_ndescs h) h2 = Inr h'" "heap_ok h' (insert (fh_ndescs h) D) T" "keeps h h'"
      "fd_key h' (fh_ndescs h) = (fh_nfiles h, flags)" "fh_ndescs h' = fh_ndescs h + 1" "fh_released h' = fh_released h"
      using publish_opened [OF hok, of flags] by (auto simp: h2)
    have "fh_ndescs h \<notin> slots t" using table_in_slots [OF tin] by auto
    then obtain t' where t': "publish_fd_desc i (fh_ndescs h) t1 h2 = Inr (t', h')" "table_ok n t'"
      "ft_fds t' = (ft_fds t)[i := Some (fh_ndescs h)]" "reserved t' = reserved t"
      using fill_ok [OF ok t1(2) _ h'(1)] by blast
    note st = filled_step [OF tin t'(2,3) i h'(2,3,5,6)]
    show ?thesis using st t1 t' h'(4) Some
      by (simp add: implements_def open_fd_def spec_open_def install_at_def dom_view h2)
  qed
qed

lemma publish_dup_ok:
  assumes tin: "table_in n t h D T" and c: "claimed i t t1" and i: "i < n" "i \<notin> opened t" and d: "d \<in> D" and r: "room h D T 1"
  shows "\<exists>t' h'. publish_dup i d flags t1 h = Inr (t', h') \<and> table_step n t h D T t' h' [] \<and>
    view t' h' = (view t h)(i \<mapsto> (fd_pfile (fh_descs h d), flags)) \<and> reserved t' = reserved t"
proof -
  have ok: "table_ok n t" and hok: "heap_ok h D T" using tin by (auto simp: table_in_def)
  let ?p = "fd_pfile (fh_descs h d)"
  obtain h2 where h2: "new_unpublished ?p flags h = (fh_ndescs h, h2)" by (simp add: new_unpublished_def desc_new_def)
  have "size (refs_of h D T) < RETIRED_DESCRIPTION_REFS - 1" using r by linarith
  then obtain h' where h': "publish_to_fd_table (fh_ndescs h) h2 = Inr h'" "heap_ok h' (insert (fh_ndescs h) D) T" "keeps h h'"
    "fd_key h' (fh_ndescs h) = (?p, flags)" "fh_ndescs h' = fh_ndescs h + 1" "fh_released h' = fh_released h"
    using publish_shared [OF hok heap_ok_refs [OF hok d], of flags] by (auto simp: h2)
  have "fh_ndescs h \<notin> slots t" using table_in_slots [OF tin] by auto
  then obtain t' where t': "publish_fd_desc i (fh_ndescs h) t1 h2 = Inr (t', h')" "table_ok n t'"
    "ft_fds t' = (ft_fds t)[i := Some (fh_ndescs h)]" "reserved t' = reserved t"
    using fill_ok [OF ok c _ h'(1)] by blast
  note st = filled_step [OF tin t'(2,3) i h'(2,3,5,6)]
  show ?thesis using st t' h'(4) by (simp add: publish_dup_def h2)
qed

lemma view_SomeE:
  assumes "table_in n t h D T" "view t h i = Some k"
  obtains d where "i < n" "ft_fds t ! i = Some d" "d \<in> slots t" "d \<in> D" "k = fd_key h d" "get_fd i t = Inr d"
proof -
  have ok: "table_ok n t" and sub: "slots t \<subseteq> D" using assms(1) by (auto simp: table_in_def)
  from assms(2) obtain d where d: "i < n" "ft_fds t ! i = Some d" "k = fd_key h d" by (auto simp: view_slot [OF ok] split: if_splits)
  then have "d \<in> slots t" using table_okD(1) [OF ok] by (auto simp: slots_iff)
  moreover have "get_fd i t = Inr d" using d table_okD(1) [OF ok] by (simp add: get_fd_def)
  ultimately show ?thesis using that d sub by blast
qed

lemma get_fd_None: "view t h i = None \<Longrightarrow> get_fd i t = Inl BadFileDescriptor"
  using get_fd_view [of i t h] by simp

lemma dup_implements:
  assumes tin: "table_in n t h D T" and c: "c \<le> n" and r: "room h D T 1"
  shows "implements n t h D T (\<lambda>_. []) id (dup old_fd c t h) (spec_dup old_fd c (view t h) (reserved t))"
proof (cases "view t h old_fd")
  case None
  with get_fd_None [OF this] show ?thesis by (simp add: implements_def dup_def spec_dup_def)
next
  case (Some k)
  then obtain d where d: "d \<in> D" "k = fd_key h d" "get_fd old_fd t = Inr d" using view_SomeE [OF tin] by blast
  have ok: "table_ok n t" using tin by (simp add: table_in_def)
  show ?thesis
  proof (cases "lowest_free (opened t \<union> reserved t) 0 c")
    case None
    with alloc_ok [OF ok c] d Some show ?thesis by (simp add: implements_def dup_def spec_dup_def install_at_def dom_view)
  next
    case (Some i)
    then have i: "i < n" "i \<notin> opened t" using c unfolding lowest_free_Some by auto
    obtain t1 where t1: "alloc c t = Inr (Inr i, t1)" "claimed i t t1" using alloc_ok [OF ok c] Some by auto
    from publish_dup_ok [OF tin t1(2) i d(1) r, of "{}"] show ?thesis using t1 d \<open>view t h old_fd = Some k\<close> Some
      by (auto simp: implements_def dup_def spec_dup_def install_at_def dom_view fd_key_def)
  qed
qed

lemma dup_ge_than_implements:
  assumes tin: "table_in n t h D T" and c: "c \<le> n" and r: "room h D T 1"
  shows "implements n t h D T (\<lambda>_. []) id (dup_ge_than old_fd m cloexec c t h) (spec_dup_ge_than old_fd m cloexec c (view t h) (reserved t))"
proof (cases "view t h old_fd")
  case None
  with get_fd_None [OF this] show ?thesis by (simp add: implements_def dup_ge_than_def spec_dup_ge_than_def)
next
  case (Some k)
  then obtain d where d: "d \<in> D" "k = fd_key h d" "get_fd old_fd t = Inr d" using view_SomeE [OF tin] by blast
  have ok: "table_ok n t" using tin by (simp add: table_in_def)
  show ?thesis
  proof (cases "c \<le> m \<or> lowest_free (opened t \<union> reserved t) m c = None")
    case True
    with alloc_ge_than_ok [OF ok c, of m] d Some show ?thesis
      by (auto simp: implements_def dup_ge_than_def spec_dup_ge_than_def install_at_def dom_view)
  next
    case False
    then obtain i where m: "\<not> c \<le> m" "lowest_free (opened t \<union> reserved t) m c = Some i" by auto
    then have i: "i < n" "i \<notin> opened t" using c unfolding lowest_free_Some by auto
    obtain t1 where t1: "alloc_ge_than m c t = Inr (Inr i, t1)" "claimed i t t1" using alloc_ge_than_ok [OF ok c, of m] m by auto
    from publish_dup_ok [OF tin t1(2) i d(1) r, of "if cloexec then {CLOSE_ON_EXEC} else {}"] show ?thesis using t1 d Some m
      by (auto simp: implements_def dup_ge_than_def spec_dup_ge_than_def install_at_def dom_view fd_key_def)
  qed
qed

lemma view_empty:
  assumes "table_in n t h D T" "keeps h h'" "i < n" "ft_fds t' = (ft_fds t)[i := None]"
  shows "view t' h' = (view t h)(i := None)"
proof -
  have "view t' h' = (view t h')(i := None)" using assms by (auto simp: view_def fun_eq_iff nth_list_update table_in_def table_ok_def)
  then show ?thesis using view_keeps [OF assms(2) table_in_slots [OF assms(1)]] by simp
qed

lemma close_fd_open:
  assumes tin: "table_in n t h D T" and i: "i < n" "ft_fds t ! i = Some d"
  shows "\<exists>t' h'. close_fd i t h = Inr (Inr d, t', h') \<and> table_step n t h D T t' h' [d] \<and> fh_ndescs h' = fh_ndescs h \<and>
    ft_fds t' = (ft_fds t)[i := None] \<and> view t' h' = (view t h)(i := None) \<and> reserved t' = reserved t"
proof -
  obtain t' h' where r: "recycle i t h = Inr (d, t', h')" "table_step n t h D T t' h' [d]" "fh_ndescs h' = fh_ndescs h"
    "ft_fds t' = (ft_fds t)[i := None]" "reserved t' = reserved t" using empty_ok [OF tin i] by blast
  have "length (ft_fds t) = n" using tin by (simp add: table_in_def table_ok_def)
  moreover have "view t' h' = (view t h)(i := None)" using view_empty [OF tin _ i(1) r(4)] r(2) by (simp add: table_step_def)
  ultimately show ?thesis using r i by (simp add: close_fd_def)
qed

lemma close_fd_none:
  assumes "table_ok n t" "view t h i = None"
  shows "close_fd i t h = Inr (Inl BadFileDescriptor, t, h)"
  using assms by (auto simp: view_slot [OF assms(1)] close_fd_def table_okD(1) [OF assms(1)] split: if_splits)

lemma close_fd_implements:
  assumes tin: "table_in n t h D T"
  shows "implements n t h D T (\<lambda>d. [d]) (\<lambda>d. files_of h [d]) (close_fd fd t h) (spec_close fd (view t h))"
proof (cases "view t h fd")
  case None
  with close_fd_none [of n t h fd] tin show ?thesis by (simp add: implements_def spec_close_def table_in_def)
next
  case (Some k)
  then obtain d where d: "fd < n" "ft_fds t ! fd = Some d" "k = fd_key h d" using view_SomeE [OF tin] by blast
  from close_fd_open [OF tin d(1,2)] Some d show ?thesis by (auto simp: implements_def spec_close_def files_of_def fd_key_def)
qed

text \<open>Operations one after the other.\<close>

lemma table_step_in: "table_step n t h D T t' h' cs \<Longrightarrow> table_in n t' h' (D - slots t \<union> slots t') (T + pfiles h cs)"
  by (simp add: table_step_def table_in_def)

lemma pfiles_keeps: "keeps h h' \<Longrightarrow> set cs \<subseteq> {..< fh_ndescs h} \<Longrightarrow> pfiles h' cs = pfiles h cs"
  unfolding pfiles_def by (rule image_mset_cong) (auto dest: keepsD simp: fd_key_def)

lemma files_of_keeps: "keeps h h' \<Longrightarrow> set cs \<subseteq> {..< fh_ndescs h} \<Longrightarrow> files_of h' cs = files_of h cs"
  unfolding files_of_def by (auto dest: keepsD simp: fd_key_def)

lemma table_step_trans:
  assumes tin: "table_in n t h D T" and a: "table_step n t h D T t1 h1 cs1"
    and b: "table_step n t1 h1 (D - slots t \<union> slots t1) (T + pfiles h cs1) t2 h2 cs2" and cs2: "set cs2 \<subseteq> slots t"
  shows "table_step n t h D T t2 h2 (cs1 @ cs2)"
proof -
  have lt: "slots t \<subseteq> {..< fh_ndescs h}" by (rule table_in_slots [OF tin])
  have D: "D \<subseteq> {..< fh_ndescs h}" using tin heap_okD(2) by (auto simp: table_in_def)
  have s1: "slots t1 \<subseteq> slots t \<union> {fh_ndescs h ..< fh_ndescs h1}" and k1: "keeps h h1" using a by (auto simp: table_step_def)
  have s2: "slots t2 \<subseteq> slots t1 \<union> {fh_ndescs h1 ..< fh_ndescs h2}" and k2: "keeps h1 h2" using b by (auto simp: table_step_def)
  have m: "fh_ndescs h \<le> fh_ndescs h1" "fh_ndescs h1 \<le> fh_ndescs h2" using k1 k2 by (auto simp: keeps_def)
  have "(D - slots t) \<inter> slots t1 = {}" using s1 D by fastforce
  then have "D - slots t \<union> slots t1 - slots t1 \<union> slots t2 = D - slots t \<union> slots t2" by auto
  moreover have "pfiles h1 cs2 = pfiles h cs2" using pfiles_keeps [OF k1] cs2 lt by blast
  moreover have "slots t2 \<subseteq> slots t \<union> {fh_ndescs h ..< fh_ndescs h2}" using s1 s2 m by fastforce
  ultimately show ?thesis using a b cs2 keeps_trans [OF k1 k2] by (simp add: table_step_def pfiles_def add.assoc)
qed

lemma size_refs: "heap_ok h D T \<Longrightarrow> size (refs_of h D T) = card D + size T"
  using heap_okD(1) by (simp add: refs_of_def)

lemma close_size:
  assumes tin: "table_in n t h D T" and st: "table_step n t h D T t' h' [d]" and s: "slots t' = slots t - {d}" and d: "d \<in> slots t"
  shows "size (refs_of h' (D - slots t \<union> slots t') (T + pfiles h [d])) = size (refs_of h D T)"
proof -
  have hok: "heap_ok h D T" and sub: "slots t \<subseteq> D" using tin by (auto simp: table_in_def)
  have "D - slots t \<union> slots t' = D - {d}" using s sub d by auto
  moreover have "card (D - {d}) + 1 = card D" using card_Suc_Diff1 [OF heap_okD(1) [OF hok], of d] d sub by auto
  ultimately show ?thesis using st size_refs [OF hok] size_refs [of h' "D - slots t \<union> slots t'" "T + pfiles h [d]"]
    by (simp add: table_step_def pfiles_def)
qed

lemma dup3_install_ok:
  assumes tin: "table_in n t h D T" and c: "c \<le> n" "fd < c" and free: "fd \<notin> opened t" "fd \<notin> reserved t" and d: "d \<in> D" and r: "room h D T 1"
  shows "\<exists>t' h'. dup3_install d fd flags c closed t h = Inr (Inr closed, t', h') \<and> table_step n t h D T t' h' [] \<and>
    view t' h' = (view t h)(fd \<mapsto> (fd_pfile (fh_descs h d), flags)) \<and> reserved t' = reserved t"
proof -
  have ok: "table_ok n t" using tin by (simp add: table_in_def)
  have fd: "fd < n" using c by simp
  obtain t1 where t1: "alloc_at fd c t = Inr (Inr (), t1)" "claimed fd t t1" using alloc_at_ok [OF ok c] free by auto
  show ?thesis using publish_dup_ok [OF tin t1(2) fd free(1) d r, of flags] t1(1) by (auto simp: dup3_install_def)
qed

lemma dup3_over:
  assumes tin: "table_in n t h D T" and c: "c \<le> n" "fd < c" and r: "room h D T 1"
    and d: "old \<noteq> fd" "old < n" "ft_fds t ! old = Some d" and e: "ft_fds t ! fd = Some e"
  shows "\<exists>t' h'. and_then (close_fd fd t h) (\<lambda>(r, t', h'). case r of Inl e \<Rightarrow> Inr (Inl e, t', h') | Inr x \<Rightarrow> dup3_install d fd flags c [x] t' h') =
      Inr (Inr [e], t', h') \<and> table_step n t h D T t' h' [e] \<and>
    view t' h' = (view t h)(fd \<mapsto> (fd_pfile (fh_descs h d), flags)) \<and> reserved t' = reserved t"
proof -
  have ok: "table_ok n t" using tin by (simp add: table_in_def)
  have fd: "fd < n" using c by simp
  obtain t1 h1 where t1: "close_fd fd t h = Inr (Inr e, t1, h1)" "table_step n t h D T t1 h1 [e]" "ft_fds t1 = (ft_fds t)[fd := None]"
    "view t1 h1 = (view t h)(fd := None)" "reserved t1 = reserved t" using close_fd_open [OF tin fd e] by blast
  let ?D = "D - slots t \<union> slots t1" and ?T = "T + pfiles h [e]"
  have es: "e \<in> slots t" using e fd table_okD(1) [OF ok] by (auto simp: slots_iff)
  have s1: "slots t1 = slots t - {e}" by (rule slots_empty [OF ok fd e t1(3)])
  have "d \<noteq> e" using table_ok_inj [OF ok d(2) fd d(3)] e d(1) by auto
  then have ds: "d \<in> slots t1" "d \<in> slots t" using d table_okD(1) [OF ok] by (auto simp: s1 slots_iff)
  have "room h1 ?D ?T 1" using close_size [OF tin t1(2) s1 es] r by simp
  moreover have "fd \<notin> opened t1" using opened_update [of fd t t1 None] t1(3) fd table_okD(1) [OF ok] by simp
  moreover have "fd \<notin> reserved t1" using e fd table_okD(1,6) [OF ok] by (auto simp: t1(5) opened_def)
  ultimately obtain t2 h2 where t2: "dup3_install d fd flags c [e] t1 h1 = Inr (Inr [e], t2, h2)" "table_step n t1 h1 ?D ?T t2 h2 []"
    "view t2 h2 = (view t1 h1)(fd \<mapsto> (fd_pfile (fh_descs h1 d), flags))" "reserved t2 = reserved t1"
    using dup3_install_ok [OF table_step_in [OF t1(2)] c, of d flags "[e]"] ds(1) by auto
  have "fd_pfile (fh_descs h1 d) = fd_pfile (fh_descs h d)"
    using t1(2) keepsD [of h h1 d] table_in_slots [OF tin] ds(2) by (auto simp: table_step_def fd_key_def)
  then show ?thesis using t1 t2 table_step_trans [OF tin t1(2) t2(2)] by simp
qed

lemma dup3_implements:
  assumes tin: "table_in n t h D T" and c: "c \<le> n" and r: "room h D T 1"
  shows "implements n t h D T id (files_of h) (dup3 old_fd new_fd flags c t h) (spec_dup3 n old_fd new_fd flags c (view t h) (reserved t))"
proof (cases "n \<le> new_fd \<or> old_fd = new_fd \<or> c \<le> new_fd \<or> view t h old_fd = None")
  case True
  have "length (ft_fds t) = n" using tin by (simp add: table_in_def table_ok_def)
  with True get_fd_None [of t h old_fd] show ?thesis
    by (auto simp: implements_def dup3_def spec_dup3_def ceiling_contains_def)
next
  case False
  then have new: "new_fd < n" "new_fd < c" "old_fd \<noteq> new_fd" by auto
  from False obtain k where k: "view t h old_fd = Some k" by auto
  then obtain d where d: "old_fd < n" "ft_fds t ! old_fd = Some d" "d \<in> slots t" "d \<in> D" "k = fd_key h d" "get_fd old_fd t = Inr d"
    by (rule view_SomeE [OF tin])
  have ok: "table_ok n t" using tin by (simp add: table_in_def)
  note len = table_okD(1) [OF ok]
  have test: "wb_test new_fd (ft_bitmap t) = Inr (new_fd \<in> opened t \<union> reserved t)"
    using wb_test_eq [of new_fd "ft_bitmap t"] table_okD(2,5) [OF ok] new by simp
  show ?thesis
  proof (cases "ft_fds t ! new_fd")
    case (Some e)
    then have v: "view t h new_fd = Some (fd_key h e)" "new_fd \<notin> reserved t"
      using new len table_okD(6) [OF ok] by (auto simp: view_def opened_def)
    from dup3_over [OF tin c new(2) r new(3) d(1,2) Some, of flags] show ?thesis
      using new k d v Some len by (auto simp: implements_def dup3_def spec_dup3_def ceiling_contains_def files_of_def fd_key_def)
  next
    case None
    then have v: "view t h new_fd = None" "new_fd \<notin> opened t" using new len by (auto simp: view_def opened_def)
    show ?thesis
    proof (cases "new_fd \<in> reserved t")
      case True
      then show ?thesis using new k d v None len test by (simp add: implements_def dup3_def spec_dup3_def ceiling_contains_def)
    next
      case False
      from dup3_install_ok [OF tin c new(2) v(2) False d(4) r, of flags "[]"] show ?thesis
        using False new k d v None len test by (auto simp: implements_def dup3_def spec_dup3_def ceiling_contains_def files_of_def fd_key_def)
    qed
  qed
qed

subsection \<open>Loops over the slots\<close>

text \<open>\<open>closes\<close>: exactly the open numbers of a list were closed, in its order.\<close>

definition files_at :: "fd_map \<Rightarrow> nat list \<Rightarrow> nat list" where
  "files_at V is = map (\<lambda>i. fst (the (V i))) (filter (\<lambda>i. V i \<noteq> None) is)"

definition closes :: "nat \<Rightarrow> file_table \<Rightarrow> file_heap \<Rightarrow> nat set \<Rightarrow> nat multiset \<Rightarrow> nat list \<Rightarrow> fault + nat list \<times> file_table \<times> file_heap \<Rightarrow> bool" where
  "closes n t h D T is r \<longleftrightarrow>
     (\<exists>cs t' h'. r = Inr (cs, t', h') \<and> table_step n t h D T t' h' cs \<and> fh_ndescs h' = fh_ndescs h \<and>
        view t' h' = view t h |` (- set is) \<and> reserved t' = reserved t \<and> files_of h cs = files_at (view t h) is)"

lemma files_at_cong: "(\<And>i. i \<in> set is \<Longrightarrow> V i = W i) \<Longrightarrow> files_at V is = files_at W is"
  by (induction "is") (simp_all add: files_at_def)

lemma files_Cons:
  "files_of h (d # ds) = fd_pfile (fh_descs h d) # files_of h ds"
  "V i = Some k \<Longrightarrow> files_at V (i # is) = fst k # files_at V is"
  by (simp_all add: files_of_def files_at_def)

lemma closes_Nil: "table_in n t h D T \<Longrightarrow> closes n t h D T [] (Inr ([], t, h))"
  by (simp add: closes_def table_step_refl files_of_def files_at_def restrict_map_def)

lemma closes_skip:
  assumes "closes n t h D T is r" "view t h i = None"
  shows "closes n t h D T (i # is) r"
proof -
  have "view t h |` (- set (i # is)) = view t h |` (- set is)" using assms(2) by (auto simp: restrict_map_def fun_eq_iff)
  moreover have "files_at (view t h) (i # is) = files_at (view t h) is" using assms(2) by (simp add: files_at_def)
  ultimately show ?thesis using assms(1) unfolding closes_def by simp
qed

lemma closes_Cons:
  assumes tin: "table_in n t h D T" and i: "i < n" "ft_fds t ! i = Some d" "i \<notin> set is"
    and c: "close_fd i t h = Inr (Inr d, t1, h1)" "table_step n t h D T t1 h1 [d]" "fh_ndescs h1 = fh_ndescs h"
      "view t1 h1 = (view t h)(i := None)" "reserved t1 = reserved t"
    and r: "closes n t1 h1 (D - slots t \<union> slots t1) (T + pfiles h [d]) is r"
  shows "closes n t h D T (i # is) (and_then r (\<lambda>(ds, s). Inr (d # ds, s)))"
proof -
  obtain cs t2 h2 where t2: "r = Inr (cs, t2, h2)" "table_step n t1 h1 (D - slots t \<union> slots t1) (T + pfiles h [d]) t2 h2 cs" "fh_ndescs h2 = fh_ndescs h1"
    "view t2 h2 = view t1 h1 |` (- set is)" "reserved t2 = reserved t1" "files_of h1 cs = files_at (view t1 h1) is"
    using r unfolding closes_def by blast
  have "set cs \<subseteq> slots t1" "slots t1 \<subseteq> slots t" using t2(2) c(2,3) by (auto simp: table_step_def)
  then have cs: "set cs \<subseteq> slots t" by blast
  have "files_of h cs = files_of h1 cs" using files_of_keeps [of h h1 cs] c(2) cs table_in_slots [OF tin] by (auto simp: table_step_def)
  also have "\<dots> = files_at (view t1 h1) is" by (rule t2(6))
  also have "\<dots> = files_at (view t h) is" by (rule files_at_cong) (use i(3) in \<open>auto simp: c(4)\<close>)
  finally have "files_of h cs = files_at (view t h) is" .
  moreover have "view t h i = Some (fd_key h d)" using i tin by (simp add: view_def table_in_def table_ok_def)
  ultimately have "files_of h (d # cs) = files_at (view t h) (i # is)" by (simp add: files_Cons fd_key_def)
  moreover have "view t2 h2 = view t h |` (- set (i # is))" unfolding t2(4) c(4) by (auto simp: restrict_map_def fun_eq_iff)
  ultimately show ?thesis using t2 c table_step_trans [OF tin c(2) t2(2) cs] by (simp add: closes_def)
qed

lemma close_each_ok:
  assumes "table_in n t h D T" "distinct is"
  shows "closes n t h D T is (close_each is t h)"
  using assms
proof (induction "is" arbitrary: t h D T)
  case Nil
  then show ?case by (simp add: closes_Nil)
next
  case (Cons i "is")
  note tin = Cons.prems(1)
  show ?case
  proof (cases "view t h i")
    case None
    then have "close_fd i t h = Inr (Inl BadFileDescriptor, t, h)" using close_fd_none [of n t h i] tin by (simp add: table_in_def)
    with closes_skip [OF Cons.IH [OF tin] None] Cons.prems(2) show ?thesis by simp
  next
    case (Some k)
    then obtain d where d: "i < n" "ft_fds t ! i = Some d" using view_SomeE [OF tin] by blast
    obtain t1 h1 where t1: "close_fd i t h = Inr (Inr d, t1, h1)" "table_step n t h D T t1 h1 [d]" "fh_ndescs h1 = fh_ndescs h"
      "view t1 h1 = (view t h)(i := None)" "reserved t1 = reserved t" using close_fd_open [OF tin d] by blast
    from closes_Cons [OF tin d _ t1 Cons.IH [OF table_step_in [OF t1(2)]]] Cons.prems(2) t1(1) show ?thesis by simp
  qed
qed

lemma opened_among_ok:
  assumes "table_ok n t" "set is \<subseteq> {..< n}"
  shows "opened_among is t = Inr (filter (\<lambda>i. i \<in> opened t) is)"
  using assms(2)
proof (induction "is")
  case (Cons i "is")
  then have "slot i t = Inr (ft_fds t ! i)" "fd_of i = Inr i" using slot_ok [OF assms(1)] fd_of_ok [OF _ table_okD(4) [OF assms(1)]] by auto
  with Cons show ?case using table_okD(1) [OF assms(1)] by (auto simp: opened_def)
qed simp

text \<open>A list may be thinned out to the numbers that are open.\<close>

lemma closes_filter:
  assumes "closes n t h D T (filter P is) r" "\<And>i. i \<in> set is \<Longrightarrow> \<not> P i \<Longrightarrow> view t h i = None"
  shows "closes n t h D T is r"
proof -
  have "view t h |` (- set (filter P is)) = view t h |` (- set is)" using assms(2) by (auto simp: restrict_map_def fun_eq_iff)
  moreover have "files_at (view t h) (filter P is) = files_at (view t h) is" unfolding files_at_def using assms(2)
    by (induction "is") auto
  ultimately show ?thesis using assms(1) by (simp add: closes_def)
qed

lemma close_range_ok:
  assumes tin: "table_in n t h D T"
  shows "closes n t h D T [a ..< min (b + 1) n] (close_range a b t h)"
proof -
  have ok: "table_ok n t" and len: "length (ft_fds t) = n" using tin by (auto simp: table_in_def table_ok_def)
  show ?thesis
  proof (cases "a < n \<and> a \<le> b")
    case True
    then have m: "min b (n - 1) + 1 = min (b + 1) n" "\<not> min b (n - 1) < a" "\<not> n \<le> a" by auto
    have "view t h i = None" if "i \<notin> opened t" for i using that dom_view [of t h] by auto
    then have "closes n t h D T [a ..< min (b + 1) n] (close_each (filter (\<lambda>i. i \<in> opened t) [a ..< min (b + 1) n]) t h)"
      by (intro closes_filter [OF close_each_ok [OF tin]]) auto
    moreover have "close_range a b t h = close_each (filter (\<lambda>i. i \<in> opened t) [a ..< min (b + 1) n]) t h"
      using m opened_among_ok [OF ok, of "[a ..< min (b + 1) n]"] by (simp add: close_range_def len Let_def subset_iff)
    ultimately show ?thesis by simp
  next
    case False
    then have e: "close_range a b t h = Inr ([], t, h)" "[a ..< min (b + 1) n] = []" by (auto simp: close_range_def len Let_def)
    show ?thesis unfolding e by (rule closes_Nil [OF tin])
  qed
qed

definition cloexec_at :: "fd_map \<Rightarrow> nat \<Rightarrow> bool" where
  "cloexec_at V i \<longleftrightarrow> (case V i of None \<Rightarrow> False | Some k \<Rightarrow> CLOSE_ON_EXEC \<in> snd k)"

lemma cloexec_each_ok:
  assumes "table_in n t h D T" "distinct is" "set is \<subseteq> {..< n}"
  shows "closes n t h D T (filter (cloexec_at (view t h)) is) (cloexec_each is t h)"
  using assms
proof (induction "is" arbitrary: t h D T)
  case Nil
  then show ?case by (simp add: closes_Nil)
next
  case (Cons i "is")
  note tin = Cons.prems(1)
  have ok: "table_ok n t" using tin by (simp add: table_in_def)
  have i: "i < n" "fd_of i = Inr i" "slot i t = Inr (ft_fds t ! i)"
    using Cons.prems(3) fd_of_ok [OF _ table_okD(4) [OF ok]] slot_ok [OF ok] by auto
  show ?case
  proof (cases "ft_fds t ! i")
    case None
    then have "\<not> cloexec_at (view t h) i" using i(1) by (simp add: cloexec_at_def view_slot [OF ok])
    with None i Cons.IH [OF tin] Cons.prems(2,3) show ?thesis by simp
  next
    case (Some d)
    then have cl: "cloexec_at (view t h) i \<longleftrightarrow> CLOSE_ON_EXEC \<in> fd_flags (fh_descs h d)"
      using i(1) by (simp add: cloexec_at_def view_slot [OF ok] fd_key_def)
    show ?thesis
    proof (cases "CLOSE_ON_EXEC \<in> fd_flags (fh_descs h d)")
      case False
      with Some i cl Cons.IH [OF tin] Cons.prems(2,3) show ?thesis by simp
    next
      case True
      obtain t1 h1 where t1: "close_fd i t h = Inr (Inr d, t1, h1)" "table_step n t h D T t1 h1 [d]" "fh_ndescs h1 = fh_ndescs h"
        "view t1 h1 = (view t h)(i := None)" "reserved t1 = reserved t" using close_fd_open [OF tin i(1) Some] by blast
      have "filter (cloexec_at (view t1 h1)) is = filter (cloexec_at (view t h)) is"
        using Cons.prems(2) by (intro filter_cong) (auto simp: cloexec_at_def t1(4))
      moreover have "closes n t1 h1 (D - slots t \<union> slots t1) (T + pfiles h [d]) (filter (cloexec_at (view t1 h1)) is) (cloexec_each is t1 h1)"
        using Cons.IH [OF table_step_in [OF t1(2)]] Cons.prems(2,3) by simp
      ultimately have "closes n t h D T (i # filter (cloexec_at (view t h)) is) (and_then (cloexec_each is t1 h1) (\<lambda>(ds, s). Inr (d # ds, s)))"
        using closes_Cons [OF tin i(1) Some _ t1] Cons.prems(2) by simp
      then show ?thesis using True Some i cl t1(1) by simp
    qed
  qed
qed

lemma close_on_exec_ok:
  assumes "table_in n t h D T"
  shows "closes n t h D T (filter (cloexec_at (view t h)) [0 ..< n]) (close_on_exec t h)"
  using cloexec_each_ok [OF assms, of "[0 ..< n]"] assms by (simp add: close_on_exec_def table_in_def table_ok_def atLeast0LessThan)

subsection \<open>Draining and forking a table\<close>

definition somes :: "'a option list \<Rightarrow> 'a list" where
  "somes ss = map the (filter (\<lambda>s. s \<noteq> None) ss)"

lemma somes_simps [simp]: "somes [] = []" "somes (None # ss) = somes ss" "somes (Some d # ss) = d # somes ss"
  by (simp_all add: somes_def)

lemma set_somes: "set (somes ss) = {d. Some d \<in> set ss}"
  by (induction ss) (auto simp: somes_def)

lemma slots_somes: "slots t = set (somes (ft_fds t))"
  by (simp add: slots_def set_somes)

lemma distinct_somes:
  "(\<And>i j d. i < length ss \<Longrightarrow> j < length ss \<Longrightarrow> ss ! i = Some d \<Longrightarrow> ss ! j = Some d \<Longrightarrow> i = j) \<Longrightarrow> distinct (somes ss)"
proof (induction ss)
  case (Cons s ss)
  have "distinct (somes ss)"
  proof (rule Cons.IH)
    fix i j d
    assume "i < length ss" "j < length ss" "ss ! i = Some d" "ss ! j = Some d"
    then show "i = j" using Cons.prems [of "Suc i" "Suc j" d] by simp
  qed
  moreover have "d \<notin> set (somes ss)" if "s = Some d" for d
  proof
    assume "d \<in> set (somes ss)"
    then obtain j where "j < length ss" "ss ! j = Some d" by (auto simp: set_somes in_set_conv_nth)
    then show False using Cons.prems [of 0 "Suc j" d] that by simp
  qed
  ultimately show ?case by (cases s) auto
qed simp

lemma somes_inj: "distinct (somes ss) \<Longrightarrow> i < length ss \<Longrightarrow> j < length ss \<Longrightarrow> ss ! i = Some d \<Longrightarrow> ss ! j = Some d \<Longrightarrow> i = j"
proof (induction ss arbitrary: i j)
  case (Cons s ss)
  have "d \<in> set (somes ss)" if "k < length ss" "ss ! k = Some d" for k using that by (auto simp: set_somes in_set_conv_nth)
  moreover have "distinct (somes ss)" using Cons.prems(1) by (cases s) auto
  ultimately show ?case using Cons by (cases i; cases j) auto
qed simp

lemma table_ok_distinct: "table_ok n t \<Longrightarrow> distinct (somes (ft_fds t))"
  by (rule distinct_somes) (auto simp: table_ok_def)

lemma drain_slots_ok:
  assumes ok: "table_ok n t" and "heap_ok h D T" "ss = drop i (ft_fds t)" "set (somes ss) \<subseteq> D"
  shows "\<exists>h'. drain_slots i ss t h = Inr (somes ss, h') \<and> heap_ok h' (D - set (somes ss)) (T + pfiles h (somes ss)) \<and> keeps h h' \<and>
    fh_ndescs h' = fh_ndescs h \<and> fh_released h' = fh_released h"
  using assms(2-)
proof (induction ss arbitrary: i h D T)
  case Nil
  then show ?case by (simp add: pfiles_def)
next
  case (Cons s ss)
  note k = table_okD [OF ok]
  have i: "i < n" "ft_fds t ! i = s" "ss = drop (Suc i) (ft_fds t)"
    using Cons.prems(2) k(1) by (metis drop_eq_Nil list.discI not_le, metis nth_via_drop, metis drop_Suc list.sel(3) tl_drop)
  have "distinct (somes (s # ss))" using table_ok_distinct [OF ok] unfolding Cons.prems(2)
    by (metis append_take_drop_id distinct_append filter_append map_append somes_def)
  show ?case
  proof (cases s)
    case None
    with Cons.IH [OF Cons.prems(1) i(3)] Cons.prems(3) show ?thesis by simp
  next
    case (Some d)
    then have d: "d \<in> D" "d \<notin> set (somes ss)" using Cons.prems(3) \<open>distinct (somes (s # ss))\<close> by auto
    obtain h1 where h1: "unpublish_from_fd_table d h = Inr h1" "heap_ok h1 (D - {d}) (add_mset (fd_pfile (fh_descs h d)) T)" "keeps h h1"
      "fh_ndescs h1 = fh_ndescs h" "fh_released h1 = fh_released h" using unpublish_ok [OF Cons.prems(1) d(1)] by blast
    obtain h2 where h2: "drain_slots (Suc i) ss t h1 = Inr (somes ss, h2)"
      "heap_ok h2 (D - {d} - set (somes ss)) (add_mset (fd_pfile (fh_descs h d)) T + pfiles h1 (somes ss))" "keeps h1 h2"
      "fh_ndescs h2 = fh_ndescs h1" "fh_released h2 = fh_released h1"
      using Cons.IH [OF h1(2) i(3)] Cons.prems(3) Some d by auto
    have "i \<in> opened t" using i Some k(1) by (simp add: opened_def)
    then have "wb_test i (ft_bitmap t) = Inr True" "wb_test i (ft_reserved t) = Inr False"
      using wb_test_eq [of i "ft_bitmap t"] wb_test_eq [of i "ft_reserved t"] k i(1) by (auto simp: reserved_def)
    moreover have "pfiles h1 (somes ss) = pfiles h (somes ss)"
      using pfiles_keeps [OF h1(3)] heap_okD(2) [OF Cons.prems(1)] Cons.prems(3) Some by auto
    moreover have "D - {d} - set (somes ss) = D - set (somes (s # ss))" using Some by auto
    ultimately show ?thesis using h1 h2 Some keeps_trans [OF h1(3) h2(3)] by (simp add: pfiles_def)
  qed
qed

lemma files_of_slots: "files_of h (somes (ft_fds t)) = files_at (view t h) [0 ..< length (ft_fds t)]"
proof -
  have "somes (ft_fds t) = map (\<lambda>i. the (ft_fds t ! i)) (filter (\<lambda>i. ft_fds t ! i \<noteq> None) [0 ..< length (ft_fds t)])"
    unfolding somes_def by (subst map_nth [of "ft_fds t", symmetric]) (simp add: filter_map comp_def del: map_nth)
  moreover have "filter (\<lambda>i. view t h i \<noteq> None) [0 ..< length (ft_fds t)] = filter (\<lambda>i. ft_fds t ! i \<noteq> None) [0 ..< length (ft_fds t)]"
    by (rule filter_cong) (auto simp: view_def)
  ultimately show ?thesis by (auto simp: files_of_def files_at_def view_def fd_key_def)
qed

lemma drain_ok:
  assumes tin: "table_in n t h D T"
  shows "\<exists>cs t' h'. drain_all_published_fds t h = Inr (cs, t', h') \<and> table_step n t h D T t' h' cs \<and> fh_ndescs h' = fh_ndescs h \<and>
    opened t' = {} \<and> reserved t' = {} \<and> slots t' = {} \<and> distinct cs \<and> set cs = slots t \<and> files_of h cs = files_at (view t h) [0 ..< n]"
proof -
  have ok: "table_ok n t" and hok: "heap_ok h D T" and sub: "slots t \<subseteq> D" using tin by (auto simp: table_in_def)
  let ?cs = "somes (ft_fds t)"
  let ?t = "\<lparr>ft_bitmap = wb_clear_all (ft_bitmap t), ft_reserved = wb_clear_all (ft_reserved t), ft_fds = map (\<lambda>_. None) (ft_fds t)\<rparr>"
  obtain h' where h': "drain_slots 0 (ft_fds t) t h = Inr (?cs, h')" "heap_ok h' (D - set ?cs) (T + pfiles h ?cs)" "keeps h h'"
    "fh_ndescs h' = fh_ndescs h" "fh_released h' = fh_released h"
    using drain_slots_ok [OF ok hok, of "ft_fds t" 0] sub by (auto simp: slots_somes)
  have o: "opened ?t = {}" "slots ?t = {}" "reserved ?t = {}" by (auto simp: opened_def slots_def reserved_def)
  have "table_ok n ?t" using table_okD [OF ok] o by (simp add: table_ok_def)
  then have "table_step n t h D T ?t h' ?cs" using h' o by (simp add: table_step_def slots_somes)
  moreover have "drain_all_published_fds t h = Inr (?cs, ?t, h')" using h'(1) by (simp add: drain_all_published_fds_def)
  ultimately show ?thesis using o h' table_ok_distinct [OF ok] files_of_slots [of h t] table_okD(1) [OF ok]
    by (auto simp: slots_somes)
qed

text \<open>Every slot of a forked table has a descriptor of its own, with the file and the flags of
  the original.\<close>

definition copies :: "file_heap \<Rightarrow> nat option list \<Rightarrow> file_heap \<Rightarrow> nat option list \<Rightarrow> bool" where
  "copies h ss h' xs \<longleftrightarrow> map (map_option (fd_key h')) xs = map (map_option (fd_key h)) ss \<and> distinct (somes xs) \<and>
     set (somes xs) = {fh_ndescs h ..< fh_ndescs h'}"

lemma copies_Cons:
  assumes c: "copies h1 ss h2 xs" and k: "fd_key h2 (fh_ndescs h) = fd_key h d" "keeps h h1" and n: "fh_ndescs h1 = fh_ndescs h + 1" "fh_ndescs h1 \<le> fh_ndescs h2"
    and ss: "set (somes ss) \<subseteq> {..< fh_ndescs h}"
  shows "copies h (Some d # ss) h2 (Some (fh_ndescs h) # xs)"
proof -
  have "map (map_option (fd_key h1)) ss = map (map_option (fd_key h)) ss"
  proof (rule map_cong)
    fix s
    assume "s \<in> set ss"
    then have "d < fh_ndescs h" if "s = Some d" for d using ss that unfolding set_somes by blast
    then show "map_option (fd_key h1) s = map_option (fd_key h) s" using keepsD [OF k(2)] option.map_cong0 by (cases s) auto
  qed simp
  moreover have "{fh_ndescs h ..< fh_ndescs h2} = insert (fh_ndescs h) {fh_ndescs h1 ..< fh_ndescs h2}" using n by auto
  ultimately show ?thesis using c k(1) n(1) by (auto simp: copies_def)
qed

lemma fork_slots_ok:
  assumes "heap_ok h D T" "set (somes ss) \<subseteq> D" "i + length ss \<le> length b * 64" "room h D T (length ss)"
  shows "\<exists>xs b' h'. fork_slots i ss b h = Inr (xs, b', h') \<and> heap_ok h' (D \<union> set (somes xs)) T \<and> keeps h h' \<and> copies h ss h' xs \<and>
    length b' = length b \<and> wb_bits b' = wb_bits b \<union> {j. i \<le> j \<and> j < i + length ss \<and> ss ! (j - i) \<noteq> None} \<and> fh_released h' = fh_released h"
  using assms
proof (induction ss arbitrary: i h D b)
  case Nil
  then show ?case by (auto simp: copies_def)
next
  case (Cons s ss)
  have idx: "{j. i \<le> j \<and> j < i + length (s # ss) \<and> (s # ss) ! (j - i) \<noteq> None} =
      (if s = None then {} else {i}) \<union> {j. Suc i \<le> j \<and> j < Suc i + length ss \<and> ss ! (j - Suc i) \<noteq> None}" (is "?A = ?B")
  proof (intro set_eqI)
    fix j
    show "j \<in> ?A \<longleftrightarrow> j \<in> ?B" by (cases "j = i"; cases "i < j") (auto simp: nth_Cons' not_less_eq_eq)
  qed
  show ?case
  proof (cases s)
    case None
    obtain xs b' h' where r: "fork_slots (Suc i) ss b h = Inr (xs, b', h')" "heap_ok h' (D \<union> set (somes xs)) T" "keeps h h'" "copies h ss h' xs"
      "length b' = length b" "wb_bits b' = wb_bits b \<union> {j. Suc i \<le> j \<and> j < Suc i + length ss \<and> ss ! (j - Suc i) \<noteq> None}" "fh_released h' = fh_released h"
      using Cons.IH [OF Cons.prems(1), of "Suc i" b] Cons.prems None by auto
    have "copies h (None # ss) h' (None # xs)" using r(4) by (simp add: copies_def)
    then show ?thesis unfolding idx using None r by simp
  next
    case (Some d)
    have d: "d \<in> D" using Cons.prems(2) Some by simp
    let ?p = "fd_pfile (fh_descs h d)" and ?f = "fd_flags (fh_descs h d)" and ?d = "fh_ndescs h"
    have "size (refs_of h D T) < RETIRED_DESCRIPTION_REFS - 1" using Cons.prems(4) by simp
    then obtain h1 where h1: "publish_to_fd_table ?d (snd (new_unpublished ?p ?f h)) = Inr h1" "heap_ok h1 (insert ?d D) T" "keeps h h1"
      "fd_key h1 ?d = (?p, ?f)" "fh_ndescs h1 = ?d + 1" "fh_released h1 = fh_released h"
      using publish_shared [OF Cons.prems(1) heap_ok_refs [OF Cons.prems(1) d], of ?f]
      by (auto simp: new_unpublished_def desc_new_def)
    obtain b1 where b1: "wb_set i b = Inr b1" "wb_bits b1 = insert i (wb_bits b)" "length b1 = length b"
      using wb_set_ok [of i b] Cons.prems(3) by auto
    have "?d \<notin> D" using heap_okD(2) [OF Cons.prems(1)] by auto
    then have "room h1 (insert ?d D) T (length ss)"
      using Cons.prems(4) size_refs [OF h1(2)] size_refs [OF Cons.prems(1)] heap_okD(1) [OF Cons.prems(1)] by simp
    then obtain xs b' h' where r: "fork_slots (Suc i) ss b1 h1 = Inr (xs, b', h')" "heap_ok h' (insert ?d D \<union> set (somes xs)) T" "keeps h1 h'" "copies h1 ss h' xs"
      "length b' = length b1" "wb_bits b' = wb_bits b1 \<union> {j. Suc i \<le> j \<and> j < Suc i + length ss \<and> ss ! (j - Suc i) \<noteq> None}" "fh_released h' = fh_released h1"
      using Cons.IH [OF h1(2), of "Suc i" b1] Cons.prems(2,3) Some b1(3) by fastforce
    have "fd_key h' ?d = fd_key h d" using keepsD [OF r(3), of ?d] h1(4,5) by (simp add: fd_key_def)
    moreover have "set (somes ss) \<subseteq> {..< ?d}" using Cons.prems(2) Some heap_okD(2) [OF Cons.prems(1)] by auto
    ultimately have "copies h (Some d # ss) h' (Some ?d # xs)"
      using copies_Cons [OF r(4) _ h1(3,5)] r(3) by (simp add: keeps_def)
    moreover have "fork_slots i (Some d # ss) b h = Inr (Some ?d # xs, b', h')"
      using h1(1) b1(1) r(1) by (simp add: new_unpublished_def desc_new_def)
    ultimately show ?thesis unfolding idx using Some r b1 h1 keeps_trans [OF h1(3) r(3)] by auto
  qed
qed

lemma table_fork_ok:
  assumes tin: "table_in n t h D T" and r: "room h D T n"
  shows "\<exists>t' h'. table_fork t h = Inr (t', h') \<and> table_ok n t' \<and> heap_ok h' (D \<union> slots t') T \<and> keeps h h' \<and>
    slots t' = {fh_ndescs h ..< fh_ndescs h'} \<and> view t' h' = view t h \<and> reserved t' = {} \<and> fh_released h' = fh_released h"
proof -
  have ok: "table_ok n t" and hok: "heap_ok h D T" and sub: "set (somes (ft_fds t)) \<subseteq> D" using tin by (auto simp: table_in_def slots_somes)
  note k = table_okD [OF ok]
  obtain xs b h' where f: "fork_slots 0 (ft_fds t) (wb_new (length (ft_bitmap t))) h = Inr (xs, b, h')" "heap_ok h' (D \<union> set (somes xs)) T"
    "keeps h h'" "copies h (ft_fds t) h' xs" "length b = length (ft_bitmap t)" "wb_bits b = opened t" "fh_released h' = fh_released h"
    using fork_slots_ok [OF hok sub, of 0 "wb_new (length (ft_bitmap t))"] k(1,2) r by (auto simp: opened_def)
  define t' where "t' = \<lparr>ft_bitmap = b, ft_reserved = wb_new (length (ft_bitmap t)), ft_fds = xs\<rparr>"
  have len: "length xs = n" using f(4) k(1) by (metis copies_def length_map)
  have same: "map_option (fd_key h') (xs ! i) = map_option (fd_key h) (ft_fds t ! i)" if "i < n" for i
    using f(4) that len k(1) unfolding copies_def by (metis nth_map)
  have v: "view t' h' = view t h" using same len k(1) by (simp add: view_def t'_def fun_eq_iff)
  then have o: "opened t' = opened t" using dom_view by metis
  have "table_ok n t'" unfolding table_ok_def o
  proof (intro conjI allI impI)
    fix i j d
    assume "i < n" "j < n" "ft_fds t' ! i = Some d" "ft_fds t' ! j = Some d"
    then show "i = j" using f(4) somes_inj [of xs i j d] len by (simp add: copies_def t'_def)
  qed (use f k len in \<open>auto simp: t'_def reserved_def\<close>)
  moreover have "table_fork t h = Inr (t', h')" using f(1) by (simp add: table_fork_def t'_def)
  moreover have "slots t' = {fh_ndescs h ..< fh_ndescs h'}" "slots t' = set (somes xs)" "reserved t' = {}"
    using f(4) by (simp_all add: slots_somes copies_def t'_def reserved_def)
  ultimately show ?thesis using f v by simp
qed

subsection \<open>Reserving, committing and rolling back\<close>

lemma reserve_fd_ok:
  assumes ok: "table_ok n t" and c: "c \<le> n"
  shows "case lowest_free (opened t \<union> reserved t) 0 c of
      None \<Rightarrow> reserve_fd c t = Inr (Inl NoMoreFd, t)
    | Some i \<Rightarrow> \<exists>t'. reserve_fd c t = Inr (Inr i, t') \<and> table_ok n t' \<and> ft_fds t' = ft_fds t \<and> reserved t' = insert i (reserved t) \<and> i \<notin> opened t"
proof (cases "lowest_free (opened t \<union> reserved t) 0 c")
  case None
  with alloc_ok [OF ok c] show ?thesis by (simp add: reserve_fd_def)
next
  case (Some i)
  note k = table_okD [OF ok]
  have i: "i < n" "i \<notin> opened t" "i \<notin> reserved t" using c Some unfolding lowest_free_Some by auto
  obtain t1 where t1: "alloc c t = Inr (Inr i, t1)" "claimed i t t1" using alloc_ok [OF ok c] Some by auto
  obtain b where b: "wb_set i (ft_reserved t) = Inr b" "wb_bits b = insert i (reserved t)" "length b = length (ft_reserved t)"
    using wb_set_ok [of i "ft_reserved t"] i(1) k(3) by (auto simp: reserved_def)
  define t' where "t' = t1\<lparr>ft_reserved := b\<rparr>"
  have fds: "ft_fds t1 = ft_fds t" "ft_reserved t1 = ft_reserved t" "length (ft_bitmap t1) = length (ft_bitmap t)"
    "wb_bits (ft_bitmap t1) = insert i (wb_bits (ft_bitmap t))" using t1(2) by (auto simp: claimed_def)
  have "slot_is_none i t1 = Inr True" using fds(1) i(1,2) k(1) by (simp add: slot_is_none_def slot_def opened_def)
  moreover have "wb_test i (ft_reserved t1) = Inr False" using wb_test_eq [of i "ft_reserved t"] i k(3) fds(2) by (simp add: reserved_def)
  ultimately have "reserve_fd c t = Inr (Inr i, t')" using t1(1) b(1) fds(2) by (simp add: reserve_fd_def t'_def)
  moreover have "reserved t' = insert i (reserved t)" "opened t' = opened t" using b fds by (simp_all add: t'_def reserved_def opened_def)
  moreover have "table_ok n t'" using ok i fds b unfolding table_ok_def \<open>reserved t' = _\<close> \<open>opened t' = _\<close>
    by (auto simp: t'_def)
  ultimately show ?thesis using Some fds(1) i(2) by (simp add: t'_def)
qed

lemma commit_reserved_fd_ok:
  assumes ok: "table_ok n t" and i: "i \<in> reserved t" and d: "d \<notin> slots t" and p: "publish_to_fd_table d h1 = Inr h'"
  shows "\<exists>t'. commit_reserved_fd i d t h1 = Inr (t', h') \<and> table_ok n t' \<and> ft_fds t' = (ft_fds t)[i := Some d] \<and> reserved t' = reserved t - {i}"
proof -
  note k = table_okD [OF ok]
  have in_n: "i < n" and no: "i \<notin> opened t" using i k(6,8) by auto
  obtain b where b: "wb_clear i (ft_reserved t) = Inr b" "wb_bits b = reserved t - {i}" "length b = length (ft_reserved t)"
    using wb_clear_ok [of i "ft_reserved t"] in_n k(3) by (auto simp: reserved_def)
  define t' where "t' = t\<lparr>ft_fds := (ft_fds t)[i := Some d], ft_reserved := b\<rparr>"
  have "wb_test i (ft_bitmap t) = Inr True" "wb_test i (ft_reserved t) = Inr True"
    using wb_test_eq [of i "ft_bitmap t"] wb_test_eq [of i "ft_reserved t"] k in_n i by (auto simp: reserved_def)
  then have "commit_reserved_fd i d t h1 = Inr (t', h')"
    using p b(1) in_n k(1) slot_is_none_ok [OF ok in_n] no by (simp add: commit_reserved_fd_def t'_def)
  moreover have o: "opened t' = insert i (opened t)" using opened_update [of i t t' "Some d"] in_n k(1) by (simp add: t'_def)
  moreover have r: "reserved t' = reserved t - {i}" using b by (simp add: reserved_def t'_def)
  moreover have "table_ok n t'" unfolding table_ok_def o r
  proof (intro conjI allI impI)
    fix a a' x
    assume ab: "a < n" "a' < n" "ft_fds t' ! a = Some x" "ft_fds t' ! a' = Some x"
    have "x \<noteq> d" if "j < n" "j \<noteq> i" "ft_fds t' ! j = Some x" for j
      using d that k(1) by (auto simp: t'_def slots_iff)
    with ab show "a = a'" using table_ok_inj [OF ok ab(1,2)] k(1) by (cases "a = i"; cases "a' = i") (auto simp: t'_def)
  qed (use b i k in \<open>auto simp: t'_def\<close>)
  ultimately show ?thesis by (simp add: t'_def)
qed

lemma rollback_reserved_fd_ok:
  assumes ok: "table_ok n t" and i: "i < n" "i \<notin> opened t"
  shows "\<exists>t'. rollback_reserved_fd i t = Inr t' \<and> table_ok n t' \<and> ft_fds t' = ft_fds t \<and> reserved t' = reserved t - {i}"
proof -
  note k = table_okD [OF ok]
  have base: "slot_is_none i t = Inr True" "wb_test i (ft_reserved t) = Inr (i \<in> reserved t)"
    using slot_is_none_ok [OF ok i(1)] i wb_test_eq [of i "ft_reserved t"] k(3) by (auto simp: reserved_def)
  show ?thesis
  proof (cases "i \<in> reserved t")
    case False
    then show ?thesis using base ok i k(1) by (simp add: rollback_reserved_fd_def)
  next
    case True
    obtain r b where b: "wb_clear i (ft_reserved t) = Inr r" "wb_bits r = reserved t - {i}" "length r = length (ft_reserved t)"
      "wb_clear i (ft_bitmap t) = Inr b" "wb_bits b = wb_bits (ft_bitmap t) - {i}" "length b = length (ft_bitmap t)"
      using wb_clear_ok [of i "ft_reserved t"] wb_clear_ok [of i "ft_bitmap t"] i(1) k(2,3) by (auto simp: reserved_def)
    define t' where "t' = t\<lparr>ft_reserved := r, ft_bitmap := b\<rparr>"
    have "wb_test i (ft_bitmap t) = Inr True" using wb_test_eq [of i "ft_bitmap t"] k i True by simp
    then have "rollback_reserved_fd i t = Inr t'" using base True b i k(1) by (simp add: rollback_reserved_fd_def t'_def)
    moreover have o: "opened t' = opened t" "reserved t' = reserved t - {i}" using b by (simp_all add: opened_def reserved_def t'_def)
    moreover have "table_ok n t'" using ok i b unfolding table_ok_def o by (auto simp: t'_def)
    ultimately show ?thesis by (simp add: t'_def)
  qed
qed

subsection \<open>Flags and snapshots\<close>

lemma descs_among_ok:
  assumes "table_ok n t" "set is \<subseteq> {..< n}"
  shows "descs_among is t = Inr (somes (map (\<lambda>i. ft_fds t ! i) is))"
  using assms(2)
proof (induction "is")
  case (Cons i "is")
  then have "slot i t = Inr (ft_fds t ! i)" using slot_ok [OF assms(1)] by simp
  with Cons show ?case by (cases "ft_fds t ! i") simp_all
qed simp

definition with_cloexec :: "nat \<times> fd_flag set \<Rightarrow> nat \<times> fd_flag set" where
  "with_cloexec k = (fst k, insert CLOSE_ON_EXEC (snd k))"

definition mark_cloexec :: "nat list \<Rightarrow> file_heap \<Rightarrow> file_heap" where
  "mark_cloexec = fold (\<lambda>d h. set_fd_flags d (insert CLOSE_ON_EXEC (fd_flags (fh_descs h d))) h)"

lemma mark_cloexec_ok:
  assumes "heap_ok h D T"
  shows "heap_ok (mark_cloexec ds h) D T \<and> fh_ndescs (mark_cloexec ds h) = fh_ndescs h \<and> fh_nfiles (mark_cloexec ds h) = fh_nfiles h \<and>
    fh_released (mark_cloexec ds h) = fh_released h \<and> (\<forall>d. fd_key (mark_cloexec ds h) d = (if d \<in> set ds then with_cloexec (fd_key h d) else fd_key h d))"
  using assms
proof (induction ds arbitrary: h)
  case (Cons e ds)
  let ?h = "set_fd_flags e (insert CLOSE_ON_EXEC (fd_flags (fh_descs h e))) h"
  have "fd_key ?h d = (if d = e then with_cloexec (fd_key h d) else fd_key h d)" for d
    by (simp add: fd_key_def set_fd_flags_def desc_update_def with_cloexec_def)
  moreover have "mark_cloexec (e # ds) h = mark_cloexec ds ?h" by (simp add: mark_cloexec_def)
  moreover have "with_cloexec (with_cloexec k) = with_cloexec k" for k by (simp add: with_cloexec_def)
  ultimately show ?case using Cons.IH [OF set_flags_ok [OF Cons.prems]] by (simp add: set_fd_flags_def desc_update_def)
qed (simp add: mark_cloexec_def)

lemma set_close_on_exec_range_ok:
  assumes tin: "table_in n t h D T"
  shows "\<exists>h'. set_close_on_exec_range a b t h = Inr h' \<and> heap_ok h' D T \<and> fh_ndescs h' = fh_ndescs h \<and> fh_nfiles h' = fh_nfiles h \<and>
    fh_released h' = fh_released h \<and> (\<forall>d. fst (fd_key h' d) = fst (fd_key h d) \<and> (d \<notin> slots t \<longrightarrow> fd_key h' d = fd_key h d)) \<and>
    view t h' = (\<lambda>i. if a \<le> i \<and> i \<le> b then map_option with_cloexec (view t h i) else view t h i)"
proof -
  have ok: "table_ok n t" and hok: "heap_ok h D T" using tin by (auto simp: table_in_def)
  define js where "js = [a ..< min (b + 1) n]"
  define ds where "ds = somes (map (\<lambda>i. ft_fds t ! i) js)"
  have len: "length (ft_fds t) = n" by (rule table_okD(1) [OF ok])
  have set: "set js = {i. a \<le> i \<and> i \<le> b \<and> i < n}" by (auto simp: js_def)
  have op: "set_close_on_exec_range a b t h = Inr (mark_cloexec ds h)"
  proof (cases "a < n \<and> a \<le> b")
    case True
    then have m: "min b (n - 1) + 1 = min (b + 1) n" "\<not> min b (n - 1) < a" "\<not> n \<le> a" by auto
    have "descs_among js t = Inr ds" using descs_among_ok [OF ok] set by (auto simp: ds_def)
    with m show ?thesis by (simp add: set_close_on_exec_range_def Let_def len mark_cloexec_def js_def)
  next
    case False
    then have "js = []" by (auto simp: js_def)
    with False show ?thesis by (auto simp: set_close_on_exec_range_def Let_def len ds_def mark_cloexec_def)
  qed
  have ds: "d \<in> set ds \<longleftrightarrow> (\<exists>i. a \<le> i \<and> i \<le> b \<and> i < n \<and> ft_fds t ! i = Some d)" for d
    unfolding ds_def set_somes by (auto simp: set image_iff eq_commute)
  then have sub: "set ds \<subseteq> slots t" by (auto simp: slots_iff len)
  have key: "\<forall>d. fd_key (mark_cloexec ds h) d = (if d \<in> set ds then with_cloexec (fd_key h d) else fd_key h d)"
    using mark_cloexec_ok [OF hok, of ds] by blast
  have "view t (mark_cloexec ds h) i = (if a \<le> i \<and> i \<le> b then map_option with_cloexec (view t h i) else view t h i)" for i
  proof (cases "i < n \<and> ft_fds t ! i \<noteq> None")
    case True
    then obtain d where d: "i < n" "ft_fds t ! i = Some d" by auto
    have "d \<in> set ds \<longleftrightarrow> a \<le> i \<and> i \<le> b" unfolding ds using d table_ok_inj [OF ok _ d(1) _ d(2)] by blast
    then show ?thesis using d key by (simp add: view_def len)
  qed (auto simp: view_def len)
  then show ?thesis using op mark_cloexec_ok [OF hok, of ds] key sub by (auto simp: with_cloexec_def)
qed

lemma snapshot_ok:
  assumes ok: "table_ok n t"
  shows "opened_fd_numbers_snapshot t = Inr (filter (\<lambda>i. i \<in> opened t) [0 ..< n])"
proof -
  note k = table_okD [OF ok]
  have "snapshot_from i (drop i (ft_fds t)) t = Inr (filter (\<lambda>i. i \<in> opened t) [i ..< n])" if "i \<le> n" for i
    using that
  proof (induction i rule: inc_induct)
    case base
    then show ?case using k(1) by simp
  next
    case (step i)
    have e: "drop i (ft_fds t) = ft_fds t ! i # drop (Suc i) (ft_fds t)" "[i ..< n] = i # [Suc i ..< n]"
      using step.hyps k(1) by (simp_all add: Cons_nth_drop_Suc upt_conv_Cons)
    have "wb_test i (ft_bitmap t) = Inr (i \<in> opened t \<or> i \<in> reserved t)" "wb_test i (ft_reserved t) = Inr (i \<in> reserved t)"
      using wb_test_eq [of i "ft_bitmap t"] wb_test_eq [of i "ft_reserved t"] step.hyps k by (auto simp: reserved_def)
    moreover have "fd_of i = Inr i" using fd_of_ok [OF _ k(4)] step.hyps by simp
    moreover have "ft_fds t ! i \<noteq> None \<longleftrightarrow> i \<in> opened t" using step.hyps k(1) by (simp add: opened_def)
    ultimately show ?case using step.IH k(6) unfolding e by auto
  qed
  from this [of 0] show ?thesis by (simp add: opened_fd_numbers_snapshot_def)
qed

subsection \<open>The contract of a table\<close>

lemma table_new_ok:
  assumes "64 dvd n" "n < 2 ^ 31"
  shows "table_ok n (table_new n)" "slots (table_new n) = {}" "reserved (table_new n) = {}" "view (table_new n) h = Map.empty"
  using assms by (auto simp: table_ok_def table_new_def slots_def opened_def reserved_def view_def)

text \<open>What \<open>drop\<close> asserts holds of a table that was drained.\<close>

lemma drained_drop: "table_ok n t \<Longrightarrow> opened t = {} \<Longrightarrow> reserved t = {} \<Longrightarrow> table_drop t = Inr ()"
  by (auto simp: table_drop_def wb_is_empty_iff table_ok_def reserved_def opened_def list_all_length)

text \<open>A heap with nothing in it, and a table with one open number that is closed on \<open>exec\<close>.\<close>

definition empty_heap :: file_heap where
  "empty_heap = \<lparr>fh_descs = (\<lambda>_. \<lparr>fd_pfile = 0, fd_flags = {}, fd_published = False, fd_transfer_ref = False\<rparr>), fh_ndescs = 0,
     fh_refs = (\<lambda>_. 0), fh_nfiles = 0, fh_released = []\<rparr>"

lemma empty_heap_ok: "heap_ok empty_heap {} {#}"
  by (simp add: heap_ok_def refs_of_def empty_heap_def)

lemma one_open_table:
  "\<exists>t h. table_in 64 t h (slots t) {#} \<and> room h (slots t) {#} 64 \<and> view t h = [0 \<mapsto> (0, {CLOSE_ON_EXEC})] \<and> reserved t = {}"
proof -
  let ?t = "table_new 64"
  note new = table_new_ok [of 64, simplified]
  have tin: "table_in 64 ?t empty_heap {} {#}" using new empty_heap_ok by (simp add: table_in_def)
  have "lowest_free {} 0 64 = Some 0" by (simp add: lowest_free_Some)
  then obtain t h where t: "table_step 64 ?t empty_heap {} {#} t h []" "view t h = [0 \<mapsto> (0, {CLOSE_ON_EXEC})]" "reserved t = {}"
    using open_fd_implements [OF tin, of 64 "{CLOSE_ON_EXEC}"] new
    by (auto simp: implements_def spec_open_def install_at_def empty_heap_def)
  then have tin': "table_in 64 t h (slots t) {#}" using table_step_in [OF t(1)] by (simp add: pfiles_def)
  have "card (slots t) \<le> length (somes (ft_fds t))" unfolding slots_somes by (rule card_length)
  also have "\<dots> \<le> length (ft_fds t)" by (simp add: somes_def)
  also have "\<dots> = 64" using tin' by (simp add: table_in_def table_ok_def)
  finally have "room h (slots t) {#} 64"
    using size_refs [of h "slots t" "{#}"] tin' by (simp add: table_in_def RETIRED_DESCRIPTION_REFS_def u64_max_def)
  with t tin' show ?thesis by blast
qed

text \<open>C16: The operations of a descriptor table implement their specification on the map from
  numbers to opened files. A table that satisfies its invariant never panics. Opening and
  duplicating take the lowest number that is neither open nor reserved, at or above the minimum
  and below the ceiling of the caller, and fail exactly when there is none; a duplicate refers to
  the file of the original, with the flags the call asks for. \<open>dup3\<close> replaces the target in one
  step and refuses a reserved one; \<open>close\<close> removes exactly one number. An error changes nothing.
  The files whose references are to be released are exactly those of the numbers that were
  removed, and the descriptors of other tables keep their files and flags.\<close>

theorem fd_ops_refine:
  assumes "table_in n t h D T" "c \<le> n" "room h D T 1"
  shows "implements n t h D T (\<lambda>_. []) id (open_fd c flags t h) (spec_open c flags (fh_nfiles h) (view t h) (reserved t)) \<and>
    implements n t h D T (\<lambda>_. []) id (dup old_fd c t h) (spec_dup old_fd c (view t h) (reserved t)) \<and>
    implements n t h D T (\<lambda>_. []) id (dup_ge_than old_fd m cloexec c t h) (spec_dup_ge_than old_fd m cloexec c (view t h) (reserved t)) \<and>
    implements n t h D T (\<lambda>d. [d]) (\<lambda>d. files_of h [d]) (close_fd fd t h) (spec_close fd (view t h)) \<and>
    implements n t h D T id (files_of h) (dup3 old_fd new_fd flags c t h) (spec_dup3 n old_fd new_fd flags c (view t h) (reserved t))"
  using open_fd_implements [OF assms(1,2)] dup_implements [OF assms] dup_ge_than_implements [OF assms] close_fd_implements [OF assms(1)]
    dup3_implements [OF assms] by blast

theorem fd_ops_refine_witness:
  "\<exists>t h t' h'. view t h = [0 \<mapsto> (0, {CLOSE_ON_EXEC})] \<and> dup 0 8 t h = Inr (Inr 1, t', h') \<and>
     view t' h' = [0 \<mapsto> (0, {CLOSE_ON_EXEC}), 1 \<mapsto> (0, {})]"
proof -
  obtain t h where t: "table_in 64 t h (slots t) {#}" "room h (slots t) {#} 64" "view t h = [0 \<mapsto> (0, {CLOSE_ON_EXEC})]" "reserved t = {}"
    using one_open_table by blast
  have "lowest_free {0} 0 8 = Some 1" by (simp add: lowest_free_Some)
  have "room h (slots t) {#} 1" using t(2) by linarith
  then have "implements 64 t h (slots t) {#} (\<lambda>_. []) id (dup 0 8 t h) (spec_dup 0 8 (view t h) (reserved t))"
    using fd_ops_refine [OF t(1), of 8 "{}" 0 0 False 0 0] by simp
  moreover have "spec_dup 0 8 (view t h) (reserved t) = Inr (1, [0 \<mapsto> (0, {CLOSE_ON_EXEC}), 1 \<mapsto> (0, {})])"
    using \<open>lowest_free {0} 0 8 = Some 1\<close> by (simp add: spec_dup_def install_at_def t(3,4))
  ultimately obtain t' h' where "dup 0 8 t h = Inr (Inr 1, t', h')" "view t' h' = [0 \<mapsto> (0, {CLOSE_ON_EXEC}), 1 \<mapsto> (0, {})]"
    by (auto simp: implements_def)
  with t(3) show ?thesis by blast
qed

text \<open>C17: The operations that go over a whole table do what they say and never panic.
  \<open>close_range\<close> closes exactly the open numbers of the range and \<open>close_on_exec\<close> exactly those with
  the flag, both in ascending order; draining closes all and forgets reservations, so that the
  table can be dropped; a fork maps the same numbers to the same files and flags through
  descriptors of its own and inherits no reservation.\<close>

theorem fd_loops_exact:
  assumes "table_in n t h D T" "room h D T n"
  shows "closes n t h D T [a ..< min (b + 1) n] (close_range a b t h) \<and>
    closes n t h D T (filter (cloexec_at (view t h)) [0 ..< n]) (close_on_exec t h) \<and>
    (\<exists>cs t' h'. drain_all_published_fds t h = Inr (cs, t', h') \<and> table_step n t h D T t' h' cs \<and> view t' h' = Map.empty \<and>
       files_of h cs = files_at (view t h) [0 ..< n] \<and> table_drop t' = Inr ()) \<and>
    (\<exists>t' h'. table_fork t h = Inr (t', h') \<and> table_ok n t' \<and> heap_ok h' (D \<union> slots t') T \<and> keeps h h' \<and>
       slots t' = {fh_ndescs h ..< fh_ndescs h'} \<and> view t' h' = view t h \<and> reserved t' = {})"
proof -
  obtain cs t' h' where d: "drain_all_published_fds t h = Inr (cs, t', h')" "table_step n t h D T t' h' cs" "opened t' = {}" "reserved t' = {}"
    "files_of h cs = files_at (view t h) [0 ..< n]" using drain_ok [OF assms(1)] by blast
  have "view t' h' = Map.empty" using dom_view [of t' h'] d(3) by simp
  moreover have "table_drop t' = Inr ()" using drained_drop [OF _ d(3,4), of n] d(2) by (simp add: table_step_def)
  ultimately show ?thesis using d close_range_ok [OF assms(1)] close_on_exec_ok [OF assms(1)] table_fork_ok [OF assms] by blast
qed

theorem fd_loops_exact_witness:
  "\<exists>t h cs t' h'. view t h = [0 \<mapsto> (0, {CLOSE_ON_EXEC})] \<and> close_on_exec t h = Inr (cs, t', h') \<and> files_of h cs = [0] \<and> view t' h' = Map.empty"
proof -
  obtain t h where t: "table_in 64 t h (slots t) {#}" "room h (slots t) {#} 64" "view t h = [0 \<mapsto> (0, {CLOSE_ON_EXEC})]" "reserved t = {}"
    using one_open_table by blast
  have "[0 ..< 64] = 0 # [1 ..< 64::nat]" by (simp add: upt_conv_Cons)
  then have f: "filter (cloexec_at (view t h)) [0 ..< 64] = [0]" by (auto simp: cloexec_at_def t(3) filter_empty_conv)
  from fd_loops_exact [OF t(1,2)] have "closes 64 t h (slots t) {#} [0] (close_on_exec t h)" unfolding f by blast
  then obtain cs t' h' where "close_on_exec t h = Inr (cs, t', h')" "files_of h cs = files_at (view t h) [0]" "view t' h' = view t h |` (- {0})"
    by (auto simp: closes_def)
  moreover have "view t h |` (- {0}) = Map.empty" by (auto simp: t(3) restrict_map_def fun_eq_iff)
  ultimately show ?thesis using t(3) by (intro exI [of _ t] exI [of _ h] exI [of _ cs] exI [of _ t'] exI [of _ h']) (simp add: files_at_def)
qed

end
