(* ===== verification/Files.thy ===== *)
theory Files
  imports File_Table
begin

text \<open>
  Sharing of descriptor tables (\<open>task/files/episode.rs\<close>). Tasks that share a table hold
  capabilities (\<open>FilesState\<close>) for one episode, which counts its participants and owns the table.
  An episode is identified by its position in a list that only grows, which is also the
  identity of its holder of POSIX locks. The state of the system has the episodes, the
  capabilities, the heap of the descriptors, and everything that is on its way between two
  critical sections: reservations, install plans, transfers, and descriptors that were removed
  from a table and whose release is to come. A step is one critical section under the guard of
  an episode, or one release. A method of \<open>Task\<close> is one or more such steps, so every
  interleaving of the methods of several tasks is a sequence of steps.
\<close>

subsection \<open>Episodes\<close>

record episode =
  ep_participants :: nat
  ep_table :: file_table

definition episode_new :: "file_table \<Rightarrow> episode" where
  "episode_new t = \<lparr>ep_participants = 1, ep_table = t\<rparr>"

definition files_attach :: "episode \<Rightarrow> fault + episode" where
  "files_attach ep =
     (if ep_participants ep = 0 then Inl Assert_Panic
      else case checked_add (ep_participants ep) 1 of
        None \<Rightarrow> Inl Assert_Panic
      | Some k \<Rightarrow> Inr (ep\<lparr>ep_participants := k\<rparr>))"

definition files_fork :: "episode \<Rightarrow> file_heap \<Rightarrow> fault + episode \<times> file_heap" where
  "files_fork ep h =
     (if ep_participants ep = 0 then Inl Assert_Panic
      else and_then (table_fork (ep_table ep) h) (\<lambda>(t, h'). Inr (episode_new t, h')))"

text \<open>The fresh episode, if the old one was shared, and what becomes of the old one.\<close>

definition files_split_if_shared :: "episode \<Rightarrow> file_heap \<Rightarrow> fault + episode option \<times> episode \<times> file_heap" where
  "files_split_if_shared ep h =
     (if ep_participants ep = 0 then Inl Assert_Panic
      else if ep_participants ep = 1 then Inr (None, ep, h)
      else
        and_then (table_fork (ep_table ep) h) (\<lambda>(t, h').
        Inr (Some (episode_new t), ep\<lparr>ep_participants := ep_participants ep - 1\<rparr>, h')))"

definition files_detach :: "episode \<Rightarrow> file_heap \<Rightarrow> fault + nat list \<times> episode \<times> file_heap" where
  "files_detach ep h =
     (if ep_participants ep = 0 then Inl Assert_Panic
      else
        let ep' = ep\<lparr>ep_participants := ep_participants ep - 1\<rparr> in
        if ep_participants ep' = 0 then
          and_then (drain_all_published_fds (ep_table ep') h) (\<lambda>(closed, t, h'). Inr (closed, ep'\<lparr>ep_table := t\<rparr>, h'))
        else Inr ([], ep', h))"

definition with_table :: "(file_table \<Rightarrow> file_heap \<Rightarrow> fault + 'a \<times> file_heap) \<Rightarrow> episode \<Rightarrow> file_heap \<Rightarrow> fault + 'a \<times> episode \<times> file_heap" where
  "with_table f ep h =
     (if ep_participants ep = 0 then Inl Assert_Panic
      else and_then (f (ep_table ep) h) (\<lambda>(x, h'). Inr (x, ep, h')))"

definition with_table_mut :: "(file_table \<Rightarrow> file_heap \<Rightarrow> fault + 'a \<times> file_table \<times> file_heap) \<Rightarrow> episode \<Rightarrow> file_heap \<Rightarrow> fault + 'a \<times> episode \<times> file_heap" where
  "with_table_mut f ep h =
     (if ep_participants ep = 0 then Inl Assert_Panic
      else and_then (f (ep_table ep) h) (\<lambda>(x, t, h'). Inr (x, ep\<lparr>ep_table := t\<rparr>, h')))"

text \<open>A removal returns the descriptors that left the table.\<close>

definition with_removed :: "(file_table \<Rightarrow> file_heap \<Rightarrow> 'a table_result) \<Rightarrow> ('a \<Rightarrow> nat list) \<Rightarrow> episode \<Rightarrow> file_heap \<Rightarrow>
    fault + (sys_error + nat list) \<times> episode \<times> file_heap" where
  "with_removed remove descs ep h =
     (if ep_participants ep = 0 then Inl Assert_Panic
      else and_then (remove (ep_table ep) h) (\<lambda>(r, t, h'). Inr (map_sum id descs r, ep\<lparr>ep_table := t\<rparr>, h')))"

subsection \<open>Observers\<close>

definition observer_reserve_fd :: "nat \<Rightarrow> episode \<Rightarrow> fault + (sys_error + nat) \<times> episode" where
  "observer_reserve_fd ceiling ep =
     (if ep_participants ep = 0 then Inl Assert_Panic
      else and_then (reserve_fd ceiling (ep_table ep)) (\<lambda>(r, t). Inr (r, ep\<lparr>ep_table := t\<rparr>)))"

definition observer_commit_reserved_fd :: "nat \<Rightarrow> nat \<Rightarrow> episode \<Rightarrow> file_heap \<Rightarrow> fault + episode \<times> file_heap" where
  "observer_commit_reserved_fd fd d ep h =
     (if ep_participants ep = 0 then Inl Assert_Panic
      else and_then (commit_reserved_fd fd d (ep_table ep) h) (\<lambda>(t, h'). Inr (ep\<lparr>ep_table := t\<rparr>, h')))"

definition observer_rollback_reserved_fd :: "nat \<Rightarrow> episode \<Rightarrow> fault + episode" where
  "observer_rollback_reserved_fd fd ep =
     and_then (rollback_reserved_fd fd (ep_table ep)) (\<lambda>t. Inr (ep\<lparr>ep_table := t\<rparr>))"

primrec reserve_each :: "nat \<Rightarrow> nat list \<Rightarrow> nat \<Rightarrow> file_table \<Rightarrow> fault + (sys_error + nat list) \<times> file_table" where
  "reserve_each ceiling fds 0 t = Inr (Inr fds, t)"
| "reserve_each ceiling fds (Suc k) t =
     and_then (reserve_fd ceiling t) (\<lambda>(r, t').
     case r of
       Inr fd \<Rightarrow> reserve_each ceiling (fds @ [fd]) k t'
     | Inl e \<Rightarrow>
         if e = NoMoreFd then Inr (Inr fds, t')
         else and_then (rollback_reserved_fds fds t') (\<lambda>t''. Inr (Inl e, t'')))"

definition observer_reserve_fds_up_to :: "nat \<Rightarrow> nat \<Rightarrow> episode \<Rightarrow> fault + (sys_error + nat list) \<times> episode" where
  "observer_reserve_fds_up_to ceiling k ep =
     (if ep_participants ep = 0 then Inl Assert_Panic
      else and_then (reserve_each ceiling [] k (ep_table ep)) (\<lambda>(r, t). Inr (r, ep\<lparr>ep_table := t\<rparr>)))"

definition observer_commit_reserved_fds :: "(nat \<times> nat) list \<Rightarrow> episode \<Rightarrow> file_heap \<Rightarrow> fault + episode \<times> file_heap" where
  "observer_commit_reserved_fds entries ep h =
     (if ep_participants ep = 0 then Inl Assert_Panic
      else and_then (commit_reserved_fds entries (ep_table ep) h) (\<lambda>(t, h'). Inr (ep\<lparr>ep_table := t\<rparr>, h')))"

definition observer_rollback_reserved_fds :: "nat list \<Rightarrow> episode \<Rightarrow> fault + episode" where
  "observer_rollback_reserved_fds fds ep =
     and_then (rollback_reserved_fds fds (ep_table ep)) (\<lambda>t. Inr (ep\<lparr>ep_table := t\<rparr>))"

text \<open>The descriptors that a plan prepares, one for each reserved number.\<close>

primrec prepare_entries :: "nat list \<Rightarrow> nat list \<Rightarrow> fd_flag set \<Rightarrow> file_heap \<Rightarrow> fault + (nat \<times> nat) list \<times> nat list \<times> file_heap" where
  "prepare_entries [] bundle flags h = Inr ([], bundle, h)"
| "prepare_entries (fd # fds) bundle flags h =
     (case bundle of
        [] \<Rightarrow> Inl Assert_Panic
      | p # ps \<Rightarrow>
          let (d, h') = from_transfer p flags h in
          and_then (prepare_entries fds ps flags h') (\<lambda>(es, r). Inr ((fd, d) # es, r)))"

text \<open>The loop of \<open>capture_opened_descriptions\<close>: the transfers it collected, and the error
  that ended it.\<close>

primrec capture_each :: "nat list \<Rightarrow> nat list \<Rightarrow> file_table \<Rightarrow> file_heap \<Rightarrow> fault + ((sys_error + unit) \<times> nat list) \<times> file_heap" where
  "capture_each [] bundle t h = Inr ((Inr (), bundle), h)"
| "capture_each (fd # fds) bundle t h =
     (case get_fd fd t of
        Inl e \<Rightarrow> Inr ((Inl e, bundle), h)
      | Inr d \<Rightarrow> and_then (capture_transfer d h) (\<lambda>(p, h'). capture_each fds (bundle @ [p]) t h'))"

primrec duplicate_each :: "nat list \<Rightarrow> file_heap \<Rightarrow> fault + file_heap" where
  "duplicate_each [] h = Inr h"
| "duplicate_each (p # ps) h = and_then (transfer_duplicate p h) (duplicate_each ps)"

subsection \<open>Loops under one guard\<close>

lemma slots_fds: "ft_fds t' = ft_fds t \<Longrightarrow> slots t' = slots t \<and> opened t' = opened t \<and> view t' h = view t h"
  by (simp add: slots_def opened_def view_def fun_eq_iff)

lemma reserve_each_ok:
  assumes "table_ok n t" "c \<le> n"
  shows "\<exists>fds' t'. reserve_each c fds k t = Inr (Inr (fds @ fds'), t') \<and> table_ok n t' \<and> ft_fds t' = ft_fds t \<and>
    mset_set (reserved t') = mset_set (reserved t) + mset fds' \<and> length fds' \<le> k"
  using assms(1)
proof (induction k arbitrary: fds t)
  case 0
  then show ?case by (intro exI [of _ "[]"]) simp
next
  case (Suc k)
  show ?case
  proof (cases "lowest_free (opened t \<union> reserved t) 0 c")
    case None
    with reserve_fd_ok [OF Suc.prems assms(2)] Suc.prems show ?thesis by (intro exI [of _ "[]"]) simp
  next
    case (Some i)
    then obtain t1 where t1: "reserve_fd c t = Inr (Inr i, t1)" "table_ok n t1" "ft_fds t1 = ft_fds t" "reserved t1 = insert i (reserved t)"
      using reserve_fd_ok [OF Suc.prems assms(2)] by auto
    have "i \<notin> reserved t" using Some unfolding lowest_free_Some by blast
    moreover have "finite (reserved t)" using table_okD(8) [OF Suc.prems] finite_subset by blast
    ultimately have "mset_set (reserved t1) = add_mset i (mset_set (reserved t))" by (simp add: t1(4))
    moreover obtain fds' t' where r: "reserve_each c (fds @ [i]) k t1 = Inr (Inr ((fds @ [i]) @ fds'), t')" "table_ok n t'" "ft_fds t' = ft_fds t1"
      "mset_set (reserved t') = mset_set (reserved t1) + mset fds'" "length fds' \<le> k" using Suc.IH [OF t1(2), of "fds @ [i]"] by blast
    ultimately show ?thesis using t1 by (intro exI [of _ "i # fds'"] exI [of _ t']) simp
  qed
qed

lemma rollback_reserved_fds_ok:
  assumes "table_ok n t" "set fds \<subseteq> {..< n}" "set fds \<inter> opened t = {}"
  shows "\<exists>t'. rollback_reserved_fds fds t = Inr t' \<and> table_ok n t' \<and> ft_fds t' = ft_fds t \<and> reserved t' = reserved t - set fds"
  using assms
proof (induction fds arbitrary: t)
  case (Cons i fds)
  then obtain t1 where t1: "rollback_reserved_fd i t = Inr t1" "table_ok n t1" "ft_fds t1 = ft_fds t" "reserved t1 = reserved t - {i}"
    using rollback_reserved_fd_ok [OF Cons.prems(1), of i] by auto
  have "set fds \<inter> opened t1 = {}" using Cons.prems(3) slots_fds [OF t1(3)] by auto
  then obtain t' where "rollback_reserved_fds fds t1 = Inr t'" "table_ok n t'" "ft_fds t' = ft_fds t1" "reserved t' = reserved t1 - set fds"
    using Cons.IH [OF t1(2)] Cons.prems(2) by auto
  then show ?case using t1 by auto
qed simp

definition prepared :: "file_heap \<Rightarrow> fd_flag set \<Rightarrow> nat \<times> nat \<Rightarrow> nat \<Rightarrow> bool" where
  "prepared h flags e p \<longleftrightarrow> snd e < fh_ndescs h \<and>
     fh_descs h (snd e) = \<lparr>fd_pfile = p, fd_flags = flags, fd_published = False, fd_transfer_ref = True\<rparr>"

lemma prepare_entries_ok:
  assumes "heap_ok h D T" "length fds \<le> length ps"
  shows "\<exists>es h'. prepare_entries fds ps flags h = Inr (es, drop (length fds) ps, h') \<and> map fst es = fds \<and>
    map snd es = [fh_ndescs h ..< fh_ndescs h'] \<and> list_all2 (prepared h' flags) es (take (length fds) ps) \<and>
    heap_ok h' D T \<and> keeps h h' \<and> fh_released h' = fh_released h \<and> fh_nfiles h' = fh_nfiles h \<and> (\<forall>d < fh_ndescs h. fh_descs h' d = fh_descs h d)"
  using assms
proof (induction fds arbitrary: ps h)
  case (Cons fd fds)
  then obtain p qs where ps: "ps = p # qs" by (cases ps) auto
  let ?x = "\<lparr>fd_pfile = p, fd_flags = flags, fd_published = False, fd_transfer_ref = True\<rparr>"
  let ?h = "snd (desc_new ?x h)"
  have ft: "from_transfer p flags h = (fh_ndescs h, ?h)" by (simp add: from_transfer_def desc_new_def)
  note h1 = prepare_ok [OF Cons.prems(1), of ?x]
  obtain es h' where r: "prepare_entries fds qs flags ?h = Inr (es, drop (length fds) qs, h')" "map fst es = fds"
    "map snd es = [fh_ndescs ?h ..< fh_ndescs h']" "list_all2 (prepared h' flags) es (take (length fds) qs)" "heap_ok h' D T" "keeps ?h h'"
    "fh_released h' = fh_released ?h" "fh_nfiles h' = fh_nfiles ?h" "\<forall>d < fh_ndescs ?h. fh_descs h' d = fh_descs ?h d"
    using Cons.IH [of ?h qs] h1 Cons.prems(2) ps by auto
  have n: "fh_ndescs ?h = Suc (fh_ndescs h)" "fh_ndescs ?h \<le> fh_ndescs h'" using r(6) by (simp_all add: desc_new_def keeps_def)
  then have "[fh_ndescs h ..< fh_ndescs h'] = fh_ndescs h # [fh_ndescs ?h ..< fh_ndescs h']" by (simp add: upt_conv_Cons)
  moreover have "prepared h' flags (fd, fh_ndescs h) p" using r(9) n by (simp add: prepared_def desc_new_def)
  moreover have "\<forall>d < fh_ndescs h. fh_descs h' d = fh_descs h d" using r(9) by (simp add: desc_new_def)
  moreover have "prepare_entries (fd # fds) ps flags h = Inr ((fd, fh_ndescs h) # es, drop (length (fd # fds)) ps, h')"
    using r(1) by (simp add: ps ft)
  ultimately show ?case using r h1 keeps_trans [OF h1(2) r(6)] by (auto simp: ps desc_new_def)
qed simp

lemma commit_reserved_fds_ok:
  assumes "table_ok n t" "heap_ok h D T" "slots t \<subseteq> D" "distinct (map fst es)" "fst ` set es \<subseteq> reserved t" "distinct (map snd es)"
    "snd ` set es \<inter> D = {}" "list_all2 (prepared h flags) es ps" "mset ps \<subseteq># T"
  shows "\<exists>t' h'. commit_reserved_fds es t h = Inr (t', h') \<and> table_ok n t' \<and> heap_ok h' (D \<union> snd ` set es) (T - mset ps) \<and>
    slots t' = slots t \<union> snd ` set es \<and> keeps h h' \<and> fh_ndescs h' = fh_ndescs h \<and> fh_released h' = fh_released h \<and>
    reserved t' = reserved t - fst ` set es \<and> view t' h' = (view t h)(map fst es [\<mapsto>] map (\<lambda>p. (p, flags)) ps)"
  using assms
proof (induction es arbitrary: t h D T ps)
  case (Cons e es)
  obtain fd d where e: "e = (fd, d)" by (cases e)
  obtain p qs where ps: "ps = p # qs" "prepared h flags e p" "list_all2 (prepared h flags) es qs" using Cons.prems(8) by (auto simp: list_all2_Cons1)
  have d: "d < fh_ndescs h" "fh_descs h d = \<lparr>fd_pfile = p, fd_flags = flags, fd_published = False, fd_transfer_ref = True\<rparr>"
    using ps(2) by (simp_all add: prepared_def e)
  have "p \<in># T" using Cons.prems(9) ps(1) by (metis insert_subset_eq_iff mset.simps(2))
  then obtain h1 where h1: "publish_to_fd_table d h = Inr h1" "heap_ok h1 (insert d D) (T - {#p#})" "keeps h h1" "fd_key h1 d = (p, flags)"
    "fh_ndescs h1 = fh_ndescs h" "fh_released h1 = fh_released h" "\<forall>e. e \<noteq> d \<longrightarrow> fh_descs h1 e = fh_descs h e"
    using publish_prepared [OF Cons.prems(2) d] by blast
  have dn: "d \<notin> slots t" "fd \<in> reserved t" using Cons.prems(3,5,7) e by auto
  obtain t1 where t1: "commit_reserved_fd fd d t h = Inr (t1, h1)" "table_ok n t1" "ft_fds t1 = (ft_fds t)[fd := Some d]" "reserved t1 = reserved t - {fd}"
    using commit_reserved_fd_ok [OF Cons.prems(1) dn(2,1) h1(1)] by blast
  note k = table_okD [OF Cons.prems(1)]
  have fd: "fd < length (ft_fds t)" "fd \<notin> opened t" using dn(2) k(1,6,8) by auto
  have s1: "slots t1 = insert d (slots t)" by (rule slots_fill [OF fd t1(3)])
  have tin: "table_in n t h D T" using Cons.prems(1-3) by (simp add: table_in_def)
  have v1: "view t1 h1 = (view t h)(fd \<mapsto> (p, flags))"
  proof -
    have "view t1 h1 = (view t h1)(fd \<mapsto> (p, flags))" using fd h1(4) by (auto simp: view_def t1(3) fun_eq_iff)
    then show ?thesis using view_keeps [OF h1(3) table_in_slots [OF tin]] by simp
  qed
  have dist: "distinct (map fst es)" "fd \<notin> fst ` set es" "distinct (map snd es)" "d \<notin> snd ` set es" using Cons.prems(4,6) by (auto simp: e)
  have "list_all2 (prepared h1 flags) es qs"
  proof (rule list.rel_mono_strong [OF ps(3)])
    fix x q
    assume "x \<in> set es" "prepared h flags x q"
    then show "prepared h1 flags x q" using dist(4) h1(5,7) by (metis imageI prepared_def)
  qed
  moreover have "mset qs \<subseteq># T - {#p#}" using Cons.prems(9) by (simp add: ps(1) insert_subset_eq_iff)
  moreover have "snd ` set es \<inter> insert d D = {}" "fst ` set es \<subseteq> reserved t1" using Cons.prems(5,7) dist by (auto simp: e t1(4))
  ultimately obtain t' h' where r: "commit_reserved_fds es t1 h1 = Inr (t', h')" "table_ok n t'" "heap_ok h' (insert d D \<union> snd ` set es) (T - {#p#} - mset qs)"
    "slots t' = slots t1 \<union> snd ` set es" "keeps h1 h'" "fh_ndescs h' = fh_ndescs h1" "fh_released h' = fh_released h1"
    "reserved t' = reserved t1 - fst ` set es" "view t' h' = (view t1 h1)(map fst es [\<mapsto>] map (\<lambda>p. (p, flags)) qs)"
    using Cons.IH [OF t1(2) h1(2), of qs] s1 Cons.prems(3) dist by blast
  have "T - {#p#} - mset qs = T - mset ps" by (simp add: ps(1))
  moreover have "insert d D \<union> snd ` set es = D \<union> snd ` set (e # es)" by (auto simp: e)
  ultimately show ?case using r t1 s1 h1 v1 keeps_trans [OF h1(3) r(5)] by (auto simp: e ps(1))
qed (simp add: view_def)

lemma capture_each_ok:
  assumes tin: "table_in n t h D T" "room h D T (length fds)"
  shows "\<exists>r ps h'. capture_each fds b t h = Inr ((r, b @ ps), h') \<and> heap_ok h' D (T + mset ps) \<and> keeps h h' \<and>
    fh_ndescs h' = fh_ndescs h \<and> fh_released h' = fh_released h \<and> ps = map (\<lambda>i. fst (the (view t h i))) (takeWhile (\<lambda>i. view t h i \<noteq> None) fds) \<and>
    r = (if \<forall>i \<in> set fds. view t h i \<noteq> None then Inr () else Inl BadFileDescriptor)"
  using assms
proof (induction fds arbitrary: b h T)
  case Nil
  then show ?case by (simp add: table_in_def)
next
  case (Cons i fds)
  note tin = Cons.prems(1)
  have hok: "heap_ok h D T" using tin by (simp add: table_in_def)
  show ?case
  proof (cases "view t h i")
    case None
    with get_fd_None [OF this] hok show ?thesis by simp
  next
    case (Some k)
    then obtain d where d: "d \<in> slots t" "d \<in> D" "k = fd_key h d" "get_fd i t = Inr d" using view_SomeE [OF tin] by blast
    let ?p = "fd_pfile (fh_descs h d)"
    have "size (refs_of h D T) < RETIRED_DESCRIPTION_REFS - 1" using Cons.prems(2) by simp
    then obtain h1 where h1: "acquire_description_ref ?p h = Inr h1" "heap_ok h1 D (add_mset ?p T)" "keeps h h1" "fh_ndescs h1 = fh_ndescs h"
      "fh_released h1 = fh_released h" using acquire_ok [OF hok heap_ok_refs [OF hok d(2)]] by blast
    have "d < fh_ndescs h" using heap_okD(2) [OF hok] d(2) by auto
    then have "capture_transfer d h = Inr (?p, h1)" using heap_okD(3) [OF hok] d(2) h1(1) by (simp add: capture_transfer_def)
    moreover have v: "view t h1 = view t h" by (rule view_keeps [OF h1(3) table_in_slots [OF tin]])
    moreover have "table_in n t h1 D (add_mset ?p T)" using tin h1(2) by (simp add: table_in_def)
    moreover have "room h1 D (add_mset ?p T) (length fds)" using Cons.prems(2) size_refs [OF hok] size_refs [OF h1(2)] by simp
    ultimately obtain r ps h' where r: "capture_each fds (b @ [?p]) t h1 = Inr ((r, (b @ [?p]) @ ps), h')" "heap_ok h' D (add_mset ?p T + mset ps)" "keeps h1 h'"
      "fh_ndescs h' = fh_ndescs h1" "fh_released h' = fh_released h1" "ps = map (\<lambda>i. fst (the (view t h i))) (takeWhile (\<lambda>i. view t h i \<noteq> None) fds)"
      "r = (if \<forall>i \<in> set fds. view t h i \<noteq> None then Inr () else Inl BadFileDescriptor)"
      using Cons.IH [of h1 "add_mset ?p T" "b @ [?p]"] by auto
    have "capture_each (i # fds) b t h = Inr ((r, b @ ?p # ps), h')" using r(1) d(4) \<open>capture_transfer d h = _\<close> by simp
    moreover have "fst (the (view t h i)) = ?p" using Some d(3) by (simp add: fd_key_def)
    ultimately show ?thesis using r h1 Some keeps_trans [OF h1(3) r(3)] by (intro exI [of _ r] exI [of _ "?p # ps"] exI [of _ h']) simp
  qed
qed

lemma duplicate_each_ok:
  assumes "heap_ok h D T" "set ps \<subseteq> set_mset (refs_of h D T)" "room h D T (length ps)"
  shows "\<exists>h'. duplicate_each ps h = Inr h' \<and> heap_ok h' D (T + mset ps) \<and> keeps h h' \<and> fh_ndescs h' = fh_ndescs h \<and> fh_released h' = fh_released h"
  using assms
proof (induction ps arbitrary: h T)
  case (Cons p ps)
  have "size (refs_of h D T) < RETIRED_DESCRIPTION_REFS - 1" using Cons.prems(3) by simp
  then obtain h1 where h1: "acquire_description_ref p h = Inr h1" "heap_ok h1 D (add_mset p T)" "keeps h h1" "fh_ndescs h1 = fh_ndescs h"
    "fh_released h1 = fh_released h" using acquire_ok [OF Cons.prems(1)] Cons.prems(2) by auto
  have "refs_of h1 D (add_mset p T) = add_mset p (refs_of h1 D T)" by (simp add: refs_of_def)
  also have "refs_of h1 D T = refs_of h D T"
    using heap_okD(2) [OF Cons.prems(1)] keepsD [OF h1(3)] by (intro refs_cong) (auto simp: fd_key_def)
  finally have "set ps \<subseteq> set_mset (refs_of h1 D (add_mset p T))" "room h1 D (add_mset p T) (length ps)" using Cons.prems(2,3) by auto
  then obtain h' where "duplicate_each ps h1 = Inr h'" "heap_ok h' D (add_mset p T + mset ps)" "keeps h1 h'" "fh_ndescs h' = fh_ndescs h1" "fh_released h' = fh_released h1"
    using Cons.IH [OF h1(2)] by blast
  then show ?case using h1 keeps_trans [OF h1(3)] by (auto simp: transfer_duplicate_def)
qed simp

end
