(* ===== verification/Files_System.thy ===== *)
theory Files_System
  imports Files
begin

text \<open>
  The system of the tasks that use descriptor tables (\<open>task/files/episode.rs\<close>): its state, its
  steps, and the invariant that makes the steps safe. The number of slots of a table is the
  parameter \<open>n\<close>.
\<close>

subsection \<open>State\<close>

record fd_reservation =
  rv_cap :: nat
  rv_episode :: nat
  rv_fd :: nat

record install_plan =
  pl_cap :: nat
  pl_episode :: nat
  pl_fds :: "nat list"
  pl_bundle :: "nat list"
  pl_flags :: "fd_flag set"

record files_system =
  fs_heap :: file_heap
  fs_episodes :: "episode list"
  fs_caps :: "nat \<Rightarrow> nat option"
  fs_pending :: "(nat \<times> nat) multiset"
  fs_transfers :: "nat multiset"
  fs_reservations :: "fd_reservation multiset"
  fs_plans :: "install_plan multiset"

definition files_init :: files_system where
  "files_init =
     \<lparr>fs_heap = empty_heap, fs_episodes = [], fs_caps = (\<lambda>_. None), fs_pending = {#}, fs_transfers = {#}, fs_reservations = {#}, fs_plans = {#}\<rparr>"

subsection \<open>Steps\<close>

text \<open>A section under the guard of the episode of a capability.\<close>

definition on_files :: "nat \<Rightarrow> (episode \<Rightarrow> file_heap \<Rightarrow> fault + 'a \<times> episode \<times> file_heap) \<Rightarrow> files_system \<Rightarrow> fault + 'a \<times> files_system" where
  "on_files c f s =
     (case fs_caps s c of
        None \<Rightarrow> Inl Assert_Panic
      | Some e \<Rightarrow>
          and_then (f (fs_episodes s ! e) (fs_heap s)) (\<lambda>(x, ep, h).
          Inr (x, s\<lparr>fs_episodes := (fs_episodes s)[e := ep], fs_heap := h\<rparr>)))"

definition remove_fds :: "nat \<Rightarrow> (episode \<Rightarrow> file_heap \<Rightarrow> fault + (sys_error + nat list) \<times> episode \<times> file_heap) \<Rightarrow> files_system \<Rightarrow>
    fault + (sys_error + nat list) \<times> files_system" where
  "remove_fds c f s =
     and_then (on_files c f s) (\<lambda>(r, s').
     Inr (r, s'\<lparr>fs_pending := fs_pending s' + mset (map (Pair (the (fs_caps s c))) (case r of Inl e \<Rightarrow> [] | Inr ds \<Rightarrow> ds))\<rparr>))"

definition task_new_empty :: "nat \<Rightarrow> nat \<Rightarrow> files_system \<Rightarrow> fault + files_system" where
  "task_new_empty n c s =
     Inr (s\<lparr>fs_episodes := fs_episodes s @ [episode_new (table_new n)], fs_caps := (fs_caps s)(c \<mapsto> length (fs_episodes s))\<rparr>)"

definition task_attach :: "nat \<Rightarrow> nat \<Rightarrow> files_system \<Rightarrow> fault + files_system" where
  "task_attach c c' s =
     and_then (on_files c (\<lambda>ep h. and_then (files_attach ep) (\<lambda>ep'. Inr ((), ep', h))) s) (\<lambda>(_, s').
     Inr (s'\<lparr>fs_caps := (fs_caps s')(c' := fs_caps s c)\<rparr>))"

definition task_fork :: "nat \<Rightarrow> nat \<Rightarrow> files_system \<Rightarrow> fault + files_system" where
  "task_fork c c' s =
     and_then (on_files c (\<lambda>ep h. and_then (files_fork ep h) (\<lambda>(fresh, h'). Inr (fresh, ep, h'))) s) (\<lambda>(fresh, s').
     Inr (s'\<lparr>fs_episodes := fs_episodes s' @ [fresh], fs_caps := (fs_caps s')(c' \<mapsto> length (fs_episodes s'))\<rparr>))"

definition task_split_if_shared :: "nat \<Rightarrow> files_system \<Rightarrow> fault + bool \<times> files_system" where
  "task_split_if_shared c s =
     and_then (on_files c files_split_if_shared s) (\<lambda>(r, s').
     case r of
       None \<Rightarrow> Inr (False, s')
     | Some fresh \<Rightarrow>
         Inr (True, s'\<lparr>fs_episodes := fs_episodes s' @ [fresh], fs_caps := (fs_caps s')(c \<mapsto> length (fs_episodes s'))\<rparr>))"

definition task_detach :: "nat \<Rightarrow> files_system \<Rightarrow> fault + files_system" where
  "task_detach c s =
     and_then (remove_fds c (\<lambda>ep h. and_then (files_detach ep h) (\<lambda>(ds, r). Inr (Inr ds, r))) s) (\<lambda>(_, s').
     Inr (s'\<lparr>fs_caps := (fs_caps s')(c := None)\<rparr>))"

definition task_open_fd :: "nat \<Rightarrow> nat \<Rightarrow> fd_flag set \<Rightarrow> files_system \<Rightarrow> fault + (sys_error + nat) \<times> files_system" where
  "task_open_fd c ceiling flags = on_files c (with_table_mut (open_fd ceiling flags))"

definition task_close_fd :: "nat \<Rightarrow> nat \<Rightarrow> files_system \<Rightarrow> fault + (sys_error + nat list) \<times> files_system" where
  "task_close_fd c fd = remove_fds c (with_removed (close_fd fd) (\<lambda>d. [d]))"

definition task_dup :: "nat \<Rightarrow> nat \<Rightarrow> nat \<Rightarrow> files_system \<Rightarrow> fault + (sys_error + nat) \<times> files_system" where
  "task_dup c old_fd ceiling = on_files c (with_table_mut (dup old_fd ceiling))"

definition task_dup_ge_than :: "nat \<Rightarrow> nat \<Rightarrow> nat \<Rightarrow> bool \<Rightarrow> nat \<Rightarrow> files_system \<Rightarrow> fault + (sys_error + nat) \<times> files_system" where
  "task_dup_ge_than c old_fd min_new_fd cloexec ceiling = on_files c (with_table_mut (dup_ge_than old_fd min_new_fd cloexec ceiling))"

definition task_dup3 :: "nat \<Rightarrow> nat \<Rightarrow> nat \<Rightarrow> fd_flag set \<Rightarrow> nat \<Rightarrow> files_system \<Rightarrow> fault + (sys_error + nat list) \<times> files_system" where
  "task_dup3 c old_fd new_fd flags ceiling = remove_fds c (with_removed (dup3 old_fd new_fd flags ceiling) id)"

definition task_close_cloexec_fds :: "nat \<Rightarrow> files_system \<Rightarrow> fault + (sys_error + nat list) \<times> files_system" where
  "task_close_cloexec_fds c = remove_fds c (with_removed (\<lambda>t h. and_then (close_on_exec t h) (\<lambda>(ds, r). Inr (Inr ds, r))) id)"

text \<open>\<open>close_range\<close> without and with the flag \<open>CLOEXEC\<close>; with \<open>UNSHARE\<close> it is preceded by
  \<^const>\<open>task_split_if_shared\<close>.\<close>

definition task_close_range :: "nat \<Rightarrow> nat \<Rightarrow> nat \<Rightarrow> files_system \<Rightarrow> fault + (sys_error + nat list) \<times> files_system" where
  "task_close_range c a b = remove_fds c (with_removed (\<lambda>t h. and_then (close_range a b t h) (\<lambda>(ds, r). Inr (Inr ds, r))) id)"

definition task_cloexec_range :: "nat \<Rightarrow> nat \<Rightarrow> nat \<Rightarrow> files_system \<Rightarrow> fault + unit \<times> files_system" where
  "task_cloexec_range c a b = on_files c (with_table (\<lambda>t h. and_then (set_close_on_exec_range a b t h) (\<lambda>h'. Inr ((), h'))))"

definition task_reserve_fd :: "nat \<Rightarrow> nat \<Rightarrow> files_system \<Rightarrow> fault + (sys_error + nat) \<times> files_system" where
  "task_reserve_fd c ceiling s =
     and_then (on_files c (\<lambda>ep h. and_then (observer_reserve_fd ceiling ep) (\<lambda>(r, ep'). Inr (r, ep', h))) s) (\<lambda>(r, s').
     case r of
       Inl e \<Rightarrow> Inr (Inl e, s')
     | Inr fd \<Rightarrow>
         Inr (Inr fd, s'\<lparr>fs_reservations := add_mset \<lparr>rv_cap = c, rv_episode = the (fs_caps s c), rv_fd = fd\<rparr> (fs_reservations s')\<rparr>))"

text \<open>A reservation is committed with a file that was opened for it.\<close>

definition reservation_commit :: "fd_reservation \<Rightarrow> fd_flag set \<Rightarrow> files_system \<Rightarrow> fault + files_system" where
  "reservation_commit r flags s =
     (let (d, h) = new_opened flags (fs_heap s) in
      and_then (observer_commit_reserved_fd (rv_fd r) d (fs_episodes s ! rv_episode r) h) (\<lambda>(ep, h').
      Inr (s\<lparr>fs_episodes := (fs_episodes s)[rv_episode r := ep], fs_heap := h', fs_reservations := fs_reservations s - {#r#}\<rparr>)))"

definition reservation_rollback :: "fd_reservation \<Rightarrow> files_system \<Rightarrow> fault + files_system" where
  "reservation_rollback r s =
     and_then (observer_rollback_reserved_fd (rv_fd r) (fs_episodes s ! rv_episode r)) (\<lambda>ep.
     Inr (s\<lparr>fs_episodes := (fs_episodes s)[rv_episode r := ep], fs_reservations := fs_reservations s - {#r#}\<rparr>))"

definition task_capture :: "nat \<Rightarrow> nat list \<Rightarrow> files_system \<Rightarrow> fault + (sys_error + unit) \<times> files_system" where
  "task_capture c fds s =
     and_then (on_files c (with_table (capture_each fds [])) s) (\<lambda>((r, bundle), s').
     Inr (r, s'\<lparr>fs_transfers := fs_transfers s' + mset bundle\<rparr>))"

definition bundle_duplicate :: "nat list \<Rightarrow> files_system \<Rightarrow> fault + files_system" where
  "bundle_duplicate ps s =
     and_then (duplicate_each ps (fs_heap s)) (\<lambda>h. Inr (s\<lparr>fs_heap := h, fs_transfers := fs_transfers s + mset ps\<rparr>))"

definition drop_transfer :: "nat \<Rightarrow> files_system \<Rightarrow> fault + files_system" where
  "drop_transfer p s = and_then (transfer_drop p (fs_heap s)) (\<lambda>h. Inr (s\<lparr>fs_heap := h, fs_transfers := fs_transfers s - {#p#}\<rparr>))"

definition task_prepare_install :: "nat \<Rightarrow> nat list \<Rightarrow> nat \<Rightarrow> nat \<Rightarrow> fd_flag set \<Rightarrow> files_system \<Rightarrow> fault + (sys_error + nat list) \<times> files_system" where
  "task_prepare_install c bundle maximum ceiling flags s =
     and_then (on_files c (\<lambda>ep h. and_then (observer_reserve_fds_up_to ceiling (min maximum (length bundle)) ep) (\<lambda>(r, ep'). Inr (r, ep', h))) s)
     (\<lambda>(r, s').
     case r of
       Inl e \<Rightarrow> Inr (Inl e, s')
     | Inr fds \<Rightarrow>
         Inr (Inr fds, s'\<lparr>fs_transfers := fs_transfers s' - mset bundle,
           fs_plans := add_mset \<lparr>pl_cap = c, pl_episode = the (fs_caps s c), pl_fds = fds, pl_bundle = bundle, pl_flags = flags\<rparr> (fs_plans s')\<rparr>))"

text \<open>The transfers that a plan did not install are left to be dropped.\<close>

definition plan_commit :: "install_plan \<Rightarrow> files_system \<Rightarrow> fault + files_system" where
  "plan_commit pl s =
     and_then (prepare_entries (pl_fds pl) (pl_bundle pl) (pl_flags pl) (fs_heap s)) (\<lambda>(entries, rest, h).
     and_then (observer_commit_reserved_fds entries (fs_episodes s ! pl_episode pl) h) (\<lambda>(ep, h').
     Inr (s\<lparr>fs_episodes := (fs_episodes s)[pl_episode pl := ep], fs_heap := h', fs_plans := fs_plans s - {#pl#},
       fs_transfers := fs_transfers s + mset rest\<rparr>)))"

definition plan_rollback :: "install_plan \<Rightarrow> files_system \<Rightarrow> fault + files_system" where
  "plan_rollback pl s =
     and_then (observer_rollback_reserved_fds (pl_fds pl) (fs_episodes s ! pl_episode pl)) (\<lambda>ep.
     Inr (s\<lparr>fs_episodes := (fs_episodes s)[pl_episode pl := ep], fs_plans := fs_plans s - {#pl#},
       fs_transfers := fs_transfers s + mset (pl_bundle pl)\<rparr>))"

definition finish_removed_binding :: "nat \<times> nat \<Rightarrow> files_system \<Rightarrow> fault + files_system" where
  "finish_removed_binding b s =
     and_then (desc_release_description_ref (snd b) (fs_heap s)) (\<lambda>h.
     Inr (s\<lparr>fs_heap := h, fs_pending := fs_pending s - {#b#}\<rparr>))"

datatype files_op =
    New_Empty nat
  | Attach nat nat
  | Fork nat nat
  | Split nat
  | Detach nat
  | Open_Fd nat nat "fd_flag set"
  | Close_Fd nat nat
  | Dup nat nat nat
  | Dup_Ge nat nat nat bool nat
  | Dup3 nat nat nat "fd_flag set" nat
  | Close_Cloexec nat
  | Close_Range nat nat nat
  | Cloexec_Range nat nat nat
  | Reserve nat nat
  | Commit fd_reservation "fd_flag set"
  | Rollback fd_reservation
  | Capture nat "nat list"
  | Duplicate "nat list"
  | Drop_Transfer nat
  | Prepare nat "nat list" nat nat "fd_flag set"
  | Plan_Commit install_plan
  | Plan_Rollback install_plan
  | Finish "nat \<times> nat"

fun files_run :: "nat \<Rightarrow> files_op \<Rightarrow> files_system \<Rightarrow> fault + files_system" where
  "files_run n (New_Empty c) s = task_new_empty n c s"
| "files_run n (Attach c c') s = task_attach c c' s"
| "files_run n (Fork c c') s = task_fork c c' s"
| "files_run n (Split c) s = map_sum id snd (task_split_if_shared c s)"
| "files_run n (Detach c) s = task_detach c s"
| "files_run n (Open_Fd c ceiling flags) s = map_sum id snd (task_open_fd c ceiling flags s)"
| "files_run n (Close_Fd c fd) s = map_sum id snd (task_close_fd c fd s)"
| "files_run n (Dup c old_fd ceiling) s = map_sum id snd (task_dup c old_fd ceiling s)"
| "files_run n (Dup_Ge c old_fd m cloexec ceiling) s = map_sum id snd (task_dup_ge_than c old_fd m cloexec ceiling s)"
| "files_run n (Dup3 c old_fd new_fd flags ceiling) s = map_sum id snd (task_dup3 c old_fd new_fd flags ceiling s)"
| "files_run n (Close_Cloexec c) s = map_sum id snd (task_close_cloexec_fds c s)"
| "files_run n (Close_Range c a b) s = map_sum id snd (task_close_range c a b s)"
| "files_run n (Cloexec_Range c a b) s = map_sum id snd (task_cloexec_range c a b s)"
| "files_run n (Reserve c ceiling) s = map_sum id snd (task_reserve_fd c ceiling s)"
| "files_run n (Commit r flags) s = reservation_commit r flags s"
| "files_run n (Rollback r) s = reservation_rollback r s"
| "files_run n (Capture c fds) s = map_sum id snd (task_capture c fds s)"
| "files_run n (Duplicate ps) s = bundle_duplicate ps s"
| "files_run n (Drop_Transfer p) s = drop_transfer p s"
| "files_run n (Prepare c bundle maximum ceiling flags) s = map_sum id snd (task_prepare_install c bundle maximum ceiling flags s)"
| "files_run n (Plan_Commit pl) s = plan_commit pl s"
| "files_run n (Plan_Rollback pl) s = plan_rollback pl s"
| "files_run n (Finish b) s = finish_removed_binding b s"

text \<open>Who may take a step. A method is called with a capability that exists, and makes one that
  does not; ceilings are those of \<open>FdAllocCeiling\<close>; reservations, plans, transfers and removed
  descriptors are consumed by their owner. A task commits before it leaves the episode.\<close>

definition has_cap :: "files_system \<Rightarrow> nat \<Rightarrow> bool" where
  "has_cap s c \<longleftrightarrow> fs_caps s c \<noteq> None"

fun files_enabled :: "nat \<Rightarrow> files_op \<Rightarrow> files_system \<Rightarrow> bool" where
  "files_enabled n (New_Empty c) s \<longleftrightarrow> \<not> has_cap s c"
| "files_enabled n (Attach c c') s \<longleftrightarrow> has_cap s c \<and> \<not> has_cap s c'"
| "files_enabled n (Fork c c') s \<longleftrightarrow> has_cap s c \<and> \<not> has_cap s c'"
| "files_enabled n (Split c) s \<longleftrightarrow> has_cap s c"
| "files_enabled n (Detach c) s \<longleftrightarrow> has_cap s c"
| "files_enabled n (Open_Fd c ceiling flags) s \<longleftrightarrow> has_cap s c \<and> ceiling \<le> n"
| "files_enabled n (Close_Fd c fd) s \<longleftrightarrow> has_cap s c"
| "files_enabled n (Dup c old_fd ceiling) s \<longleftrightarrow> has_cap s c \<and> ceiling \<le> n"
| "files_enabled n (Dup_Ge c old_fd m cloexec ceiling) s \<longleftrightarrow> has_cap s c \<and> ceiling \<le> n"
| "files_enabled n (Dup3 c old_fd new_fd flags ceiling) s \<longleftrightarrow> has_cap s c \<and> ceiling \<le> n"
| "files_enabled n (Close_Cloexec c) s \<longleftrightarrow> has_cap s c"
| "files_enabled n (Close_Range c a b) s \<longleftrightarrow> has_cap s c"
| "files_enabled n (Cloexec_Range c a b) s \<longleftrightarrow> has_cap s c"
| "files_enabled n (Reserve c ceiling) s \<longleftrightarrow> has_cap s c \<and> ceiling \<le> n"
| "files_enabled n (Commit r flags) s \<longleftrightarrow> r \<in># fs_reservations s \<and> fs_caps s (rv_cap r) = Some (rv_episode r)"
| "files_enabled n (Rollback r) s \<longleftrightarrow> r \<in># fs_reservations s"
| "files_enabled n (Capture c fds) s \<longleftrightarrow> has_cap s c"
| "files_enabled n (Duplicate ps) s \<longleftrightarrow> mset ps \<subseteq># fs_transfers s"
| "files_enabled n (Drop_Transfer p) s \<longleftrightarrow> p \<in># fs_transfers s"
| "files_enabled n (Prepare c bundle maximum ceiling flags) s \<longleftrightarrow> has_cap s c \<and> mset bundle \<subseteq># fs_transfers s \<and> ceiling \<le> n"
| "files_enabled n (Plan_Commit pl) s \<longleftrightarrow> pl \<in># fs_plans s \<and> fs_caps s (pl_cap pl) = Some (pl_episode pl)"
| "files_enabled n (Plan_Rollback pl) s \<longleftrightarrow> pl \<in># fs_plans s"
| "files_enabled n (Finish b) s \<longleftrightarrow> b \<in># fs_pending s"

subsection \<open>The invariant\<close>

definition all_slots :: "episode list \<Rightarrow> nat set" where
  "all_slots eps = (\<Union>ep \<in> set eps. slots (ep_table ep))"

definition inflight :: "files_system \<Rightarrow> nat multiset" where
  "inflight s = fs_transfers s + (\<Sum>pl \<in># fs_plans s. mset (pl_bundle pl)) +
     image_mset (\<lambda>b. fd_pfile (fh_descs (fs_heap s) (snd b))) (fs_pending s)"

definition claims :: "files_system \<Rightarrow> nat \<Rightarrow> nat multiset" where
  "claims s e = image_mset rv_fd (filter_mset (\<lambda>r. rv_episode r = e) (fs_reservations s)) +
     (\<Sum>pl \<in># filter_mset (\<lambda>pl. pl_episode pl = e) (fs_plans s). mset (pl_fds pl))"

definition tables_ok :: "nat \<Rightarrow> episode list \<Rightarrow> bool" where
  "tables_ok n eps \<longleftrightarrow> (\<forall>e < length eps. table_ok n (ep_table (eps ! e))) \<and>
     (\<forall>e < length eps. \<forall>e' < length eps. e \<noteq> e' \<longrightarrow> slots (ep_table (eps ! e)) \<inter> slots (ep_table (eps ! e')) = {})"

definition caps_ok :: "files_system \<Rightarrow> bool" where
  "caps_ok s \<longleftrightarrow> finite (dom (fs_caps s)) \<and> ran (fs_caps s) \<subseteq> {..< length (fs_episodes s)} \<and>
     (\<forall>e < length (fs_episodes s). ep_participants (fs_episodes s ! e) = card {c. fs_caps s c = Some e})"

definition claims_ok :: "nat \<Rightarrow> files_system \<Rightarrow> bool" where
  "claims_ok n s \<longleftrightarrow>
     (\<forall>e < length (fs_episodes s). set_mset (claims s e) \<subseteq> {..< n} \<and>
        (if ep_participants (fs_episodes s ! e) = 0
         then slots (ep_table (fs_episodes s ! e)) = {} \<and> reserved (ep_table (fs_episodes s ! e)) = {}
         else mset_set (reserved (ep_table (fs_episodes s ! e))) = claims s e)) \<and>
     (\<forall>r \<in># fs_reservations s. rv_episode r < length (fs_episodes s)) \<and>
     (\<forall>pl \<in># fs_plans s. pl_episode pl < length (fs_episodes s) \<and> length (pl_fds pl) \<le> length (pl_bundle pl))"

definition files_inv :: "nat \<Rightarrow> files_system \<Rightarrow> bool" where
  "files_inv n s \<longleftrightarrow> heap_ok (fs_heap s) (all_slots (fs_episodes s)) (inflight s) \<and> tables_ok n (fs_episodes s) \<and> caps_ok s \<and>
     claims_ok n s \<and> (\<forall>b \<in># fs_pending s. snd b < fh_ndescs (fs_heap s))"

abbreviation table_at :: "files_system \<Rightarrow> nat \<Rightarrow> file_table" where
  "table_at s e \<equiv> ep_table (fs_episodes s ! e)"

abbreviation fs_slots :: "files_system \<Rightarrow> nat set" where
  "fs_slots s \<equiv> all_slots (fs_episodes s)"

definition fs_view :: "files_system \<Rightarrow> nat \<Rightarrow> fd_map" where
  "fs_view s e = view (table_at s e) (fs_heap s)"

lemma all_slots_iff: "d \<in> all_slots eps \<longleftrightarrow> (\<exists>e < length eps. d \<in> slots (ep_table (eps ! e)))"
  unfolding all_slots_def UN_iff Bex_def in_set_conv_nth by blast

lemma files_invD:
  assumes "files_inv n s"
  shows "heap_ok (fs_heap s) (fs_slots s) (inflight s)" "tables_ok n (fs_episodes s)" "caps_ok s" "claims_ok n s"
    "b \<in># fs_pending s \<Longrightarrow> snd b < fh_ndescs (fs_heap s)" "fs_slots s \<subseteq> {..< fh_ndescs (fs_heap s)}"
  using assms heap_okD(2) by (auto simp: files_inv_def)

lemma files_table:
  assumes inv: "files_inv n s" and e: "e < length (fs_episodes s)"
  shows "table_in n (table_at s e) (fs_heap s) (fs_slots s) (inflight s)"
  using files_invD(1,2) [OF inv] e by (auto simp: table_in_def tables_ok_def all_slots_iff)

lemma capE:
  assumes inv: "files_inv n s" and c: "fs_caps s c = Some e"
  shows "e < length (fs_episodes s)" "0 < ep_participants (fs_episodes s ! e)"
proof -
  have ok: "caps_ok s" by (rule files_invD(3) [OF inv])
  show e: "e < length (fs_episodes s)" using ok c by (auto simp: caps_ok_def ran_def)
  have "{x. fs_caps s x = Some e} \<subseteq> dom (fs_caps s)" by auto
  then have "finite {x. fs_caps s x = Some e}" using ok finite_subset by (auto simp: caps_ok_def)
  then have "0 < card {x. fs_caps s x = Some e}" using c by (auto simp: card_gt_0_iff)
  then show "0 < ep_participants (fs_episodes s ! e)" using ok e by (simp add: caps_ok_def)
qed

text \<open>One table changes, and gets new descriptors at most.\<close>

lemma tables_update:
  assumes ok: "tables_ok n eps" and e: "e < length eps" and t': "table_ok n (ep_table ep)" and m: "all_slots eps \<subseteq> {..< m}"
    and new: "slots (ep_table ep) \<subseteq> slots (ep_table (eps ! e)) \<union> {m..}"
  shows "tables_ok n (eps[e := ep])" "all_slots (eps[e := ep]) = all_slots eps - slots (ep_table (eps ! e)) \<union> slots (ep_table ep)"
proof -
  have dis: "slots (ep_table (eps ! i)) \<inter> slots (ep_table (eps ! e)) = {}" if "i < length eps" "i \<noteq> e" for i
    using ok e that by (simp add: tables_ok_def)
  have dis': "slots (ep_table (eps ! i)) \<inter> slots (ep_table ep) = {}" if "i < length eps" "i \<noteq> e" for i
  proof -
    have "slots (ep_table (eps ! i)) \<subseteq> {..< m}" using m that all_slots_iff by blast
    then show ?thesis using dis [OF that] new by fastforce
  qed
  show "tables_ok n (eps[e := ep])" unfolding tables_ok_def
  proof (intro conjI allI impI)
    fix i j
    assume "i < length (eps[e := ep])" "j < length (eps[e := ep])" "i \<noteq> j"
    then show "slots (ep_table (eps[e := ep] ! i)) \<inter> slots (ep_table (eps[e := ep] ! j)) = {}"
      using ok dis' [of i] dis' [of j] by (cases "i = e"; cases "j = e") (auto simp: tables_ok_def)
  qed (use ok e t' in \<open>auto simp: tables_ok_def nth_list_update\<close>)
  show "all_slots (eps[e := ep]) = all_slots eps - slots (ep_table (eps ! e)) \<union> slots (ep_table ep)"
  proof (intro set_eqI)
    fix d
    have "d \<in> all_slots (eps[e := ep]) \<longleftrightarrow> d \<in> slots (ep_table ep) \<or> (\<exists>i < length eps. i \<noteq> e \<and> d \<in> slots (ep_table (eps ! i)))"
      using e by (auto simp: all_slots_iff nth_list_update split: if_splits)
    also have "\<dots> \<longleftrightarrow> d \<in> slots (ep_table ep) \<or> d \<in> all_slots eps - slots (ep_table (eps ! e))"
      using dis unfolding all_slots_iff Diff_iff by (metis disjoint_iff)
    finally show "d \<in> all_slots (eps[e := ep]) \<longleftrightarrow> d \<in> all_slots eps - slots (ep_table (eps ! e)) \<union> slots (ep_table ep)" by blast
  qed
qed

text \<open>The meaning of the tables outside \<open>E\<close> is the same.\<close>

definition others_same :: "files_system \<Rightarrow> nat set \<Rightarrow> files_system \<Rightarrow> bool" where
  "others_same s E s' \<longleftrightarrow> length (fs_episodes s) \<le> length (fs_episodes s') \<and>
     (\<forall>e < length (fs_episodes s). e \<notin> E \<longrightarrow> fs_view s' e = fs_view s e \<and> reserved (table_at s' e) = reserved (table_at s e))"

lemma view_cong: "(\<And>d. d \<in> slots t \<Longrightarrow> fd_key h' d = fd_key h d) \<Longrightarrow> view t h' = view t h"
  by (auto simp: view_def fun_eq_iff slots_iff intro!: option.map_cong0)

lemma replace_inv:
  assumes inv: "files_inv n s" and e: "e < length (fs_episodes s)" and ok: "table_ok n (ep_table ep)"
    and s': "fs_episodes s' = (fs_episodes s)[e := ep]" "caps_ok s'"
    and h': "heap_ok (fs_heap s') (fs_slots s - slots (table_at s e) \<union> slots (ep_table ep)) (inflight s')"
      "slots (ep_table ep) \<subseteq> slots (table_at s e) \<union> {fh_ndescs (fs_heap s)..}"
      "\<And>d. d \<in> fs_slots s - slots (table_at s e) \<Longrightarrow> fd_key (fs_heap s') d = fd_key (fs_heap s) d"
    and pend: "\<And>b. b \<in># fs_pending s' \<Longrightarrow> snd b < fh_ndescs (fs_heap s')"
    and cl: "set_mset (claims s' e) \<subseteq> {..< n}" "if ep_participants ep = 0 then slots (ep_table ep) = {} \<and> reserved (ep_table ep) = {} else mset_set (reserved (ep_table ep)) = claims s' e"
      "\<And>i. i \<noteq> e \<Longrightarrow> claims s' i = claims s i"
    and own: "\<And>r. r \<in># fs_reservations s' \<Longrightarrow> rv_episode r < length (fs_episodes s)"
      "\<And>pl. pl \<in># fs_plans s' \<Longrightarrow> pl_episode pl < length (fs_episodes s) \<and> length (pl_fds pl) \<le> length (pl_bundle pl)"
  shows "files_inv n s' \<and> others_same s {e} s'"
proof -
  have t: "tables_ok n (fs_episodes s')" "fs_slots s' = fs_slots s - slots (table_at s e) \<union> slots (ep_table ep)"
    using tables_update [OF files_invD(2) [OF inv] e ok files_invD(6) [OF inv] h'(2)] by (simp_all add: s')
  have "claims_ok n s'" unfolding claims_ok_def
  proof (intro conjI allI impI ballI)
    fix i
    assume i: "i < length (fs_episodes s')"
    show "set_mset (claims s' i) \<subseteq> {..< n}"
      using i cl(1,3) files_invD(4) [OF inv] by (cases "i = e") (auto simp: s' claims_ok_def)
    show "if ep_participants (fs_episodes s' ! i) = 0 then slots (table_at s' i) = {} \<and> reserved (table_at s' i) = {}
      else mset_set (reserved (table_at s' i)) = claims s' i"
    proof (cases "i = e")
      case True
      then show ?thesis using cl(2) e by (simp add: s')
    next
      case False
      then show ?thesis using i cl(3) files_invD(4) [OF inv] by (simp add: s' claims_ok_def)
    qed
  qed (use own in \<open>auto simp: s'\<close>)
  then have "files_inv n s'" using t s' h'(1) pend by (auto simp: files_inv_def)
  moreover have "others_same s {e} s'" unfolding others_same_def
  proof (intro conjI allI impI)
    fix i
    assume i: "i < length (fs_episodes s)" "i \<notin> {e}"
    then have "slots (table_at s i) \<inter> slots (table_at s e) = {}" "slots (table_at s i) \<subseteq> fs_slots s"
      using files_invD(2) [OF inv] e by (auto simp: tables_ok_def all_slots_iff)
    then show "fs_view s' i = fs_view s i" unfolding fs_view_def using i s'(1) h'(3) by (auto intro!: view_cong)
    show "reserved (table_at s' i) = reserved (table_at s i)" using i s'(1) by simp
  qed (simp add: s')
  ultimately show ?thesis by blast
qed

lemma replace_good:
  assumes inv: "files_inv n s" and e: "e < length (fs_episodes s)"
    and ep: "ep_participants ep = ep_participants (fs_episodes s ! e)" "0 < ep_participants ep" "table_ok n (ep_table ep)"
    and s': "fs_episodes s' = (fs_episodes s)[e := ep]" "fs_caps s' = fs_caps s"
    and h': "heap_ok (fs_heap s') (fs_slots s - slots (table_at s e) \<union> slots (ep_table ep)) (inflight s')"
      "slots (ep_table ep) \<subseteq> slots (table_at s e) \<union> {fh_ndescs (fs_heap s)..}"
      "\<And>d. d \<in> fs_slots s - slots (table_at s e) \<Longrightarrow> fd_key (fs_heap s') d = fd_key (fs_heap s) d"
    and pend: "\<And>b. b \<in># fs_pending s' \<Longrightarrow> snd b < fh_ndescs (fs_heap s')"
    and cl: "mset_set (reserved (ep_table ep)) = claims s' e" "\<And>i. i \<noteq> e \<Longrightarrow> claims s' i = claims s i"
    and own: "\<And>r. r \<in># fs_reservations s' \<Longrightarrow> rv_episode r < length (fs_episodes s)"
      "\<And>pl. pl \<in># fs_plans s' \<Longrightarrow> pl_episode pl < length (fs_episodes s) \<and> length (pl_fds pl) \<le> length (pl_bundle pl)"
  shows "files_inv n s' \<and> others_same s {e} s'"
proof (rule replace_inv [OF inv e ep(3) s'(1) _ h' pend _ _ cl(2) own])
  show "caps_ok s'" using files_invD(3) [OF inv] e ep(1) by (auto simp: caps_ok_def s' nth_list_update)
  show "set_mset (claims s' e) \<subseteq> {..< n}" unfolding cl(1) [symmetric]
    using table_okD(8) [OF ep(3)] finite_subset [OF table_okD(8) [OF ep(3)]] by simp
qed (use cl(1) ep(2) in simp_all)

subsection \<open>Every step keeps the invariant\<close>

definition good :: "nat \<Rightarrow> files_system \<Rightarrow> nat set \<Rightarrow> fault + files_system \<Rightarrow> bool" where
  "good n s E r \<longleftrightarrow> (\<exists>s'. r = Inr s' \<and> files_inv n s' \<and> others_same s E s')"

lemma goodI: "files_inv n s' \<and> others_same s E s' \<Longrightarrow> good n s E (Inr s')"
  by (simp add: good_def)

lemma pending_keeps:
  assumes "keeps h h'" "\<And>b. b \<in># M \<Longrightarrow> snd b < fh_ndescs h"
  shows "image_mset (\<lambda>b. fd_pfile (fh_descs h' (snd b))) M = image_mset (\<lambda>b. fd_pfile (fh_descs h (snd b))) M"
  using assms(2) keepsD [OF assms(1)] by (intro image_mset_cong) (auto simp: fd_key_def)

lemma claims_cong: "fs_reservations s' = fs_reservations s \<Longrightarrow> fs_plans s' = fs_plans s \<Longrightarrow> claims s' e = claims s e"
  by (simp add: claims_def)

lemma claims_live: "files_inv n s \<Longrightarrow> e < length (fs_episodes s) \<Longrightarrow> 0 < ep_participants (fs_episodes s ! e) \<Longrightarrow> mset_set (reserved (table_at s e)) = claims s e"
  using files_invD(4) by (fastforce simp: claims_ok_def)

lemma owners:
  assumes "files_inv n s"
  shows "r \<in># fs_reservations s \<Longrightarrow> rv_episode r < length (fs_episodes s)"
    "pl \<in># fs_plans s \<Longrightarrow> pl_episode pl < length (fs_episodes s) \<and> length (pl_fds pl) \<le> length (pl_bundle pl)"
  using files_invD(4) [OF assms] by (auto simp: claims_ok_def)

lemma table_op_good:
  assumes inv: "files_inv n s" and c: "fs_caps s c = Some e"
    and st: "table_step n (table_at s e) (fs_heap s) (fs_slots s) (inflight s) t' h' cs" "reserved t' = reserved (table_at s e)"
  shows "files_inv n (s\<lparr>fs_episodes := (fs_episodes s)[e := (fs_episodes s ! e)\<lparr>ep_table := t'\<rparr>], fs_heap := h', fs_pending := fs_pending s + mset (map (Pair e) cs)\<rparr>) \<and>
    others_same s {e} (s\<lparr>fs_episodes := (fs_episodes s)[e := (fs_episodes s ! e)\<lparr>ep_table := t'\<rparr>], fs_heap := h', fs_pending := fs_pending s + mset (map (Pair e) cs)\<rparr>)"
    (is "files_inv n ?s \<and> _")
proof -
  note e = capE [OF inv c]
  have k: "keeps (fs_heap s) h'" and cs: "set cs \<subseteq> slots (table_at s e)" using st(1) by (auto simp: table_step_def)
  have lt: "slots (table_at s e) \<subseteq> {..< fh_ndescs (fs_heap s)}" by (rule table_in_slots [OF files_table [OF inv e(1)]])
  have "pfiles h' cs = pfiles (fs_heap s) cs" by (rule pfiles_keeps [OF k]) (use cs lt in blast)
  then have infl: "inflight ?s = inflight s + pfiles (fs_heap s) cs"
    using pending_keeps [OF k, of "fs_pending s"] files_invD(5) [OF inv] by (simp add: inflight_def pfiles_def image_mset.compositionality comp_def)
  show ?thesis
  proof (rule replace_good [OF inv e(1), of "(fs_episodes s ! e)\<lparr>ep_table := t'\<rparr>"])
    fix b
    assume "b \<in># fs_pending ?s"
    then have "snd b < fh_ndescs (fs_heap s)" using files_invD(5) [OF inv, of b] cs lt by auto
    then show "snd b < fh_ndescs (fs_heap ?s)" using k by (simp add: keeps_def)
  next
    fix d
    assume "d \<in> fs_slots s - slots (table_at s e)"
    then show "fd_key (fs_heap ?s) d = fd_key (fs_heap s) d" using keepsD [OF k] files_invD(6) [OF inv] by auto
  qed (use e st infl claims_live [OF inv e] owners [OF inv] in \<open>auto simp: table_step_def claims_def\<close>)
qed

lemma remove_good:
  assumes inv: "files_inv n s" and c: "fs_caps s c = Some e"
    and f: "f (table_at s e) (fs_heap s) = Inr (r, t', h')"
    and st: "table_step n (table_at s e) (fs_heap s) (fs_slots s) (inflight s) t' h' (case r of Inl _ \<Rightarrow> [] | Inr x \<Rightarrow> descs x)" "reserved t' = reserved (table_at s e)"
  shows "good n s {e} (map_sum id snd (remove_fds c (with_removed f descs) s))"
proof -
  have "0 < ep_participants (fs_episodes s ! e)" by (rule capE(2) [OF inv c])
  moreover have "(case map_sum id descs r of Inl e \<Rightarrow> [] | Inr ds \<Rightarrow> ds) = (case r of Inl _ \<Rightarrow> [] | Inr x \<Rightarrow> descs x)" by (cases r) simp_all
  ultimately show ?thesis using goodI [OF table_op_good [OF inv c st]] c f
    by (simp add: remove_fds_def on_files_def with_removed_def)
qed

lemma table_mut_good:
  assumes inv: "files_inv n s" and c: "fs_caps s c = Some e"
    and f: "f (table_at s e) (fs_heap s) = Inr (r, t', h')"
    and st: "table_step n (table_at s e) (fs_heap s) (fs_slots s) (inflight s) t' h' []" "reserved t' = reserved (table_at s e)"
  shows "good n s {e} (map_sum id snd (on_files c (with_table_mut f) s))"
proof -
  have "0 < ep_participants (fs_episodes s ! e)" by (rule capE(2) [OF inv c])
  then show ?thesis using goodI [OF table_op_good [OF inv c st]] c f by (simp add: on_files_def with_table_mut_def)
qed

lemma implements_step:
  assumes tin: "table_in n t h D T" and i: "implements n t h D T cs out r spec"
  obtains x t' h' where "r = Inr (x, t', h')" "table_step n t h D T t' h' (case x of Inl _ \<Rightarrow> [] | Inr y \<Rightarrow> cs y)" "reserved t' = reserved t"
proof (cases spec)
  case (Inl e)
  then show ?thesis using that [of "Inl e" t h] i table_step_refl [OF tin] by (simp add: implements_def)
next
  case (Inr p)
  then obtain x t' h' where "r = Inr (Inr x, t', h')" "table_step n t h D T t' h' (cs x)" "reserved t' = reserved t"
    using i by (cases p) (auto simp: implements_def)
  then show ?thesis using that [of "Inr x" t' h'] by simp
qed

definition files_refs :: "nat \<Rightarrow> files_op \<Rightarrow> nat" where
  "files_refs n op =
     (case op of
        Fork _ _ \<Rightarrow> n | Split _ \<Rightarrow> n | Dup _ _ _ \<Rightarrow> 1 | Dup_Ge _ _ _ _ _ \<Rightarrow> 1 | Dup3 _ _ _ _ _ \<Rightarrow> 1
      | Capture _ fds \<Rightarrow> length fds | Duplicate ps \<Rightarrow> length ps | _ \<Rightarrow> 0)"

text \<open>The counters have room for the references that a step can add, and for one more
  participant. Both are far below what the memory of a machine can hold.\<close>

definition files_room :: "nat \<Rightarrow> files_op \<Rightarrow> files_system \<Rightarrow> bool" where
  "files_room n op s \<longleftrightarrow> room (fs_heap s) (fs_slots s) (inflight s) (files_refs n op) \<and> card (dom (fs_caps s)) + 1 < u64_limit"

lemma implemented_good:
  assumes inv: "files_inv n s" and c: "fs_caps s c = Some e"
    and i: "implements n (table_at s e) (fs_heap s) (fs_slots s) (inflight s) descs out (f (table_at s e) (fs_heap s)) spec"
  shows "good n s {e} (map_sum id snd (remove_fds c (with_removed f descs) s))"
    "(\<And>x. descs x = []) \<Longrightarrow> good n s {e} (map_sum id snd (on_files c (with_table_mut f) s))"
proof -
  obtain x t' h' where r: "f (table_at s e) (fs_heap s) = Inr (x, t', h')"
    "table_step n (table_at s e) (fs_heap s) (fs_slots s) (inflight s) t' h' (case x of Inl _ \<Rightarrow> [] | Inr y \<Rightarrow> descs y)" "reserved t' = reserved (table_at s e)"
    using implements_step [OF files_table [OF inv capE(1) [OF inv c]] i] .
  show "good n s {e} (map_sum id snd (remove_fds c (with_removed f descs) s))" by (rule remove_good [OF inv c, where r = x and t' = t' and h' = h']) (use r in auto)
  assume "\<And>x. descs x = []"
  then have "(case x of Inl _ \<Rightarrow> [] | Inr y \<Rightarrow> descs y) = []" by (cases x) simp_all
  with r show "good n s {e} (map_sum id snd (on_files c (with_table_mut f) s))"
    by (intro table_mut_good [OF inv c, where r = x and t' = t' and h' = h']) auto
qed

lemma closes_good:
  assumes inv: "files_inv n s" and c: "fs_caps s c = Some e"
    and i: "closes n (table_at s e) (fs_heap s) (fs_slots s) (inflight s) is (f (table_at s e) (fs_heap s))"
  shows "good n s {e} (map_sum id snd (remove_fds c (with_removed (\<lambda>t h. and_then (f t h) (\<lambda>(ds, r). Inr (Inr ds, r))) id) s))"
proof -
  obtain cs t' h' where r: "f (table_at s e) (fs_heap s) = Inr (cs, t', h')"
    "table_step n (table_at s e) (fs_heap s) (fs_slots s) (inflight s) t' h' cs" "reserved t' = reserved (table_at s e)"
    using i by (auto simp: closes_def)
  show ?thesis by (rule remove_good [OF inv c, where r = "Inr cs" and t' = t' and h' = h']) (use r in simp_all)
qed

subsubsection \<open>Capabilities\<close>

lemma claims_fresh: "files_inv n s \<Longrightarrow> length (fs_episodes s) \<le> i \<Longrightarrow> claims s i = {#}"
proof -
  assume inv: "files_inv n s" and i: "length (fs_episodes s) \<le> i"
  have "filter_mset (\<lambda>r. rv_episode r = i) (fs_reservations s) = {#}" "filter_mset (\<lambda>pl. pl_episode pl = i) (fs_plans s) = {#}"
    using owners [OF inv] i by (auto dest: leD)
  then show ?thesis by (simp only: claims_def) simp
qed

lemma cap_count:
  assumes "caps_ok s" "fs_caps s c \<noteq> Some i"
  shows "card {x. ((fs_caps s)(c := v)) x = Some i} = card {x. fs_caps s x = Some i} + (if v = Some i then 1 else 0)"
proof -
  have "{x. fs_caps s x = Some i} \<subseteq> dom (fs_caps s)" by auto
  then have "finite {x. fs_caps s x = Some i}" using assms(1) finite_subset by (auto simp: caps_ok_def)
  moreover have "{x. ((fs_caps s)(c := v)) x = Some i} = (if v = Some i then insert c {x. fs_caps s x = Some i} else {x. fs_caps s x = Some i})"
    using assms(2) by auto
  ultimately show ?thesis using assms(2) by simp
qed

lemma cap_count_drop:
  assumes "caps_ok s" "fs_caps s c = Some i" "v \<noteq> Some i"
  shows "card {x. ((fs_caps s)(c := v)) x = Some i} = card {x. fs_caps s x = Some i} - 1"
proof -
  have "{x. ((fs_caps s)(c := v)) x = Some i} = {x. fs_caps s x = Some i} - {c}" using assms(3) by auto
  then show ?thesis using assms(2) by simp
qed

text \<open>A capability \<open>c\<close> moves to a fresh episode, from the one it was for, if any, which stays
  shared.\<close>

lemma fresh_good:
  assumes inv: "files_inv n s"
    and eps: "length eps = length (fs_episodes s)" "\<And>i. i < length eps \<Longrightarrow> ep_table (eps ! i) = table_at s i"
      "\<And>i. i < length eps \<Longrightarrow> ep_participants (eps ! i) = ep_participants (fs_episodes s ! i) - (if fs_caps s c = Some i then 1 else 0)"
      "\<And>i. fs_caps s c = Some i \<Longrightarrow> 1 < ep_participants (fs_episodes s ! i)"
    and t: "table_ok n t" "reserved t = {}" "slots t \<subseteq> {fh_ndescs (fs_heap s)..}"
    and h': "heap_ok h' (fs_slots s \<union> slots t) (inflight s)" "keeps (fs_heap s) h'"
    and s': "s' = s\<lparr>fs_episodes := eps @ [episode_new t], fs_heap := h', fs_caps := (fs_caps s)(c \<mapsto> length eps)\<rparr>"
  shows "files_inv n s' \<and> others_same s {} s'"
proof -
  let ?m = "length eps"
  have old: "fs_episodes s' ! i = eps ! i" if "i < ?m" for i using that by (simp add: s' nth_append)
  have new: "fs_episodes s' ! ?m = episode_new t" "length (fs_episodes s') = Suc ?m" by (simp_all add: s')
  have sl: "slots (ep_table (eps ! i)) \<subseteq> {..< fh_ndescs (fs_heap s)}" if "i < ?m" for i
    using table_in_slots [OF files_table [OF inv]] that eps(1,2) by simp
  have co: "caps_ok s" by (rule files_invD(3) [OF inv])
  have ran: "fs_caps s x \<noteq> Some ?m" for x using co eps(1) by (auto simp: caps_ok_def ran_def)
  have "tables_ok n (fs_episodes s')" unfolding tables_ok_def new(2)
  proof (intro conjI allI impI)
    fix i j
    assume ij: "i < Suc ?m" "j < Suc ?m" "i \<noteq> j"
    have "slots (ep_table (eps ! k)) \<inter> slots t = {}" if "k < ?m" for k using sl [OF that] t(3) by fastforce
    then show "slots (table_at s' i) \<inter> slots (table_at s' j) = {}" using files_invD(2) [OF inv] ij eps(1,2) old new
      by (cases "i = ?m"; cases "j = ?m") (auto simp: tables_ok_def episode_new_def Int_commute)
  qed (use files_invD(2) [OF inv] eps(1,2) old new t(1) in \<open>auto simp: tables_ok_def less_Suc_eq episode_new_def\<close>)
  moreover have "fs_slots s' = fs_slots s \<union> slots t"
  proof -
    have "all_slots eps = fs_slots s" unfolding set_eq_iff all_slots_iff using eps(1,2) by (metis (no_types))
    then show ?thesis by (auto simp: s' all_slots_def episode_new_def)
  qed
  moreover have "inflight s' = inflight s" using pending_keeps [OF h'(2), of "fs_pending s"] files_invD(5) [OF inv] by (simp add: inflight_def s')
  moreover have "caps_ok s'" unfolding caps_ok_def new(2)
  proof (intro conjI allI impI)
    fix i
    assume "i < Suc ?m"
    moreover have "{x. ((fs_caps s)(c \<mapsto> ?m)) x = Some ?m} = {c}" using ran by auto
    ultimately show "ep_participants (fs_episodes s' ! i) = card {x. fs_caps s' x = Some i}"
      using cap_count [OF co, of c i "Some ?m"] cap_count_drop [OF co, of c i "Some ?m"] co eps(1,3) old new
      by (cases "i = ?m"; cases "fs_caps s c = Some i") (auto simp: s' caps_ok_def episode_new_def)
  qed (use co eps(1) in \<open>auto simp: s' caps_ok_def ran_def split: if_splits\<close>)
  moreover have cl: "claims s' i = claims s i" for i by (rule claims_cong) (simp_all add: s')
  have "claims_ok n s'" unfolding claims_ok_def new(2)
  proof (intro conjI allI impI ballI)
    fix i
    assume i: "i < Suc ?m"
    show "set_mset (claims s' i) \<subseteq> {..< n}" using files_invD(4) [OF inv] claims_fresh [OF inv, of i] i eps(1)
      unfolding cl by (cases "i = ?m") (auto simp: claims_ok_def)
    show "if ep_participants (fs_episodes s' ! i) = 0 then slots (table_at s' i) = {} \<and> reserved (table_at s' i) = {}
      else mset_set (reserved (table_at s' i)) = claims s' i"
    proof (cases "i = ?m")
      case True
      then show ?thesis using new t(2) claims_fresh [OF inv, of i] eps(1) unfolding cl by (simp add: episode_new_def)
    next
      case False
      then have "i < ?m" using i by simp
      moreover have "ep_participants (eps ! i) = 0 \<longleftrightarrow> ep_participants (fs_episodes s ! i) = 0" using eps(3) [OF \<open>i < ?m\<close>] eps(4) [of i] by auto
      ultimately show ?thesis using files_invD(4) [OF inv] old eps(1,2) unfolding cl by (simp add: claims_ok_def)
    qed
  qed (use owners [OF inv] eps(1) in \<open>auto simp: s' less_Suc_eq\<close>)
  moreover have "snd b < fh_ndescs h'" if "b \<in># fs_pending s" for b using files_invD(5) [OF inv that] h'(2) by (simp add: keeps_def)
  ultimately have "files_inv n s'" using h'(1) by (simp add: files_inv_def s')
  moreover have "others_same s {} s'" unfolding others_same_def
  proof (intro conjI allI impI)
    fix i
    assume i: "i < length (fs_episodes s)"
    then show "fs_view s' i = fs_view s i" "reserved (table_at s' i) = reserved (table_at s i)"
      using old eps(1,2) view_keeps [OF h'(2)] sl by (simp_all add: fs_view_def s')
  qed (simp add: s' eps(1))
  ultimately show ?thesis by blast
qed

text \<open>Only the number of participants changes.\<close>

lemma recount_good:
  assumes inv: "files_inv n s" and e: "e < length (fs_episodes s)" and k: "0 < k" "0 < ep_participants (fs_episodes s ! e)"
    and s': "s' = s\<lparr>fs_episodes := (fs_episodes s)[e := (fs_episodes s ! e)\<lparr>ep_participants := k\<rparr>], fs_caps := caps\<rparr>" "caps_ok s'"
  shows "files_inv n s' \<and> others_same s {} s'"
proof -
  have infl: "inflight s' = inflight s" by (simp add: inflight_def s'(1))
  have sub: "slots (table_at s e) \<subseteq> fs_slots s" using e by (auto simp: all_slots_iff)
  then have "fs_slots s - slots (table_at s e) \<union> slots (table_at s e) = fs_slots s" by auto
  then have "files_inv n s' \<and> others_same s {e} s'"
    using files_table [OF inv e] files_invD(1,4,5) [OF inv] owners [OF inv] claims_live [OF inv e k(2)] e k infl s'(2)
    by (intro replace_inv [OF inv e, of "(fs_episodes s ! e)\<lparr>ep_participants := k\<rparr>"]) (auto simp: s'(1) table_in_def claims_def claims_ok_def)
  moreover have "fs_view s' e = fs_view s e" "table_at s' e = table_at s e" using e by (simp_all add: fs_view_def s'(1))
  ultimately show ?thesis unfolding others_same_def by (metis empty_iff singletonD)
qed

lemma new_empty_good:
  assumes inv: "files_inv n s" and n: "64 dvd n" "n < 2 ^ 31" and en: "\<not> has_cap s c"
  shows "good n s {} (task_new_empty n c s)"
proof -
  have "files_inv n (s\<lparr>fs_episodes := fs_episodes s @ [episode_new (table_new n)], fs_heap := fs_heap s, fs_caps := (fs_caps s)(c \<mapsto> length (fs_episodes s))\<rparr>) \<and>
    others_same s {} (s\<lparr>fs_episodes := fs_episodes s @ [episode_new (table_new n)], fs_heap := fs_heap s, fs_caps := (fs_caps s)(c \<mapsto> length (fs_episodes s))\<rparr>)"
    by (rule fresh_good [OF inv, where eps = "fs_episodes s" and t = "table_new n"])
      (use en files_invD(1) [OF inv] table_new_ok [OF n] in \<open>auto simp: has_cap_def\<close>)
  then show ?thesis by (simp add: task_new_empty_def good_def)
qed

lemma fork_good:
  assumes inv: "files_inv n s" and c: "fs_caps s c = Some e" "\<not> has_cap s c'" and r: "room (fs_heap s) (fs_slots s) (inflight s) n"
  shows "good n s {} (task_fork c c' s)"
proof -
  note e = capE [OF inv c(1)]
  obtain t h' where t: "table_fork (table_at s e) (fs_heap s) = Inr (t, h')" "table_ok n t" "heap_ok h' (fs_slots s \<union> slots t) (inflight s)"
    "keeps (fs_heap s) h'" "slots t = {fh_ndescs (fs_heap s) ..< fh_ndescs h'}" "reserved t = {}"
    using table_fork_ok [OF files_table [OF inv e(1)] r] by blast
  let ?s = "s\<lparr>fs_episodes := fs_episodes s @ [episode_new t], fs_heap := h', fs_caps := (fs_caps s)(c' \<mapsto> length (fs_episodes s))\<rparr>"
  have "files_inv n ?s \<and> others_same s {} ?s"
    by (rule fresh_good [OF inv, where eps = "fs_episodes s" and t = t and h' = h']) (use c t in \<open>auto simp: has_cap_def\<close>)
  moreover have "task_fork c c' s = Inr ?s" using c e t(1) by (simp add: task_fork_def on_files_def files_fork_def)
  ultimately show ?thesis by (simp add: good_def)
qed

lemma split_good:
  assumes inv: "files_inv n s" and c: "fs_caps s c = Some e" and r: "room (fs_heap s) (fs_slots s) (inflight s) n"
  shows "good n s {} (map_sum id snd (task_split_if_shared c s))"
proof -
  note e = capE [OF inv c]
  let ?ep = "fs_episodes s ! e"
  show ?thesis
  proof (cases "ep_participants ?ep = 1")
    case True
    then have "map_sum id snd (task_split_if_shared c s) = Inr s" using c e by (simp add: task_split_if_shared_def on_files_def files_split_if_shared_def)
    then show ?thesis using inv by (simp add: good_def others_same_def)
  next
    case False
    obtain t h' where t: "table_fork (table_at s e) (fs_heap s) = Inr (t, h')" "table_ok n t" "heap_ok h' (fs_slots s \<union> slots t) (inflight s)"
      "keeps (fs_heap s) h'" "slots t = {fh_ndescs (fs_heap s) ..< fh_ndescs h'}" "reserved t = {}"
      using table_fork_ok [OF files_table [OF inv e(1)] r] by blast
    let ?eps = "(fs_episodes s)[e := ?ep\<lparr>ep_participants := ep_participants ?ep - 1\<rparr>]"
    let ?s = "s\<lparr>fs_episodes := ?eps @ [episode_new t], fs_heap := h', fs_caps := (fs_caps s)(c \<mapsto> length ?eps)\<rparr>"
    have "files_inv n ?s \<and> others_same s {} ?s"
      by (rule fresh_good [OF inv, where eps = ?eps and t = t and h' = h']) (use c e t False in \<open>auto simp: nth_list_update\<close>)
    moreover have "map_sum id snd (task_split_if_shared c s) = Inr ?s"
      using c e t(1) False by (simp add: task_split_if_shared_def on_files_def files_split_if_shared_def)
    ultimately show ?thesis by (simp add: good_def)
  qed
qed

lemma attach_good:
  assumes inv: "files_inv n s" and c: "fs_caps s c = Some e" "\<not> has_cap s c'" and r: "card (dom (fs_caps s)) + 1 < u64_limit"
  shows "good n s {} (task_attach c c' s)"
proof -
  note e = capE [OF inv c(1)]
  have co: "caps_ok s" by (rule files_invD(3) [OF inv])
  let ?ep = "fs_episodes s ! e"
  let ?s = "s\<lparr>fs_episodes := (fs_episodes s)[e := ?ep\<lparr>ep_participants := ep_participants ?ep + 1\<rparr>], fs_caps := (fs_caps s)(c' \<mapsto> e)\<rparr>"
  have "card {x. fs_caps s x = Some e} \<le> card (dom (fs_caps s))" using co by (intro card_mono) (auto simp: caps_ok_def)
  then have "checked_add (ep_participants ?ep) 1 = Some (ep_participants ?ep + 1)" using r co e by (simp add: checked_add_def caps_ok_def)
  then have "task_attach c c' s = Inr ?s" using c(1) e by (simp add: task_attach_def on_files_def files_attach_def)
  moreover have "caps_ok ?s" unfolding caps_ok_def
  proof (intro conjI allI impI)
    fix i
    assume "i < length (fs_episodes ?s)"
    then show "ep_participants (fs_episodes ?s ! i) = card {x. fs_caps ?s x = Some i}"
      using cap_count [OF co, of c' i "Some e"] c(2) co by (cases "i = e") (auto simp: has_cap_def caps_ok_def)
  qed (use co e in \<open>auto simp: caps_ok_def ran_def split: if_splits\<close>)
  ultimately show ?thesis using recount_good [OF inv e(1) _ e(2), of "ep_participants ?ep + 1" ?s] by (simp add: good_def)
qed

lemma caps_drop:
  assumes co: "caps_ok s" and c: "fs_caps s c = Some e" and e: "e < length (fs_episodes s)"
    and ep: "ep_participants ep = ep_participants (fs_episodes s ! e) - 1"
    and s': "fs_episodes s' = (fs_episodes s)[e := ep]" "fs_caps s' = (fs_caps s)(c := None)"
  shows "caps_ok s'"
  unfolding caps_ok_def
proof (intro conjI allI impI)
  fix i
  assume "i < length (fs_episodes s')"
  then show "ep_participants (fs_episodes s' ! i) = card {x. fs_caps s' x = Some i}"
    using cap_count [OF co, of c i None] cap_count_drop [OF co c, of None] c co e ep by (cases "i = e") (auto simp: s' caps_ok_def)
qed (use co e in \<open>auto simp: s' caps_ok_def ran_def split: if_splits\<close>)

lemma detach_good:
  assumes inv: "files_inv n s" and c: "fs_caps s c = Some e"
  shows "good n s {e} (task_detach c s)"
proof -
  note e = capE [OF inv c]
  have co: "caps_ok s" by (rule files_invD(3) [OF inv])
  let ?ep = "fs_episodes s ! e"
  show ?thesis
  proof (cases "ep_participants ?ep = 1")
    case False
    let ?s = "s\<lparr>fs_episodes := (fs_episodes s)[e := ?ep\<lparr>ep_participants := ep_participants ?ep - 1\<rparr>], fs_caps := (fs_caps s)(c := None)\<rparr>"
    have "task_detach c s = Inr ?s" using c e False by (simp add: task_detach_def remove_fds_def on_files_def files_detach_def)
    moreover have "caps_ok ?s" using caps_drop [OF co c e(1), of "?ep\<lparr>ep_participants := ep_participants ?ep - 1\<rparr>" ?s] by simp
    ultimately show ?thesis using recount_good [OF inv e(1) _ e(2), of "ep_participants ?ep - 1" ?s] False e(2)
      by (auto simp: good_def others_same_def)
  next
    case True
    obtain cs t' h' where d: "drain_all_published_fds (table_at s e) (fs_heap s) = Inr (cs, t', h')"
      "table_step n (table_at s e) (fs_heap s) (fs_slots s) (inflight s) t' h' cs" "reserved t' = {}" "slots t' = {}"
      using drain_ok [OF files_table [OF inv e(1)]] by blast
    let ?s = "s\<lparr>fs_episodes := (fs_episodes s)[e := ?ep\<lparr>ep_participants := 0, ep_table := t'\<rparr>], fs_heap := h',
      fs_pending := fs_pending s + mset (map (Pair e) cs), fs_caps := (fs_caps s)(c := None)\<rparr>"
    have k: "keeps (fs_heap s) h'" and cs: "set cs \<subseteq> slots (table_at s e)" using d(2) by (auto simp: table_step_def)
    have lt: "slots (table_at s e) \<subseteq> {..< fh_ndescs (fs_heap s)}" by (rule table_in_slots [OF files_table [OF inv e(1)]])
    have "pfiles h' cs = pfiles (fs_heap s) cs" by (rule pfiles_keeps [OF k]) (use cs lt in blast)
    then have infl: "inflight ?s = inflight s + pfiles (fs_heap s) cs"
      using pending_keeps [OF k, of "fs_pending s"] files_invD(5) [OF inv] by (simp add: inflight_def pfiles_def image_mset.compositionality comp_def)
    have "files_inv n ?s \<and> others_same s {e} ?s"
    proof (rule replace_inv [OF inv e(1), of "?ep\<lparr>ep_participants := 0, ep_table := t'\<rparr>"])
      fix b
      assume "b \<in># fs_pending ?s"
      then have "snd b < fh_ndescs (fs_heap s)" using files_invD(5) [OF inv, of b] cs lt by auto
      then show "snd b < fh_ndescs (fs_heap ?s)" using k by (simp add: keeps_def)
    next
      fix x
      assume "x \<in> fs_slots s - slots (table_at s e)"
      then show "fd_key (fs_heap ?s) x = fd_key (fs_heap s) x" using keepsD [OF k] files_invD(6) [OF inv] by auto
    next
      show "caps_ok ?s" using True caps_drop [OF co c e(1), of "?ep\<lparr>ep_participants := 0, ep_table := t'\<rparr>" ?s] by simp
      show "set_mset (claims ?s e) \<subseteq> {..< n}" using files_invD(4) [OF inv] e(1) by (simp add: claims_ok_def claims_def)
    qed (use d infl owners [OF inv] in \<open>auto simp: table_step_def claims_def\<close>)
    moreover have "task_detach c s = Inr ?s" using c True d(1) by (simp add: task_detach_def remove_fds_def on_files_def files_detach_def)
    ultimately show ?thesis by (simp add: good_def)
  qed
qed

subsubsection \<open>Flags, transfers and releases\<close>

lemma heap_good:
  assumes inv: "files_inv n s"
    and s': "fs_episodes s' = fs_episodes s" "fs_caps s' = fs_caps s" "fs_reservations s' = fs_reservations s" "fs_plans s' = fs_plans s"
    and h': "heap_ok (fs_heap s') (fs_slots s) (inflight s')" "\<And>b. b \<in># fs_pending s' \<Longrightarrow> snd b < fh_ndescs (fs_heap s')"
    and keys: "\<And>e d. e < length (fs_episodes s) \<Longrightarrow> e \<notin> E \<Longrightarrow> d \<in> slots (table_at s e) \<Longrightarrow> fd_key (fs_heap s') d = fd_key (fs_heap s) d"
  shows "files_inv n s' \<and> others_same s E s'"
proof -
  have "claims s' = claims s" by (rule ext) (rule claims_cong [OF s'(3,4)])
  then have "files_inv n s'" using inv h' by (auto simp: files_inv_def caps_ok_def claims_ok_def s')
  moreover have "fs_view s' e = fs_view s e" if "e < length (fs_episodes s)" "e \<notin> E" for e
    using view_cong [OF keys [OF that]] by (simp add: fs_view_def s'(1))
  ultimately show ?thesis by (simp add: others_same_def s'(1))
qed

lemma slots_key: "files_inv n s \<Longrightarrow> keeps (fs_heap s) h' \<Longrightarrow> e < length (fs_episodes s) \<Longrightarrow> d \<in> slots (table_at s e) \<Longrightarrow> fd_key h' d = fd_key (fs_heap s) d"
  using keepsD table_in_slots [OF files_table] by blast

lemma cloexec_range_good:
  assumes inv: "files_inv n s" and c: "fs_caps s c = Some e"
  shows "good n s {e} (map_sum id snd (task_cloexec_range c a b s))"
proof -
  note e = capE [OF inv c]
  obtain h' where h': "set_close_on_exec_range a b (table_at s e) (fs_heap s) = Inr h'" "heap_ok h' (fs_slots s) (inflight s)" "fh_ndescs h' = fh_ndescs (fs_heap s)"
    "\<forall>d. fst (fd_key h' d) = fst (fd_key (fs_heap s) d) \<and> (d \<notin> slots (table_at s e) \<longrightarrow> fd_key h' d = fd_key (fs_heap s) d)"
    using set_close_on_exec_range_ok [OF files_table [OF inv e(1)], of a b] by blast
  have "inflight (s\<lparr>fs_heap := h'\<rparr>) = inflight s" using h'(4) by (simp add: inflight_def fd_key_def)
  moreover have "d \<notin> slots (table_at s e)" if "i < length (fs_episodes s)" "i \<notin> {e}" "d \<in> slots (table_at s i)" for i d
    using files_invD(2) [OF inv] e(1) that unfolding tables_ok_def by blast
  ultimately have "files_inv n (s\<lparr>fs_heap := h'\<rparr>) \<and> others_same s {e} (s\<lparr>fs_heap := h'\<rparr>)"
    using files_invD(5) [OF inv] h' by (intro heap_good [OF inv]) auto
  moreover have "map_sum id snd (task_cloexec_range c a b s) = Inr (s\<lparr>fs_heap := h'\<rparr>)"
    using c e h'(1) by (simp add: task_cloexec_range_def on_files_def with_table_def)
  ultimately show ?thesis by (simp add: good_def)
qed

lemma capture_good:
  assumes inv: "files_inv n s" and c: "fs_caps s c = Some e" and r: "room (fs_heap s) (fs_slots s) (inflight s) (length fds)"
  shows "good n s {} (map_sum id snd (task_capture c fds s))"
proof -
  note e = capE [OF inv c]
  obtain x ps h' where h': "capture_each fds [] (table_at s e) (fs_heap s) = Inr ((x, [] @ ps), h')" "heap_ok h' (fs_slots s) (inflight s + mset ps)"
    "keeps (fs_heap s) h'" "fh_ndescs h' = fh_ndescs (fs_heap s)"
    using capture_each_ok [OF files_table [OF inv e(1)] r, of "[]"] by blast
  let ?s = "s\<lparr>fs_heap := h', fs_transfers := fs_transfers s + mset ps\<rparr>"
  have "inflight ?s = inflight s + mset ps" using pending_keeps [OF h'(3), of "fs_pending s"] files_invD(5) [OF inv] by (simp add: inflight_def)
  then have "files_inv n ?s \<and> others_same s {} ?s"
    using files_invD(5) [OF inv] h' slots_key [OF inv h'(3)] by (intro heap_good [OF inv]) auto
  moreover have "map_sum id snd (task_capture c fds s) = Inr ?s" using c e h'(1) by (simp add: task_capture_def on_files_def with_table_def)
  ultimately show ?thesis by (simp add: good_def)
qed

lemma transfers_inflight: "p \<in># fs_transfers s \<Longrightarrow> p \<in># inflight s"
  by (simp add: inflight_def)

lemma duplicate_good:
  assumes inv: "files_inv n s" and ps: "mset ps \<subseteq># fs_transfers s" and r: "room (fs_heap s) (fs_slots s) (inflight s) (length ps)"
  shows "good n s {} (bundle_duplicate ps s)"
proof -
  have "set ps \<subseteq> set_mset (refs_of (fs_heap s) (fs_slots s) (inflight s))"
    using set_mset_mono [OF ps] transfers_inflight by (auto simp: refs_of_def)
  then obtain h' where h': "duplicate_each ps (fs_heap s) = Inr h'" "heap_ok h' (fs_slots s) (inflight s + mset ps)" "keeps (fs_heap s) h'"
    "fh_ndescs h' = fh_ndescs (fs_heap s)" using duplicate_each_ok [OF files_invD(1) [OF inv] _ r] by blast
  let ?s = "s\<lparr>fs_heap := h', fs_transfers := fs_transfers s + mset ps\<rparr>"
  have "inflight ?s = inflight s + mset ps" using pending_keeps [OF h'(3), of "fs_pending s"] files_invD(5) [OF inv] by (simp add: inflight_def)
  then have "files_inv n ?s \<and> others_same s {} ?s"
    using files_invD(5) [OF inv] h' slots_key [OF inv h'(3)] by (intro heap_good [OF inv]) auto
  then show ?thesis using h'(1) by (simp add: good_def bundle_duplicate_def)
qed

lemma drop_transfer_good:
  assumes inv: "files_inv n s" and p: "p \<in># fs_transfers s"
  shows "good n s {} (drop_transfer p s)"
proof -
  obtain h' where h': "release_description_ref p (fs_heap s) = Inr h'" "heap_ok h' (fs_slots s) (inflight s - {#p#})" "keeps (fs_heap s) h'"
    "fh_ndescs h' = fh_ndescs (fs_heap s)" using release_ok [OF files_invD(1) [OF inv] transfers_inflight [OF p]] by blast
  let ?s = "s\<lparr>fs_heap := h', fs_transfers := fs_transfers s - {#p#}\<rparr>"
  have "inflight ?s = inflight s - {#p#}" using pending_keeps [OF h'(3), of "fs_pending s"] files_invD(5) [OF inv] p by (simp add: inflight_def)
  then have "files_inv n ?s \<and> others_same s {} ?s"
    using files_invD(5) [OF inv] h' slots_key [OF inv h'(3)] by (intro heap_good [OF inv]) auto
  then show ?thesis using h'(1) by (simp add: good_def drop_transfer_def transfer_drop_def)
qed

lemma finish_good:
  assumes inv: "files_inv n s" and b: "b \<in># fs_pending s"
  shows "good n s {} (finish_removed_binding b s)"
proof -
  let ?p = "fd_pfile (fh_descs (fs_heap s) (snd b))"
  have "?p \<in># inflight s" using b by (auto simp: inflight_def)
  then obtain h' where h': "release_description_ref ?p (fs_heap s) = Inr h'" "heap_ok h' (fs_slots s) (inflight s - {#?p#})" "keeps (fs_heap s) h'"
    "fh_ndescs h' = fh_ndescs (fs_heap s)" using release_ok [OF files_invD(1) [OF inv]] by blast
  let ?s = "s\<lparr>fs_heap := h', fs_pending := fs_pending s - {#b#}\<rparr>"
  have pend: "x \<in># fs_pending s" if "x \<in># fs_pending s - {#b#}" for x using that by (rule in_diffD)
  have "inflight ?s = inflight s - {#?p#}"
    using pending_keeps [OF h'(3), of "fs_pending s - {#b#}"] files_invD(5) [OF inv] pend b by (simp add: inflight_def image_mset_Diff)
  then have "files_inv n ?s \<and> others_same s {} ?s"
    using files_invD(5) [OF inv] pend h' slots_key [OF inv h'(3)] by (intro heap_good [OF inv]) auto
  then show ?thesis using h'(1) by (simp add: good_def finish_removed_binding_def desc_release_description_ref_def)
qed

subsubsection \<open>Reservations and plans\<close>

lemma claims_reservation:
  "fs_reservations s' = add_mset r (fs_reservations s) \<Longrightarrow> fs_plans s' = fs_plans s \<Longrightarrow>
   claims s' i = (if rv_episode r = i then add_mset (rv_fd r) (claims s i) else claims s i)"
  by (simp add: claims_def)

lemma claims_plan:
  "fs_plans s' = add_mset pl (fs_plans s) \<Longrightarrow> fs_reservations s' = fs_reservations s \<Longrightarrow>
   claims s' i = (if pl_episode pl = i then mset (pl_fds pl) + claims s i else claims s i)"
  by (simp add: claims_def)

lemma claims_without:
  assumes "r \<in># fs_reservations s" "fs_reservations s' = fs_reservations s - {#r#}" "fs_plans s' = fs_plans s"
  shows "claims s i = (if rv_episode r = i then add_mset (rv_fd r) (claims s' i) else claims s' i)"
  using assms by (intro claims_reservation) simp_all

lemma claims_without_plan:
  assumes "pl \<in># fs_plans s" "fs_plans s' = fs_plans s - {#pl#}" "fs_reservations s' = fs_reservations s"
  shows "claims s i = (if pl_episode pl = i then mset (pl_fds pl) + claims s' i else claims s' i)"
  using assms by (intro claims_plan) simp_all

lemma mset_set_sub:
  assumes "finite A" "mset_set A = mset xs + M"
  shows "distinct xs" "set xs \<subseteq> A" "mset_set (A - set xs) = M"
proof -
  have c: "count (mset xs) a \<le> 1" "a \<in> set xs \<Longrightarrow> a \<in> A" for a
  proof -
    have "count (mset xs) a + count M a = count (mset_set A) a" by (simp add: assms(2))
    also have "\<dots> = (if a \<in> A then 1 else 0)" using assms(1) by simp
    finally have k: "count (mset xs) a + count M a = (if a \<in> A then 1 else 0)" .
    have "(if a \<in> A then 1 else 0) \<le> (1 :: nat)" by simp
    with k show "count (mset xs) a \<le> 1" by linarith
    assume "a \<in> set xs"
    then have "0 < count (mset xs) a" by (simp add: count_greater_zero_iff)
    with k show "a \<in> A" by (simp split: if_splits)
  qed
  have "count (mset xs) a = (if a \<in> set xs then 1 else 0)" for a
    using c(1) [of a] count_greater_zero_iff [of "mset xs" a] by (auto simp: not_in_iff simp del: count_greater_zero_iff)
  then show d: "distinct xs" by (simp add: distinct_count_atmost_1)
  show s: "set xs \<subseteq> A" using c(2) by blast
  have "mset_set (A - set xs) = mset_set A - mset_set (set xs)" using assms(1) s by (simp add: mset_set_Diff)
  then show "mset_set (A - set xs) = M" using assms(2) mset_set_set [OF d] by simp
qed

lemma finite_reserved: "finite (reserved t)"
  unfolding reserved_def by (rule finite_subset [OF wb_bits_in]) simp

lemma no_slots: "slots t = {} \<Longrightarrow> opened t = {}"
  using slots_iff [of _ t] by (fastforce simp: opened_def)

lemma view_slots_step: "ft_fds t' = ft_fds t \<Longrightarrow> slots t' = slots t"
  by (simp add: slots_def)

text \<open>Only reserved numbers change.\<close>

lemma reserved_good:
  assumes inv: "files_inv n s" and e: "e < length (fs_episodes s)"
    and t': "table_ok n t'" "ft_fds t' = ft_fds (table_at s e)"
    and s': "fs_episodes s' = (fs_episodes s)[e := (fs_episodes s ! e)\<lparr>ep_table := t'\<rparr>]" "fs_caps s' = fs_caps s" "fs_heap s' = fs_heap s"
      "fs_pending s' = fs_pending s" "inflight s' = inflight s"
    and cl: "set_mset (claims s' e) \<subseteq> {..< n}" "if ep_participants (fs_episodes s ! e) = 0 then reserved t' = {} else mset_set (reserved t') = claims s' e"
      "\<And>i. i \<noteq> e \<Longrightarrow> claims s' i = claims s i"
    and own: "\<And>r. r \<in># fs_reservations s' \<Longrightarrow> rv_episode r < length (fs_episodes s)"
      "\<And>pl. pl \<in># fs_plans s' \<Longrightarrow> pl_episode pl < length (fs_episodes s) \<and> length (pl_fds pl) \<le> length (pl_bundle pl)"
  shows "files_inv n s' \<and> others_same s {e} s'"
proof (rule replace_inv [OF inv e _ s'(1)])
  have sl: "slots t' = slots (table_at s e)" by (rule view_slots_step [OF t'(2)])
  have "slots (table_at s e) \<subseteq> fs_slots s" using e by (auto simp: all_slots_iff)
  then have "fs_slots s - slots (table_at s e) \<union> slots t' = fs_slots s" using sl by auto
  then show "heap_ok (fs_heap s') (fs_slots s - slots (table_at s e) \<union> slots (ep_table ((fs_episodes s ! e)\<lparr>ep_table := t'\<rparr>))) (inflight s')"
    using files_invD(1) [OF inv] s'(3,5) by simp
  show "caps_ok s'" using files_invD(3) [OF inv] e by (auto simp: caps_ok_def s' nth_list_update)
  show "if ep_participants ((fs_episodes s ! e)\<lparr>ep_table := t'\<rparr>) = 0
    then slots (ep_table ((fs_episodes s ! e)\<lparr>ep_table := t'\<rparr>)) = {} \<and> reserved (ep_table ((fs_episodes s ! e)\<lparr>ep_table := t'\<rparr>)) = {}
    else mset_set (reserved (ep_table ((fs_episodes s ! e)\<lparr>ep_table := t'\<rparr>))) = claims s' e"
    using cl(2) sl files_invD(4) [OF inv] e by (auto simp: claims_ok_def split: if_splits)
qed (use t' view_slots_step [OF t'(2)] cl own s' files_invD(5) [OF inv] in auto)

lemma reserve_good:
  assumes inv: "files_inv n s" and c: "fs_caps s c = Some e" and ceil: "ceiling \<le> n"
  shows "good n s {e} (map_sum id snd (task_reserve_fd c ceiling s))"
proof -
  note e = capE [OF inv c]
  have ok: "table_ok n (table_at s e)" using files_table [OF inv e(1)] by (simp add: table_in_def)
  show ?thesis
  proof (cases "lowest_free (opened (table_at s e) \<union> reserved (table_at s e)) 0 ceiling")
    case None
    then have "map_sum id snd (task_reserve_fd c ceiling s) = Inr s" using reserve_fd_ok [OF ok ceil] c e
      by (simp add: task_reserve_fd_def on_files_def observer_reserve_fd_def)
    then show ?thesis using inv by (simp add: good_def others_same_def)
  next
    case (Some i)
    then obtain t' where t': "reserve_fd ceiling (table_at s e) = Inr (Inr i, t')" "table_ok n t'" "ft_fds t' = ft_fds (table_at s e)"
      "reserved t' = insert i (reserved (table_at s e))" using reserve_fd_ok [OF ok ceil] by auto
    have i: "i < n" "i \<notin> reserved (table_at s e)" using Some ceil unfolding lowest_free_Some by auto
    let ?s = "s\<lparr>fs_episodes := (fs_episodes s)[e := (fs_episodes s ! e)\<lparr>ep_table := t'\<rparr>],
      fs_reservations := add_mset \<lparr>rv_cap = c, rv_episode = e, rv_fd = i\<rparr> (fs_reservations s)\<rparr>"
    have cl: "claims ?s j = (if e = j then add_mset i (claims s j) else claims s j)" for j by (simp add: claims_reservation)
    have "mset_set (reserved t') = claims ?s e" unfolding cl using claims_live [OF inv e] i(2) finite_reserved by (simp add: t'(4))
    moreover have "set_mset (claims ?s e) \<subseteq> {..< n}" unfolding cl using i(1) files_invD(4) [OF inv] e(1) by (auto simp: claims_ok_def)
    ultimately have "files_inv n ?s \<and> others_same s {e} ?s"
      using e t' cl owners [OF inv] by (intro reserved_good [OF inv e(1), of t']) (auto simp: inflight_def)
    moreover have "map_sum id snd (task_reserve_fd c ceiling s) = Inr ?s"
      using c e t'(1) by (simp add: task_reserve_fd_def on_files_def observer_reserve_fd_def)
    ultimately show ?thesis by (simp add: good_def)
  qed
qed

lemma rollback_good:
  assumes inv: "files_inv n s" and r: "r \<in># fs_reservations s"
  shows "good n s {rv_episode r} (reservation_rollback r s)"
proof -
  let ?e = "rv_episode r" and ?i = "rv_fd r"
  have e: "?e < length (fs_episodes s)" by (rule owners(1) [OF inv r])
  have ok: "table_ok n (table_at s ?e)" using files_table [OF inv e] by (simp add: table_in_def)
  define s0 where "s0 = s\<lparr>fs_reservations := fs_reservations s - {#r#}\<rparr>"
  have cl: "claims s j = (if ?e = j then add_mset ?i (claims s0 j) else claims s0 j)" for j
    by (rule claims_without [OF r]) (simp_all add: s0_def)
  have ci: "set_mset (claims s ?e) \<subseteq> {..< n}" using files_invD(4) [OF inv] e by (simp add: claims_ok_def)
  have i: "?i < n" "?i \<notin> opened (table_at s ?e)"
  proof -
    show "?i < n" using ci cl [of ?e] by auto
    show "?i \<notin> opened (table_at s ?e)"
    proof (cases "ep_participants (fs_episodes s ! ?e) = 0")
      case True
      then show ?thesis using files_invD(4) [OF inv] e no_slots by (fastforce simp: claims_ok_def)
    next
      case False
      then have "?i \<in># mset_set (reserved (table_at s ?e))" using claims_live [OF inv e] cl [of ?e] by simp
      then show ?thesis using finite_reserved table_okD(6) [OF ok] by auto
    qed
  qed
  obtain t' where t': "rollback_reserved_fd ?i (table_at s ?e) = Inr t'" "table_ok n t'" "ft_fds t' = ft_fds (table_at s ?e)"
    "reserved t' = reserved (table_at s ?e) - {?i}" using rollback_reserved_fd_ok [OF ok i] by blast
  let ?s = "s\<lparr>fs_episodes := (fs_episodes s)[?e := (fs_episodes s ! ?e)\<lparr>ep_table := t'\<rparr>], fs_reservations := fs_reservations s - {#r#}\<rparr>"
  have cl': "claims ?s j = claims s0 j" for j by (simp add: claims_def s0_def)
  have "if ep_participants (fs_episodes s ! ?e) = 0 then reserved t' = {} else mset_set (reserved t') = claims ?s ?e"
    using files_invD(4) [OF inv] e claims_live [OF inv e] cl [of ?e] mset_set_sub(3) [OF finite_reserved, of "table_at s ?e" "[?i]" "claims s0 ?e"]
    by (auto simp: claims_ok_def t'(4) cl')
  moreover have "set_mset (claims ?s ?e) \<subseteq> {..< n}" using ci cl [of ?e] cl' by simp
  moreover have "inflight ?s = inflight s" by (simp add: inflight_def)
  moreover have "x \<in># fs_reservations s" if "x \<in># fs_reservations s - {#r#}" for x using that by (rule in_diffD)
  ultimately have "files_inv n ?s \<and> others_same s {?e} ?s"
    using t' cl cl' owners [OF inv] by (intro reserved_good [OF inv e, of t']) auto
  then show ?thesis using t'(1) by (simp add: good_def reservation_rollback_def observer_rollback_reserved_fd_def)
qed

lemma commit_good:
  assumes inv: "files_inv n s" and r: "r \<in># fs_reservations s" and c: "fs_caps s (rv_cap r) = Some (rv_episode r)"
  shows "good n s {rv_episode r} (reservation_commit r flags s)"
proof -
  let ?e = "rv_episode r" and ?i = "rv_fd r" and ?h = "fs_heap s" and ?d = "fh_ndescs (fs_heap s)"
  note e = capE [OF inv c]
  have tin: "table_in n (table_at s ?e) ?h (fs_slots s) (inflight s)" by (rule files_table [OF inv e(1)])
  then have ok: "table_ok n (table_at s ?e)" and hok: "heap_ok ?h (fs_slots s) (inflight s)" and sub: "slots (table_at s ?e) \<subseteq> fs_slots s"
    by (auto simp: table_in_def)
  define s0 where "s0 = s\<lparr>fs_reservations := fs_reservations s - {#r#}\<rparr>"
  have cl: "claims s j = (if ?e = j then add_mset ?i (claims s0 j) else claims s0 j)" for j
    by (rule claims_without [OF r]) (simp_all add: s0_def)
  have m: "mset_set (reserved (table_at s ?e)) = mset [?i] + claims s0 ?e" using claims_live [OF inv e] cl [of ?e] by simp
  note ms = mset_set_sub [OF finite_reserved m]
  obtain h2 where h2: "new_opened flags ?h = (?d, h2)" by (simp add: new_opened_def proc_file_new_def new_unpublished_def desc_new_def)
  obtain h' where h': "publish_to_fd_table ?d h2 = Inr h'" "heap_ok h' (insert ?d (fs_slots s)) (inflight s)" "keeps ?h h'"
    using publish_opened [OF hok, of flags] by (auto simp: h2)
  have dn: "?d \<notin> slots (table_at s ?e)" using table_in_slots [OF tin] by auto
  obtain t' where t': "commit_reserved_fd ?i ?d (table_at s ?e) h2 = Inr (t', h')" "table_ok n t'" "ft_fds t' = (ft_fds (table_at s ?e))[?i := Some ?d]"
    "reserved t' = reserved (table_at s ?e) - {?i}" using commit_reserved_fd_ok [OF ok _ dn h'(1)] ms(2) by auto
  have i: "?i < length (ft_fds (table_at s ?e))" "?i \<notin> opened (table_at s ?e)" using ms(2) table_okD(1,6,8) [OF ok] by auto
  have sl: "slots t' = insert ?d (slots (table_at s ?e))" by (rule slots_fill [OF i t'(3)])
  let ?s = "s\<lparr>fs_episodes := (fs_episodes s)[?e := (fs_episodes s ! ?e)\<lparr>ep_table := t'\<rparr>], fs_heap := h', fs_reservations := fs_reservations s - {#r#}\<rparr>"
  have cl': "claims ?s j = claims s0 j" for j by (simp add: claims_def s0_def)
  have infl: "inflight ?s = inflight s" using pending_keeps [OF h'(3), of "fs_pending s"] files_invD(5) [OF inv] by (simp add: inflight_def)
  have D: "fs_slots s - slots (table_at s ?e) \<union> slots t' = insert ?d (fs_slots s)" using sl sub by auto
  have own: "x \<in># fs_reservations s" if "x \<in># fs_reservations s - {#r#}" for x using that by (rule in_diffD)
  have "files_inv n ?s \<and> others_same s {?e} ?s"
  proof (rule replace_good [OF inv e(1), of "(fs_episodes s ! ?e)\<lparr>ep_table := t'\<rparr>"])
    fix d
    assume "d \<in> fs_slots s - slots (table_at s ?e)"
    then show "fd_key (fs_heap ?s) d = fd_key ?h d" using keepsD [OF h'(3)] files_invD(6) [OF inv] by auto
  next
    fix b
    assume "b \<in># fs_pending ?s"
    then show "snd b < fh_ndescs (fs_heap ?s)" using files_invD(5) [OF inv, of b] h'(3) by (simp add: keeps_def)
  qed (use e t' h' infl D sl cl cl' ms(3) own owners [OF inv] in auto)
  then show ?thesis using t'(1) e by (simp add: good_def reservation_commit_def h2 observer_commit_reserved_fd_def)
qed

lemma prepare_good:
  assumes inv: "files_inv n s" and c: "fs_caps s c = Some e" and b: "mset bundle \<subseteq># fs_transfers s" and ceil: "ceiling \<le> n"
  shows "good n s {e} (map_sum id snd (task_prepare_install c bundle maximum ceiling flags s))"
proof -
  note e = capE [OF inv c]
  have ok: "table_ok n (table_at s e)" using files_table [OF inv e(1)] by (simp add: table_in_def)
  obtain fds t' where t': "reserve_each ceiling [] (min maximum (length bundle)) (table_at s e) = Inr (Inr ([] @ fds), t')" "table_ok n t'"
    "ft_fds t' = ft_fds (table_at s e)" "mset_set (reserved t') = mset_set (reserved (table_at s e)) + mset fds" "length fds \<le> min maximum (length bundle)"
    using reserve_each_ok [OF ok ceil, of "[]" "min maximum (length bundle)"] by blast
  let ?pl = "\<lparr>pl_cap = c, pl_episode = e, pl_fds = fds, pl_bundle = bundle, pl_flags = flags\<rparr>"
  let ?s = "s\<lparr>fs_episodes := (fs_episodes s)[e := (fs_episodes s ! e)\<lparr>ep_table := t'\<rparr>], fs_transfers := fs_transfers s - mset bundle, fs_plans := add_mset ?pl (fs_plans s)\<rparr>"
  have cl: "claims ?s j = (if e = j then mset fds + claims s j else claims s j)" for j using claims_plan [of ?s ?pl s j] by simp
  have infl: "inflight ?s = inflight s"
  proof -
    have "fs_transfers s - mset bundle + mset bundle = fs_transfers s" using b by (rule subset_mset.diff_add)
    then have "fs_transfers s - mset bundle + (mset bundle + (\<Sum>pl \<in># fs_plans s. mset (pl_bundle pl))) = fs_transfers s + (\<Sum>pl \<in># fs_plans s. mset (pl_bundle pl))"
      by (metis add.assoc)
    then show ?thesis by (simp add: inflight_def)
  qed
  have m: "mset_set (reserved t') = claims ?s e" unfolding cl using t'(4) claims_live [OF inv e] by simp
  have "set_mset (claims ?s e) \<subseteq> {..< n}" using table_okD(8) [OF t'(2)] finite_reserved [of t'] unfolding m [symmetric] by simp
  then have "files_inv n ?s \<and> others_same s {e} ?s"
    using e t' m infl cl owners [OF inv] by (intro reserved_good [OF inv e(1), of t']) auto
  moreover have "map_sum id snd (task_prepare_install c bundle maximum ceiling flags s) = Inr ?s"
    using c e t'(1) by (simp add: task_prepare_install_def on_files_def observer_reserve_fds_up_to_def)
  ultimately show ?thesis by (simp add: good_def)
qed

lemma inflight_without_plan:
  assumes "pl \<in># fs_plans s"
  shows "inflight s = mset (pl_bundle pl) + (fs_transfers s + (\<Sum>pl \<in># fs_plans s - {#pl#}. mset (pl_bundle pl)) +
    image_mset (\<lambda>b. fd_pfile (fh_descs (fs_heap s) (snd b))) (fs_pending s))"
proof -
  have "(\<Sum>pl \<in># fs_plans s. mset (pl_bundle pl)) = mset (pl_bundle pl) + (\<Sum>pl \<in># fs_plans s - {#pl#}. mset (pl_bundle pl))"
    using insert_DiffM [OF assms] by (metis image_mset_add_mset sum_mset.insert)
  then show ?thesis by (simp add: inflight_def add.assoc add.left_commute)
qed

lemma plan_rollback_good:
  assumes inv: "files_inv n s" and pl: "pl \<in># fs_plans s"
  shows "good n s {pl_episode pl} (plan_rollback pl s)"
proof -
  let ?e = "pl_episode pl" and ?fds = "pl_fds pl"
  have e: "?e < length (fs_episodes s)" using owners(2) [OF inv pl] by simp
  have ok: "table_ok n (table_at s ?e)" using files_table [OF inv e] by (simp add: table_in_def)
  define s0 where "s0 = s\<lparr>fs_plans := fs_plans s - {#pl#}\<rparr>"
  have cl: "claims s j = (if ?e = j then mset ?fds + claims s0 j else claims s0 j)" for j
    by (rule claims_without_plan [OF pl]) (simp_all add: s0_def)
  have ci: "set_mset (claims s ?e) \<subseteq> {..< n}" using files_invD(4) [OF inv] e by (simp add: claims_ok_def)
  have fds: "set ?fds \<subseteq> {..< n}" "set ?fds \<inter> opened (table_at s ?e) = {}"
  proof -
    show "set ?fds \<subseteq> {..< n}" using ci cl [of ?e] by auto
    show "set ?fds \<inter> opened (table_at s ?e) = {}"
    proof (cases "ep_participants (fs_episodes s ! ?e) = 0")
      case True
      then show ?thesis using files_invD(4) [OF inv] e no_slots by (fastforce simp: claims_ok_def)
    next
      case False
      then have "mset_set (reserved (table_at s ?e)) = mset ?fds + claims s0 ?e" using claims_live [OF inv e] cl [of ?e] by simp
      then show ?thesis using mset_set_sub(2) [OF finite_reserved] table_okD(6) [OF ok] by blast
    qed
  qed
  obtain t' where t': "rollback_reserved_fds ?fds (table_at s ?e) = Inr t'" "table_ok n t'" "ft_fds t' = ft_fds (table_at s ?e)"
    "reserved t' = reserved (table_at s ?e) - set ?fds" using rollback_reserved_fds_ok [OF ok fds] by blast
  let ?s = "s\<lparr>fs_episodes := (fs_episodes s)[?e := (fs_episodes s ! ?e)\<lparr>ep_table := t'\<rparr>], fs_plans := fs_plans s - {#pl#},
    fs_transfers := fs_transfers s + mset (pl_bundle pl)\<rparr>"
  have cl': "claims ?s j = claims s0 j" for j by (simp add: claims_def s0_def)
  have "if ep_participants (fs_episodes s ! ?e) = 0 then reserved t' = {} else mset_set (reserved t') = claims ?s ?e"
    using files_invD(4) [OF inv] e claims_live [OF inv e] cl [of ?e] mset_set_sub(3) [OF finite_reserved, of "table_at s ?e" ?fds "claims s0 ?e"]
    by (auto simp: claims_ok_def t'(4) cl')
  moreover have "set_mset (claims ?s ?e) \<subseteq> {..< n}" using ci cl [of ?e] cl' by simp
  moreover have "inflight ?s = inflight s" unfolding inflight_without_plan [OF pl] by (simp add: inflight_def add.assoc add.left_commute)
  moreover have "x \<in># fs_plans s" if "x \<in># fs_plans s - {#pl#}" for x using that by (rule in_diffD)
  ultimately have "files_inv n ?s \<and> others_same s {?e} ?s"
    using t' cl cl' owners [OF inv] by (intro reserved_good [OF inv e, of t']) auto
  then show ?thesis using t'(1) by (simp add: good_def plan_rollback_def observer_rollback_reserved_fds_def)
qed

lemma plan_commit_ok:
  assumes inv: "files_inv n s" and pl: "pl \<in># fs_plans s" and c: "fs_caps s (pl_cap pl) = Some (pl_episode pl)"
  shows "\<exists>s'. plan_commit pl s = Inr s' \<and> files_inv n s' \<and> others_same s {pl_episode pl} s' \<and>
    fs_view s' (pl_episode pl) = (fs_view s (pl_episode pl))(pl_fds pl [\<mapsto>] map (\<lambda>p. (p, pl_flags pl)) (take (length (pl_fds pl)) (pl_bundle pl))) \<and>
    fs_transfers s' = fs_transfers s + mset (drop (length (pl_fds pl)) (pl_bundle pl)) \<and> fh_released (fs_heap s') = fh_released (fs_heap s)"
proof -
  let ?e = "pl_episode pl" and ?fds = "pl_fds pl" and ?h = "fs_heap s" and ?D = "fs_slots s" and ?t = "table_at s (pl_episode pl)"
  let ?ps = "take (length (pl_fds pl)) (pl_bundle pl)" and ?rest = "drop (length (pl_fds pl)) (pl_bundle pl)"
  note e = capE [OF inv c]
  have tin: "table_in n ?t ?h ?D (inflight s)" by (rule files_table [OF inv e(1)])
  then have ok: "table_ok n ?t" and hok: "heap_ok ?h ?D (inflight s)" and sub: "slots ?t \<subseteq> ?D" by (auto simp: table_in_def)
  define s0 where "s0 = s\<lparr>fs_plans := fs_plans s - {#pl#}\<rparr>"
  have cl: "claims s j = (if ?e = j then mset ?fds + claims s0 j else claims s0 j)" for j
    by (rule claims_without_plan [OF pl]) (simp_all add: s0_def)
  have m: "mset_set (reserved ?t) = mset ?fds + claims s0 ?e" using claims_live [OF inv e] cl [of ?e] by simp
  note ms = mset_set_sub [OF finite_reserved m]
  obtain es h1 where p: "prepare_entries ?fds (pl_bundle pl) (pl_flags pl) ?h = Inr (es, ?rest, h1)" "map fst es = ?fds"
    "map snd es = [fh_ndescs ?h ..< fh_ndescs h1]" "list_all2 (prepared h1 (pl_flags pl)) es ?ps" "heap_ok h1 ?D (inflight s)" "keeps ?h h1"
    "fh_released h1 = fh_released ?h"
    using prepare_entries_ok [OF hok, of ?fds "pl_bundle pl" "pl_flags pl"] owners(2) [OF inv pl] by blast
  have sets: "fst ` set es = set ?fds" "snd ` set es = {fh_ndescs ?h ..< fh_ndescs h1}" using p(2,3) by (metis list.set_map, metis list.set_map set_upt)
  have "mset ?ps + mset ?rest = mset (pl_bundle pl)" by (metis append_take_drop_id mset_append)
  then have infl0: "inflight s = mset ?ps + (mset ?rest + (fs_transfers s + (\<Sum>pl \<in># fs_plans s - {#pl#}. mset (pl_bundle pl)) +
    image_mset (\<lambda>b. fd_pfile (fh_descs ?h (snd b))) (fs_pending s)))" using inflight_without_plan [OF pl] by (metis add.assoc)
  have "snd ` set es \<inter> ?D = {}" unfolding sets(2) using heap_okD(2) [OF hok] by fastforce
  moreover have "mset ?ps \<subseteq># inflight s" unfolding infl0 by simp
  moreover have "distinct (map fst es)" "fst ` set es \<subseteq> reserved ?t" "distinct (map snd es)" using ms p(2,3) sets by simp_all
  ultimately obtain t' h' where t': "commit_reserved_fds es ?t h1 = Inr (t', h')" "table_ok n t'" "heap_ok h' (?D \<union> snd ` set es) (inflight s - mset ?ps)"
    "slots t' = slots ?t \<union> snd ` set es" "keeps h1 h'" "fh_released h' = fh_released h1" "reserved t' = reserved ?t - fst ` set es"
    "view t' h' = (view ?t h1)(map fst es [\<mapsto>] map (\<lambda>p. (p, pl_flags pl)) ?ps)"
    using commit_reserved_fds_ok [OF ok p(5) sub, of es "pl_flags pl" ?ps] p(4) by blast
  have k: "keeps ?h h'" by (rule keeps_trans [OF p(6) t'(5)])
  let ?s = "s\<lparr>fs_episodes := (fs_episodes s)[?e := (fs_episodes s ! ?e)\<lparr>ep_table := t'\<rparr>], fs_heap := h', fs_plans := fs_plans s - {#pl#},
    fs_transfers := fs_transfers s + mset ?rest\<rparr>"
  have cl': "claims ?s j = claims s0 j" for j by (simp add: claims_def s0_def)
  have infl: "inflight ?s = inflight s - mset ?ps" unfolding infl0
    using pending_keeps [OF k, of "fs_pending s"] files_invD(5) [OF inv] by (simp add: inflight_def add.assoc add.left_commute)
  have D: "?D - slots ?t \<union> slots t' = ?D \<union> snd ` set es" using t'(4) sub by auto
  have own: "x \<in># fs_plans s" if "x \<in># fs_plans s - {#pl#}" for x using that by (rule in_diffD)
  have "files_inv n ?s \<and> others_same s {?e} ?s"
  proof (rule replace_good [OF inv e(1), of "(fs_episodes s ! ?e)\<lparr>ep_table := t'\<rparr>"])
    fix d
    assume "d \<in> ?D - slots ?t"
    then show "fd_key (fs_heap ?s) d = fd_key ?h d" using keepsD [OF k] files_invD(6) [OF inv] by auto
  next
    fix b
    assume "b \<in># fs_pending ?s"
    then show "snd b < fh_ndescs (fs_heap ?s)" using files_invD(5) [OF inv, of b] k by (simp add: keeps_def)
  qed (use e t' infl D sets cl cl' ms(3) own owners [OF inv] in auto)
  moreover have "plan_commit pl s = Inr ?s" using p(1) t'(1) e by (simp add: plan_commit_def observer_commit_reserved_fds_def)
  moreover have "view ?t h1 = view ?t ?h" by (rule view_keeps [OF p(6) table_in_slots [OF tin]])
  ultimately show ?thesis using t'(6,8) p(2,7) e(1) by (intro exI [of _ ?s]) (simp add: fs_view_def)
qed

subsection \<open>Runs\<close>

text \<open>The episodes whose table a step may change.\<close>

definition files_scope :: "files_system \<Rightarrow> files_op \<Rightarrow> nat set" where
  "files_scope s op =
     (case op of
        Detach c \<Rightarrow> set_option (fs_caps s c)
      | Open_Fd c _ _ \<Rightarrow> set_option (fs_caps s c)
      | Close_Fd c _ \<Rightarrow> set_option (fs_caps s c)
      | Dup c _ _ \<Rightarrow> set_option (fs_caps s c)
      | Dup_Ge c _ _ _ _ \<Rightarrow> set_option (fs_caps s c)
      | Dup3 c _ _ _ _ \<Rightarrow> set_option (fs_caps s c)
      | Close_Cloexec c \<Rightarrow> set_option (fs_caps s c)
      | Close_Range c _ _ \<Rightarrow> set_option (fs_caps s c)
      | Cloexec_Range c _ _ \<Rightarrow> set_option (fs_caps s c)
      | Reserve c _ \<Rightarrow> set_option (fs_caps s c)
      | Commit r _ \<Rightarrow> {rv_episode r}
      | Rollback r \<Rightarrow> {rv_episode r}
      | Prepare c _ _ _ _ \<Rightarrow> set_option (fs_caps s c)
      | Plan_Commit pl \<Rightarrow> {pl_episode pl}
      | Plan_Rollback pl \<Rightarrow> {pl_episode pl}
      | _ \<Rightarrow> {})"

lemma has_capE: "has_cap s c \<Longrightarrow> (\<And>e. fs_caps s c = Some e \<Longrightarrow> P) \<Longrightarrow> P"
  by (auto simp: has_cap_def)

lemma files_step_good:
  assumes inv: "files_inv n s" and n: "64 dvd n" "n < 2 ^ 31" and en: "files_enabled n op s" and r: "files_room n op s"
  shows "good n s (files_scope s op) (files_run n op s)"
proof -
  note tab = files_table [OF inv capE(1) [OF inv]]
  have r': "room (fs_heap s) (fs_slots s) (inflight s) (files_refs n op)" "card (dom (fs_caps s)) + 1 < u64_limit" using r by (auto simp: files_room_def)
  show ?thesis
  proof (cases op)
    case (New_Empty c)
    then show ?thesis using new_empty_good [OF inv n] en by (simp add: files_scope_def)
  next
    case (Attach c c')
    then show ?thesis using attach_good [OF inv] en r'(2) by (auto simp: files_scope_def elim: has_capE)
  next
    case (Fork c c')
    then show ?thesis using fork_good [OF inv] en r'(1) by (auto simp: files_scope_def files_refs_def elim: has_capE)
  next
    case (Split c)
    then show ?thesis using split_good [OF inv] en r'(1) by (auto simp: files_scope_def files_refs_def elim: has_capE)
  next
    case (Detach c)
    then show ?thesis using detach_good [OF inv] en by (auto simp: files_scope_def elim: has_capE)
  next
    case (Open_Fd c ceiling flags)
    then obtain e where e: "fs_caps s c = Some e" "ceiling \<le> n" using en by (auto elim: has_capE)
    from implemented_good(2) [where f = "open_fd ceiling flags", OF inv e(1) open_fd_implements [OF tab [OF e(1)] e(2)]] Open_Fd e show ?thesis
      by (simp add: files_scope_def task_open_fd_def)
  next
    case (Close_Fd c fd)
    then obtain e where e: "fs_caps s c = Some e" using en by (auto elim: has_capE)
    from implemented_good(1) [where f = "close_fd fd", OF inv e close_fd_implements [OF tab [OF e]]] Close_Fd e show ?thesis
      by (simp add: files_scope_def task_close_fd_def)
  next
    case (Dup c old_fd ceiling)
    then obtain e where e: "fs_caps s c = Some e" "ceiling \<le> n" using en by (auto elim: has_capE)
    from implemented_good(2) [where f = "dup old_fd ceiling", OF inv e(1) dup_implements [OF tab [OF e(1)] e(2)]] Dup e r'(1) show ?thesis
      by (simp add: files_scope_def task_dup_def files_refs_def)
  next
    case (Dup_Ge c old_fd m cloexec ceiling)
    then obtain e where e: "fs_caps s c = Some e" "ceiling \<le> n" using en by (auto elim: has_capE)
    from implemented_good(2) [where f = "dup_ge_than old_fd m cloexec ceiling", OF inv e(1) dup_ge_than_implements [OF tab [OF e(1)] e(2)]] Dup_Ge e r'(1) show ?thesis
      by (simp add: files_scope_def task_dup_ge_than_def files_refs_def)
  next
    case (Dup3 c old_fd new_fd flags ceiling)
    then obtain e where e: "fs_caps s c = Some e" "ceiling \<le> n" using en by (auto elim: has_capE)
    from implemented_good(1) [where f = "dup3 old_fd new_fd flags ceiling", OF inv e(1) dup3_implements [OF tab [OF e(1)] e(2)]] Dup3 e r'(1) show ?thesis
      by (simp add: files_scope_def task_dup3_def files_refs_def)
  next
    case (Close_Cloexec c)
    then obtain e where e: "fs_caps s c = Some e" using en by (auto elim: has_capE)
    from closes_good [where f = close_on_exec, OF inv e close_on_exec_ok [OF tab [OF e]]] Close_Cloexec e show ?thesis
      by (simp add: files_scope_def task_close_cloexec_fds_def)
  next
    case (Close_Range c a b)
    then obtain e where e: "fs_caps s c = Some e" using en by (auto elim: has_capE)
    from closes_good [where f = "close_range a b", OF inv e close_range_ok [OF tab [OF e]]] Close_Range e show ?thesis
      by (simp add: files_scope_def task_close_range_def)
  next
    case (Cloexec_Range c a b)
    then show ?thesis using cloexec_range_good [OF inv] en by (auto simp: files_scope_def elim: has_capE)
  next
    case (Reserve c ceiling)
    then show ?thesis using reserve_good [OF inv] en by (auto simp: files_scope_def elim: has_capE)
  next
    case (Capture c fds)
    then show ?thesis using capture_good [OF inv] en r'(1) by (auto simp: files_scope_def files_refs_def elim: has_capE)
  next
    case (Duplicate ps)
    then show ?thesis using duplicate_good [OF inv] en r'(1) by (simp add: files_scope_def files_refs_def)
  next
    case (Prepare c ps maximum ceiling flags)
    then show ?thesis using prepare_good [OF inv] en by (auto simp: files_scope_def elim: has_capE)
  next
    case (Plan_Commit pl)
    then show ?thesis using plan_commit_ok [OF inv] en by (auto simp: files_scope_def good_def)
  qed (use commit_good [OF inv] rollback_good [OF inv] drop_transfer_good [OF inv] plan_rollback_good [OF inv] finish_good [OF inv] en
    in \<open>auto simp: files_scope_def\<close>)
qed

inductive files_reachable :: "nat \<Rightarrow> files_system \<Rightarrow> bool" for n where
  init: "files_reachable n files_init"
| step: "files_reachable n s \<Longrightarrow> files_enabled n op s \<Longrightarrow> files_room n op s \<Longrightarrow> files_run n op s = Inr s' \<Longrightarrow> files_reachable n s'"

lemma files_init_inv: "files_inv n files_init"
  using empty_heap_ok by (simp add: files_inv_def files_init_def all_slots_def inflight_def tables_ok_def caps_ok_def claims_ok_def claims_def)

lemma files_reachable_inv:
  assumes "files_reachable n s" "64 dvd n" "n < 2 ^ 31"
  shows "files_inv n s"
  using assms(1)
proof (induction rule: files_reachable.induct)
  case init
  then show ?case by (rule files_init_inv)
next
  case (step s op s')
  from files_step_good [OF step.IH assms(2,3) step.hyps(2,3)] step.hyps(4) show ?case by (simp add: good_def)
qed

end
