(* ===== verification/Files_Safe.thy ===== *)
theory Files_Safe
  imports Files_System
begin

text \<open>
  What holds in every run of the system of descriptor tables: no step panics, tables do not
  influence each other, and the counters of the opened files are exact.
\<close>

subsection \<open>References\<close>

text \<open>The numbers, in all tables, that refer to a file.\<close>

definition slot_refs :: "files_system \<Rightarrow> nat \<Rightarrow> (nat \<times> nat) set" where
  "slot_refs s p = {(e, i). e < length (fs_episodes s) \<and> (\<exists>flags. fs_view s e i = Some (p, flags))}"

lemma slot_refs_card:
  assumes inv: "files_inv n s"
  shows "card (slot_refs s p) = card {d \<in> fs_slots s. fd_pfile (fh_descs (fs_heap s) d) = p}"
proof -
  let ?d = "\<lambda>(e, i). the (ft_fds (table_at s e) ! i)"
  have ok: "table_ok n (table_at s e)" if "e < length (fs_episodes s)" for e using files_invD(2) [OF inv] that by (simp add: tables_ok_def)
  have entry: "(e, i) \<in> slot_refs s p \<longleftrightarrow> e < length (fs_episodes s) \<and> (\<exists>d. i < n \<and> ft_fds (table_at s e) ! i = Some d \<and> fd_pfile (fh_descs (fs_heap s) d) = p)" for e i
  proof (cases "e < length (fs_episodes s)")
    case True
    then show ?thesis using view_slot [OF ok [OF True], of "fs_heap s" i]
      by (cases "i < n"; cases "ft_fds (table_at s e) ! i") (simp_all add: slot_refs_def fs_view_def fd_key_def)
  qed (simp add: slot_refs_def)
  have len: "length (ft_fds (table_at s e)) = n" if "e < length (fs_episodes s)" for e by (rule table_okD(1) [OF ok [OF that]])
  have "bij_betw ?d (slot_refs s p) {d \<in> fs_slots s. fd_pfile (fh_descs (fs_heap s) d) = p}"
  proof (rule bij_betwI')
    fix x y
    assume x: "x \<in> slot_refs s p" and y: "y \<in> slot_refs s p"
    obtain e i e' i' where xy: "x = (e, i)" "y = (e', i')" by (cases x, cases y)
    show "?d x = ?d y \<longleftrightarrow> x = y"
    proof
      assume eq: "?d x = ?d y"
      from x obtain d where d: "e < length (fs_episodes s)" "i < n" "ft_fds (table_at s e) ! i = Some d" unfolding xy entry by blast
      from y obtain d' where d': "e' < length (fs_episodes s)" "i' < n" "ft_fds (table_at s e') ! i' = Some d'" unfolding xy entry by blast
      have "d' = d" using eq d(3) d'(3) by (simp add: xy)
      have "d \<in> slots (table_at s e)" "d \<in> slots (table_at s e')" using d d' len \<open>d' = d\<close> unfolding slots_iff by metis+
      then have "e = e'" using files_invD(2) [OF inv] d(1) d'(1) unfolding tables_ok_def by blast
      then show "x = y" using table_ok_inj [OF ok [OF d(1)] d(2) _ d(3), of i'] d' \<open>d' = d\<close> xy by simp
    qed simp
  next
    fix x
    assume x: "x \<in> slot_refs s p"
    obtain e i where xy: "x = (e, i)" by (cases x)
    with x obtain d where "e < length (fs_episodes s)" "i < n" "ft_fds (table_at s e) ! i = Some d" "fd_pfile (fh_descs (fs_heap s) d) = p" by (auto simp: entry)
    moreover from this have "d \<in> fs_slots s" using len unfolding all_slots_iff slots_iff by metis
    ultimately show "?d x \<in> {d \<in> fs_slots s. fd_pfile (fh_descs (fs_heap s) d) = p}" by (simp add: xy)
  next
    fix d
    assume "d \<in> {d \<in> fs_slots s. fd_pfile (fh_descs (fs_heap s) d) = p}"
    then obtain e i where "e < length (fs_episodes s)" "i < n" "ft_fds (table_at s e) ! i = Some d" "fd_pfile (fh_descs (fs_heap s) d) = p"
      using len unfolding all_slots_iff slots_iff mem_Collect_eq by metis
    then show "\<exists>x \<in> slot_refs s p. d = ?d x" by (intro bexI [of _ "(e, i)"]) (auto simp: entry)
  qed
  then show ?thesis by (rule bij_betw_same_card)
qed

lemma count_refs:
  assumes inv: "files_inv n s"
  shows "count (refs_of (fs_heap s) (fs_slots s) (inflight s)) p = card (slot_refs s p) + count (inflight s) p"
proof -
  let ?f = "\<lambda>d. fd_pfile (fh_descs (fs_heap s) d)"
  have fin: "finite (fs_slots s)" by (rule heap_okD(1) [OF files_invD(1) [OF inv]])
  have "count (image_mset ?f (mset_set (fs_slots s))) p = sum (count (mset_set (fs_slots s))) (?f -` {p} \<inter> fs_slots s)"
    using fin by (simp add: count_image_mset)
  also have "\<dots> = card (?f -` {p} \<inter> fs_slots s)" using fin by (simp add: sum.If_cases)
  also have "?f -` {p} \<inter> fs_slots s = {d \<in> fs_slots s. ?f d = p}" by auto
  finally show ?thesis by (simp add: refs_of_def slot_refs_card [OF inv])
qed

lemma distinct_count_list: "distinct xs \<Longrightarrow> count_list xs x = (if x \<in> set xs then 1 else 0)"
  by (induction xs) auto

text \<open>A task with a table of its own, in which one file is open.\<close>

definition one_task :: files_system where
  "one_task = files_init\<lparr>fs_episodes := [episode_new (table_new 64)], fs_caps := [0 \<mapsto> 0]\<rparr>"

lemma one_task_reachable: "files_reachable 64 one_task"
proof (rule files_reachable.step [OF files_reachable.init, where op = "New_Empty 0"])
  show "files_run 64 (New_Empty 0) files_init = Inr one_task" by (simp add: task_new_empty_def one_task_def files_init_def)
qed (simp_all add: has_cap_def files_init_def files_room_def files_refs_def all_slots_def inflight_def refs_of_def RETIRED_DESCRIPTION_REFS_def u64_max_def)

lemma one_task_open: "files_enabled 64 (Open_Fd 0 64 {CLOSE_ON_EXEC}) one_task" "files_room 64 (Open_Fd 0 64 {CLOSE_ON_EXEC}) one_task"
  using table_new_ok(2) [of 64]
  by (simp_all add: has_cap_def one_task_def files_init_def files_room_def files_refs_def all_slots_def inflight_def refs_of_def episode_new_def
    RETIRED_DESCRIPTION_REFS_def u64_max_def)

lemma one_file:
  "\<exists>s. files_run 64 (Open_Fd 0 64 {CLOSE_ON_EXEC}) one_task = Inr s \<and> length (fs_episodes s) = 1 \<and> fs_view s 0 = [0 \<mapsto> (0, {CLOSE_ON_EXEC})] \<and> inflight s = {#}"
proof -
  let ?t = "table_new 64"
  note new = table_new_ok [of 64, simplified]
  have tin: "table_in 64 ?t empty_heap {} {#}" using new empty_heap_ok by (simp add: table_in_def)
  have "lowest_free {} 0 64 = Some 0" by (simp add: lowest_free_Some)
  then obtain t h where t: "open_fd 64 {CLOSE_ON_EXEC} ?t empty_heap = Inr (Inr 0, t, h)" "view t h = [0 \<mapsto> (0, {CLOSE_ON_EXEC})]"
    using open_fd_implements [OF tin, of 64 "{CLOSE_ON_EXEC}"] new
    by (auto simp: implements_def spec_open_def install_at_def empty_heap_def)
  then show ?thesis
    by (simp add: task_open_fd_def on_files_def with_table_mut_def one_task_def files_init_def episode_new_def fs_view_def inflight_def)
qed

text \<open>C4: Under every interleaving of the critical sections of tasks that share, fork, split and
  leave descriptor tables, open, duplicate and close numbers, reserve and commit them, pass files
  to each other and install them, no assertion fails and no index is out of bounds. A step changes
  the meaning of the table it works on only: numbers, files, flags and reservations of all other
  tables stay as they are. In particular what a child does after a fork is invisible to its
  parent.\<close>

theorem files_safe:
  assumes "files_reachable n s" "64 dvd n" "n < 2 ^ 31" "files_enabled n op s" "files_room n op s"
  shows "\<exists>s'. files_run n op s = Inr s' \<and> files_reachable n s' \<and> others_same s (files_scope s op) s'"
  using files_step_good [OF files_reachable_inv [OF assms(1-3)] assms(2-5)] files_reachable.step [OF assms(1,4,5)]
  by (auto simp: good_def)

theorem files_safe_witness:
  "\<exists>s. files_run 64 (Open_Fd 0 64 {CLOSE_ON_EXEC}) one_task = Inr s \<and> files_reachable 64 s"
  using files_safe [OF one_task_reachable _ _ one_task_open] by auto

text \<open>C5: The counter of an opened file is exact in every reachable state. It is the number of the
  table entries that refer to the file plus the references on their way, which are transfers,
  bundles of install plans, and entries that were removed and not yet released. When nothing
  refers to the file the counter is retired, and the file was handed to its final release exactly
  once; before, it never was.\<close>

theorem files_refs_exact:
  assumes "files_reachable n s" "64 dvd n" "n < 2 ^ 31" "p < fh_nfiles (fs_heap s)"
  shows "let k = card (slot_refs s p) + count (inflight s) p in
    fh_refs (fs_heap s) p = (if k = 0 then RETIRED_DESCRIPTION_REFS else k) \<and>
    count_list (fh_released (fs_heap s)) p = (if k = 0 then 1 else 0)"
proof -
  have inv: "files_inv n s" by (rule files_reachable_inv [OF assms(1-3)])
  have hok: "heap_ok (fs_heap s) (fs_slots s) (inflight s)" by (rule files_invD(1) [OF inv])
  have "fh_refs (fs_heap s) p = word_of (card (slot_refs s p) + count (inflight s) p)"
    using heap_okD(6) [OF hok assms(4)] by (simp add: count_refs [OF inv])
  moreover have "p \<in> set (fh_released (fs_heap s)) \<longleftrightarrow> card (slot_refs s p) + count (inflight s) p = 0"
    using heap_okD(8) [OF hok] assms(4) count_refs [OF inv, of p] by (simp add: not_in_iff del: add_is_0)
  moreover have "count_list (fh_released (fs_heap s)) p = (if p \<in> set (fh_released (fs_heap s)) then 1 else 0)"
    using heap_okD(7) [OF hok] by (simp add: distinct_count_list)
  ultimately show ?thesis by (simp add: word_of_def Let_def del: add_is_0)
qed

theorem files_refs_exact_witness:
  "\<exists>s. files_reachable 64 s \<and> fs_view s 0 = [0 \<mapsto> (0, {CLOSE_ON_EXEC})] \<and> fh_refs (fs_heap s) 0 = 1 \<and> count_list (fh_released (fs_heap s)) 0 = 0"
proof -
  obtain s where s: "files_run 64 (Open_Fd 0 64 {CLOSE_ON_EXEC}) one_task = Inr s" "length (fs_episodes s) = 1"
    "fs_view s 0 = [0 \<mapsto> (0, {CLOSE_ON_EXEC})]" "inflight s = {#}" using one_file by blast
  have r: "files_reachable 64 s" by (rule files_reachable.step [OF one_task_reachable one_task_open s(1)])
  have inv: "files_inv 64 s" using files_reachable_inv [OF r] by simp
  have "slot_refs s 0 = {(0, 0)}" using s(2,3) by (auto simp: slot_refs_def split: if_splits)
  then have k: "card (slot_refs s 0) + count (inflight s) 0 = 1" using s(4) by simp
  then have "0 \<in># refs_of (fs_heap s) (fs_slots s) (inflight s)" using count_refs [OF inv, of 0] by (metis not_in_iff zero_neq_one)
  then have "0 < fh_nfiles (fs_heap s)" using heap_okD(4) [OF files_invD(1) [OF inv]] by auto
  then have "fh_refs (fs_heap s) 0 = 1 \<and> count_list (fh_released (fs_heap s)) 0 = 0" using files_refs_exact [OF r, of 0] unfolding k by simp
  with r s(3) show ?thesis by blast
qed

end
