(* ===== verification/Spec2Isabelle.thy ===== *)
theory Spec2Isabelle
  imports Pipe_System Syscall Posix_Lock Flock Wait_System Event Io_Remap Id_Alloc Frame_Buddy Memmap Files_Safe
begin

text \<open>
  A verification development of the Anemone kernel, a Unix-like kernel in Rust for RISC-V
  and LoongArch. Paths below are under \<open>src/anemone-kernel\<close>; \<open>crates/\<close> holds its library
  crates, everything else is in its \<open>src/\<close>.

  \<^bold>\<open>How the code is represented.\<close> A struct is a record, an enum a datatype, a method a
  function from the state before to the result and the state after, with the guards and
  early returns of the code. \<open>usize\<close> and \<open>u64\<close> are natural numbers with the limit \<open>2^64\<close>
  written out wherever an operation may reach it. A panic, a failed assertion (debug
  assertions and overflow checks included), an index out of bounds and a read of memory
  that was never initialised are values of the type \<open>fault\<close> (theory \<open>Sys_Error\<close>) on the
  left of a sum; the errors that the code itself returns are values on the right. Locks are
  not modelled as objects: one definition is one critical section, and code that drops and
  retakes a lock is several definitions. The interleavings of the critical sections are
  inductive step relations whose state carries the operations in progress, so the theorems
  about them hold for every number of CPUs and tasks and for every schedule.

  \<^bold>\<open>The parts and where they are.\<close>

  \<^item> Streams. \<open>Ring_Buffer\<close>: the two ring buffers of \<open>utils/ring_buffer.rs\<close>, down to the
    uninitialised slots and the wrapped copies. The locale \<open>fifo_ring\<close> is what a client
    relies on; both buffers interpret it, and the stream theorems are proved in it once.
    \<open>Pipe\<close>: pipes and named FIFOs (\<open>fs/pipe\<close>) over the heap ring buffer, with participation,
    poll routes (\<open>Poll\<close>, from \<open>fs/iomux/mod.rs\<close>), resizing and reads that copy to user memory
    without the lock. \<open>Pipe_System\<close>: all of it interleaved; the pipe is a FIFO stream and
    none of its assertions fires.

  \<^item> System calls. \<open>Syscall\<close>: the handler table, dispatch on the RISC-V trap frame and the
    restart of interrupted calls (\<open>syscall/mod.rs\<close>, \<open>syscall/handler.rs\<close>,
    \<open>arch/riscv64/exception/trap/mod.rs\<close>), with the error numbers of \<open>syserror.rs\<close>.

  \<^item> File locks. \<open>Posix_Lock\<close>: record locks (\<open>fs/lock/posix.rs\<close>), refined by an owner map from
    byte offsets to modes. \<open>Flock\<close>: whole-file locks (\<open>fs/lock/flock/mod.rs\<close>).

  \<^item> Descriptors. \<open>Word_Bitmap\<close>: the bitmap of \<open>utils/bitmap.rs\<close> on 64-bit words, with the set
    of its bits as meaning. \<open>File_Desc\<close>: opened files and descriptors
    (\<open>task/files/opened_description.rs\<close>, \<open>task/files/descriptor.rs\<close>) as objects of a heap with
    reference counts. \<open>File_Table\<close>: the descriptor table (\<open>task/files/table.rs\<close>), refined by a
    map from numbers to files and flags. \<open>Files\<close>: the episodes in which tasks share a table,
    observers and install plans (\<open>task/files/episode.rs\<close>). \<open>Files_System\<close>: all tasks and
    tables together, one step per critical section or release, with the invariant;
    \<open>Files_Safe\<close>: what follows for every run.

  \<^item> Sleeping and waking. \<open>Wait_Core\<close>: the wait state machine of a task (\<open>sched/wait.rs\<close>).
    \<open>Wait_System\<close>: it together with the decisions of the scheduler entry and the placement
    of woken tasks (\<open>sched/mod.rs\<close>, \<open>sched/processor.rs\<close>); no wake-up is lost. \<open>Event\<close>: the
    listener queues over it (\<open>sched/event.rs\<close>).

  \<^item> Allocators of numbers and ranges. \<open>Btree_Map\<close>: the ordered map of the Rust library.
    \<open>Range_Allocator\<close>: the crate \<open>range-allocator\<close>. \<open>Io_Remap\<close>: mappings of device memory
    (\<open>mm/remap.rs\<close>) over it. \<open>Id_Alloc\<close>: the crate \<open>idalloc\<close>; its locale \<open>id_strategy\<close> has
    the laws of a strategy and is interpreted for all four of them.

  \<^item> Physical memory. \<open>Mem_Zone\<close>: the table of zones (\<open>mm/zone.rs\<close>). \<open>Buddy_Zone\<close> and
    \<open>Buddy_System\<close>: the crate \<open>buddy-system\<close>, a zone as free lists with bitmaps and its
    invariant as a set of free blocks, then the layout of a zone in its region, several
    zones and runs. \<open>Frame_Alloc\<close>: magazines, accounting and reference-counted handles of
    \<open>mm/frame\<close> over a backend; the locale \<open>frame_backend\<close> has the contract of the backend.
    \<open>Frame_Buddy\<close>: the interpretation of that locale by the buddy system, and the safety of
    the whole allocator. \<open>Memmap\<close>: the radix tree of frame metadata (\<open>mm/frame/memmap.rs\<close>).
    This theory composes them along the boot sequence.

  \<^bold>\<open>What is shown.\<close> Each operation has a lemma for its behaviour on every branch, each
  component an invariant that all operations keep. On top of these stand the numbered
  properties C1 to C40, each next to its component: no panic and no lost, duplicated or
  reordered data under all interleavings (pipes, frame allocator, waits, events), exact
  reference counts and isolation between tables (descriptors), exactness
  (an allocation fails only when nothing fits, a lock attempt conflicts only with a lock of
  another owner on a common byte, a dry run counts exactly what the real run uses),
  refinement to a simpler description (streams, owner maps, sets of free cells, flat table, descriptor maps),
  termination of every loop, with bounds where other operations interfere. Some of them
  record behaviour that comments or tests in the code do not expect: a rejected release that
  loses free memory (\<open>range_free_leak\<close>), a second release that is accepted after a merge
  (\<open>buddy_double_free\<close>), and, as a lemma, a zone that was used up and hides the next one
  (\<open>leak_used_up\<close>).

  \<^bold>\<open>Parameters.\<close> Code outside the repository and generated constants are arguments: the
  iteration order of a hash set (any permutation), the results of page-table updates and of
  memory allocation, the handlers of system calls, the regions found in the device tree,
  page size, capacities, the number of magazines and the number of slots of a descriptor table
  (a multiple of 64 below \<open>2^31\<close>). Their properties are hypotheses of the
  theorems, and the witness of a theorem instantiates them.

  \<^bold>\<open>Recursion.\<close> Loops are structural recursion or have a measure. The only bound that is not
  in the code is on the passes of the blocking \<open>flock\<close> loop, and \<open>flock_lock_exact\<close> shows that
  it is never reached. The loop that retries an allocation is unfolded into its critical
  sections, and \<open>frame_op_bounded\<close> bounds their number.

  \<^bold>\<open>Not modelled.\<close> Contents of memory that the kernel reaches through raw pointers, except
  where a component owns it (ring slots, radix tree); page tables and user address spaces,
  which need a model of the hardware walker; the memory order of atomics, every access of
  which is one step; context switching, traps and interrupt entry (assembly); the scheduling
  classes behind the set of runnable tasks; timers and the timed variants of waiting; the
  virtual file system and its back-ends, sockets, terminals, processes and signals; what a
  file does on its final release, and failures of memory allocation in the descriptor code;
  drivers;
  the vendored network, file-system and virtio code and the WebAssembly interpreter; user
  space, build tools and statistics or debug output.
\<close>

section \<open>Boot of the physical memory manager\<close>

text \<open>C3: The parts of physical memory management fit together. After the boot sequence
  (zones added, pages taken out for the metadata, metadata built, buddy system
  filled from the zones that are left), every page that the frame allocator manages has its
  own metadata structure, and no such page overlaps the metadata. In every interleaving of
  allocations and releases afterwards the pages under live handles are managed pages.\<close>

theorem boot_frames_tracked:
  fixes c :: memmap_cfg
  assumes "cfg_ok c" "commit_to_pmm debug avail rsv sys_mem_zones_new = Inr s" "debug \<or> regions_apart avail rsv" "regions_ok c avail"
    "calculate_memmap_npages c (avail_ranges s) = Inr n" "leak n s = Inr (Some p, s')"
    "pmm_init dm (PAGE_SIZE_BITS c) hdr_size (2 ^ al) (avail_ranges s') [] = Inr zs" "2 ^ PAGE_SIZE_BITS c dvd dm" "0 < hdr_size"
    "ncpus \<le> nmags" "add_free_range (card (backend_pages dm (PAGE_SIZE_BITS c) zs)) accounting_new = Inr acc" "0 < batch" "batch \<le> cap"
    "frame_reachable (buddy_alloc dm (PAGE_SIZE_BITS c)) (buddy_dealloc dm (PAGE_SIZE_BITS c)) batch ncpus (frame_boot zs acc nmags cap) y"
  shows "\<exists>m. memmap_init c leak_for_memmap s = Inr (m, s') \<and>
    (\<forall>pg \<in> backend_pages dm (PAGE_SIZE_BITS c) zs. pages_bytes c pg 1 \<inter> pages_bytes c p n = {} \<and>
       (\<exists>r. get_frame_raw c pg m = Inr r \<and> frame_at m r = Some \<lparr>fr_ppn = pg, fr_rc = 0\<rparr> \<and> frame_bytes c r \<subseteq> pages_bytes c p n)) \<and>
    (\<forall>h \<in># fy_handles y. page_block (fst h) (snd h) \<subseteq> backend_pages dm (PAGE_SIZE_BITS c) zs)"
proof -
  note z = boot_zones [OF assms(2-4)]
  from memmap_init_built [OF assms(1) z assms(5,6)] obtain A m where
    m: "memmap_init c leak_for_memmap s = Inr (m, s')" "built c p n A m" "dom A = keys c (sec_of c ` avail_pages s')" by blast
  from leak_ok [OF assms(6) z(1,2)] have s': "zones_ok s'" "avail_pages s' = avail_pages s - {p ..< p + n}" by auto
  then have apart: "ranges_apart (avail_ranges s')" using ranges_apart_avails by (simp add: zones_ok_def)
  have managed: "backend_pages dm (PAGE_SIZE_BITS c) zs \<subseteq> avail_pages s'"
    using pmm_init_pages [OF assms(7-9) apart] by (auto simp: avail_pages_def)
  have "pages_bytes c pg 1 \<inter> pages_bytes c p n = {} \<and>
      (\<exists>r. get_frame_raw c pg m = Inr r \<and> frame_at m r = Some \<lparr>fr_ppn = pg, fr_rc = 0\<rparr> \<and> frame_bytes c r \<subseteq> pages_bytes c p n)"
    if "pg \<in> backend_pages dm (PAGE_SIZE_BITS c) zs" for pg
  proof -
    have pg: "pg \<in> avail_pages s'" using that managed by blast
    then have "pg < 2 ^ MAX_PPN_BITS c" "{pg ..< pg + 1} \<inter> {p ..< p + n} = {}" using s'(2) z(3) by auto
    with boot_lookup(2) [OF assms(1) m(2,3), of pg] pg frames_inside [OF assms(1) m(2)] pages_bytes_disjoint [of pg 1 p n c] show ?thesis
      by blast
  qed
  moreover have "page_block (fst h) (snd h) \<subseteq> backend_pages dm (PAGE_SIZE_BITS c) zs" if "h \<in># fy_handles y" for h
    using buddy.handle_inside [OF buddy.frame_reachable_inv [OF assms(14)
        frame_boot_inv [OF assms(7-9) apart assms(10,11), of cap batch] assms(12,13)] that] .
  ultimately show ?thesis using m(1) by blast
qed

text \<open>The board of \<^const>\<open>board_zones\<close>, with the direct mapping at the start of a
  virtual address range of 256 GB.\<close>

definition board_layout :: layout where
  "board_layout = \<lparr>ly_bitmaps_start = 2 ^ 38 + 525059 * 4096 + 256, ly_salloc = 2 ^ 38 + 525064 * 4096, ly_nunits = 64760,
     ly_bitmap_offset = map (\<lambda>k. 256 + sum_list (map (bitmap_bytes 64760) [0 ..< k])) [0 ..< 11]\<rparr>"

lemma board_zone_layout: "zone_layout 256 (2 ^ 3) (2 ^ 12) NORDER (to_hhdm (2 ^ 38) 12 525059 * 2 ^ 12) (64765 * 2 ^ 12) = Inr board_layout"
  by (simp add: zone_layout_def aligned_align_up(1) [of 3, simplified] aligned_align_up(1) [of 12, simplified]
      Let_def NORDER_def to_hhdm_def bitmap_bytes_def upt_conv_Cons board_layout_def)

lemma board_pmm_init:
  "\<exists>z. pmm_init (2 ^ 38) 12 256 (2 ^ 3) (avail_ranges (board_zones 525059 [(524800, 259)])) [] = Inr [z] \<and>
     560000 \<in> backend_pages (2 ^ 38) 12 [z]"
proof -
  from from_slice_spec [OF board_zone_layout] obtain z P where
    z: "from_slice 256 (2 ^ 3) (2 ^ 12) NORDER (to_hhdm (2 ^ 38) 12 525059 * 2 ^ 12) (64765 * 2 ^ 12) = Inr z"
      "zone_inv z P" "free_units P = {..< z_nunits z}" "z_min z = 2 ^ 12" "z_salloc z = 2 ^ 38 + 525064 * 4096" "z_nunits z = 64760"
    by (auto simp: NORDER_def board_layout_def)
  have "zone_free_bytes z = zone_extent z"
    unfolding zone_free_bytes [OF z(2)] z(3) by (rule bytes_of_extent) (simp add: z(4))
  then have "560000 \<in> backend_pages (2 ^ 38) 12 [z]"
    by (simp add: backend_pages_def free_bytes_def zone_extent_def z(4-6))
  moreover have "pmm_init (2 ^ 38) 12 256 (2 ^ 3) (avail_ranges (board_zones 525059 [(524800, 259)])) [] = Inr [z]"
    using z(1) by (simp add: board_zones_def az_range_def buddy_add_range_def add_zone_from_slice_def)
  ultimately show ?thesis by blast
qed

theorem boot_frames_tracked_witness:
  "\<exists>m r. memmap_init board leak_for_memmap (board_zones 524800 []) = Inr (m, board_zones 525059 [(524800, 259)]) \<and>
     get_frame_raw board 560000 m = Inr r \<and> frame_at m r = Some \<lparr>fr_ppn = 560000, fr_rc = 0\<rparr> \<and>
     pages_bytes board 560000 1 \<inter> pages_bytes board 524800 259 = {}"
proof -
  let ?s' = "board_zones 525059 [(524800, 259)]"
  have bits: "PAGE_SIZE_BITS board = 12" by (simp add: board_def)
  from board_pmm_init obtain z where z: "pmm_init (2 ^ 38) 12 256 (2 ^ 3) (avail_ranges ?s') [] = Inr [z]" "560000 \<in> backend_pages (2 ^ 38) 12 [z]"
    by blast
  have "backend_pages (2 ^ 38) 12 [z] \<subseteq> {525059 ..< 589824}"
    using pmm_init_pages [OF z(1)] by (simp add: board_zones_def az_range_def range_pages_def)
  from card_mono [OF _ this] have "card (backend_pages (2 ^ 38) 12 [z]) \<le> 64765" by simp
  then have "\<exists>acc. add_free_range (card (backend_pages (2 ^ 38) 12 [z])) accounting_new = Inr acc"
    by (simp add: add_free_range_def accounting_new_def checked_add_def)
  then obtain acc where acc: "add_free_range (card (backend_pages (2 ^ 38) 12 [z])) accounting_new = Inr acc" ..
  from boot_frames_tracked [OF board_consts(6) board_boot(1) _ board_boot(5) board_boot(2,3), unfolded bits,
      OF _ z(1) _ _ _ acc _ _ frame_start, of 1 1 1 1] z(2)
  show ?thesis by auto
qed

end
